(* ===== verification/Common_Prelude.thy ===== *)
theory Common_Prelude
  imports Main "HOL-Library.Word" "HOL-Library.Multiset"
begin

text \<open>
  Shared vocabulary of the development: machine types, the exceptions of the C++ sources as a
  sum type, completions of promises as output values, and two interfaces that most components
  use.  The first interface, \<open>event_system\<close>, lifts an invariant of one atomic step to a
  run over an arbitrary interleaving.  The second, \<open>completion_system\<close>, states the law of
  conservation of promises: in every step what was pending together with what was opened is
  what is still pending together with what was completed.
\<close>

type_synonym byte = "8 word"
type_synonym bytes = "byte list"
type_synonym uint32 = "32 word"
type_synonym uint64 = "64 word"

text \<open>The exception classes that the sources throw; the argument is the message of \<open>what()\<close>.\<close>

datatype exn =
    Runtime_error string
  | Out_of_range string
  | Logic_error string
  | Future_exception string
  | Invalid_argument string
  | Unknown_exception

type_synonym 'a or_exn = "exn + 'a"

text \<open>A promise is named by a number; a completion is the promise and the value it is given.\<close>

type_synonym promise_id = nat
type_synonym timer_id = nat
type_synonym 'r completion = "promise_id \<times> 'r"
type_synonym time_point = nat

named_theorems frame_simps \<open>closed forms of transfer message frames\<close>
named_theorems step_simps \<open>unfolding of the atomic steps of a component\<close>
named_theorems inv_intros \<open>preservation of component invariants\<close>


section \<open>Runs over interleavings\<close>

fun run :: "('s \<Rightarrow> 'e \<Rightarrow> 's \<times> 'o list) \<Rightarrow> 's \<Rightarrow> 'e list \<Rightarrow> 's \<times> 'o list" where
  "run step s [] = (s, [])"
| "run step s (e # es) =
     (let (s', os) = step s e; (s'', os') = run step s' es in (s'', os @ os'))"

text \<open>The promises that the events of a run open, each judged in the state it happens in.\<close>

fun run_opened ::
  "('s \<Rightarrow> 'e \<Rightarrow> 's \<times> 'o list) \<Rightarrow> ('s \<Rightarrow> 'e \<Rightarrow> promise_id multiset) \<Rightarrow> 's \<Rightarrow> 'e list \<Rightarrow> promise_id multiset"
where
  "run_opened step opn s [] = {#}"
| "run_opened step opn s (e # es) = opn s e + run_opened step opn (fst (step s e)) es"

text \<open>What a function of state and event yields along a run.\<close>

fun run_collect ::
  "('s \<Rightarrow> 'e \<Rightarrow> 's \<times> 'o list) \<Rightarrow> ('s \<Rightarrow> 'e \<Rightarrow> 'a list) \<Rightarrow> 's \<Rightarrow> 'e list \<Rightarrow> 'a list"
where
  "run_collect step f s [] = []"
| "run_collect step f s (e # es) = f s e @ run_collect step f (fst (step s e)) es"

abbreviation run_state :: "('s \<Rightarrow> 'e \<Rightarrow> 's \<times> 'o list) \<Rightarrow> 's \<Rightarrow> 'e list \<Rightarrow> 's" where
  "run_state step s es \<equiv> fst (run step s es)"

abbreviation run_output :: "('s \<Rightarrow> 'e \<Rightarrow> 's \<times> 'o list) \<Rightarrow> 's \<Rightarrow> 'e list \<Rightarrow> 'o list" where
  "run_output step s es \<equiv> snd (run step s es)"

lemma run_Cons_state [simp]:
  "run_state step s (e # es) = run_state step (fst (step s e)) es"
  by (simp add: case_prod_beta)

lemma run_Cons_output [simp]:
  "run_output step s (e # es) = snd (step s e) @ run_output step (fst (step s e)) es"
  by (simp add: case_prod_beta)

lemma run_append_state:
  "run_state step s (es @ es') = run_state step (run_state step s es) es'"
  by (induction es arbitrary: s) (simp_all del: run.simps(2))

lemma run_append_output:
  "run_output step s (es @ es') =
     run_output step s es @ run_output step (run_state step s es) es'"
  by (induction es arbitrary: s) (simp_all del: run.simps(2))

declare run.simps(2) [simp del]

section \<open>Lists and options\<close>

lemma map_fst_const [simp]: "map fst (map (\<lambda>p. (p, r)) ps) = ps"
  by (induction ps) simp_all

lemma mset_filter_split: "mset (filter P xs) + mset (filter (\<lambda>x. \<not> P x) xs) = mset xs"
  by (induction xs) simp_all

lemma mset_map_filter_split:
  "mset (map f (filter (\<lambda>x. \<not> P x) xs)) + mset (map f (filter P xs)) = mset (map f xs)"
  by (induction xs) simp_all

lemma mset_remove1_add: "x \<in> set xs \<Longrightarrow> mset (remove1 x xs) + {#x#} = mset xs"
  by simp

lemma distinct_map_remove1: "distinct (map f xs) \<Longrightarrow> distinct (map f (remove1 x xs))"
  by (induction xs) (auto dest: subsetD [OF set_remove1_subset])

lemma in_set_list_update_other:
  "y \<in> set xs \<Longrightarrow> y \<noteq> xs ! i \<Longrightarrow> y \<in> set (xs[i := x])"
  by (metis in_set_conv_nth length_list_update nth_list_update_neq)

lemma mset_filter_neq:
  assumes "distinct xs" "i \<in> set xs"
  shows "mset xs = add_mset i (mset (filter (\<lambda>j. j \<noteq> i) xs))"
proof -
  have "filter (\<lambda>j. j \<noteq> i) xs = removeAll i xs" unfolding removeAll_filter_not_eq by (rule filter_cong) auto
  also have "\<dots> = remove1 i xs" using assms(1) by (simp add: distinct_remove1_removeAll)
  finally show ?thesis using assms(2) by simp
qed

lemma field_list_update: "f y = f (xs ! i) \<Longrightarrow> f (xs[i := y] ! j) = f (xs ! j)"
  by (cases "i < length xs"; cases "j = i") (simp_all add: list_update_beyond)

text \<open>A list without one of its elements.\<close>

definition drop_nth :: "nat \<Rightarrow> 'a list \<Rightarrow> 'a list" where
  "drop_nth k xs = take k xs @ drop (Suc k) xs"

lemma in_drop_nth: "x \<in> set (drop_nth k xs) \<Longrightarrow> x \<in> set xs"
  by (auto simp: drop_nth_def dest: in_set_takeD in_set_dropD)

lemma distinct_drop_nth:
  assumes "distinct (map g xs)" "k < length xs"
  shows "distinct (map g (drop_nth k xs))" "x \<in> set (drop_nth k xs) \<Longrightarrow> g x \<noteq> g (xs ! k)"
proof -
  have "map g xs = map g (take k xs) @ g (xs ! k) # map g (drop (Suc k) xs)"
    by (subst id_take_nth_drop [OF assms(2)]) simp
  then have "distinct (map g (take k xs) @ g (xs ! k) # map g (drop (Suc k) xs))" using assms(1) by simp
  then show "distinct (map g (drop_nth k xs))" "x \<in> set (drop_nth k xs) \<Longrightarrow> g x \<noteq> g (xs ! k)"
    by (auto simp: drop_nth_def rev_image_eqI)
qed

lemma mset_drop_nth: "k < length xs \<Longrightarrow> mset xs = add_mset (xs ! k) (mset (drop_nth k xs))"
  by (subst id_take_nth_drop [of k xs]) (simp_all add: drop_nth_def)

lemma last_not_butlast: "distinct xs \<Longrightarrow> xs \<noteq> [] \<Longrightarrow> last xs \<notin> set (butlast xs)"
  by (metis append_butlast_last_id distinct_append disjoint_iff list.set_intros(1))

lemma distinct_if_count_le_1: "(\<And>x. count (mset xs) x \<le> 1) \<Longrightarrow> distinct xs"
proof (induction xs)
  case Nil
  then show ?case by simp
next
  case (Cons a xs)
  have "count (mset xs) x \<le> 1" for x
    by (rule le_trans [OF _ Cons.prems [of x]]) simp
  moreover have "count (mset xs) a = 0"
    using Cons.prems [of a] by simp
  ultimately show ?case
    using Cons.IH by (simp add: count_eq_zero_iff)
qed

lemma distinct_submset:
  assumes "mset xs \<subseteq># mset ys" "distinct ys"
  shows "distinct xs"
proof (rule distinct_if_count_le_1)
  show "count (mset xs) x \<le> 1" for x
    using mset_subset_eq_count [OF assms(1), of x] assms(2) unfolding distinct_count_atmost_1
    by (metis le_trans le_numeral_extra(4) le_zero_eq nat_le_linear zero_le)
qed


section \<open>Interfaces of atomic steps\<close>

locale event_system =
  fixes step :: "'s \<Rightarrow> 'e \<Rightarrow> 's \<times> 'o list"
    and inv :: "'s \<Rightarrow> bool"
  assumes inv_step: "inv s \<Longrightarrow> inv (fst (step s e))"
begin

lemma inv_run: "inv s \<Longrightarrow> inv (run_state step s es)"
proof (induction es arbitrary: s)
  case Nil
  then show ?case by simp
next
  case (Cons e es)
  from Cons.prems have "inv (fst (step s e))" by (rule inv_step)
  then have "inv (run_state step (fst (step s e)) es)" by (rule Cons.IH)
  then show ?case by simp
qed

text \<open>A property of the output that holds of every step from an invariant state holds of runs.\<close>

lemma output_run:
  assumes "\<And>s e o'. inv s \<Longrightarrow> o' \<in> set (snd (step s e)) \<Longrightarrow> P o'"
  shows "inv s \<Longrightarrow> o' \<in> set (run_output step s es) \<Longrightarrow> P o'"
proof (induction es arbitrary: s)
  case Nil
  then show ?case by simp
next
  case (Cons e es)
  from Cons.prems(2) consider "o' \<in> set (snd (step s e))"
    | "o' \<in> set (run_output step (fst (step s e)) es)" by auto
  then show ?case
    using Cons.prems(1) assms Cons.IH inv_step by cases blast+
qed

end

locale completion_system = event_system step inv
  for step :: "'s \<Rightarrow> 'e \<Rightarrow> 's \<times> 'r completion list" and inv :: "'s \<Rightarrow> bool" +
  fixes pend :: "'s \<Rightarrow> promise_id multiset"
    and opn :: "'s \<Rightarrow> 'e \<Rightarrow> promise_id multiset"
  assumes conserve:
    "inv s \<Longrightarrow> pend (fst (step s e)) + mset (map fst (snd (step s e))) = pend s + opn s e"
begin

lemma conserve_run:
  "inv s \<Longrightarrow>
   pend (run_state step s es) + mset (map fst (run_output step s es)) =
   pend s + run_opened step opn s es"
proof (induction es arbitrary: s)
  case Nil
  then show ?case by simp
next
  case (Cons e es)
  let ?s' = "fst (step s e)"
  have "pend (run_state step ?s' es) + mset (map fst (run_output step ?s' es)) =
        pend ?s' + run_opened step opn ?s' es"
    using Cons.IH Cons.prems inv_step by blast
  moreover have "pend ?s' + mset (map fst (snd (step s e))) = pend s + opn s e"
    using Cons.prems by (rule conserve)
  ultimately show ?case
    by (simp add: union_assoc) (simp add: union_lcomm union_commute)
qed

text \<open>When the opened promises are distinct, no promise is completed twice in any run.\<close>

lemma completed_at_most_once:
  assumes "inv s" and "\<And>p. count (pend s + run_opened step opn s es) p \<le> 1"
  shows "distinct (map fst (run_output step s es))"
proof -
  have "count (mset (map fst (run_output step s es))) p \<le> 1" for p
  proof -
    have "count (mset (map fst (run_output step s es))) p
          \<le> count (pend s + run_opened step opn s es) p"
      using conserve_run [OF assms(1), of es, symmetric] by simp
    also have "\<dots> \<le> 1" by (rule assms(2))
    finally show ?thesis .
  qed
  then show ?thesis by (rule distinct_if_count_le_1)
qed

lemma all_completed_when_idle:
  assumes "inv s" "pend (run_state step s es) = {#}"
  shows "mset (map fst (run_output step s es)) = pend s + run_opened step opn s es"
  using conserve_run [OF assms(1), of es] assms(2) by simp

end

end
