(* ===== verification/Rpc_Types.thy ===== *)
theory Rpc_Types
  imports Common_Prelude
begin

text \<open>
  The enumerations, limits and settings that the RPC library shares (\<open>rpc-lib/consts.h\<close>,
  \<open>rpc-lib/types\<close>, \<open>rpc-lib/pipe/pipe-op-res.h\<close>, \<open>rpc-lib/pipe/pipe-wait-res.h\<close>).
  An enumeration whose values arrive from the wire keeps the values that have no enumerator.
\<close>

section \<open>Limits\<close>

definition MaxTransferMessageSize :: uint32 where
  "MaxTransferMessageSize = 1024 * 1024 + 100"

definition MaxRequestProtoSize :: uint32 where
  "MaxRequestProtoSize = 1024 * 1024"

definition MaxResponseProtoSize :: uint32 where
  "MaxResponseProtoSize = 1024 * 1024"


section \<open>Settings\<close>

text \<open>Durations in milliseconds.\<close>

record config =
  handshake_timeout :: nat
  send_timeout :: nat
  recv_timeout :: nat
  check_connection_period :: nat
  ping_timeout :: nat

definition default_config :: config where
  "default_config =
     \<lparr>handshake_timeout = 2000, send_timeout = 2000, recv_timeout = 10000,
      check_connection_period = 1000, ping_timeout = 10000\<rparr>"


section \<open>Result codes\<close>

datatype request_result =
    Rq_ok | Rq_unknown_error | Rq_timeout | Rq_canceled | Rq_failed
  | Rq_send_timeout | Rq_send_canceled | Rq_send_failed
  | Rq_request_too_big | Rq_request_not_processed | Rq_invalid_response
  | Rq_response_parse_error | Rq_no_connection

definition is_success_request :: "request_result \<Rightarrow> bool" where
  "is_success_request rc \<longleftrightarrow> rc = Rq_ok"

definition is_fail_request :: "request_result \<Rightarrow> bool" where
  "is_fail_request rc \<longleftrightarrow> \<not> is_success_request rc"

fun to_string_request_result :: "request_result \<Rightarrow> string" where
  "to_string_request_result Rq_ok = ''ok''"
| "to_string_request_result Rq_timeout = ''timeout''"
| "to_string_request_result Rq_canceled = ''canceled''"
| "to_string_request_result Rq_failed = ''failed''"
| "to_string_request_result Rq_send_timeout = ''send_timeout''"
| "to_string_request_result Rq_send_canceled = ''send_canceled''"
| "to_string_request_result Rq_send_failed = ''send_failed''"
| "to_string_request_result Rq_request_too_big = ''request_too_big''"
| "to_string_request_result Rq_request_not_processed = ''request_not_processed''"
| "to_string_request_result Rq_invalid_response = ''invalid_response''"
| "to_string_request_result Rq_response_parse_error = ''response_parse_error''"
| "to_string_request_result Rq_no_connection = ''no_connection''"
| "to_string_request_result Rq_unknown_error = ''unknown_error''"

text \<open>
  The underlying type is \<open>unsigned char\<close>, and the code casts a received byte to it, so
  every byte is a value: \<open>Rs_other\<close> stands for the bytes without an enumerator.
\<close>

datatype response_result =
    Rs_ok | Rs_unknown_error | Rs_canceled | Rs_request_parse_error
  | Rs_response_too_big | Rs_not_implemented | Rs_invalid_request
  | Rs_other byte

definition response_result_of_byte :: "byte \<Rightarrow> response_result" where
  "response_result_of_byte b =
     (if b = 0 then Rs_ok
      else if b = 1 then Rs_unknown_error
      else if b = 2 then Rs_canceled
      else if b = 3 then Rs_request_parse_error
      else if b = 4 then Rs_response_too_big
      else if b = 5 then Rs_not_implemented
      else if b = 6 then Rs_invalid_request
      else Rs_other b)"

fun byte_of_response_result :: "response_result \<Rightarrow> byte" where
  "byte_of_response_result Rs_ok = 0"
| "byte_of_response_result Rs_unknown_error = 1"
| "byte_of_response_result Rs_canceled = 2"
| "byte_of_response_result Rs_request_parse_error = 3"
| "byte_of_response_result Rs_response_too_big = 4"
| "byte_of_response_result Rs_not_implemented = 5"
| "byte_of_response_result Rs_invalid_request = 6"
| "byte_of_response_result (Rs_other b) = b"

text \<open>The values a program can name: every enumerator, and the others with a byte above them.\<close>

fun proper_response_result :: "response_result \<Rightarrow> bool" where
  "proper_response_result (Rs_other b) = (6 < b)"
| "proper_response_result _ = True"

definition is_success_response :: "response_result \<Rightarrow> bool" where
  "is_success_response rc \<longleftrightarrow> rc = Rs_ok"

definition is_fail_response :: "response_result \<Rightarrow> bool" where
  "is_fail_response rc \<longleftrightarrow> \<not> is_success_response rc"

text \<open>In a release build the assertion of the default branch is empty.\<close>

fun to_string_response_result :: "response_result \<Rightarrow> string" where
  "to_string_response_result Rs_ok = ''ok''"
| "to_string_response_result Rs_canceled = ''canceled''"
| "to_string_response_result Rs_request_parse_error = ''request_parse_error''"
| "to_string_response_result Rs_response_too_big = ''response_too_big''"
| "to_string_response_result Rs_not_implemented = ''not_implemented''"
| "to_string_response_result Rs_invalid_request = ''invalid_request''"
| "to_string_response_result Rs_unknown_error = ''unknown_error''"
| "to_string_response_result (Rs_other b) = ''unknown_error''"

datatype pipe_op_res = Op_success | Op_canceled | Op_failed | Op_timeout

definition is_success_op :: "pipe_op_res \<Rightarrow> bool" where
  "is_success_op r \<longleftrightarrow> r = Op_success"

fun to_string_pipe_op_res :: "pipe_op_res \<Rightarrow> string" where
  "to_string_pipe_op_res Op_success = ''success''"
| "to_string_pipe_op_res Op_failed = ''failed''"
| "to_string_pipe_op_res Op_canceled = ''canceled''"
| "to_string_pipe_op_res Op_timeout = ''timeout''"

datatype pipe_wait_res = Wait_success | Wait_canceled | Wait_timeout | Wait_failed

definition is_success_wait :: "pipe_wait_res \<Rightarrow> bool" where
  "is_success_wait r \<longleftrightarrow> r = Wait_success"

fun to_string_pipe_wait_res :: "pipe_wait_res \<Rightarrow> string" where
  "to_string_pipe_wait_res Wait_success = ''success''"
| "to_string_pipe_wait_res Wait_canceled = ''canceled''"
| "to_string_pipe_wait_res Wait_timeout = ''timeout''"
| "to_string_pipe_wait_res Wait_failed = ''failed''"


section \<open>Facts about the codes\<close>

lemma response_result_byte_roundtrip [simp]:
  "byte_of_response_result (response_result_of_byte b) = b"
  by (simp add: response_result_of_byte_def)

lemma response_result_of_byte_proper [simp]:
  "proper_response_result (response_result_of_byte b)"
proof -
  have "6 < b" if "b \<noteq> 0" "b \<noteq> 1" "b \<noteq> 2" "b \<noteq> 3" "b \<noteq> 4" "b \<noteq> 5" "b \<noteq> 6"
    using that by unat_arith
  then show ?thesis by (simp add: response_result_of_byte_def)
qed

lemma response_result_roundtrip [simp]:
  "proper_response_result rc \<Longrightarrow> response_result_of_byte (byte_of_response_result rc) = rc"
  by (cases rc) (auto simp: response_result_of_byte_def)

lemma to_string_request_result_inject:
  "to_string_request_result a = to_string_request_result b \<longleftrightarrow> a = b"
  by (cases a; cases b) simp_all

lemma unat_limits [simp]:
  "unat MaxTransferMessageSize = 1048676"
  "unat MaxRequestProtoSize = 1048576"
  "unat MaxResponseProtoSize = 1048576"
  by (simp_all add: MaxTransferMessageSize_def MaxRequestProtoSize_def MaxResponseProtoSize_def)

end
