(* ===== verification/Byte_Buffer.thy ===== *)
theory Byte_Buffer
  imports Common_Prelude
begin

text \<open>
  The owning byte array \<open>buffer\<close> and the views \<open>cbuffer_view\<close> and \<open>buffer_view\<close> of
  \<open>common-lib/utils\<close>, with their iterators.  Arrays live in an explicit store, so that
  aliasing, moves and destruction are visible: a pointer is null or a block and an offset, and an
  access outside a live block (undefined behaviour in C++) has the value \<^term>\<open>None\<close>.
  The contents of fresh memory are a parameter because \<open>new std::byte[n]\<close> leaves them
  indeterminate.
\<close>

section \<open>The store\<close>

datatype ptr = Null | Ptr nat int

record heap =
  blocks :: "nat \<rightharpoonup> bytes"
  fresh :: nat

definition allocator_ok :: "(nat \<Rightarrow> bytes) \<Rightarrow> bool" where
  "allocator_ok mem \<longleftrightarrow> (\<forall>n. length (mem n) = n)"

definition dirty_memory :: "nat \<Rightarrow> bytes" where
  "dirty_memory n = replicate n 0xCD"

definition new_array :: "(nat \<Rightarrow> bytes) \<Rightarrow> nat \<Rightarrow> heap \<Rightarrow> ptr \<times> heap" where
  "new_array mem n h =
     (Ptr (fresh h) 0, h\<lparr>blocks := (blocks h)(fresh h \<mapsto> mem n), fresh := Suc (fresh h)\<rparr>)"

fun delete_array :: "ptr \<Rightarrow> heap \<Rightarrow> heap option" where
  "delete_array Null h = Some h"
| "delete_array (Ptr b off) h =
     (if off = 0 \<and> b \<in> dom (blocks h) then Some (h\<lparr>blocks := (blocks h)(b := None)\<rparr>) else None)"

fun ptr_add :: "ptr \<Rightarrow> int \<Rightarrow> ptr" where
  "ptr_add Null k = Null"
| "ptr_add (Ptr b off) k = Ptr b (off + k)"

fun load :: "heap \<Rightarrow> ptr \<Rightarrow> byte option" where
  "load h Null = None"
| "load h (Ptr b off) =
     (case blocks h b of
        None \<Rightarrow> None
      | Some bs \<Rightarrow> if 0 \<le> off \<and> off < int (length bs) then Some (bs ! nat off) else None)"

fun store :: "heap \<Rightarrow> ptr \<Rightarrow> byte \<Rightarrow> heap option" where
  "store h Null v = None"
| "store h (Ptr b off) v =
     (case blocks h b of
        None \<Rightarrow> None
      | Some bs \<Rightarrow>
          if 0 \<le> off \<and> off < int (length bs)
          then Some (h\<lparr>blocks := (blocks h)(b \<mapsto> bs[nat off := v])\<rparr>) else None)"


section \<open>Iterators\<close>

text \<open>
  An iterator is a pointer.  Increment and decrement return the iterator after the step and the
  value of the expression; the difference of iterators of different arrays is undefined.
\<close>

type_synonym iterator = ptr

definition iterator_preinc :: "iterator \<Rightarrow> iterator \<times> iterator" where
  "iterator_preinc it = (let it' = ptr_add it 1 in (it', it'))"

definition iterator_postinc :: "iterator \<Rightarrow> iterator \<times> iterator" where
  "iterator_postinc it = (ptr_add it 1, it)"

definition iterator_predec :: "iterator \<Rightarrow> iterator \<times> iterator" where
  "iterator_predec it = (let it' = ptr_add it (- 1) in (it', it'))"

definition iterator_postdec :: "iterator \<Rightarrow> iterator \<times> iterator" where
  "iterator_postdec it = (ptr_add it (- 1), it)"

definition iterator_deref :: "heap \<Rightarrow> iterator \<Rightarrow> byte option" where
  "iterator_deref h it = load h it"

definition iterator_eq :: "iterator \<Rightarrow> iterator \<Rightarrow> bool" where
  "iterator_eq a b \<longleftrightarrow> a = b"

definition iterator_neq :: "iterator \<Rightarrow> iterator \<Rightarrow> bool" where
  "iterator_neq a b \<longleftrightarrow> \<not> iterator_eq b a"

definition iterator_plus :: "iterator \<Rightarrow> int \<Rightarrow> iterator" where
  "iterator_plus it offset = ptr_add it offset"

definition iterator_minus :: "iterator \<Rightarrow> int \<Rightarrow> iterator" where
  "iterator_minus it offset = ptr_add it (- offset)"

fun iterator_diff :: "iterator \<Rightarrow> iterator \<Rightarrow> int option" where
  "iterator_diff (Ptr a i) (Ptr b j) = (if a = b then Some (i - j) else None)"
| "iterator_diff Null Null = Some 0"
| "iterator_diff _ _ = None"

text \<open>\<open>std::reverse_iterator\<close>: it holds a base and dereferences the element before it.\<close>

definition reverse_deref :: "heap \<Rightarrow> iterator \<Rightarrow> byte option" where
  "reverse_deref h base = iterator_deref h (fst (iterator_predec base))"

definition reverse_preinc :: "iterator \<Rightarrow> iterator" where
  "reverse_preinc base = fst (iterator_predec base)"


section \<open>The owning buffer\<close>

record buffer =
  m_buffer :: ptr
  m_size :: nat

definition buffer_default :: buffer where
  "buffer_default = \<lparr>m_buffer = Null, m_size = 0\<rparr>"

definition buffer_sized :: "(nat \<Rightarrow> bytes) \<Rightarrow> nat \<Rightarrow> heap \<Rightarrow> buffer \<times> heap" where
  "buffer_sized mem n h = (let (p, h') = new_array mem n h in (\<lparr>m_buffer = p, m_size = n\<rparr>, h'))"

definition buffer_destroy :: "buffer \<Rightarrow> heap \<Rightarrow> heap option" where
  "buffer_destroy b h = delete_array (m_buffer b) h"

text \<open>The pairs are the new or assigned object and what \<open>other\<close> is left with.\<close>

definition buffer_move_ctor :: "buffer \<Rightarrow> buffer \<times> buffer" where
  "buffer_move_ctor other =
     (let this = buffer_default in
      (this\<lparr>m_buffer := m_buffer other, m_size := m_size other\<rparr>,
       other\<lparr>m_buffer := m_buffer this, m_size := m_size this\<rparr>))"

definition buffer_move_assign :: "buffer \<Rightarrow> buffer \<Rightarrow> buffer \<times> buffer" where
  "buffer_move_assign this other =
     (this\<lparr>m_buffer := m_buffer other, m_size := m_size other\<rparr>,
      other\<lparr>m_buffer := m_buffer this, m_size := m_size this\<rparr>)"

fun copy_loop :: "nat list \<Rightarrow> ptr \<Rightarrow> ptr \<Rightarrow> heap \<Rightarrow> heap option" where
  "copy_loop [] src dst h = Some h"
| "copy_loop (i # is) src dst h =
     (case load h (ptr_add src (int i)) of
        None \<Rightarrow> None
      | Some v \<Rightarrow>
          (case store h (ptr_add dst (int i)) v of
             None \<Rightarrow> None
           | Some h' \<Rightarrow> copy_loop is src dst h'))"

definition buffer_copy :: "(nat \<Rightarrow> bytes) \<Rightarrow> buffer \<Rightarrow> heap \<Rightarrow> (buffer \<times> heap) option" where
  "buffer_copy mem b h =
     (let (p, h') = new_array mem (m_size b) h;
          buf = \<lparr>m_buffer = p, m_size = m_size b\<rparr>
      in case copy_loop [0..<m_size buf] (m_buffer b) (m_buffer buf) h' of
           None \<Rightarrow> None
         | Some h'' \<Rightarrow> Some (buf, h''))"

definition buffer_data :: "buffer \<Rightarrow> ptr" where
  "buffer_data b = m_buffer b"

definition buffer_size :: "buffer \<Rightarrow> nat" where
  "buffer_size b = m_size b"

definition buffer_index :: "heap \<Rightarrow> buffer \<Rightarrow> nat \<Rightarrow> byte option" where
  "buffer_index h b pos = load h (ptr_add (m_buffer b) (int pos))"

definition buffer_set :: "heap \<Rightarrow> buffer \<Rightarrow> nat \<Rightarrow> byte \<Rightarrow> heap option" where
  "buffer_set h b pos v = store h (ptr_add (m_buffer b) (int pos)) v"

definition buffer_bool :: "buffer \<Rightarrow> bool" where
  "buffer_bool b \<longleftrightarrow> m_buffer b \<noteq> Null"

definition out_of_buffer :: exn where
  "out_of_buffer = Out_of_range ''attempt to access an element out of the buffer''"

definition buffer_at :: "heap \<Rightarrow> buffer \<Rightarrow> nat \<Rightarrow> byte option or_exn" where
  "buffer_at h b pos =
     (if pos \<ge> m_size b then Inl out_of_buffer else Inr (buffer_index h b pos))"

definition buffer_begin :: "buffer \<Rightarrow> iterator" where
  "buffer_begin b = m_buffer b"

definition buffer_end :: "buffer \<Rightarrow> iterator" where
  "buffer_end b = ptr_add (m_buffer b) (int (m_size b))"

definition buffer_rbegin :: "buffer \<Rightarrow> iterator" where
  "buffer_rbegin b = ptr_add (m_buffer b) (int (m_size b))"

definition buffer_rend :: "buffer \<Rightarrow> iterator" where
  "buffer_rend b = m_buffer b"

text \<open>The comparison loop over the positions still to compare.\<close>

fun equal_loop :: "heap \<Rightarrow> ptr \<Rightarrow> ptr \<Rightarrow> nat list \<Rightarrow> bool" where
  "equal_loop h p q [] = True"
| "equal_loop h p q (i # is) =
     (if load h (ptr_add p (int i)) \<noteq> load h (ptr_add q (int i)) then False
      else equal_loop h p q is)"

definition buffer_equal :: "heap \<Rightarrow> buffer \<Rightarrow> buffer \<Rightarrow> bool" where
  "buffer_equal h lhs rhs =
     (if m_size lhs \<noteq> m_size rhs then False
      else equal_loop h (m_buffer lhs) (m_buffer rhs) [0..<m_size lhs])"


section \<open>Views\<close>

text \<open>
  Both view classes are a pointer and a size; the constant view has no mutating access.
\<close>

record view =
  v_buffer :: ptr
  v_size :: nat

definition cbuffer_view_of :: "buffer \<Rightarrow> view" where
  "cbuffer_view_of b = \<lparr>v_buffer = buffer_data b, v_size = buffer_size b\<rparr>"

definition cbuffer_view_index :: "heap \<Rightarrow> view \<Rightarrow> nat \<Rightarrow> byte option" where
  "cbuffer_view_index h v pos = load h (ptr_add (v_buffer v) (int pos))"

definition cbuffer_view_at :: "heap \<Rightarrow> view \<Rightarrow> nat \<Rightarrow> byte option or_exn" where
  "cbuffer_view_at h v pos =
     (if pos \<ge> v_size v then Inl out_of_buffer else Inr (cbuffer_view_index h v pos))"

definition cbuffer_view_begin :: "view \<Rightarrow> iterator" where
  "cbuffer_view_begin v = v_buffer v"

definition cbuffer_view_end :: "view \<Rightarrow> iterator" where
  "cbuffer_view_end v = ptr_add (v_buffer v) (int (v_size v))"

definition cbuffer_view_equal :: "heap \<Rightarrow> view \<Rightarrow> view \<Rightarrow> bool" where
  "cbuffer_view_equal h lhs rhs =
     (if v_size lhs \<noteq> v_size rhs then False
      else equal_loop h (v_buffer lhs) (v_buffer rhs) [0..<v_size lhs])"

definition buffer_view_of :: "buffer \<Rightarrow> view" where
  "buffer_view_of b = \<lparr>v_buffer = buffer_data b, v_size = buffer_size b\<rparr>"

definition buffer_view_index :: "heap \<Rightarrow> view \<Rightarrow> nat \<Rightarrow> byte option" where
  "buffer_view_index h v pos = load h (ptr_add (v_buffer v) (int pos))"

definition buffer_view_set :: "heap \<Rightarrow> view \<Rightarrow> nat \<Rightarrow> byte \<Rightarrow> heap option" where
  "buffer_view_set h v pos x = store h (ptr_add (v_buffer v) (int pos)) x"

definition buffer_view_at :: "heap \<Rightarrow> view \<Rightarrow> nat \<Rightarrow> byte option or_exn" where
  "buffer_view_at h v pos =
     (if pos \<ge> v_size v then Inl out_of_buffer else Inr (buffer_view_index h v pos))"

definition buffer_view_equal :: "heap \<Rightarrow> view \<Rightarrow> view \<Rightarrow> bool" where
  "buffer_view_equal h lhs rhs =
     (if v_size lhs \<noteq> v_size rhs then False
      else equal_loop h (v_buffer lhs) (v_buffer rhs) [0..<v_size lhs])"


section \<open>Ownership\<close>

text \<open>
  \<open>owns h b bs\<close>: the buffer holds the bytes \<open>bs\<close>, either as a block of its own that it
  points to the start of, or as the null buffer.
\<close>

definition owns :: "heap \<Rightarrow> buffer \<Rightarrow> bytes \<Rightarrow> bool" where
  "owns h b bs \<longleftrightarrow> length bs = m_size b \<and>
     (case m_buffer b of Null \<Rightarrow> bs = [] | Ptr k off \<Rightarrow> off = 0 \<and> blocks h k = Some bs)"

definition heap_ok :: "heap \<Rightarrow> bool" where
  "heap_ok h \<longleftrightarrow> (\<forall>k \<in> dom (blocks h). k < fresh h)"

text \<open>\<open>n\<close> rounds of a loop that dereferences an iterator and steps it.\<close>

fun walk :: "heap \<Rightarrow> nat \<Rightarrow> iterator \<Rightarrow> byte option list" where
  "walk h 0 it = []"
| "walk h (Suc n) it = iterator_deref h it # walk h n (fst (iterator_preinc it))"

fun walk_reverse :: "heap \<Rightarrow> nat \<Rightarrow> iterator \<Rightarrow> byte option list" where
  "walk_reverse h 0 it = []"
| "walk_reverse h (Suc n) it = reverse_deref h it # walk_reverse h n (reverse_preinc it)"

lemma allocator_ok_length [simp]: "allocator_ok mem \<Longrightarrow> length (mem n) = n"
  by (simp add: allocator_ok_def)

lemma dirty_memory_ok [simp]: "allocator_ok dirty_memory"
  by (simp add: allocator_ok_def dirty_memory_def)

lemma owns_cases:
  assumes "owns h b bs"
  obtains "m_buffer b = Null" "m_size b = 0" "bs = []"
    | k where "m_buffer b = Ptr k 0" "m_size b = length bs" "blocks h k = Some bs"
  using assms by (auto simp: owns_def split: ptr.splits)

lemma load_owned:
  assumes "owns h b bs" "i < m_size b"
  shows "load h (ptr_add (m_buffer b) (int i)) = Some (bs ! i)"
  using assms by (auto elim!: owns_cases)

lemma heap_ok_fresh: "heap_ok h \<Longrightarrow> blocks h k = Some bs \<Longrightarrow> k < fresh h"
  by (auto simp: heap_ok_def)

lemma heap_ok_new_array: "heap_ok h \<Longrightarrow> heap_ok (snd (new_array mem n h))"
  by (auto simp: heap_ok_def new_array_def less_Suc_eq)

lemma owns_new_array: "heap_ok h \<Longrightarrow> owns h b bs \<Longrightarrow> owns (snd (new_array mem n h)) b bs"
  by (auto simp: owns_def new_array_def dest: heap_ok_fresh split: ptr.splits)

text \<open>A store through one pointer leaves every other block alone.\<close>

lemma store_frame:
  assumes "store h (Ptr k off) v = Some h'"
  shows "fresh h' = fresh h" "dom (blocks h') = dom (blocks h)"
    "j \<noteq> k \<Longrightarrow> blocks h' j = blocks h j"
  using assms by (auto split: option.splits if_splits)

text \<open>
  The loop of \<open>copy\<close> from position \<open>i\<close> on: the target block holds the bytes copied so far
  followed by what was there, all other blocks stay as they were.
\<close>

lemma copy_loop_run:
  assumes "i \<le> length bs" "blocks h d = Some (take i bs @ rest)" "length rest = length bs - i"
    and "blocks h k = Some bs" "k \<noteq> d"
  shows "copy_loop [i..<length bs] (Ptr k 0) (Ptr d 0) h =
         Some (h\<lparr>blocks := (blocks h)(d \<mapsto> bs)\<rparr>)"
  using assms
proof (induction "length bs - i" arbitrary: i rest h)
  case 0
  then have "[i..<length bs] = []" "take i bs = bs" "rest = []" by simp_all
  then show ?case using 0 by (simp add: map_upd_triv)
next
  case (Suc n)
  then have i: "i < length bs" by simp
  from Suc.prems(3) i obtain x rest' where rest: "rest = x # rest'" by (cases rest) auto
  let ?h = "h\<lparr>blocks := (blocks h)(d \<mapsto> take (Suc i) bs @ rest')\<rparr>"
  have "store h (Ptr d (int i)) (bs ! i) = Some ?h"
    using i Suc.prems(2) rest
    by (simp add: list_update_append take_Suc_conv_app_nth)
  moreover have "copy_loop [Suc i..<length bs] (Ptr k 0) (Ptr d 0) ?h =
      Some (?h\<lparr>blocks := (blocks ?h)(d \<mapsto> bs)\<rparr>)"
    using Suc.hyps(2) Suc.prems(3,4,5) rest i by (intro Suc.hyps(1)) auto
  ultimately show ?case
    using i Suc.prems(4) by (simp add: upt_conv_Cons)
qed

lemma buffer_copy_result:
  assumes "heap_ok h" "allocator_ok mem" "owns h b bs"
  shows "buffer_copy mem b h =
    Some (\<lparr>m_buffer = Ptr (fresh h) 0, m_size = length bs\<rparr>,
          h\<lparr>blocks := (blocks h)(fresh h \<mapsto> bs), fresh := Suc (fresh h)\<rparr>)"
  using assms(3)
proof (cases rule: owns_cases)
  case 1
  have "mem 0 = []" using assms(2) by (metis allocator_ok_length length_0_conv)
  then show ?thesis using 1 by (simp add: buffer_copy_def new_array_def)
next
  case (2 k)
  then have "k \<noteq> fresh h" using assms(1) heap_ok_fresh by blast
  then show ?thesis
    using 2 assms(2)
      copy_loop_run [of 0 bs "snd (new_array mem (length bs) h)" "fresh h" "mem (length bs)" k]
    by (simp add: buffer_copy_def new_array_def)
qed

lemma equal_loop_iff:
  "equal_loop h p q is \<longleftrightarrow>
     (\<forall>i \<in> set is. load h (ptr_add p (int i)) = load h (ptr_add q (int i)))"
  by (induction "is") auto

lemma buffer_equal_owned:
  assumes "owns h a as" "owns h b bs"
  shows "buffer_equal h a b \<longleftrightarrow> as = bs"
proof -
  have "length as = m_size a" "length bs = m_size b"
    using assms by (simp_all add: owns_def)
  then show ?thesis
    using load_owned [OF assms(1)] load_owned [OF assms(2)]
    by (auto simp: buffer_equal_def equal_loop_iff intro: nth_equalityI)
qed

lemma walk_block:
  "blocks h k = Some bs \<Longrightarrow> i + n \<le> length bs \<Longrightarrow>
   walk h n (Ptr k (int i)) = map Some (take n (drop i bs))"
proof (induction n arbitrary: i)
  case 0
  then show ?case by simp
next
  case (Suc n)
  have "walk h n (Ptr k (int (Suc i))) = map Some (take n (drop (Suc i) bs))"
    using Suc.prems by (intro Suc.IH) simp_all
  then show ?case
    using Suc.prems
    by (simp add: iterator_deref_def iterator_preinc_def Let_def add.commute [of 1]
        flip: Cons_nth_drop_Suc)
qed

lemma walk_reverse_block:
  "blocks h k = Some bs \<Longrightarrow> i \<le> length bs \<Longrightarrow>
   walk_reverse h i (Ptr k (int i)) = map Some (rev (take i bs))"
proof (induction i)
  case 0
  then show ?case by simp
next
  case (Suc i)
  then show ?case
    by (simp add: reverse_deref_def reverse_preinc_def iterator_deref_def iterator_predec_def
        Let_def take_Suc_conv_app_nth)
qed


section \<open>Properties of buffers\<close>

text \<open>
  Copying is deep: the copy holds the same bytes in a block of its own, the original keeps
  its bytes, the two compare equal, and a later write through the copy does not reach the
  original.
\<close>

theorem buffer_copy_independent:
  assumes "heap_ok h" "allocator_ok mem" "owns h b bs"
  shows "\<exists>c h'. buffer_copy mem b h = Some (c, h') \<and> heap_ok h' \<and>
    owns h' c bs \<and> owns h' b bs \<and> buffer_equal h' b c \<and>
    (\<forall>pos v h''. buffer_set h' c pos v = Some h'' \<longrightarrow> owns h'' b bs)"
proof -
  let ?c = "\<lparr>m_buffer = Ptr (fresh h) 0, m_size = length bs\<rparr>"
  let ?h = "h\<lparr>blocks := (blocks h)(fresh h \<mapsto> bs), fresh := Suc (fresh h)\<rparr>"
  have ok: "heap_ok ?h" using assms(1) by (auto simp: heap_ok_def less_Suc_eq)
  have c: "owns ?h ?c bs" by (simp add: owns_def)
  have b: "owns ?h b bs"
    using assms(1,3) by (auto simp: owns_def dest: heap_ok_fresh split: ptr.splits)
  have "owns h'' b bs" if "buffer_set ?h ?c pos v = Some h''" for pos v h''
    using that b assms(1,3)
    by (auto simp: buffer_set_def owns_def dest: heap_ok_fresh split: ptr.splits if_splits)
  then show ?thesis
    using buffer_copy_result [OF assms] ok c b buffer_equal_owned [OF b c]
    by (intro exI [of _ ?c] exI [of _ ?h]) simp
qed

definition example_heap :: heap where
  "example_heap = \<lparr>blocks = [3 \<mapsto> [1, 2, 4]], fresh = 5\<rparr>"

definition example_buffer :: buffer where
  "example_buffer = \<lparr>m_buffer = Ptr 3 0, m_size = 3\<rparr>"

lemma example_owned: "heap_ok example_heap" "owns example_heap example_buffer [1, 2, 4]"
  by (simp_all add: heap_ok_def owns_def example_heap_def example_buffer_def)

theorem buffer_copy_independent_witness:
  "\<exists>c h'. buffer_copy dirty_memory example_buffer example_heap = Some (c, h') \<and> heap_ok h' \<and>
    owns h' c [1, 2, 4] \<and> owns h' example_buffer [1, 2, 4] \<and> buffer_equal h' example_buffer c \<and>
    (\<forall>pos v h''. buffer_set h' c pos v = Some h'' \<longrightarrow> owns h'' example_buffer [1, 2, 4])"
  by (rule buffer_copy_independent) (simp_all add: example_owned)

text \<open>
  Iterating a buffer or a view visits its bytes once each and in order, reverse iteration in
  the reverse order, the distance from begin to end is the size, checked access gives the byte
  in range and throws out of range, and comparison is comparison of the contents.
\<close>

theorem buffer_access:
  assumes "owns h b bs"
  shows "walk h (buffer_size b) (buffer_begin b) = map Some bs \<and>
    walk h (v_size (cbuffer_view_of b)) (cbuffer_view_begin (cbuffer_view_of b)) = map Some bs \<and>
    walk_reverse h (buffer_size b) (buffer_rbegin b) = map Some (rev bs) \<and>
    iterator_diff (buffer_end b) (buffer_begin b) = Some (int (buffer_size b)) \<and>
    buffer_at h b pos = (if pos < length bs then Inr (Some (bs ! pos)) else Inl out_of_buffer) \<and>
    cbuffer_view_at h (cbuffer_view_of b) pos = buffer_at h b pos \<and>
    (owns h c cs \<longrightarrow> (buffer_equal h b c \<longleftrightarrow> bs = cs) \<and>
       (cbuffer_view_equal h (cbuffer_view_of b) (cbuffer_view_of c) \<longleftrightarrow> bs = cs))"
proof -
  have w: "walk h (buffer_size b) (buffer_begin b) = map Some bs"
    "walk_reverse h (buffer_size b) (buffer_rbegin b) = map Some (rev bs)"
    "iterator_diff (buffer_end b) (buffer_begin b) = Some (int (buffer_size b))"
    using assms walk_block [of h _ bs 0 "length bs"] walk_reverse_block [of h _ bs "length bs"]
    by (auto elim!: owns_cases simp: buffer_size_def buffer_begin_def buffer_rbegin_def buffer_end_def)
  have at: "buffer_at h b pos = (if pos < length bs then Inr (Some (bs ! pos)) else Inl out_of_buffer)"
    using load_owned [OF assms, of pos] assms
    by (simp add: buffer_at_def buffer_index_def owns_def)
  have v: "v_size (cbuffer_view_of b) = buffer_size b"
    "cbuffer_view_begin (cbuffer_view_of b) = buffer_begin b"
    "cbuffer_view_at h (cbuffer_view_of b) pos = buffer_at h b pos"
    "cbuffer_view_equal h (cbuffer_view_of b) (cbuffer_view_of c) = buffer_equal h b c"
    by (simp_all add: cbuffer_view_of_def cbuffer_view_begin_def buffer_begin_def buffer_size_def
        buffer_data_def cbuffer_view_at_def cbuffer_view_index_def buffer_at_def
        buffer_index_def cbuffer_view_equal_def buffer_equal_def)
  show ?thesis
    unfolding v w at using buffer_equal_owned [OF assms, of c cs] by simp
qed

theorem buffer_access_witness:
  "walk example_heap (buffer_size example_buffer) (buffer_begin example_buffer) =
     [Some 1, Some 2, Some 4]"
  using buffer_access [OF example_owned(2)] by simp

text \<open>The blocks that a buffer keeps alive.\<close>

definition held :: "buffer \<Rightarrow> nat set" where
  "held b = (case m_buffer b of Null \<Rightarrow> {} | Ptr k off \<Rightarrow> {k})"

lemma destroy_owned:
  assumes "owns h b bs"
  shows "\<exists>h'. buffer_destroy b h = Some h' \<and> dom (blocks h') = dom (blocks h) - held b \<and>
    (\<forall>c cs. owns h c cs \<longrightarrow> held c \<inter> held b = {} \<longrightarrow> owns h' c cs)"
  using assms
  by (cases rule: owns_cases)
    (auto simp: buffer_destroy_def held_def owns_def split: ptr.splits)

text \<open>
  Moves transfer ownership.  After a move construction the new buffer has the bytes and the
  source is null; after a move assignment the two have exchanged their bytes.  In both cases the
  objects can then be destroyed one after the other: nothing is freed twice and exactly the
  blocks that they held are gone.
\<close>

theorem buffer_moves:
  assumes "owns h a as" "owns h b bs" "held a \<inter> held b = {}"
  shows "(case buffer_move_ctor a of (this, other) \<Rightarrow>
            owns h this as \<and> \<not> buffer_bool other \<and> buffer_size other = 0 \<and>
            (\<exists>h' h''. buffer_destroy this h = Some h' \<and> buffer_destroy other h' = Some h'' \<and>
               dom (blocks h'') = dom (blocks h) - held a)) \<and>
         (case buffer_move_assign a b of (this, other) \<Rightarrow>
            owns h this bs \<and> owns h other as \<and>
            (\<exists>h' h''. buffer_destroy other h = Some h' \<and> buffer_destroy this h' = Some h'' \<and>
               dom (blocks h'') = dom (blocks h) - held a - held b))"
proof -
  have swap: "buffer_move_assign a b = (this, other) \<Longrightarrow> this = b \<and> other = a" for this other
    by (auto simp: buffer_move_assign_def)
  have ctor: "buffer_move_ctor a = (this, other) \<Longrightarrow> this = a \<and> other = buffer_default" for this other
    by (auto simp: buffer_move_ctor_def buffer_default_def)
  obtain h' where h': "buffer_destroy a h = Some h'" "dom (blocks h') = dom (blocks h) - held a"
    "owns h' b bs"
    using destroy_owned [OF assms(1)] assms(2,3) by (metis Int_commute)
  obtain h'' where "buffer_destroy b h' = Some h''" "dom (blocks h'') = dom (blocks h') - held b"
    using destroy_owned [OF h'(3)] by blast
  with h' swap ctor assms(1,2) show ?thesis
    by (auto simp: buffer_bool_def buffer_default_def buffer_size_def buffer_destroy_def)
qed

theorem buffer_moves_witness:
  "case buffer_move_assign example_buffer buffer_default of (this, other) \<Rightarrow>
     owns example_heap this [] \<and> owns example_heap other [1, 2, 4]"
proof -
  have "owns example_heap buffer_default []" "held example_buffer \<inter> held buffer_default = {}"
    by (simp_all add: owns_def held_def buffer_default_def)
  from buffer_moves [OF example_owned(2) this] show ?thesis
    by (simp add: case_prod_beta)
qed

end
