(* ===== verification/Transfer_Message.thy ===== *)
theory Transfer_Message
  imports Rpc_Types Byte_Buffer
begin

text \<open>
  The wire format of \<open>rpc-lib/internal/transfer-message\<close>: big-endian numbers, the layout
  of request and response frames, ping and pong, and the validity checks of received buffers.

  A view of a buffer is \<^typ>\<open>bytes option\<close>, \<^term>\<open>None\<close> when \<open>data()\<close> is null.
  Protocol buffers are a third-party library: a message is an element of a type \<open>'m\<close> and its
  operations are the fields of the record \<open>proto\<close>.  The contents of freshly allocated memory
  are an argument as well, because \<open>new std::byte[n]\<close> does not initialise them.
\<close>

unbundle bit_operations_syntax

section \<open>Types and constants\<close>

type_synonym cbuffer_view = "bytes option"

datatype transfer_msg_type = Msg_req | Msg_res | Msg_ping | Msg_pong | Msg_other byte

definition transfer_msg_type_of_byte :: "byte \<Rightarrow> transfer_msg_type" where
  "transfer_msg_type_of_byte b =
     (if b = 0 then Msg_req else if b = 1 then Msg_res
      else if b = 2 then Msg_ping else if b = 3 then Msg_pong else Msg_other b)"

fun byte_of_transfer_msg_type :: "transfer_msg_type \<Rightarrow> byte" where
  "byte_of_transfer_msg_type Msg_req = 0"
| "byte_of_transfer_msg_type Msg_res = 1"
| "byte_of_transfer_msg_type Msg_ping = 2"
| "byte_of_transfer_msg_type Msg_pong = 3"
| "byte_of_transfer_msg_type (Msg_other b) = b"

definition s_message_type_bytes_count :: nat where [simp]: "s_message_type_bytes_count = 1"
definition s_serialized_proto_message_size_bytes_count :: nat where [simp]: "s_serialized_proto_message_size_bytes_count = 4"
definition s_message_number_bytes_count :: nat where [simp]: "s_message_number_bytes_count = 8"
definition s_method_idx_bytes_count :: nat where [simp]: "s_method_idx_bytes_count = 4"
definition s_result_code_bytes_count :: nat where [simp]: "s_result_code_bytes_count = 1"

definition s_header_bytes_count :: nat where
  "s_header_bytes_count = s_message_type_bytes_count + s_serialized_proto_message_size_bytes_count"

definition s_req_trailer_bytes_count :: nat where
  "s_req_trailer_bytes_count = s_message_number_bytes_count + s_method_idx_bytes_count"

definition s_res_trailer_bytes_count :: nat where
  "s_res_trailer_bytes_count = s_message_number_bytes_count + s_result_code_bytes_count"

text \<open>
  Protocol buffers: \<open>SerializeToArray\<close> gets the message and the capacity of the array and
  returns the bytes that it writes at the front of it, or \<^term>\<open>None\<close> for \<open>false\<close>.
\<close>

record 'm proto =
  ByteSizeLong :: "'m \<Rightarrow> nat"
  SerializeToArray :: "'m \<Rightarrow> nat \<Rightarrow> bytes option"
  ParseFromArray :: "bytes \<Rightarrow> 'm option"

text \<open>The documented behaviour: a successful call writes \<open>ByteSizeLong\<close> bytes, within capacity.\<close>

definition proto_sizes_ok :: "'m proto \<Rightarrow> bool" where
  "proto_sizes_ok P \<longleftrightarrow>
     (\<forall>m cap bs. SerializeToArray P m cap = Some bs \<longrightarrow>
        length bs = ByteSizeLong P m \<and> length bs \<le> cap)"

text \<open>What was serialised is parsed back to the same message.\<close>

definition proto_parses_back :: "'m proto \<Rightarrow> bool" where
  "proto_parses_back P \<longleftrightarrow>
     (\<forall>m cap bs. SerializeToArray P m cap = Some bs \<longrightarrow> ParseFromArray P bs = Some m)"


section \<open>Big-endian numbers\<close>

definition to_uint32_to_big_endian :: "bytes \<Rightarrow> uint32" where
  "to_uint32_to_big_endian bs =
     foldl (\<lambda>ans i. ans OR push_bit ((length bs - i - 1) * 8) (ucast (bs ! i)))
       0 [0..<length bs]"

definition to_uint64_big_endian :: "bytes \<Rightarrow> uint64" where
  "to_uint64_big_endian bs =
     foldl (\<lambda>ans i. ans OR push_bit ((length bs - i - 1) * 8) (ucast (bs ! i)))
       0 [0..<length bs]"

definition from_uint32_to_big_endian :: "uint32 \<Rightarrow> bytes" where
  "from_uint32_to_big_endian number =
     map (\<lambda>i. ucast (drop_bit ((4 - i - 1) * 8) number AND 0xFF)) [0..<4]"

definition from_uint64_big_endian :: "uint64 \<Rightarrow> bytes" where
  "from_uint64_big_endian number =
     map (\<lambda>i. ucast (drop_bit ((8 - i - 1) * 8) number AND 0xFF)) [0..<8]"

definition extract_message_size :: "bytes \<Rightarrow> uint32" where
  "extract_message_size message =
     to_uint32_to_big_endian
       (take s_serialized_proto_message_size_bytes_count (drop s_message_type_bytes_count message))"


section \<open>Filling a frame\<close>

text \<open>The pair is the buffer and the position \<open>pos\<close> that every call advances.\<close>

definition put_byte :: "byte \<Rightarrow> bytes \<times> nat \<Rightarrow> bytes \<times> nat" where
  "put_byte b = (\<lambda>(buff, pos). (buff[pos := b], pos + 1))"

definition fill_message_type_byte :: "transfer_msg_type \<Rightarrow> bytes \<times> nat \<Rightarrow> bytes \<times> nat" where
  "fill_message_type_byte type = put_byte (byte_of_transfer_msg_type type)"

definition fill_serialized_message_size_bytes :: "uint32 \<Rightarrow> bytes \<times> nat \<Rightarrow> bytes \<times> nat" where
  "fill_serialized_message_size_bytes n = fold put_byte (from_uint32_to_big_endian n)"

definition fill_serialized_message_bytes ::
  "'m proto \<Rightarrow> 'm option \<Rightarrow> uint32 \<Rightarrow> bytes \<times> nat \<Rightarrow> (bytes \<times> nat) or_exn"
where
  "fill_serialized_message_bytes P message n = (\<lambda>(buff, pos).
     case message of
       None \<Rightarrow> Inr (buff, pos)
     | Some m \<Rightarrow>
         (case SerializeToArray P m (length buff - pos) of
            None \<Rightarrow> Inl (Runtime_error ''failed to serialize message'')
          | Some bs \<Rightarrow>
              Inr (take pos buff @ bs @ drop (pos + length bs) buff, pos + unat n)))"

definition fill_message_number_bytes :: "uint64 \<Rightarrow> bytes \<times> nat \<Rightarrow> bytes \<times> nat" where
  "fill_message_number_bytes n = fold put_byte (from_uint64_big_endian n)"

definition fill_method_idx_bytes :: "uint32 \<Rightarrow> bytes \<times> nat \<Rightarrow> bytes \<times> nat" where
  "fill_method_idx_bytes n = fold put_byte (from_uint32_to_big_endian n)"

definition fill_response_result_bytes :: "response_result \<Rightarrow> bytes \<times> nat \<Rightarrow> bytes \<times> nat" where
  "fill_response_result_bytes rc = put_byte (byte_of_response_result rc)"


section \<open>Inspecting a received buffer\<close>

definition is_request_buffer_valid :: "cbuffer_view \<Rightarrow> bool" where
  "is_request_buffer_valid v =
     (case v of
        None \<Rightarrow> False
      | Some buff \<Rightarrow>
          s_header_bytes_count + s_req_trailer_bytes_count \<le> length buff \<and>
          transfer_msg_type_of_byte (buff ! 0) = Msg_req \<and>
          unat (extract_message_size buff)
            \<le> length buff - s_header_bytes_count - s_req_trailer_bytes_count)"

definition is_response_buffer_valid :: "cbuffer_view \<Rightarrow> bool" where
  "is_response_buffer_valid v =
     (case v of
        None \<Rightarrow> False
      | Some buff \<Rightarrow>
          s_header_bytes_count + s_res_trailer_bytes_count \<le> length buff \<and>
          transfer_msg_type_of_byte (buff ! 0) = Msg_res \<and>
          unat (extract_message_size buff)
            \<le> length buff - s_header_bytes_count - s_res_trailer_bytes_count)"

definition is_request_proto_too_big :: "'m proto \<Rightarrow> 'm \<Rightarrow> bool" where
  "is_request_proto_too_big P m \<longleftrightarrow> ByteSizeLong P m > unat MaxRequestProtoSize"

definition is_response_proto_too_big :: "'m proto \<Rightarrow> 'm \<Rightarrow> bool" where
  "is_response_proto_too_big P m \<longleftrightarrow> ByteSizeLong P m > unat MaxResponseProtoSize"

definition invalid_buffer :: exn where
  "invalid_buffer = Runtime_error ''invalid buffer''"

definition get_transfer_msg_type :: "cbuffer_view \<Rightarrow> transfer_msg_type or_exn" where
  "get_transfer_msg_type v =
     (case v of
        None \<Rightarrow> Inl invalid_buffer
      | Some message \<Rightarrow>
          if length message = 0 then Inl invalid_buffer
          else Inr (transfer_msg_type_of_byte (message ! 0)))"

definition get_serialized_proto_message :: "cbuffer_view \<Rightarrow> bytes or_exn" where
  "get_serialized_proto_message v =
     (case v of
        None \<Rightarrow> Inl invalid_buffer
      | Some message \<Rightarrow>
          if s_header_bytes_count > length message \<or>
             unat (extract_message_size message) > length message - s_header_bytes_count
          then Inl invalid_buffer
          else Inr (take (unat (extract_message_size message))
                      (drop s_header_bytes_count message)))"

definition get_msg_number_req :: "cbuffer_view \<Rightarrow> uint64 or_exn" where
  "get_msg_number_req v =
     (if \<not> is_request_buffer_valid v then Inl invalid_buffer
      else let message = the v;
               start = s_header_bytes_count + unat (extract_message_size message)
           in Inr (to_uint64_big_endian (take s_message_number_bytes_count (drop start message))))"

definition get_msg_method_idx_req :: "cbuffer_view \<Rightarrow> uint32 or_exn" where
  "get_msg_method_idx_req v =
     (if \<not> is_request_buffer_valid v then Inl invalid_buffer
      else let message = the v;
               start = s_header_bytes_count + unat (extract_message_size message)
                        + s_message_number_bytes_count
           in Inr (to_uint32_to_big_endian (take s_method_idx_bytes_count (drop start message))))"

definition get_msg_number_res :: "cbuffer_view \<Rightarrow> uint64 or_exn" where
  "get_msg_number_res v =
     (if \<not> is_response_buffer_valid v then Inl invalid_buffer
      else let message = the v;
               start = s_header_bytes_count + unat (extract_message_size message)
           in Inr (to_uint64_big_endian (take s_message_number_bytes_count (drop start message))))"

definition get_msg_response_code_res :: "cbuffer_view \<Rightarrow> response_result or_exn" where
  "get_msg_response_code_res v =
     (if \<not> is_response_buffer_valid v then Inl invalid_buffer
      else let message = the v;
               iter = s_header_bytes_count + unat (extract_message_size message)
                      + s_message_number_bytes_count
           in Inr (response_result_of_byte (message ! iter)))"


section \<open>Creating frames\<close>

text \<open>
  The parameter \<open>mem\<close> gives the indeterminate contents of a new array of a given length.
\<close>

definition serialized_size :: "'m proto \<Rightarrow> 'm option \<Rightarrow> nat" where
  "serialized_size P message = (case message of None \<Rightarrow> 0 | Some m \<Rightarrow> ByteSizeLong P m)"

definition create_transfer_msg_req ::
  "'m proto \<Rightarrow> (nat \<Rightarrow> bytes) \<Rightarrow> uint64 \<Rightarrow> uint32 \<Rightarrow> 'm option \<Rightarrow> bytes or_exn"
where
  "create_transfer_msg_req P mem message_number method_idx message =
     (let serialized_message_size = serialized_size P message in
      if serialized_message_size > unat MaxRequestProtoSize
      then Inl (Runtime_error ''message is too big'')
      else
        let buf_size = of_nat s_header_bytes_count + (of_nat serialized_message_size :: uint32)
                       + of_nat s_req_trailer_bytes_count;
            st = (mem (unat buf_size), 0);
            st = fill_message_type_byte Msg_req st;
            st = fill_serialized_message_size_bytes (of_nat serialized_message_size) st
        in case fill_serialized_message_bytes P message (of_nat serialized_message_size) st of
             Inl e \<Rightarrow> Inl e
           | Inr st \<Rightarrow>
               Inr (fst (fill_method_idx_bytes method_idx
                      (fill_message_number_bytes message_number st))))"

definition create_transfer_msg_res ::
  "'m proto \<Rightarrow> (nat \<Rightarrow> bytes) \<Rightarrow> uint64 \<Rightarrow> response_result \<Rightarrow> 'm option \<Rightarrow> bytes or_exn"
where
  "create_transfer_msg_res P mem message_number rc message =
     (let serialized_message_size = serialized_size P message in
      if serialized_message_size > unat MaxResponseProtoSize
      then Inl (Runtime_error ''message is too big'')
      else
        let buf_size = of_nat s_header_bytes_count + (of_nat serialized_message_size :: uint32)
                       + of_nat s_res_trailer_bytes_count;
            st = (mem (unat buf_size), 0);
            st = fill_message_type_byte Msg_res st;
            st = fill_serialized_message_size_bytes (of_nat serialized_message_size) st
        in case fill_serialized_message_bytes P message (of_nat serialized_message_size) st of
             Inl e \<Rightarrow> Inl e
           | Inr st \<Rightarrow>
               Inr (fst (fill_response_result_bytes rc
                      (fill_message_number_bytes message_number st))))"

definition create_transfer_msg_ping :: "(nat \<Rightarrow> bytes) \<Rightarrow> bytes" where
  "create_transfer_msg_ping mem = (mem 1)[0 := byte_of_transfer_msg_type Msg_ping]"

definition create_transfer_msg_pong :: "(nat \<Rightarrow> bytes) \<Rightarrow> bytes" where
  "create_transfer_msg_pong mem = (mem 1)[0 := byte_of_transfer_msg_type Msg_pong]"


section \<open>Byte order: decoding inverts encoding\<close>

lemma bit_foldl_or:
  "bit (foldl (\<lambda>ans i. ans OR f i) (a :: 'a::len word) xs) k \<longleftrightarrow>
     bit a k \<or> (\<exists>i \<in> set xs. bit (f i) k)"
  by (induction xs arbitrary: a) (auto simp: bit_or_iff)

lemma bit_byte_bound: "bit (b :: byte) k \<Longrightarrow> k < 8"
  using bit_imp_le_length [of b k] by simp

text \<open>Both decoders at once: bit \<open>k\<close> of the number is bit \<open>k mod 8\<close> of byte \<open>n - 1 - k div 8\<close>.\<close>

lemma bit_be_decode:
  fixes bs :: bytes
  assumes "LENGTH('a::len) = 8 * length bs"
  shows "bit (foldl (\<lambda>ans i. ans OR push_bit ((length bs - i - 1) * 8) (ucast (bs ! i)))
           (0 :: 'a word) [0..<length bs]) k \<longleftrightarrow>
         k < 8 * length bs \<and> bit (bs ! (length bs - 1 - k div 8)) (k mod 8)"
    (is "bit ?w k \<longleftrightarrow> ?rhs")
proof -
  have "bit ?w k \<longleftrightarrow>
     (\<exists>i < length bs. (length bs - i - 1) * 8 \<le> k \<and> k < 8 * length bs \<and>
        bit (bs ! i) (k - (length bs - i - 1) * 8))"
    using assms by (auto simp: bit_foldl_or bit_push_bit_iff bit_ucast_iff)
  also have "\<dots> \<longleftrightarrow> ?rhs"
  proof
    assume "\<exists>i < length bs. (length bs - i - 1) * 8 \<le> k \<and> k < 8 * length bs \<and>
        bit (bs ! i) (k - (length bs - i - 1) * 8)"
    then obtain i where i: "i < length bs" "(length bs - i - 1) * 8 \<le> k" "k < 8 * length bs"
      "bit (bs ! i) (k - (length bs - i - 1) * 8)" by blast
    from i(4) have "k - (length bs - i - 1) * 8 < 8" by (rule bit_byte_bound)
    with i(2) have "k div 8 = length bs - i - 1" "k mod 8 = k - (length bs - i - 1) * 8"
      by (simp_all add: div_nat_eqI mod_nat_eqI less_diff_conv2 modulo_nat_def mult.commute)
    with i show ?rhs by simp
  next
    assume r: ?rhs
    let ?i = "length bs - 1 - k div 8"
    from r have kd: "k div 8 < length bs" by (simp add: less_mult_imp_div_less mult.commute)
    then have i: "?i < length bs" "length bs - ?i - 1 = k div 8" by linarith+
    have "k div 8 * 8 \<le> k" "k - k div 8 * 8 = k mod 8"
      by (simp_all add: minus_div_mult_eq_mod)
    with r i show "\<exists>i < length bs. (length bs - i - 1) * 8 \<le> k \<and> k < 8 * length bs \<and>
        bit (bs ! i) (k - (length bs - i - 1) * 8)"
      by (intro exI [of _ ?i]) (simp only: simp_thms)
  qed
  finally show ?thesis .
qed

lemma bit_from_byte:
  "bit (ucast (drop_bit n (w :: 'a::len word) AND 0xFF) :: byte) j \<longleftrightarrow> j < 8 \<and> bit w (n + j)"
proof -
  have eq: "(0xFF :: 'a word) = mask 8" by (simp add: mask_eq_exp_minus_1)
  have "bit (0xFF :: 'a word) j \<longleftrightarrow> j < 8 \<and> j < LENGTH('a)"
    by (simp only: eq bit_mask_iff possible_bit_word) auto
  then show ?thesis
    by (auto simp: bit_ucast_iff bit_and_iff bit_drop_bit_eq dest: bit_imp_le_length)
qed

lemma length_from_uint32 [simp]: "length (from_uint32_to_big_endian n) = 4"
  by (simp add: from_uint32_to_big_endian_def)

lemma length_from_uint64 [simp]: "length (from_uint64_big_endian n) = 8"
  by (simp add: from_uint64_big_endian_def)

lemma byte_index: "k < 8 * n \<Longrightarrow> (n - (n - 1 - k div 8) - 1) * 8 + k mod 8 = (k :: nat)"
proof -
  assume "k < 8 * n"
  then have "n - (n - 1 - k div 8) - 1 = k div 8" by auto
  then show ?thesis by simp
qed

lemma bit_to_uint32:
  "length bs = 4 \<Longrightarrow>
   bit (to_uint32_to_big_endian bs) k \<longleftrightarrow> k < 32 \<and> bit (bs ! (4 - 1 - k div 8)) (k mod 8)"
  using bit_be_decode [where 'a = 32, of bs k] by (simp add: to_uint32_to_big_endian_def)

lemma nth_from_uint32:
  "i < 4 \<Longrightarrow>
   bit (from_uint32_to_big_endian n ! i) j \<longleftrightarrow> j < 8 \<and> bit n ((4 - i - 1) * 8 + j)"
  by (simp only: from_uint32_to_big_endian_def length_map length_upt nth_map nth_upt bit_from_byte
      diff_zero add_0)

lemma bit_to_uint64:
  "length bs = 8 \<Longrightarrow>
   bit (to_uint64_big_endian bs) k \<longleftrightarrow> k < 64 \<and> bit (bs ! (8 - 1 - k div 8)) (k mod 8)"
  using bit_be_decode [where 'a = 64, of bs k] by (simp add: to_uint64_big_endian_def)

lemma nth_from_uint64:
  "i < 8 \<Longrightarrow>
   bit (from_uint64_big_endian n ! i) j \<longleftrightarrow> j < 8 \<and> bit n ((8 - i - 1) * 8 + j)"
  by (simp only: from_uint64_big_endian_def length_map length_upt nth_map nth_upt bit_from_byte
      diff_zero add_0)

lemma uint32_roundtrip [simp]: "to_uint32_to_big_endian (from_uint32_to_big_endian n) = n"
proof (rule bit_eqI)
  fix k assume "possible_bit TYPE(32 word) k"
  then have k: "k < 32" by simp
  then have "4 - 1 - k div 8 < 4" by simp
  then show "bit (to_uint32_to_big_endian (from_uint32_to_big_endian n)) k = bit n k"
    using k byte_index [of k 4]
    by (simp add: bit_to_uint32 nth_from_uint32)
qed

lemma uint64_roundtrip [simp]: "to_uint64_big_endian (from_uint64_big_endian n) = n"
proof (rule bit_eqI)
  fix k assume "possible_bit TYPE(64 word) k"
  then have k: "k < 64" by simp
  then have "8 - 1 - k div 8 < 8" by simp
  then show "bit (to_uint64_big_endian (from_uint64_big_endian n)) k = bit n k"
    using k byte_index [of k 8]
    by (simp add: bit_to_uint64 nth_from_uint64)
qed

lemma be_encode_byte:
  "i < n \<Longrightarrow> j < 8 \<Longrightarrow> n - 1 - ((n - i - 1) * 8 + j) div 8 = i \<and> ((n - i - 1) * 8 + j) mod 8 = (j::nat)"
  by auto

lemma uint32_roundtrip' [simp]:
  assumes "length bs = 4"
  shows "from_uint32_to_big_endian (to_uint32_to_big_endian bs) = bs"
proof (rule nth_equalityI)
  show "length (from_uint32_to_big_endian (to_uint32_to_big_endian bs)) = length bs"
    using assms by simp
next
  fix i assume "i < length (from_uint32_to_big_endian (to_uint32_to_big_endian bs))"
  then have i: "i < 4" by simp
  show "from_uint32_to_big_endian (to_uint32_to_big_endian bs) ! i = bs ! i"
  proof (rule bit_eqI)
    fix j assume "possible_bit TYPE(8 word) j"
    then have j: "j < 8" by simp
    have "(4 - i - 1) * 8 + j < 32" using i j by auto
    then show "bit (from_uint32_to_big_endian (to_uint32_to_big_endian bs) ! i) j = bit (bs ! i) j"
      using j be_encode_byte [OF i j]
      by (simp only: nth_from_uint32 [OF i] bit_to_uint32 [OF assms] simp_thms)
  qed
qed

lemma uint64_roundtrip' [simp]:
  assumes "length bs = 8"
  shows "from_uint64_big_endian (to_uint64_big_endian bs) = bs"
proof (rule nth_equalityI)
  show "length (from_uint64_big_endian (to_uint64_big_endian bs)) = length bs"
    using assms by simp
next
  fix i assume "i < length (from_uint64_big_endian (to_uint64_big_endian bs))"
  then have i: "i < 8" by simp
  show "from_uint64_big_endian (to_uint64_big_endian bs) ! i = bs ! i"
  proof (rule bit_eqI)
    fix j assume "possible_bit TYPE(8 word) j"
    then have j: "j < 8" by simp
    have "(8 - i - 1) * 8 + j < 64" using i j by auto
    then show "bit (from_uint64_big_endian (to_uint64_big_endian bs) ! i) j = bit (bs ! i) j"
      using j be_encode_byte [OF i j]
      by (simp only: nth_from_uint64 [OF i] bit_to_uint64 [OF assms] simp_thms)
  qed
qed


section \<open>Closed forms of the frames\<close>

text \<open>The layout as the architecture document draws it.\<close>

definition req_frame :: "uint64 \<Rightarrow> uint32 \<Rightarrow> bytes \<Rightarrow> bytes" where
  "req_frame n idx payload =
     0 # from_uint32_to_big_endian (of_nat (length payload)) @ payload
       @ from_uint64_big_endian n @ from_uint32_to_big_endian idx"

definition res_frame :: "uint64 \<Rightarrow> response_result \<Rightarrow> bytes \<Rightarrow> bytes" where
  "res_frame n rc payload =
     1 # from_uint32_to_big_endian (of_nat (length payload)) @ payload
       @ from_uint64_big_endian n @ [byte_of_response_result rc]"

text \<open>What the serialiser yields for an optional message and a capacity.\<close>

definition payload_of :: "'m proto \<Rightarrow> 'm option \<Rightarrow> nat \<Rightarrow> bytes option" where
  "payload_of P message cap =
     (case message of None \<Rightarrow> Some [] | Some m \<Rightarrow> SerializeToArray P m cap)"

lemma header_trailer_simps [simp]:
  "s_header_bytes_count = 5" "s_req_trailer_bytes_count = 12" "s_res_trailer_bytes_count = 9"
  by (simp_all add: s_header_bytes_count_def s_req_trailer_bytes_count_def
      s_res_trailer_bytes_count_def)

lemma length_frames [simp]:
  "length (req_frame n idx bs) = length bs + 17"
  "length (res_frame n rc bs) = length bs + 14"
  by (simp_all add: req_frame_def res_frame_def)

lemma put_byte_append:
  "pos = length pre \<Longrightarrow> put_byte b (pre @ x # rest, pos) = ((pre @ [b]) @ rest, Suc pos)"
  by (simp add: put_byte_def)

lemma fold_put_byte:
  "pos = length pre \<Longrightarrow> length old = length bs \<Longrightarrow>
   fold put_byte bs (pre @ old @ rest, pos) = (pre @ bs @ rest, pos + length bs)"
proof (induction bs arbitrary: pre old pos)
  case Nil
  then show ?case by simp
next
  case (Cons b bs)
  from Cons.prems(2) obtain x old' where old: "old = x # old'" "length old' = length bs"
    by (cases old) simp_all
  have "fold put_byte bs ((pre @ [b]) @ old' @ rest, Suc pos) =
        ((pre @ [b]) @ bs @ rest, Suc pos + length bs)"
    using Cons.prems(1) old(2) by (intro Cons.IH) simp_all
  then show ?case
    using Cons.prems(1) by (simp add: old(1) put_byte_append)
qed

lemma split_front:
  "k \<le> length xs \<Longrightarrow> \<exists>old rest. xs = old @ rest \<and> length old = k \<and> length rest = length xs - k"
  by (intro exI [of _ "take k xs"] exI [of _ "drop k xs"]) simp

text \<open>
  The header, the payload and the eight bytes of the number, written into any memory that is
  long enough, leave exactly the bytes behind them untouched.
\<close>

lemma fill_header:
  assumes "length buff = 5 + k"
  shows "\<exists>rest. length rest = k \<and>
     fill_serialized_message_size_bytes n (fill_message_type_byte t (buff, 0)) =
     ((byte_of_transfer_msg_type t # from_uint32_to_big_endian n) @ rest, 5)"
proof -
  from assms obtain x old rest where b: "buff = x # old @ rest" "length old = 4" "length rest = k"
    using split_front [of 4 "tl buff"] by (cases buff) auto
  have "fold put_byte (from_uint32_to_big_endian n)
          ([byte_of_transfer_msg_type t] @ old @ rest, 1) =
        ([byte_of_transfer_msg_type t] @ from_uint32_to_big_endian n @ rest, 1 + 4)"
    using b(2) by (subst fold_put_byte) simp_all
  then show ?thesis
    using b by (intro exI [of _ rest])
      (simp add: fill_serialized_message_size_bytes_def fill_message_type_byte_def put_byte_def)
qed

lemma fill_number:
  assumes "length rest = 8 + k"
  shows "\<exists>rest'. length rest' = k \<and>
     fill_message_number_bytes n (pre @ rest, length pre) =
     ((pre @ from_uint64_big_endian n) @ rest', length pre + 8)"
proof -
  from assms obtain old rest' where b: "rest = old @ rest'" "length old = 8" "length rest' = k"
    using split_front [of 8 rest] by auto
  show ?thesis
    unfolding b(1) fill_message_number_bytes_def
    by (intro exI [of _ rest'] conjI b(3), subst fold_put_byte) (simp_all add: b(2))
qed

lemma fill_payload:
  assumes "proto_sizes_ok P" "length rest = serialized_size P message + k"
    and "serialized_size P message < 2 ^ 32"
  shows "fill_serialized_message_bytes P message (of_nat (serialized_size P message))
           (pre @ rest, length pre) =
         (case payload_of P message (length rest) of
            None \<Rightarrow> Inl (Runtime_error ''failed to serialize message'')
          | Some bs \<Rightarrow> Inr ((pre @ bs) @ drop (length bs) rest, length pre + length bs))"
proof (cases message)
  case None
  then show ?thesis
    by (simp add: fill_serialized_message_bytes_def payload_of_def)
next
  case (Some m)
  have "length bs = ByteSizeLong P m" if "SerializeToArray P m (length rest) = Some bs" for bs
    using assms(1) that unfolding proto_sizes_ok_def by blast
  then show ?thesis
    using assms(2,3) Some
    by (simp add: fill_serialized_message_bytes_def payload_of_def serialized_size_def
        unat_of_nat take_bit_nat_eq_self split: option.split)
qed

lemma payload_length:
  "proto_sizes_ok P \<Longrightarrow> payload_of P message cap = Some bs \<Longrightarrow> length bs = serialized_size P message"
  by (auto simp: payload_of_def serialized_size_def proto_sizes_ok_def split: option.splits)


text \<open>
  Creation in closed form: for any contents of the allocated memory the result is the frame,
  so every byte of the buffer has been written.
\<close>

lemma create_req_closed [frame_simps]:
  assumes P: "proto_sizes_ok P" and mem: "allocator_ok mem"
    and small: "serialized_size P message \<le> unat MaxRequestProtoSize"
  shows "create_transfer_msg_req P mem n idx message =
     (case payload_of P message (serialized_size P message + 12) of
        None \<Rightarrow> Inl (Runtime_error ''failed to serialize message'')
      | Some bs \<Rightarrow> Inr (req_frame n idx bs))"
proof -
  let ?k = "serialized_size P message"
  have sz: "unat (17 + (of_nat ?k :: uint32)) = 17 + ?k"
    using small by (simp add: unat_word_ariths unat_of_nat take_bit_nat_eq_self)
  obtain rest where rest: "length rest = ?k + 12"
    "fill_serialized_message_size_bytes (of_nat ?k) (fill_message_type_byte Msg_req
       (mem (17 + ?k), 0)) = ((0 # from_uint32_to_big_endian (of_nat ?k)) @ rest, 5)"
    using fill_header [of "mem (17 + ?k)" "?k + 12" "of_nat ?k" Msg_req] mem by auto
  have fp: "fill_serialized_message_bytes P message (of_nat ?k)
      (0 # from_uint32_to_big_endian (of_nat ?k) @ rest, 5) =
    (case payload_of P message (?k + 12) of
       None \<Rightarrow> Inl (Runtime_error ''failed to serialize message'')
     | Some bs \<Rightarrow> Inr (((0 # from_uint32_to_big_endian (of_nat ?k)) @ bs) @ drop (length bs) rest,
                      5 + length bs))"
    using fill_payload [OF P rest(1), of "0 # from_uint32_to_big_endian (of_nat ?k)"] small rest(1)
    by (simp split: option.split)
  show ?thesis
  proof (cases "payload_of P message (?k + 12)")
    case None
    then show ?thesis
      using small by (simp add: create_transfer_msg_req_def Let_def sz rest(2) fp)
  next
    case (Some bs)
    let ?pre = "(0 # from_uint32_to_big_endian (of_nat ?k)) @ bs"
    have k: "length bs = ?k" using payload_length [OF P Some] .
    obtain rest' where rest': "length rest' = 4"
      "fill_message_number_bytes n (?pre @ drop (length bs) rest, length ?pre) =
       ((?pre @ from_uint64_big_endian n) @ rest', length ?pre + 8)"
      using fill_number [of "drop (length bs) rest" 4 n ?pre] rest(1) k by auto
    have "fold put_byte (from_uint32_to_big_endian idx)
        ((?pre @ from_uint64_big_endian n) @ rest' @ [], length ?pre + 8) =
        ((?pre @ from_uint64_big_endian n) @ from_uint32_to_big_endian idx @ [],
         length ?pre + 8 + 4)"
      using rest'(1) by (subst fold_put_byte) simp_all
    then have "fst (fill_method_idx_bytes idx (fill_message_number_bytes n
        (?pre @ drop (length bs) rest, 5 + length bs))) = req_frame n idx bs"
      using rest'(2) k by (simp add: fill_method_idx_bytes_def req_frame_def)
    then show ?thesis
      using small Some by (simp add: create_transfer_msg_req_def Let_def sz rest(2) fp)
  qed
qed

lemma create_res_closed [frame_simps]:
  assumes P: "proto_sizes_ok P" and mem: "allocator_ok mem"
    and small: "serialized_size P message \<le> unat MaxResponseProtoSize"
  shows "create_transfer_msg_res P mem n rc message =
     (case payload_of P message (serialized_size P message + 9) of
        None \<Rightarrow> Inl (Runtime_error ''failed to serialize message'')
      | Some bs \<Rightarrow> Inr (res_frame n rc bs))"
proof -
  let ?k = "serialized_size P message"
  have sz: "unat (14 + (of_nat ?k :: uint32)) = 14 + ?k"
    using small by (simp add: unat_word_ariths unat_of_nat take_bit_nat_eq_self)
  obtain rest where rest: "length rest = ?k + 9"
    "fill_serialized_message_size_bytes (of_nat ?k) (fill_message_type_byte Msg_res
       (mem (14 + ?k), 0)) = ((1 # from_uint32_to_big_endian (of_nat ?k)) @ rest, 5)"
    using fill_header [of "mem (14 + ?k)" "?k + 9" "of_nat ?k" Msg_res] mem by auto
  have fp: "fill_serialized_message_bytes P message (of_nat ?k)
      (1 # from_uint32_to_big_endian (of_nat ?k) @ rest, 5) =
    (case payload_of P message (?k + 9) of
       None \<Rightarrow> Inl (Runtime_error ''failed to serialize message'')
     | Some bs \<Rightarrow> Inr (((1 # from_uint32_to_big_endian (of_nat ?k)) @ bs) @ drop (length bs) rest,
                      5 + length bs))"
    using fill_payload [OF P rest(1), of "1 # from_uint32_to_big_endian (of_nat ?k)"] small rest(1)
    by (simp split: option.split)
  show ?thesis
  proof (cases "payload_of P message (?k + 9)")
    case None
    then show ?thesis
      using small by (simp add: create_transfer_msg_res_def Let_def sz rest(2) fp)
  next
    case (Some bs)
    let ?pre = "(1 # from_uint32_to_big_endian (of_nat ?k)) @ bs"
    have k: "length bs = ?k" using payload_length [OF P Some] .
    obtain rest' where rest': "length rest' = 1"
      "fill_message_number_bytes n (?pre @ drop (length bs) rest, length ?pre) =
       ((?pre @ from_uint64_big_endian n) @ rest', length ?pre + 8)"
      using fill_number [of "drop (length bs) rest" 1 n ?pre] rest(1) k by auto
    from rest'(1) obtain x where "rest' = [x]" by (cases rest') auto
    then have "fst (fill_response_result_bytes rc (fill_message_number_bytes n
        (?pre @ drop (length bs) rest, 5 + length bs))) = res_frame n rc bs"
      using rest'(2) k
      by (simp add: fill_response_result_bytes_def res_frame_def put_byte_def list_update_append)
    then show ?thesis
      using small Some by (simp add: create_transfer_msg_res_def Let_def sz rest(2) fp)
  qed
qed


section \<open>Parsing frames\<close>

lemma extract_size_frame [simp]:
  "extract_message_size (b # from_uint32_to_big_endian n @ rest) = n"
  by (simp add: extract_message_size_def)

lemma drop_header_payload [simp]:
  "length a = 4 \<Longrightarrow> drop (5 + length bs) (t # a @ bs @ rest) = rest"
  using append_eq_conv_conj [of "t # a @ bs" rest "t # a @ bs @ rest"] by simp

text \<open>Where the fields of a frame lie: both kinds share the header, the payload and the number.\<close>

lemma frame_fields:
  assumes "length bs < 2 ^ 32" "k = unat (of_nat (length bs) :: uint32)"
  shows "k = length bs"
    and "take k (drop 5 (t # from_uint32_to_big_endian (of_nat (length bs)) @ bs @ rest)) = bs"
    and "drop (5 + k) (t # from_uint32_to_big_endian (of_nat (length bs)) @ bs @ rest) = rest"
proof -
  show k: "k = length bs"
    using assms by (simp add: unat_of_nat take_bit_nat_eq_self)
  have "drop 5 (t # from_uint32_to_big_endian (of_nat (length bs)) @ bs @ rest) = bs @ rest"
    by simp
  then show "take k (drop 5 (t # from_uint32_to_big_endian (of_nat (length bs)) @ bs @ rest)) = bs"
    "drop (5 + k) (t # from_uint32_to_big_endian (of_nat (length bs)) @ bs @ rest) = rest"
    by (simp_all add: k)
qed

lemma msg_type_simps [simp]:
  "transfer_msg_type_of_byte 0 = Msg_req" "transfer_msg_type_of_byte 1 = Msg_res"
  "transfer_msg_type_of_byte 2 = Msg_ping" "transfer_msg_type_of_byte 3 = Msg_pong"
  by (simp_all add: transfer_msg_type_of_byte_def)

lemma msg_type_iff [simp]:
  "transfer_msg_type_of_byte b = Msg_req \<longleftrightarrow> b = 0"
  "transfer_msg_type_of_byte b = Msg_res \<longleftrightarrow> b = 1"
  "transfer_msg_type_of_byte b = Msg_ping \<longleftrightarrow> b = 2"
  "transfer_msg_type_of_byte b = Msg_pong \<longleftrightarrow> b = 3"
  by (simp_all add: transfer_msg_type_of_byte_def)

lemma req_frame_parse:
  assumes "length bs < 2 ^ 32"
  shows "is_request_buffer_valid (Some (req_frame n idx bs))"
    and "get_transfer_msg_type (Some (req_frame n idx bs)) = Inr Msg_req"
    and "get_serialized_proto_message (Some (req_frame n idx bs)) = Inr bs"
    and "get_msg_number_req (Some (req_frame n idx bs)) = Inr n"
    and "get_msg_method_idx_req (Some (req_frame n idx bs)) = Inr idx"
proof -
  have ex: "unat (extract_message_size (req_frame n idx bs)) = length bs"
    using frame_fields(1) [OF assms refl] by (simp add: req_frame_def)
  have d: "drop (5 + length bs) (req_frame n idx bs) =
      from_uint64_big_endian n @ from_uint32_to_big_endian idx"
    "take (length bs) (drop 5 (req_frame n idx bs)) = bs" "req_frame n idx bs ! 0 = 0"
    by (simp_all add: req_frame_def)
  then have d8: "drop (5 + length bs + 8) (req_frame n idx bs) = from_uint32_to_big_endian idx"
    using drop_drop [of 8 "5 + length bs" "req_frame n idx bs"] by (simp add: add.commute)
  show v: "is_request_buffer_valid (Some (req_frame n idx bs))"
    by (simp add: is_request_buffer_valid_def ex d)
  show "get_transfer_msg_type (Some (req_frame n idx bs)) = Inr Msg_req"
    by (simp add: get_transfer_msg_type_def d)
  show "get_serialized_proto_message (Some (req_frame n idx bs)) = Inr bs"
    by (simp add: get_serialized_proto_message_def ex d)
  show "get_msg_number_req (Some (req_frame n idx bs)) = Inr n"
    using v by (simp add: get_msg_number_req_def ex d)
  show "get_msg_method_idx_req (Some (req_frame n idx bs)) = Inr idx"
    using v d8 by (simp add: get_msg_method_idx_req_def ex)
qed

lemma res_frame_parse:
  assumes "length bs < 2 ^ 32" "proper_response_result rc"
  shows "is_response_buffer_valid (Some (res_frame n rc bs))"
    and "get_transfer_msg_type (Some (res_frame n rc bs)) = Inr Msg_res"
    and "get_serialized_proto_message (Some (res_frame n rc bs)) = Inr bs"
    and "get_msg_number_res (Some (res_frame n rc bs)) = Inr n"
    and "get_msg_response_code_res (Some (res_frame n rc bs)) = Inr rc"
proof -
  have ex: "unat (extract_message_size (res_frame n rc bs)) = length bs"
    using frame_fields(1) [OF assms(1) refl] by (simp add: res_frame_def)
  have d: "drop (5 + length bs) (res_frame n rc bs) =
      from_uint64_big_endian n @ [byte_of_response_result rc]"
    "take (length bs) (drop 5 (res_frame n rc bs)) = bs" "res_frame n rc bs ! 0 = 1"
    by (simp_all add: res_frame_def)
  have d8: "res_frame n rc bs ! (5 + length bs + 8) = byte_of_response_result rc"
    by (simp add: res_frame_def nth_append)
  show v: "is_response_buffer_valid (Some (res_frame n rc bs))"
    by (simp add: is_response_buffer_valid_def ex d)
  show "get_transfer_msg_type (Some (res_frame n rc bs)) = Inr Msg_res"
    by (simp add: get_transfer_msg_type_def d)
  show "get_serialized_proto_message (Some (res_frame n rc bs)) = Inr bs"
    by (simp add: get_serialized_proto_message_def ex d)
  show "get_msg_number_res (Some (res_frame n rc bs)) = Inr n"
    using v by (simp add: get_msg_number_res_def ex d)
  show "get_msg_response_code_res (Some (res_frame n rc bs)) = Inr rc"
    using v d8 assms(2) by (simp add: get_msg_response_code_res_def ex)
qed

text \<open>
  The other direction: a valid request buffer without surplus bytes is the frame of the
  fields that the accessors read from it, so distinct buffers carry distinct requests.
\<close>

lemma valid_request_split:
  assumes "is_request_buffer_valid (Some buff)"
    and "length buff = unat (extract_message_size buff) + 17"
  obtains num idx payload where
    "length num = 8" "length idx = 4"
    "length payload = unat (extract_message_size buff)"
    "buff = 0 # from_uint32_to_big_endian (extract_message_size buff) @ payload @ num @ idx"
proof -
  let ?n = "unat (extract_message_size buff)"
  from assms obtain b rest where buff: "buff = b # rest" and b: "b = 0"
    by (cases buff) (auto simp: is_request_buffer_valid_def)
  define sz where "sz = take 4 rest"
  define payload where "payload = take ?n (drop 4 rest)"
  define num where "num = take 8 (drop (4 + ?n) rest)"
  define idx where "idx = drop (4 + ?n + 8) rest"
  have len: "length rest = ?n + 16" using assms(2) buff by simp
  have "drop (4 + ?n) rest = num @ idx"
    using append_take_drop_id [of 8 "drop (4 + ?n) rest"]
    by (simp add: num_def idx_def add.commute)
  moreover have "drop 4 rest = payload @ drop (4 + ?n) rest"
    using append_take_drop_id [of ?n "drop 4 rest"] by (simp add: payload_def add.commute)
  ultimately have rest: "rest = sz @ payload @ num @ idx"
    using append_take_drop_id [of 4 rest] by (simp add: sz_def)
  have ex: "extract_message_size buff = to_uint32_to_big_endian sz"
    unfolding extract_message_size_def buff sz_def by simp
  have l: "length sz = 4" "length num = 8" "length idx = 4" "length payload = ?n"
    unfolding sz_def num_def idx_def payload_def length_take length_drop len by simp_all
  have sz: "from_uint32_to_big_endian (extract_message_size buff) = sz"
    unfolding ex using l(1) by (rule uint32_roundtrip')
  note l(2,3,4)
  moreover have "buff = 0 # from_uint32_to_big_endian (extract_message_size buff) @ payload @ num @ idx"
    unfolding sz using buff b rest by simp
  ultimately show thesis by (rule that)
qed


text \<open>Header, payload and what follows, in any buffer that is long enough.\<close>

lemma frame_split:
  assumes "5 + unat (extract_message_size buff) \<le> length buff"
  obtains payload tl where "length payload = unat (extract_message_size buff)" "length payload < 2 ^ 32"
    "buff = buff ! 0 # from_uint32_to_big_endian (of_nat (length payload)) @ payload @ tl"
proof -
  let ?n = "unat (extract_message_size buff)"
  obtain b rest where buff: "buff = b # rest" using assms by (cases buff) auto
  define sz where "sz = take 4 rest"
  define payload where "payload = take ?n (drop 4 rest)"
  have "length rest = length buff - 1" using buff by simp
  then have l: "length sz = 4" "length payload = ?n" using assms by (simp_all add: sz_def payload_def)
  have "extract_message_size buff = to_uint32_to_big_endian sz"
    unfolding extract_message_size_def buff sz_def by simp
  then have sz: "from_uint32_to_big_endian (extract_message_size buff) = sz"
    using l(1) by (simp only: uint32_roundtrip')
  have "rest = sz @ payload @ drop ?n (drop 4 rest)"
    by (simp add: sz_def payload_def del: drop_drop)
  then have "buff = buff ! 0 # from_uint32_to_big_endian (of_nat (length payload)) @ payload @ drop ?n (drop 4 rest)"
    using buff l(2) sz by simp
  moreover have "length payload < 2 ^ 32"
    using l(2) unsigned_less [of "extract_message_size buff"] by simp
  ultimately show thesis using that l(2) by blast
qed

lemma split_at: "k \<le> length xs \<Longrightarrow> \<exists>ys zs. xs = ys @ zs \<and> length ys = k"
  by (metis append_take_drop_id length_take min.absorb2)

lemma valid_request_frame:
  assumes "is_request_buffer_valid v"
  obtains n idx payload rest where "length payload < 2 ^ 32" "v = Some (req_frame n idx payload @ rest)"
proof -
  obtain buff where v: "v = Some buff" and b: "17 \<le> length buff" "buff ! 0 = 0"
    "unat (extract_message_size buff) \<le> length buff - 5 - 12"
    using assms by (auto simp: is_request_buffer_valid_def split: option.splits)
  have "5 + unat (extract_message_size buff) \<le> length buff" using b by simp
  then obtain payload tl where p: "length payload = unat (extract_message_size buff)" "length payload < 2 ^ 32"
    and buff: "buff = buff ! 0 # from_uint32_to_big_endian (of_nat (length payload)) @ payload @ tl"
    by (rule frame_split)
  have "length buff = 5 + length payload + length tl" using arg_cong [OF buff, of length] by simp
  then have "12 \<le> length tl" using b(1,3) p(1) by simp
  then obtain num tl' where tl: "tl = num @ tl'" "length num = 8" "4 \<le> length tl'"
    using split_at [of 8 tl] by auto
  then obtain idx rest where tl': "tl' = idx @ rest" "length idx = 4" using split_at [of 4 tl'] by auto
  have "buff = req_frame (to_uint64_big_endian num) (to_uint32_to_big_endian idx) payload @ rest"
    using buff b(2) tl tl' by (simp add: req_frame_def)
  then show thesis using that p(2) v by blast
qed

lemma valid_response_frame:
  assumes "is_response_buffer_valid v"
  obtains n rc payload rest where "length payload < 2 ^ 32" "proper_response_result rc"
    "v = Some (res_frame n rc payload @ rest)"
proof -
  obtain buff where v: "v = Some buff" and b: "14 \<le> length buff" "buff ! 0 = 1"
    "unat (extract_message_size buff) \<le> length buff - 5 - 9"
    using assms by (auto simp: is_response_buffer_valid_def split: option.splits)
  have "5 + unat (extract_message_size buff) \<le> length buff" using b by simp
  then obtain payload tl where p: "length payload = unat (extract_message_size buff)" "length payload < 2 ^ 32"
    and buff: "buff = buff ! 0 # from_uint32_to_big_endian (of_nat (length payload)) @ payload @ tl"
    by (rule frame_split)
  have "length buff = 5 + length payload + length tl" using arg_cong [OF buff, of length] by simp
  then have "9 \<le> length tl" using b(1,3) p(1) by simp
  then obtain num tl' where tl: "tl = num @ tl'" "length num = 8" "1 \<le> length tl'"
    using split_at [of 8 tl] by auto
  then obtain r rest where tl': "tl' = r # rest" by (cases tl') auto
  have "buff = res_frame (to_uint64_big_endian num) (response_result_of_byte r) payload @ rest"
    using buff b(2) tl tl' by (simp add: res_frame_def)
  then show thesis using that p(2) v response_result_of_byte_proper by blast
qed

text \<open>Bytes after a frame are ignored.\<close>

lemma req_frame_rest:
  assumes "length bs < 2 ^ 32"
  shows "is_request_buffer_valid (Some (req_frame n idx bs @ rest))"
    and "get_msg_number_req (Some (req_frame n idx bs @ rest)) = Inr n"
    and "get_msg_method_idx_req (Some (req_frame n idx bs @ rest)) = Inr idx"
proof -
  let ?f = "req_frame n idx bs @ rest"
  have ex: "unat (extract_message_size ?f) = length bs"
    using frame_fields(1) [OF assms refl] by (simp add: req_frame_def)
  have d: "drop (5 + length bs) ?f = from_uint64_big_endian n @ from_uint32_to_big_endian idx @ rest" "?f ! 0 = 0"
    by (simp_all add: req_frame_def)
  then have d8: "drop (5 + length bs + 8) ?f = from_uint32_to_big_endian idx @ rest"
    using drop_drop [of 8 "5 + length bs" ?f] by (simp add: add.commute)
  show v: "is_request_buffer_valid (Some ?f)"
    unfolding is_request_buffer_valid_def option.case ex using d(2) by simp
  show "get_msg_number_req (Some ?f) = Inr n"
    unfolding get_msg_number_req_def Let_def option.sel ex using v d(1) by simp
  show "get_msg_method_idx_req (Some ?f) = Inr idx"
    unfolding get_msg_method_idx_req_def Let_def option.sel ex using v d8 by simp
qed

lemma res_frame_rest:
  assumes "length bs < 2 ^ 32" "proper_response_result rc"
  shows "is_response_buffer_valid (Some (res_frame n rc bs @ rest))"
    and "get_msg_number_res (Some (res_frame n rc bs @ rest)) = Inr n"
    and "get_msg_response_code_res (Some (res_frame n rc bs @ rest)) = Inr rc"
proof -
  let ?f = "res_frame n rc bs @ rest"
  have ex: "unat (extract_message_size ?f) = length bs"
    using frame_fields(1) [OF assms(1) refl] by (simp add: res_frame_def)
  have d: "drop (5 + length bs) ?f = from_uint64_big_endian n @ byte_of_response_result rc # rest" "?f ! 0 = 1"
    by (simp_all add: res_frame_def)
  have d8: "?f ! (5 + length bs + 8) = byte_of_response_result rc"
    by (simp add: res_frame_def nth_append)
  show v: "is_response_buffer_valid (Some ?f)"
    unfolding is_response_buffer_valid_def option.case ex using d(2) by simp
  show "get_msg_number_res (Some ?f) = Inr n"
    unfolding get_msg_number_res_def Let_def option.sel ex using v d(1) by simp
  show "get_msg_response_code_res (Some ?f) = Inr rc"
    unfolding get_msg_response_code_res_def Let_def option.sel ex using v d8 assms(2) by simp
qed

text \<open>What a buffer must look like for an accessor to answer.\<close>

lemma request_accessors:
  "get_msg_number_req v = Inr n \<longleftrightarrow> (\<exists>idx bs rest. length bs < 2 ^ 32 \<and> v = Some (req_frame n idx bs @ rest))"
  "get_msg_method_idx_req v = Inr idx \<longleftrightarrow> (\<exists>n bs rest. length bs < 2 ^ 32 \<and> v = Some (req_frame n idx bs @ rest))"
  "get_msg_number_req v \<in> insert (Inl invalid_buffer) (range Inr)"
  "get_msg_method_idx_req v \<in> insert (Inl invalid_buffer) (range Inr)"
proof -
  have err: "\<not> is_request_buffer_valid v \<Longrightarrow> get_msg_number_req v = Inl invalid_buffer \<and> get_msg_method_idx_req v = Inl invalid_buffer"
    by (simp add: get_msg_number_req_def get_msg_method_idx_req_def)
  have ok: "\<exists>n idx bs rest. length bs < 2 ^ 32 \<and> v = Some (req_frame n idx bs @ rest)" if "is_request_buffer_valid v"
    using that by (rule valid_request_frame) blast
  show "get_msg_number_req v = Inr n \<longleftrightarrow> (\<exists>idx bs rest. length bs < 2 ^ 32 \<and> v = Some (req_frame n idx bs @ rest))"
    using err ok req_frame_rest(2) by (metis Inr_inject sum.distinct(1))
  show "get_msg_method_idx_req v = Inr idx \<longleftrightarrow> (\<exists>n bs rest. length bs < 2 ^ 32 \<and> v = Some (req_frame n idx bs @ rest))"
    using err ok req_frame_rest(3) by (metis Inr_inject sum.distinct(1))
  show "get_msg_number_req v \<in> insert (Inl invalid_buffer) (range Inr)"
    "get_msg_method_idx_req v \<in> insert (Inl invalid_buffer) (range Inr)"
    using err by (auto simp: get_msg_number_req_def get_msg_method_idx_req_def Let_def)
qed

lemma response_accessors:
  "get_msg_number_res v = Inr n \<longleftrightarrow>
     (\<exists>rc bs rest. length bs < 2 ^ 32 \<and> proper_response_result rc \<and> v = Some (res_frame n rc bs @ rest))"
  "get_msg_response_code_res v = Inr rc \<longleftrightarrow>
     (\<exists>n bs rest. length bs < 2 ^ 32 \<and> proper_response_result rc \<and> v = Some (res_frame n rc bs @ rest))"
  "get_msg_number_res v \<in> insert (Inl invalid_buffer) (range Inr)"
  "get_msg_response_code_res v \<in> insert (Inl invalid_buffer) (range Inr)"
proof -
  have err: "\<not> is_response_buffer_valid v \<Longrightarrow> get_msg_number_res v = Inl invalid_buffer \<and> get_msg_response_code_res v = Inl invalid_buffer"
    by (simp add: get_msg_number_res_def get_msg_response_code_res_def)
  have ok: "\<exists>n rc bs rest. length bs < 2 ^ 32 \<and> proper_response_result rc \<and> v = Some (res_frame n rc bs @ rest)"
    if "is_response_buffer_valid v" using that by (rule valid_response_frame) blast
  show "get_msg_number_res v = Inr n \<longleftrightarrow>
      (\<exists>rc bs rest. length bs < 2 ^ 32 \<and> proper_response_result rc \<and> v = Some (res_frame n rc bs @ rest))"
    using err ok res_frame_rest(2) by (metis Inr_inject sum.distinct(1))
  show "get_msg_response_code_res v = Inr rc \<longleftrightarrow>
      (\<exists>n bs rest. length bs < 2 ^ 32 \<and> proper_response_result rc \<and> v = Some (res_frame n rc bs @ rest))"
    using err ok res_frame_rest(3) by (metis Inr_inject sum.distinct(1))
  show "get_msg_number_res v \<in> insert (Inl invalid_buffer) (range Inr)"
    "get_msg_response_code_res v \<in> insert (Inl invalid_buffer) (range Inr)"
    using err by (auto simp: get_msg_number_res_def get_msg_response_code_res_def Let_def)
qed

lemma payload_accessor:
  "get_serialized_proto_message v = Inr bs \<longleftrightarrow>
     (\<exists>b rest. length bs < 2 ^ 32 \<and> v = Some (b # from_uint32_to_big_endian (of_nat (length bs)) @ bs @ rest))"
  "get_serialized_proto_message v \<in> insert (Inl invalid_buffer) (range Inr)"
proof -
  have fwd: "get_serialized_proto_message (Some (b # from_uint32_to_big_endian (of_nat (length bs)) @ bs @ rest)) = Inr bs"
    if "length bs < 2 ^ 32" for b rest
    using frame_fields [OF that refl] by (simp add: get_serialized_proto_message_def)
  have bwd: "\<exists>b rest. length bs < 2 ^ 32 \<and> v = Some (b # from_uint32_to_big_endian (of_nat (length bs)) @ bs @ rest)"
    if a: "get_serialized_proto_message v = Inr bs"
  proof -
    obtain buff where v: "v = Some buff" "5 \<le> length buff" "unat (extract_message_size buff) \<le> length buff - 5"
      using a by (auto simp: get_serialized_proto_message_def split: option.splits if_splits)
    have "5 + unat (extract_message_size buff) \<le> length buff" using v(2,3) by simp
    then obtain payload tl where p: "length payload < 2 ^ 32"
      "buff = buff ! 0 # from_uint32_to_big_endian (of_nat (length payload)) @ payload @ tl" by (rule frame_split)
    have "get_serialized_proto_message v = Inr payload"
      using frame_fields(1) [OF p(1) refl] frame_fields(2) [OF p(1) refl, of "buff ! 0" tl] unfolding v(1) by (subst p(2)) (simp add: get_serialized_proto_message_def)
    then have "payload = bs" using a by simp
    then show ?thesis using p v(1) by blast
  qed
  show "get_serialized_proto_message v = Inr bs \<longleftrightarrow>
     (\<exists>b rest. length bs < 2 ^ 32 \<and> v = Some (b # from_uint32_to_big_endian (of_nat (length bs)) @ bs @ rest))"
    using fwd bwd by blast
  show "get_serialized_proto_message v \<in> insert (Inl invalid_buffer) (range Inr)"
    by (auto simp: get_serialized_proto_message_def split: option.split)
qed

lemma create_errors:
  assumes "proto_sizes_ok P" "allocator_ok mem"
  shows "create_transfer_msg_req P mem n idx message = Inl e \<longleftrightarrow>
      unat MaxRequestProtoSize < serialized_size P message \<and> e = Runtime_error ''message is too big'' \<or>
      serialized_size P message \<le> unat MaxRequestProtoSize \<and>
      payload_of P message (serialized_size P message + s_req_trailer_bytes_count) = None \<and>
      e = Runtime_error ''failed to serialize message''"
    and "create_transfer_msg_res P mem n rc message = Inl e \<longleftrightarrow>
      unat MaxResponseProtoSize < serialized_size P message \<and> e = Runtime_error ''message is too big'' \<or>
      serialized_size P message \<le> unat MaxResponseProtoSize \<and>
      payload_of P message (serialized_size P message + s_res_trailer_bytes_count) = None \<and>
      e = Runtime_error ''failed to serialize message''"
proof -
  let ?k = "serialized_size P message"
  show "create_transfer_msg_req P mem n idx message = Inl e \<longleftrightarrow>
      unat MaxRequestProtoSize < ?k \<and> e = Runtime_error ''message is too big'' \<or>
      ?k \<le> unat MaxRequestProtoSize \<and> payload_of P message (?k + s_req_trailer_bytes_count) = None \<and>
      e = Runtime_error ''failed to serialize message''"
  proof (cases "?k \<le> unat MaxRequestProtoSize")
    case True
    then show ?thesis using create_req_closed [OF assms True] by (auto split: option.split)
  next
    case False
    then have "create_transfer_msg_req P mem n idx message = Inl (Runtime_error ''message is too big'')"
      by (simp add: create_transfer_msg_req_def Let_def)
    then show ?thesis using False by auto
  qed
  show "create_transfer_msg_res P mem n rc message = Inl e \<longleftrightarrow>
      unat MaxResponseProtoSize < ?k \<and> e = Runtime_error ''message is too big'' \<or>
      ?k \<le> unat MaxResponseProtoSize \<and> payload_of P message (?k + s_res_trailer_bytes_count) = None \<and>
      e = Runtime_error ''failed to serialize message''"
  proof (cases "?k \<le> unat MaxResponseProtoSize")
    case True
    then show ?thesis using create_res_closed [OF assms True] by (auto split: option.split)
  next
    case False
    then have "create_transfer_msg_res P mem n rc message = Inl (Runtime_error ''message is too big'')"
      by (simp add: create_transfer_msg_res_def Let_def)
    then show ?thesis using False by auto
  qed
qed


section \<open>Properties of the wire format\<close>

text \<open>
  A concrete message type for the witnesses: a message is its own serialised form.
\<close>

definition raw_proto :: "bytes proto" where
  "raw_proto = \<lparr>ByteSizeLong = length,
                SerializeToArray = (\<lambda>m cap. if length m \<le> cap then Some m else None),
                ParseFromArray = Some\<rparr>"

lemma raw_proto_ok [simp]: "proto_sizes_ok raw_proto" "proto_parses_back raw_proto"
  by (auto simp: proto_sizes_ok_def proto_parses_back_def raw_proto_def split: if_splits)

text \<open>
  C1: A request that is not too big and that the serialiser accepts is turned into a frame
  that fits the transfer limit, that the receiver accepts as a request, and from which it
  reads back the request number, the method index and the message.
\<close>

theorem transfer_req_roundtrip:
  assumes "proto_sizes_ok P" "proto_parses_back P" "allocator_ok mem"
    and "\<not> is_request_proto_too_big P m"
    and "SerializeToArray P m (ByteSizeLong P m + s_req_trailer_bytes_count) \<noteq> None"
  shows "\<exists>f bs. create_transfer_msg_req P mem n idx (Some m) = Inr f \<and>
     length f \<le> unat MaxTransferMessageSize \<and>
     is_request_buffer_valid (Some f) \<and>
     get_transfer_msg_type (Some f) = Inr Msg_req \<and>
     get_msg_number_req (Some f) = Inr n \<and>
     get_msg_method_idx_req (Some f) = Inr idx \<and>
     get_serialized_proto_message (Some f) = Inr bs \<and>
     ParseFromArray P bs = Some m"
proof -
  from assms(5) obtain bs where bs: "SerializeToArray P m (ByteSizeLong P m + 12) = Some bs"
    by auto
  have len: "length bs = ByteSizeLong P m" "ByteSizeLong P m \<le> unat MaxRequestProtoSize"
    using assms(1,4) bs by (auto simp: proto_sizes_ok_def is_request_proto_too_big_def)
  then have "create_transfer_msg_req P mem n idx (Some m) = Inr (req_frame n idx bs)"
    using assms(1,3) bs by (simp add: frame_simps serialized_size_def payload_of_def)
  moreover have "ParseFromArray P bs = Some m"
    using assms(2) bs unfolding proto_parses_back_def by blast
  moreover have "length bs < 2 ^ 32" using len by simp
  ultimately show ?thesis
    using len by (intro exI [of _ "req_frame n idx bs"] exI [of _ bs])
      (simp add: req_frame_parse)
qed

theorem transfer_req_roundtrip_witness:
  "\<exists>f bs. create_transfer_msg_req raw_proto dirty_memory 7 3 (Some [1, 2, 255]) = Inr f \<and>
     length f \<le> unat MaxTransferMessageSize \<and>
     is_request_buffer_valid (Some f) \<and>
     get_transfer_msg_type (Some f) = Inr Msg_req \<and>
     get_msg_number_req (Some f) = Inr 7 \<and>
     get_msg_method_idx_req (Some f) = Inr 3 \<and>
     get_serialized_proto_message (Some f) = Inr bs \<and>
     ParseFromArray raw_proto bs = Some [1, 2, 255]"
  by (rule transfer_req_roundtrip)
    (simp_all add: is_request_proto_too_big_def, simp_all add: raw_proto_def)

text \<open>
  C2: A response that is not too big and that the serialiser accepts is turned into a frame
  that fits the transfer limit, that the receiver accepts as a response, and from which it
  reads back the number, the result code and the message.
\<close>

theorem transfer_res_roundtrip:
  assumes "proto_sizes_ok P" "proto_parses_back P" "allocator_ok mem"
    and "\<not> is_response_proto_too_big P m" "proper_response_result rc"
    and "SerializeToArray P m (ByteSizeLong P m + s_res_trailer_bytes_count) \<noteq> None"
  shows "\<exists>f bs. create_transfer_msg_res P mem n rc (Some m) = Inr f \<and>
     length f \<le> unat MaxTransferMessageSize \<and>
     is_response_buffer_valid (Some f) \<and>
     get_transfer_msg_type (Some f) = Inr Msg_res \<and>
     get_msg_number_res (Some f) = Inr n \<and>
     get_msg_response_code_res (Some f) = Inr rc \<and>
     get_serialized_proto_message (Some f) = Inr bs \<and>
     ParseFromArray P bs = Some m"
proof -
  from assms(6) obtain bs where bs: "SerializeToArray P m (ByteSizeLong P m + 9) = Some bs"
    by auto
  have len: "length bs = ByteSizeLong P m" "ByteSizeLong P m \<le> unat MaxResponseProtoSize"
    using assms(1,4) bs by (auto simp: proto_sizes_ok_def is_response_proto_too_big_def)
  then have "create_transfer_msg_res P mem n rc (Some m) = Inr (res_frame n rc bs)"
    using assms(1,3) bs by (simp add: frame_simps serialized_size_def payload_of_def)
  moreover have "ParseFromArray P bs = Some m"
    using assms(2) bs unfolding proto_parses_back_def by blast
  moreover have "length bs < 2 ^ 32" using len by simp
  ultimately show ?thesis
    using len assms(5) by (intro exI [of _ "res_frame n rc bs"] exI [of _ bs])
      (simp add: res_frame_parse)
qed

theorem transfer_res_roundtrip_witness:
  "\<exists>f bs. create_transfer_msg_res raw_proto dirty_memory 9 Rs_canceled (Some [4, 5]) = Inr f \<and>
     length f \<le> unat MaxTransferMessageSize \<and>
     is_response_buffer_valid (Some f) \<and>
     get_transfer_msg_type (Some f) = Inr Msg_res \<and>
     get_msg_number_res (Some f) = Inr 9 \<and>
     get_msg_response_code_res (Some f) = Inr Rs_canceled \<and>
     get_serialized_proto_message (Some f) = Inr bs \<and>
     ParseFromArray raw_proto bs = Some [4, 5]"
  by (rule transfer_res_roundtrip)
    (simp_all add: is_response_proto_too_big_def, simp_all add: raw_proto_def)

text \<open>
  The request format is unambiguous: a buffer that is valid as a request and has no
  surplus bytes is exactly the frame of the number, index and payload that are read from it.
\<close>

theorem valid_request_is_frame:
  assumes "is_request_buffer_valid (Some buff)"
    and "length buff = unat (extract_message_size buff) + s_header_bytes_count
                       + s_req_trailer_bytes_count"
  shows "\<exists>n idx payload. buff = req_frame n idx payload \<and>
     get_msg_number_req (Some buff) = Inr n \<and>
     get_msg_method_idx_req (Some buff) = Inr idx \<and>
     get_serialized_proto_message (Some buff) = Inr payload"
proof -
  from assms obtain num idx payload where f: "length num = 8" "length idx = 4"
    "length payload = unat (extract_message_size buff)"
    "buff = 0 # from_uint32_to_big_endian (extract_message_size buff) @ payload @ num @ idx"
    by (elim valid_request_split) simp_all
  have "buff = req_frame (to_uint64_big_endian num) (to_uint32_to_big_endian idx) payload"
    using f by (simp add: req_frame_def)
  moreover have "length payload < 2 ^ 32"
    using f(3) unsigned_less [of "extract_message_size buff"] by simp
  ultimately show ?thesis
    using req_frame_parse by metis
qed

theorem valid_request_is_frame_witness:
  "\<exists>n idx payload. req_frame 1 2 [3] = req_frame n idx payload \<and>
     get_msg_number_req (Some (req_frame 1 2 [3])) = Inr n \<and>
     get_msg_method_idx_req (Some (req_frame 1 2 [3])) = Inr idx \<and>
     get_serialized_proto_message (Some (req_frame 1 2 [3])) = Inr payload"
  by (rule valid_request_is_frame)
    (simp_all add: req_frame_parse, simp add: req_frame_def)

text \<open>
  C3: Malformed input is answered by an exception, and nothing else is.  The number and the method index of a request are read exactly
  from buffers that begin with the frame of a request with these fields, whatever follows; the
  same holds for responses and for the payload.  Every other buffer, an empty one included,
  gives the exception for an invalid buffer.  No buffer is both a request and a response.  Creating a message fails exactly if the
  protocol buffer is over the limit or the serialiser refuses it, with the exception for each.
\<close>

theorem transfer_message_errors:
  assumes "proto_sizes_ok P" "allocator_ok mem"
  shows "(get_msg_number_req v = Inr n \<longleftrightarrow> (\<exists>idx bs rest. length bs < 2 ^ 32 \<and> v = Some (req_frame n idx bs @ rest))) \<and>
   (get_msg_method_idx_req v = Inr idx \<longleftrightarrow> (\<exists>n bs rest. length bs < 2 ^ 32 \<and> v = Some (req_frame n idx bs @ rest))) \<and>
   (get_msg_number_res v = Inr n \<longleftrightarrow>
     (\<exists>rc bs rest. length bs < 2 ^ 32 \<and> proper_response_result rc \<and> v = Some (res_frame n rc bs @ rest))) \<and>
   (get_msg_response_code_res v = Inr rc \<longleftrightarrow>
     (\<exists>n bs rest. length bs < 2 ^ 32 \<and> proper_response_result rc \<and> v = Some (res_frame n rc bs @ rest))) \<and>
   (get_serialized_proto_message v = Inr bs \<longleftrightarrow>
     (\<exists>b rest. length bs < 2 ^ 32 \<and> v = Some (b # from_uint32_to_big_endian (of_nat (length bs)) @ bs @ rest))) \<and>
   {get_msg_number_req v, get_msg_number_res v} \<subseteq> insert (Inl invalid_buffer) (range Inr) \<and>
   get_msg_method_idx_req v \<in> insert (Inl invalid_buffer) (range Inr) \<and>
   get_msg_response_code_res v \<in> insert (Inl invalid_buffer) (range Inr) \<and>
   get_serialized_proto_message v \<in> insert (Inl invalid_buffer) (range Inr) \<and>
   (get_transfer_msg_type v = Inl invalid_buffer \<longleftrightarrow> v = None \<or> v = Some []) \<and>
   \<not> (is_request_buffer_valid v \<and> is_response_buffer_valid v) \<and>
   (create_transfer_msg_req P mem n idx message = Inl e \<longleftrightarrow>
      unat MaxRequestProtoSize < serialized_size P message \<and> e = Runtime_error ''message is too big'' \<or>
      serialized_size P message \<le> unat MaxRequestProtoSize \<and>
      payload_of P message (serialized_size P message + s_req_trailer_bytes_count) = None \<and>
      e = Runtime_error ''failed to serialize message'') \<and>
   (create_transfer_msg_res P mem n rc message = Inl e \<longleftrightarrow>
      unat MaxResponseProtoSize < serialized_size P message \<and> e = Runtime_error ''message is too big'' \<or>
      serialized_size P message \<le> unat MaxResponseProtoSize \<and>
      payload_of P message (serialized_size P message + s_res_trailer_bytes_count) = None \<and>
      e = Runtime_error ''failed to serialize message'')"
proof -
  have "get_transfer_msg_type v = Inl invalid_buffer \<longleftrightarrow> v = None \<or> v = Some []"
    by (auto simp: get_transfer_msg_type_def split: option.split)
  moreover have "\<not> (is_request_buffer_valid v \<and> is_response_buffer_valid v)"
    by (auto simp: is_request_buffer_valid_def is_response_buffer_valid_def split: option.splits)
  moreover have "{get_msg_number_req v, get_msg_number_res v} \<subseteq> insert (Inl invalid_buffer) (range Inr)"
    using request_accessors(3) response_accessors(3) by blast
  ultimately show ?thesis
    by (intro conjI request_accessors response_accessors payload_accessor create_errors [OF assms])
qed

text \<open>A request with a surplus byte, a truncated one, and a message that is one byte too big.\<close>

theorem transfer_message_errors_witness:
  "get_msg_number_req (Some (req_frame 7 3 [1, 2] @ [0])) = Inr 7 \<and>
   get_msg_number_res (Some (req_frame 7 3 [1, 2] @ [0])) = Inl invalid_buffer \<and>
   create_transfer_msg_req raw_proto dirty_memory 7 3 (Some (replicate (Suc (unat MaxRequestProtoSize)) 0)) =
     Inl (Runtime_error ''message is too big'')"
proof -
  let ?v = "Some (req_frame 7 3 [1, 2] @ [0])"
  let ?m = "Some (replicate (Suc (unat MaxRequestProtoSize)) 0)" and ?e = "Runtime_error ''message is too big''"
  note e = transfer_message_errors [OF raw_proto_ok(1) dirty_memory_ok, where v = ?v and message = ?m and e = ?e]
  have "get_msg_number_res ?v \<noteq> Inr n" for n
    using e [of n, THEN conjunct2, THEN conjunct2, THEN conjunct1] by (simp add: req_frame_def res_frame_def)
  moreover have "get_msg_number_res ?v \<in> insert (Inl invalid_buffer) (range Inr)"
    using e [THEN conjunct2, THEN conjunct2, THEN conjunct2, THEN conjunct2, THEN conjunct2, THEN conjunct1] by simp
  moreover have "get_msg_number_req ?v = Inr 7"
    unfolding e [of 7, THEN conjunct1] by (intro exI [of _ 3] exI [of _ "[1, 2]"] exI [of _ "[0]"]) simp
  moreover have "unat MaxRequestProtoSize < serialized_size raw_proto ?m"
    by (simp add: serialized_size_def raw_proto_def del: replicate.simps)
  then have "create_transfer_msg_req raw_proto dirty_memory 7 3 ?m = Inl ?e"
    using e [of 7 3 Rs_ok "[]", THEN conjunct2, THEN conjunct2, THEN conjunct2, THEN conjunct2, THEN conjunct2, THEN conjunct2,
        THEN conjunct2, THEN conjunct2, THEN conjunct2, THEN conjunct2, THEN conjunct2, THEN conjunct1] by blast
  ultimately show ?thesis by blast
qed

end
