(* ===== verification/Pipe_Endpoint.thy ===== *)
theory Pipe_Endpoint
  imports Rpc_Types Byte_Buffer
begin

text \<open>
  The contract of \<open>rpc-lib/pipe/ipipe-endpoint.h\<close> as an interface.  An endpoint is a state
  with atomic steps that complete promises of read and write operations.  The laws of
  \<open>pipe_endpoint\<close> are requirements of the header: every operation is completed exactly once
  (the law of \<open>completion_system\<close>), an endpoint that has lost its connection does not get it
  back (requirement 8), and then an operation no longer times out: it is cancelled or it fails,
  unless its transfer had already finished (requirements 1, 4 and 5).  The extension
  \<open>prompt_pipe_endpoint\<close> is for endpoints without transfers in flight: after the loss of the
  connection nothing succeeds.
\<close>

text \<open>The values that complete a pipe operation; a failed read carries the empty buffer.\<close>

datatype pipe_result =
    Written pipe_op_res
  | Read pipe_op_res "bytes option"

fun op_res :: "pipe_result \<Rightarrow> pipe_op_res" where
  "op_res (Written r) = r"
| "op_res (Read r buf) = r"

text \<open>The messages that successful reads deliver, in the order of their completion.\<close>

fun delivered :: "pipe_result completion list \<Rightarrow> bytes list" where
  "delivered [] = []"
| "delivered ((p, Read Op_success (Some msg)) # os) = msg # delivered os"
| "delivered (_ # os) = delivered os"

lemma delivered_append [simp]: "delivered (xs @ ys) = delivered xs @ delivered ys"
  by (induction xs rule: delivered.induct) simp_all

lemma delivered_failed [simp]:
  "r \<noteq> Op_success \<Longrightarrow> delivered (map (\<lambda>p. (f p, Read r b)) ps) = []"
  by (induction ps) (cases r; simp)+

lemma delivered_none:
  "\<forall>c \<in> set os. op_res (snd c) \<noteq> Op_success \<Longrightarrow> delivered os = []"
  by (induction os rule: delivered.induct) auto

locale pipe_endpoint = completion_system step inv pend opn
  for step :: "'s \<Rightarrow> 'e \<Rightarrow> 's \<times> pipe_result completion list"
    and inv :: "'s \<Rightarrow> bool"
    and pend :: "'s \<Rightarrow> promise_id multiset"
    and opn :: "'s \<Rightarrow> 'e \<Rightarrow> promise_id multiset" +
  fixes connected :: "'s \<Rightarrow> bool"
  assumes no_reconnect: "inv s \<Longrightarrow> \<not> connected s \<Longrightarrow> \<not> connected (fst (step s e))"
    and disconnected_no_timeout: "inv s \<Longrightarrow> \<not> connected s \<Longrightarrow> (p, r) \<in> set (snd (step s e)) \<Longrightarrow>
      op_res r \<noteq> Op_timeout"
begin

lemma disconnected_run:
  "inv s \<Longrightarrow> \<not> connected s \<Longrightarrow> \<not> connected (run_state step s es)"
proof (induction es arbitrary: s)
  case Nil
  then show ?case by simp
next
  case (Cons e es)
  then show ?case using inv_step no_reconnect by simp
qed

text \<open>What holds of every step after the loss of the connection holds of all later results.\<close>

lemma disconnected_output_run:
  assumes "\<And>s e p r. inv s \<Longrightarrow> \<not> connected s \<Longrightarrow> (p, r) \<in> set (snd (step s e)) \<Longrightarrow> Q r"
    and "inv s" "\<not> connected s" "(p, r) \<in> set (run_output step s es)"
  shows "Q r"
  using assms(2-)
proof (induction es arbitrary: s)
  case Nil
  then show ?case by simp
next
  case (Cons e es)
  from Cons.prems(3) consider "(p, r) \<in> set (snd (step s e))"
    | "(p, r) \<in> set (run_output step (fst (step s e)) es)" by auto
  then show ?case
  proof cases
    case 1
    then show ?thesis using Cons.prems assms(1) by blast
  next
    case 2
    then show ?thesis using Cons.prems Cons.IH inv_step no_reconnect by blast
  qed
qed

lemma disconnected_never_times_out:
  "inv s \<Longrightarrow> \<not> connected s \<Longrightarrow> (p, r) \<in> set (run_output step s es) \<Longrightarrow> op_res r \<noteq> Op_timeout"
  by (rule disconnected_output_run [where Q = "\<lambda>r. op_res r \<noteq> Op_timeout"])
    (rule disconnected_no_timeout)

end

locale prompt_pipe_endpoint = pipe_endpoint +
  assumes disconnected_no_success: "inv s \<Longrightarrow> \<not> connected s \<Longrightarrow> (p, r) \<in> set (snd (step s e)) \<Longrightarrow>
      op_res r \<noteq> Op_success"
begin

lemma disconnected_results_run:
  assumes "inv s" "\<not> connected s" "(p, r) \<in> set (run_output step s es)"
  shows "op_res r \<in> {Op_canceled, Op_failed}"
proof -
  have "op_res r \<noteq> Op_success"
    using disconnected_no_success assms
    by (rule disconnected_output_run [where Q = "\<lambda>r. op_res r \<noteq> Op_success"])
  moreover have "op_res r \<noteq> Op_timeout"
    using assms by (rule disconnected_never_times_out)
  ultimately show ?thesis by (cases "op_res r") simp_all
qed

lemma disconnected_delivers_nothing:
  assumes "inv s" "\<not> connected s"
  shows "delivered (run_output step s es) = []"
proof (rule delivered_none, rule ballI)
  fix c assume "c \<in> set (run_output step s es)"
  then have "op_res (snd c) \<in> {Op_canceled, Op_failed}"
    using disconnected_results_run [OF assms, of "fst c" "snd c"] by simp
  then show "op_res (snd c) \<noteq> Op_success" by auto
qed

end

end
