(* ===== verification/Timers.thy ===== *)
theory Timers
  imports Common_Prelude
begin

text \<open>
  The timers of \<open>common-lib/timer\<close>.  The waits of \<open>boost::asio::steady_timer\<close> follow their
  documentation: a wait that has not expired when it is cancelled completes with an error, a
  wait that has expired completes without one even if it is cancelled before its handler runs.
  Which enabled handler runs when is left open: a run is any sequence of the events below.
\<close>

section \<open>Several one-shot timers\<close>

datatype wait_state = Waiting | Aborted | Expired

record 'cb timer_entry =
  te_deadline :: time_point
  te_state :: wait_state
  te_callback :: 'cb

record 'cb multiple_timer =
  m_next_id :: timer_id
  m_timers_map :: "timer_id \<rightharpoonup> 'cb timer_entry"

definition multiple_timer_init :: "'cb multiple_timer" where
  "multiple_timer_init = \<lparr>m_next_id = 0, m_timers_map = Map.empty\<rparr>"

definition multiple_timer_start ::
  "time_point \<Rightarrow> 'cb \<Rightarrow> nat \<Rightarrow> 'cb multiple_timer \<Rightarrow> timer_id \<times> 'cb multiple_timer"
where
  "multiple_timer_start now callback timeout t =
     (let timer_id = m_next_id t in
      (timer_id,
       t\<lparr>m_next_id := Suc timer_id,
         m_timers_map := (m_timers_map t)(timer_id \<mapsto>
           \<lparr>te_deadline = now + timeout, te_state = Waiting, te_callback = callback\<rparr>)\<rparr>))"

text \<open>\<open>steady_timer::cancel\<close>: only a wait that has not expired is aborted.\<close>

definition abort_wait :: "'cb timer_entry \<Rightarrow> 'cb timer_entry" where
  "abort_wait e = (if te_state e = Waiting then e\<lparr>te_state := Aborted\<rparr> else e)"

definition multiple_timer_cancel :: "timer_id \<Rightarrow> 'cb multiple_timer \<Rightarrow> 'cb multiple_timer" where
  "multiple_timer_cancel i t =
     (case m_timers_map t i of
        None \<Rightarrow> t
      | Some e \<Rightarrow> t\<lparr>m_timers_map := (m_timers_map t)(i \<mapsto> abort_wait e)\<rparr>)"

definition multiple_timer_cancel_all :: "'cb multiple_timer \<Rightarrow> 'cb multiple_timer" where
  "multiple_timer_cancel_all t =
     t\<lparr>m_timers_map := (\<lambda>i. map_option abort_wait (m_timers_map t i))\<rparr>"

text \<open>The clock reaches the deadline of a wait.\<close>

definition multiple_timer_expire :: "time_point \<Rightarrow> timer_id \<Rightarrow> 'cb multiple_timer \<Rightarrow> 'cb multiple_timer"
where
  "multiple_timer_expire now i t =
     (case m_timers_map t i of
        None \<Rightarrow> t
      | Some e \<Rightarrow>
          if te_state e = Waiting \<and> te_deadline e \<le> now
          then t\<lparr>m_timers_map := (m_timers_map t)(i \<mapsto> e\<lparr>te_state := Expired\<rparr>)\<rparr>
          else t)"

text \<open>
  The handler of \<open>async_wait\<close>: it erases the timer and, without an error code, calls the
  callback (whose exceptions it swallows).  The second component is the callback to call.
\<close>

definition multiple_timer_handler ::
  "timer_id \<Rightarrow> 'cb multiple_timer \<Rightarrow> 'cb multiple_timer \<times> 'cb option"
where
  "multiple_timer_handler i t =
     (case m_timers_map t i of
        None \<Rightarrow> (t, None)
      | Some e \<Rightarrow>
          (case te_state e of
             Waiting \<Rightarrow> (t, None)
           | Aborted \<Rightarrow> (t\<lparr>m_timers_map := (m_timers_map t)(i := None)\<rparr>, None)
           | Expired \<Rightarrow> (t\<lparr>m_timers_map := (m_timers_map t)(i := None)\<rparr>, Some (te_callback e))))"

definition get_active_timers_count :: "'cb multiple_timer \<Rightarrow> nat" where
  "get_active_timers_count t = card (dom (m_timers_map t))"

datatype 'cb timer_event =
    Timer_start time_point 'cb nat
  | Timer_cancel timer_id
  | Timer_cancel_all
  | Timer_expire time_point timer_id
  | Timer_handler timer_id

text \<open>Completion of a wait: with the callback that is called, or without one when aborted.\<close>

fun timer_step :: "'cb multiple_timer \<Rightarrow> 'cb timer_event \<Rightarrow>
  'cb multiple_timer \<times> 'cb option completion list"
where
  "timer_step t (Timer_start now cb timeout) = (snd (multiple_timer_start now cb timeout t), [])"
| "timer_step t (Timer_cancel i) = (multiple_timer_cancel i t, [])"
| "timer_step t Timer_cancel_all = (multiple_timer_cancel_all t, [])"
| "timer_step t (Timer_expire now i) = (multiple_timer_expire now i t, [])"
| "timer_step t (Timer_handler i) =
     (let (t', cb) = multiple_timer_handler i t
      in (t', if m_timers_map t' i = m_timers_map t i then [] else [(i, cb)]))"


section \<open>A periodic timer\<close>

datatype callback_ret = Continue | Abort

text \<open>
  At most one wait is outstanding: it waits, is aborted, has expired, or its handler is
  executing the user's callback outside the lock.
\<close>

datatype period_wait = No_wait | Period_waiting | Period_aborted | Period_expired | In_callback

record 'cb periodic_timer =
  m_is_active :: bool
  m_is_stopped :: bool
  m_current_periods_count :: nat
  m_total_periods_count :: nat
  m_stop_callbacks :: "'cb list"
  m_wait :: period_wait

definition periodic_timer_init :: "'cb periodic_timer" where
  "periodic_timer_init =
     \<lparr>m_is_active = False, m_is_stopped = False, m_current_periods_count = 0,
      m_total_periods_count = 0, m_stop_callbacks = [], m_wait = No_wait\<rparr>"

text \<open>What a step makes visible: the period callback runs, a stop callback is posted.\<close>

datatype 'cb periodic_out = Period_callback | Posted 'cb

definition start_period :: "'cb periodic_timer \<Rightarrow> 'cb periodic_timer" where
  "start_period t = t\<lparr>m_wait := Period_waiting\<rparr>"

definition deactivate_timer :: "'cb periodic_timer \<Rightarrow> 'cb periodic_timer \<times> 'cb periodic_out list" where
  "deactivate_timer t =
     (t\<lparr>m_is_active := False, m_stop_callbacks := [], m_wait := No_wait\<rparr>,
      map Posted (m_stop_callbacks t))"

definition periodic_timer_start :: "nat \<Rightarrow> 'cb periodic_timer \<Rightarrow> 'cb periodic_timer or_exn" where
  "periodic_timer_start total_periods t =
     (if m_is_active t then Inl (Logic_error ''periodic timer already running'')
      else Inr (start_period
        (t\<lparr>m_is_active := True, m_is_stopped := False, m_current_periods_count := 0,
           m_total_periods_count := total_periods\<rparr>)))"

definition stop_async :: "'cb option \<Rightarrow> 'cb periodic_timer \<Rightarrow> 'cb periodic_timer \<times> 'cb periodic_out list"
where
  "stop_async callback t =
     (if \<not> m_is_active t
      then (t, case callback of None \<Rightarrow> [] | Some cb \<Rightarrow> [Posted cb])
      else
        let t = (case callback of
                   None \<Rightarrow> t
                 | Some cb \<Rightarrow> t\<lparr>m_stop_callbacks := m_stop_callbacks t @ [cb]\<rparr>)
        in (if \<not> m_is_stopped t
            then t\<lparr>m_wait := (if m_wait t = Period_waiting then Period_aborted else m_wait t),
                   m_is_stopped := True\<rparr>
            else t, []))"

text \<open>The clock reaches the end of the period.\<close>

definition period_expire :: "'cb periodic_timer \<Rightarrow> 'cb periodic_timer" where
  "period_expire t = (if m_wait t = Period_waiting then t\<lparr>m_wait := Period_expired\<rparr> else t)"

text \<open>
  The handler of the wait: with an error it deactivates; otherwise it calls the callback, and
  in a second critical section counts the period and starts the next one or deactivates.  A
  callback that throws counts as \<open>Abort\<close>.
\<close>

definition period_handler :: "'cb periodic_timer \<Rightarrow> 'cb periodic_timer \<times> 'cb periodic_out list" where
  "period_handler t =
     (case m_wait t of
        Period_aborted \<Rightarrow> deactivate_timer t
      | Period_expired \<Rightarrow> (t\<lparr>m_wait := In_callback\<rparr>, [Period_callback])
      | _ \<Rightarrow> (t, []))"

definition period_callback_done ::
  "callback_ret \<Rightarrow> 'cb periodic_timer \<Rightarrow> 'cb periodic_timer \<times> 'cb periodic_out list"
where
  "period_callback_done ret t =
     (if m_wait t \<noteq> In_callback then (t, [])
      else
        let t = t\<lparr>m_current_periods_count := Suc (m_current_periods_count t)\<rparr> in
        if ret = Continue \<and> \<not> m_is_stopped t \<and>
           m_current_periods_count t < m_total_periods_count t
        then (start_period t, [])
        else deactivate_timer t)"

datatype 'cb periodic_event =
    Period_start nat
  | Period_stop "'cb option"
  | Period_expires
  | Period_handler
  | Period_callback_done callback_ret

fun periodic_step :: "'cb periodic_timer \<Rightarrow> 'cb periodic_event \<Rightarrow>
  'cb periodic_timer \<times> 'cb periodic_out list"
where
  "periodic_step t (Period_start n) =
     (case periodic_timer_start n t of Inl e \<Rightarrow> (t, []) | Inr t' \<Rightarrow> (t', []))"
| "periodic_step t (Period_stop cb) = stop_async cb t"
| "periodic_step t Period_expires = (period_expire t, [])"
| "periodic_step t Period_handler = period_handler t"
| "periodic_step t (Period_callback_done ret) = period_callback_done ret t"


section \<open>Every wait is handled exactly once\<close>

definition timer_inv :: "'cb multiple_timer \<Rightarrow> bool" where
  "timer_inv t \<longleftrightarrow> finite (dom (m_timers_map t)) \<and> (\<forall>i \<in> dom (m_timers_map t). i < m_next_id t)"

definition timer_pending :: "'cb multiple_timer \<Rightarrow> timer_id multiset" where
  "timer_pending t = mset_set (dom (m_timers_map t))"

fun timer_opened :: "'cb multiple_timer \<Rightarrow> 'cb timer_event \<Rightarrow> timer_id multiset" where
  "timer_opened t (Timer_start now cb timeout) = {#m_next_id t#}"
| "timer_opened t _ = {#}"

lemmas multiple_timer_defs =
  multiple_timer_start_def multiple_timer_cancel_def multiple_timer_cancel_all_def
  multiple_timer_expire_def multiple_timer_handler_def

lemma cancel_dom [simp]:
  "dom (m_timers_map (multiple_timer_cancel i t)) = dom (m_timers_map t)"
  "dom (m_timers_map (multiple_timer_cancel_all t)) = dom (m_timers_map t)"
  "dom (m_timers_map (multiple_timer_expire now i t)) = dom (m_timers_map t)"
  "m_next_id (multiple_timer_cancel i t) = m_next_id t"
  "m_next_id (multiple_timer_cancel_all t) = m_next_id t"
  "m_next_id (multiple_timer_expire now i t) = m_next_id t"
  by (auto simp: multiple_timer_defs split: option.splits)

lemma timer_inv_init: "timer_inv multiple_timer_init"
  by (simp add: timer_inv_def multiple_timer_init_def)

lemma timer_inv_step: "timer_inv t \<Longrightarrow> timer_inv (fst (timer_step t e))"
  by (cases e)
    (auto simp: timer_inv_def multiple_timer_start_def multiple_timer_handler_def Let_def
      less_Suc_eq split: option.splits wait_state.splits)

lemma timer_conserve:
  assumes "timer_inv t"
  shows "timer_pending (fst (timer_step t e)) + mset (map fst (snd (timer_step t e))) =
         timer_pending t + timer_opened t e"
proof (cases e)
  case (Timer_start now cb timeout)
  then have "m_next_id t \<notin> dom (m_timers_map t)" "finite (dom (m_timers_map t))"
    using assms by (auto simp: timer_inv_def)
  then show ?thesis
    using Timer_start by (simp add: timer_pending_def multiple_timer_start_def Let_def)
next
  case (Timer_handler i)
  show ?thesis
  proof (cases "m_timers_map t i")
    case None
    then show ?thesis using Timer_handler by (simp add: multiple_timer_handler_def)
  next
    case (Some en)
    then have "mset_set (dom (m_timers_map t)) = add_mset i (mset_set (dom (m_timers_map t) - {i}))"
      using assms by (intro mset_set.remove) (auto simp: timer_inv_def)
    then show ?thesis
      using Timer_handler Some
      by (cases "te_state en") (simp_all add: multiple_timer_handler_def timer_pending_def)
  qed
qed (simp_all add: timer_pending_def)

interpretation mt: completion_system timer_step timer_inv timer_pending timer_opened
  by (unfold_locales, erule timer_inv_step, erule timer_conserve)


text \<open>A timer whose wait was aborted: it is gone or still waits for its handler.\<close>

definition timer_aborted :: "timer_id \<Rightarrow> 'cb multiple_timer \<Rightarrow> bool" where
  "timer_aborted i t \<longleftrightarrow> i < m_next_id t \<and>
     (case m_timers_map t i of None \<Rightarrow> True | Some e \<Rightarrow> te_state e = Aborted)"

lemma timer_aborted_step: "timer_aborted i t \<Longrightarrow> timer_aborted i (fst (timer_step t e))"
  by (cases e)
    (auto simp: timer_aborted_def multiple_timer_defs abort_wait_def Let_def
      split: option.splits wait_state.splits)

interpretation mt_aborted: event_system timer_step "timer_aborted i" for i
  by (unfold_locales, erule timer_aborted_step)

lemma timer_aborted_silent:
  "timer_aborted i t \<Longrightarrow> (j, cb) \<in> set (snd (timer_step t e)) \<Longrightarrow> j = i \<Longrightarrow> cb = None"
  by (cases e)
    (auto simp: timer_aborted_def multiple_timer_handler_def Let_def
      split: option.splits wait_state.splits if_splits)

lemma cancel_aborts:
  "m_timers_map t i = Some e \<Longrightarrow> te_state e = Waiting \<Longrightarrow> timer_inv t \<Longrightarrow>
   timer_aborted i (multiple_timer_cancel i t)"
  by (auto simp: timer_aborted_def multiple_timer_cancel_def abort_wait_def timer_inv_def)

text \<open>
  For every interleaving of starts, cancellations, expirations and handlers, the handler of
  every started timer has run exactly once or the timer is still in the map.
\<close>

theorem timers_handled_exactly_once:
  "mset (map fst (run_output timer_step multiple_timer_init es)) +
     timer_pending (run_state timer_step multiple_timer_init es) =
   run_opened timer_step timer_opened multiple_timer_init es \<and>
   get_active_timers_count (run_state timer_step multiple_timer_init es) =
   size (timer_pending (run_state timer_step multiple_timer_init es))"
proof -
  have "timer_pending multiple_timer_init = {#}"
    by (simp add: timer_pending_def multiple_timer_init_def)
  then show ?thesis
    using mt.conserve_run [OF timer_inv_init, of es]
    by (simp add: get_active_timers_count_def timer_pending_def add.commute)
qed

text \<open>
  Once a timer is cancelled before it expires, its callback is not called in any
  continuation.
\<close>

theorem cancelled_timer_is_silent:
  assumes "timer_inv t" "m_timers_map t i = Some e" "te_state e = Waiting"
  shows "(i, Some cb) \<notin> set (run_output timer_step (multiple_timer_cancel i t) es)"
proof
  assume in_out: "(i, Some cb) \<in> set (run_output timer_step (multiple_timer_cancel i t) es)"
  have "timer_aborted i (multiple_timer_cancel i t)"
    using assms by (intro cancel_aborts) simp_all
  then have "fst (i, Some cb) = i \<longrightarrow> snd (i, Some cb) = None"
    using in_out
    by (rule mt_aborted.output_run [where P = "\<lambda>c. fst c = i \<longrightarrow> snd c = None", rotated 1])
      (metis prod.collapse timer_aborted_silent)
  then show False by simp
qed

theorem cancelled_timer_is_silent_witness:
  "(0, Some True) \<notin> set (run_output timer_step
     (multiple_timer_cancel 0 (snd (multiple_timer_start 5 True 10 multiple_timer_init)))
     [Timer_expire 20 0, Timer_handler 0])"
  by (rule cancelled_timer_is_silent
        [where e = "\<lparr>te_deadline = 15, te_state = Waiting, te_callback = True\<rparr>"])
    (simp_all add: timer_inv_def multiple_timer_start_def multiple_timer_init_def Let_def)


section \<open>The periodic timer\<close>

definition periodic_inv :: "'cb periodic_timer \<Rightarrow> bool" where
  "periodic_inv t \<longleftrightarrow>
     (m_is_active t \<longleftrightarrow> m_wait t \<noteq> No_wait) \<and>
     (\<not> m_is_active t \<longrightarrow> m_stop_callbacks t = []) \<and>
     (m_is_active t \<longrightarrow> m_current_periods_count t < max 1 (m_total_periods_count t)) \<and>
     (m_wait t = Period_aborted \<longrightarrow> m_is_stopped t) \<and>
     (m_wait t = Period_waiting \<longrightarrow> \<not> m_is_stopped t)"

text \<open>How many more times the period callback can run before the next start.\<close>

definition callback_budget :: "'cb periodic_timer \<Rightarrow> nat" where
  "callback_budget t =
     (if \<not> m_is_active t then 0
      else if m_is_stopped t then (if m_wait t = Period_expired then 1 else 0)
      else max 1 (m_total_periods_count t) - m_current_periods_count t
           - (if m_wait t = In_callback then 1 else 0))"

lemmas periodic_defs =
  periodic_timer_start_def stop_async_def period_expire_def period_handler_def
  period_callback_done_def start_period_def deactivate_timer_def

lemma periodic_inv_init: "periodic_inv periodic_timer_init"
  by (simp add: periodic_inv_def periodic_timer_init_def)

lemma periodic_inv_step: "periodic_inv t \<Longrightarrow> periodic_inv (fst (periodic_step t e))"
  by (cases e)
    (auto simp: periodic_inv_def periodic_defs Let_def split: option.splits period_wait.splits)

interpretation pt: event_system periodic_step periodic_inv
  by (unfold_locales, erule periodic_inv_step)

fun is_period_callback :: "'cb periodic_out \<Rightarrow> bool" where
  "is_period_callback Period_callback = True"
| "is_period_callback (Posted cb) = False"

fun is_period_start :: "'cb periodic_event \<Rightarrow> bool" where
  "is_period_start (Period_start n) = True"
| "is_period_start _ = False"

lemma budget_step:
  "periodic_inv t \<Longrightarrow> \<not> is_period_start e \<Longrightarrow>
   length (filter is_period_callback (snd (periodic_step t e)))
     + callback_budget (fst (periodic_step t e)) \<le> callback_budget t"
  by (cases e)
    (auto simp: periodic_inv_def callback_budget_def periodic_defs Let_def filter_map o_def
      split: option.splits period_wait.splits)

lemma budget_run:
  "periodic_inv t \<Longrightarrow> \<forall>e \<in> set es. \<not> is_period_start e \<Longrightarrow>
   length (filter is_period_callback (run_output periodic_step t es)) \<le> callback_budget t"
proof (induction es arbitrary: t)
  case Nil
  then show ?case by simp
next
  case (Cons e es)
  let ?t = "fst (periodic_step t e)"
  have "length (filter is_period_callback (run_output periodic_step ?t es)) \<le> callback_budget ?t"
    using Cons.prems periodic_inv_step by (intro Cons.IH) auto
  moreover have "length (filter is_period_callback (snd (periodic_step t e))) + callback_budget ?t
      \<le> callback_budget t"
    using Cons.prems by (intro budget_step) simp_all
  ultimately show ?case by simp
qed

text \<open>One period that nobody disturbs.\<close>

definition full_period :: "'cb periodic_event list" where
  "full_period = [Period_expires, Period_handler, Period_callback_done Continue]"

lemma full_period_run:
  assumes "m_is_active t" "m_wait t = Period_waiting" "\<not> m_is_stopped t" "m_stop_callbacks t = []"
  shows "run_output periodic_step t full_period = [Period_callback] \<and>
    (if Suc (m_current_periods_count t) < m_total_periods_count t
     then run_state periodic_step t full_period = t\<lparr>m_current_periods_count := Suc (m_current_periods_count t)\<rparr>
     else \<not> m_is_active (run_state periodic_step t full_period) \<and> m_wait (run_state periodic_step t full_period) = No_wait)"
  using assms by (simp add: full_period_def periodic_defs Let_def run.simps)

lemma full_periods_idle:
  "m_wait t = No_wait \<Longrightarrow> run periodic_step t (concat (replicate k full_period)) = (t, [])"
proof (induction k)
  case (Suc k)
  have "run periodic_step t full_period = (t, [])"
    using Suc.prems by (simp add: full_period_def periodic_defs run.simps)
  then show ?case using Suc by (simp add: prod_eq_iff run_append_state run_append_output)
qed simp

lemma full_periods_run:
  "m_is_active t \<Longrightarrow> m_wait t = Period_waiting \<Longrightarrow> \<not> m_is_stopped t \<Longrightarrow> m_stop_callbacks t = [] \<Longrightarrow>
   m_current_periods_count t < max 1 (m_total_periods_count t) \<Longrightarrow>
   run_output periodic_step t (concat (replicate k full_period)) =
     replicate (min k (max 1 (m_total_periods_count t) - m_current_periods_count t)) Period_callback \<and>
   (m_is_active (run_state periodic_step t (concat (replicate k full_period))) \<longleftrightarrow>
     k < max 1 (m_total_periods_count t) - m_current_periods_count t)"
proof (induction k arbitrary: t)
  case (Suc k)
  note r = full_period_run [OF Suc.prems(1-4)]
  let ?t = "run_state periodic_step t full_period"
  show ?case
  proof (cases "Suc (m_current_periods_count t) < m_total_periods_count t")
    case True
    then have t: "?t = t\<lparr>m_current_periods_count := Suc (m_current_periods_count t)\<rparr>" using r by simp
    have "run_output periodic_step ?t (concat (replicate k full_period)) =
        replicate (min k (max 1 (m_total_periods_count ?t) - m_current_periods_count ?t)) Period_callback \<and>
      (m_is_active (run_state periodic_step ?t (concat (replicate k full_period))) \<longleftrightarrow>
        k < max 1 (m_total_periods_count ?t) - m_current_periods_count ?t)"
      by (rule Suc.IH) (use Suc.prems True in \<open>simp_all add: t\<close>)
    moreover have "max 1 (m_total_periods_count t) - m_current_periods_count t =
        Suc (max 1 (m_total_periods_count ?t) - m_current_periods_count ?t)" using True by (simp add: t)
    ultimately show ?thesis using r by (simp add: run_append_state run_append_output)
  next
    case False
    then have "max 1 (m_total_periods_count t) - m_current_periods_count t = 1" using Suc.prems(5) by linarith
    moreover have "run periodic_step ?t (concat (replicate k full_period)) = (?t, [])" "\<not> m_is_active ?t"
      using r False by (auto intro: full_periods_idle)
    ultimately show ?thesis using r by (simp add: run_append_state run_append_output)
  qed
qed simp

text \<open>
  C7: From any reachable state, the callback of a started periodic timer runs at most the
  requested number of times, where zero counts as one, and at most once more after
  \<open>stop_async\<close>, whatever the interleaving of expirations, handlers and further stops.  If nothing disturbs it, it runs once
  in each period until this number is reached, and then the timer is inactive.
\<close>

theorem periodic_callback_bounds:
  assumes "t = run_state periodic_step periodic_timer_init es0"
    and "\<forall>e \<in> set es. \<not> is_period_start e"
  shows "(case periodic_timer_start n t of
            Inl x \<Rightarrow> m_is_active t
          | Inr t' \<Rightarrow> \<not> m_is_active t \<and>
              length (filter is_period_callback (run_output periodic_step t' es)) \<le> max 1 n \<and>
              run_output periodic_step t' (concat (replicate k full_period)) = replicate (min k (max 1 n)) Period_callback \<and>
              (m_is_active (run_state periodic_step t' (concat (replicate k full_period))) \<longleftrightarrow> k < max 1 n)) \<and>
         length (filter is_period_callback
           (run_output periodic_step (fst (stop_async cb t)) es)) \<le> 1"
proof -
  have inv: "periodic_inv t"
    unfolding assms(1) by (rule pt.inv_run [OF periodic_inv_init])
  have "length (filter is_period_callback (run_output periodic_step t' es)) \<le> max 1 n \<and>
      run_output periodic_step t' (concat (replicate k full_period)) = replicate (min k (max 1 n)) Period_callback \<and>
      (m_is_active (run_state periodic_step t' (concat (replicate k full_period))) \<longleftrightarrow> k < max 1 n)"
    if t': "periodic_timer_start n t = Inr t'" for t'
  proof -
    have "periodic_inv t'" "callback_budget t' = max 1 n"
      using periodic_inv_step [OF inv, of "Period_start n"] t'
      by (auto simp: periodic_timer_start_def start_period_def callback_budget_def
          split: if_splits)
    moreover have "m_is_active t'" "m_wait t' = Period_waiting" "\<not> m_is_stopped t'" "m_stop_callbacks t' = []"
      "m_total_periods_count t' = n" "m_current_periods_count t' = 0"
      using t' inv by (auto simp: periodic_timer_start_def start_period_def periodic_inv_def split: if_splits)
    ultimately show ?thesis using budget_run [of t' es] full_periods_run [of t' k] assms(2) by simp
  qed
  moreover have "length (filter is_period_callback
      (run_output periodic_step (fst (stop_async cb t)) es)) \<le> 1"
  proof -
    have "periodic_inv (fst (stop_async cb t))"
      using periodic_inv_step [OF inv, of "Period_stop cb"] by simp
    moreover have "callback_budget (fst (stop_async cb t)) \<le> 1"
      using inv by (auto simp: callback_budget_def stop_async_def Let_def periodic_inv_def
          split: option.splits)
    ultimately show ?thesis using budget_run [of _ es] assms(2) by (meson le_trans)
  qed
  ultimately show ?thesis
    by (auto simp: periodic_timer_start_def)
qed

theorem periodic_callback_bounds_witness:
  "length (filter is_period_callback (run_output periodic_step
     (fst (stop_async None (run_state periodic_step periodic_timer_init
        [Period_start 3, Period_expires :: nat periodic_event])))
     [Period_handler, Period_callback_done Continue, Period_handler])) \<le> 1"
  by (rule periodic_callback_bounds [OF refl, THEN conjunct2]) simp

end
