(* ===== verification/Mem_Buffer.thy ===== *)
theory Mem_Buffer
  imports Pipe_Endpoint Timers "HOL-Library.Sublist"
begin

text \<open>
  One direction of the in-process pipe, \<open>rpc-lib/pipe/memory-pipe/mem-buffer.cpp\<close>.  Each step
  is one critical section of \<open>m_mtx\<close> or one task of a strand; the strands are explicit FIFO
  lists, because a posted task runs later and other steps interleave with it.  A write task has
  two critical sections: the head of the write strand is first the write itself and then the
  resolution of a waiting read.
\<close>

record read_promise_data =
  rp_id :: nat
  rp_timer_id :: "timer_id option"
  rp_promise :: promise_id

datatype write_task =
    W_write promise_id bytes "time_point option"
  | W_resolve

datatype read_task = R_read promise_id "nat option" bool

record mem_buffer =
  m_is_valid :: bool
  m_read_invalidation_result :: pipe_op_res
  m_queue :: "bytes list"
  m_read_promises :: "read_promise_data list"
  m_next_read_promise_id :: nat
  m_timer :: "nat multiple_timer"
  m_read_strand :: "read_task list"
  m_write_strand :: "write_task list"

definition mem_buffer_create :: mem_buffer where
  "mem_buffer_create =
     \<lparr>m_is_valid = True, m_read_invalidation_result = Op_failed, m_queue = [],
      m_read_promises = [], m_next_read_promise_id = 0, m_timer = multiple_timer_init,
      m_read_strand = [], m_write_strand = []\<rparr>"

type_synonym mem_buffer_result = "mem_buffer \<times> pipe_result completion list"

definition write_async :: "time_point \<Rightarrow> promise_id \<Rightarrow> bytes \<Rightarrow> nat option \<Rightarrow> mem_buffer \<Rightarrow> mem_buffer_result"
where
  "write_async now p data timeout s =
     (if \<not> m_is_valid s then (s, [(p, Written Op_failed)])
      else
        let timeout_point = map_option (\<lambda>t. now + t) timeout
        in (s\<lparr>m_write_strand := m_write_strand s @ [W_write p data timeout_point]\<rparr>, []))"

definition read_async :: "promise_id \<Rightarrow> nat option \<Rightarrow> mem_buffer \<Rightarrow> mem_buffer_result" where
  "read_async p timeout s =
     (s\<lparr>m_read_strand := m_read_strand s @ [R_read p timeout (m_is_valid s)]\<rparr>, [])"

definition invalidate :: "bool \<Rightarrow> mem_buffer \<Rightarrow> mem_buffer_result" where
  "invalidate cancel_read s =
     (if \<not> m_is_valid s then (s, [])
      else
        let result = (if cancel_read then Op_canceled else Op_failed)
        in (s\<lparr>m_is_valid := False, m_read_invalidation_result := result, m_queue := [],
              m_read_promises := [], m_timer := multiple_timer_cancel_all (m_timer s)\<rparr>,
            map (\<lambda>el. (rp_promise el, Read result None)) (m_read_promises s)))"

definition get_pending_messages_count :: "mem_buffer \<Rightarrow> nat" where
  "get_pending_messages_count s = length (m_queue s)"

definition get_pending_read_handlers_count :: "mem_buffer \<Rightarrow> nat" where
  "get_pending_read_handlers_count s = length (m_read_promises s)"

text \<open>The argument \<open>push_ok\<close> says whether the queue could allocate.\<close>

definition write_impl :: "time_point \<Rightarrow> bool \<Rightarrow> bytes \<Rightarrow> time_point option \<Rightarrow> mem_buffer \<Rightarrow>
  mem_buffer \<times> pipe_op_res"
where
  "write_impl now push_ok data timeout_point s =
     (if \<not> m_is_valid s then (s, Op_canceled)
      else if (case timeout_point of None \<Rightarrow> False | Some tp \<Rightarrow> now > tp) then (s, Op_timeout)
      else if \<not> push_ok then (s, Op_failed)
      else (s\<lparr>m_queue := m_queue s @ [data]\<rparr>, Op_success))"

definition cancel_timer :: "timer_id option \<Rightarrow> nat multiple_timer \<Rightarrow> nat multiple_timer" where
  "cancel_timer i t = (case i of None \<Rightarrow> t | Some j \<Rightarrow> multiple_timer_cancel j t)"

definition resolve_read_promise :: "mem_buffer \<Rightarrow> mem_buffer_result" where
  "resolve_read_promise s =
     (case (m_read_promises s, m_queue s) of
        (el # q, buffer # rest) \<Rightarrow>
          (s\<lparr>m_queue := rest, m_read_promises := q,
             m_timer := cancel_timer (rp_timer_id el) (m_timer s)\<rparr>,
           [(rp_promise el, Read Op_success (Some buffer))])
      | _ \<Rightarrow> (s, []))"

definition read_impl :: "time_point \<Rightarrow> promise_id \<Rightarrow> nat option \<Rightarrow> bool \<Rightarrow> mem_buffer \<Rightarrow> mem_buffer_result"
where
  "read_impl now p timeout started_while_valid s =
     (if \<not> m_is_valid s then
        (s, [(p, Read (if started_while_valid then m_read_invalidation_result s else Op_failed) None)])
      else
        case m_queue s of
          buffer # rest \<Rightarrow> (s\<lparr>m_queue := rest\<rparr>, [(p, Read Op_success (Some buffer))])
        | [] \<Rightarrow>
            let i = m_next_read_promise_id s;
                (timer_id, timer) =
                  (case timeout of
                     None \<Rightarrow> (None, m_timer s)
                   | Some t \<Rightarrow> map_prod Some id (multiple_timer_start now i t (m_timer s)))
            in (s\<lparr>m_next_read_promise_id := Suc i, m_timer := timer,
                  m_read_promises := m_read_promises s
                    @ [\<lparr>rp_id = i, rp_timer_id = timer_id, rp_promise = p\<rparr>]\<rparr>, []))"

text \<open>The callback of a read timer: the read with this id, if it still waits, times out.\<close>

definition timeout_callback :: "nat \<Rightarrow> mem_buffer \<Rightarrow> mem_buffer_result" where
  "timeout_callback i s =
     (case find (\<lambda>el. rp_id el = i) (m_read_promises s) of
        None \<Rightarrow> (s, [])
      | Some el \<Rightarrow>
          (s\<lparr>m_read_promises := remove1 el (m_read_promises s)\<rparr>,
           [(rp_promise el, Read Op_timeout None)]))"

text \<open>The next task of the write strand and of the read strand.\<close>

definition run_write_strand :: "time_point \<Rightarrow> bool \<Rightarrow> mem_buffer \<Rightarrow> mem_buffer_result" where
  "run_write_strand now push_ok s =
     (case m_write_strand s of
        [] \<Rightarrow> (s, [])
      | W_write p data tp # ts \<Rightarrow>
          (let (s', r) = write_impl now push_ok data tp s
           in (s'\<lparr>m_write_strand := W_resolve # ts\<rparr>, [(p, Written r)]))
      | W_resolve # ts \<Rightarrow> resolve_read_promise (s\<lparr>m_write_strand := ts\<rparr>))"

definition run_read_strand :: "time_point \<Rightarrow> mem_buffer \<Rightarrow> mem_buffer_result" where
  "run_read_strand now s =
     (case m_read_strand s of
        [] \<Rightarrow> (s, [])
      | R_read p timeout swv # ts \<Rightarrow> read_impl now p timeout swv (s\<lparr>m_read_strand := ts\<rparr>))"

definition run_timer_handler :: "timer_id \<Rightarrow> mem_buffer \<Rightarrow> mem_buffer_result" where
  "run_timer_handler tid s =
     (let (t, cb) = multiple_timer_handler tid (m_timer s); s' = s\<lparr>m_timer := t\<rparr>
      in case cb of None \<Rightarrow> (s', []) | Some i \<Rightarrow> timeout_callback i s')"

datatype mem_event =
    Mb_write time_point promise_id bytes "nat option"
  | Mb_read promise_id "nat option"
  | Mb_invalidate bool
  | Mb_write_task time_point bool
  | Mb_read_task time_point
  | Mb_timer_expire time_point timer_id
  | Mb_timer_handler timer_id

fun mem_step :: "mem_buffer \<Rightarrow> mem_event \<Rightarrow> mem_buffer_result" where
  "mem_step s (Mb_write now p data timeout) = write_async now p data timeout s"
| "mem_step s (Mb_read p timeout) = read_async p timeout s"
| "mem_step s (Mb_invalidate cancel_read) = invalidate cancel_read s"
| "mem_step s (Mb_write_task now push_ok) = run_write_strand now push_ok s"
| "mem_step s (Mb_read_task now) = run_read_strand now s"
| "mem_step s (Mb_timer_expire now tid) = (s\<lparr>m_timer := multiple_timer_expire now tid (m_timer s)\<rparr>, [])"
| "mem_step s (Mb_timer_handler tid) = run_timer_handler tid s"


section \<open>Invariant\<close>

text \<open>
  An invalid buffer holds no message and no waiting read; ids of waiting reads are distinct and
  already issued; and no wakeup is lost: messages accumulate only while no read waits, except
  for the one message whose resolution is the next task of the write strand.
\<close>

fun resolve_next :: "write_task list \<Rightarrow> bool" where
  "resolve_next (W_resolve # ts) = True"
| "resolve_next _ = False"

definition strand_ok :: "write_task list \<Rightarrow> bool" where
  "strand_ok ts \<longleftrightarrow> W_resolve \<notin> set (tl ts)"

definition mem_inv :: "mem_buffer \<Rightarrow> bool" where
  "mem_inv s \<longleftrightarrow>
     (\<not> m_is_valid s \<longrightarrow> m_queue s = [] \<and> m_read_promises s = []) \<and>
     m_read_invalidation_result s \<in> {Op_canceled, Op_failed} \<and>
     distinct (map rp_id (m_read_promises s)) \<and>
     (\<forall>el \<in> set (m_read_promises s). rp_id el < m_next_read_promise_id s) \<and>
     strand_ok (m_write_strand s) \<and>
     (m_read_promises s \<noteq> [] \<longrightarrow>
        length (m_queue s) \<le> (if resolve_next (m_write_strand s) then 1 else 0))"

fun write_task_promise :: "write_task \<Rightarrow> promise_id list" where
  "write_task_promise (W_write p data tp) = [p]"
| "write_task_promise W_resolve = []"

fun read_task_promise :: "read_task \<Rightarrow> promise_id" where
  "read_task_promise (R_read p timeout swv) = p"

definition mem_pending :: "mem_buffer \<Rightarrow> promise_id multiset" where
  "mem_pending s =
     mset (concat (map write_task_promise (m_write_strand s)))
     + mset (map read_task_promise (m_read_strand s))
     + mset (map rp_promise (m_read_promises s))"

fun mem_opened :: "mem_buffer \<Rightarrow> mem_event \<Rightarrow> promise_id multiset" where
  "mem_opened s (Mb_write now p data timeout) = {#p#}"
| "mem_opened s (Mb_read p timeout) = {#p#}"
| "mem_opened s _ = {#}"

lemmas mem_defs =
  write_async_def read_async_def invalidate_def write_impl_def resolve_read_promise_def
  read_impl_def timeout_callback_def run_write_strand_def run_read_strand_def
  run_timer_handler_def


lemma strand_ok_simps [simp]:
  "strand_ok []" "strand_ok (t # ts) \<longleftrightarrow> W_resolve \<notin> set ts"
  by (simp_all add: strand_ok_def)

lemma strand_ok_append_write [simp]: "strand_ok (ts @ [W_write p d tp]) \<longleftrightarrow> strand_ok ts"
  by (cases ts) auto

lemma resolve_next_append_write [simp]:
  "resolve_next (ts @ [W_write p d tp]) \<longleftrightarrow> resolve_next ts"
  by (cases ts rule: resolve_next.cases) auto

lemma resolve_next_strand: "strand_ok (t # ts) \<Longrightarrow> \<not> resolve_next ts"
  by (cases ts rule: resolve_next.cases) auto

lemma mem_inv_create: "mem_inv mem_buffer_create"
  by (simp add: mem_inv_def mem_buffer_create_def)

lemma mem_inv_write_async: "mem_inv s \<Longrightarrow> mem_inv (fst (write_async now p d timeout s))"
  by (simp add: mem_inv_def write_async_def Let_def)

lemma mem_inv_read_async: "mem_inv s \<Longrightarrow> mem_inv (fst (read_async p timeout s))"
  by (simp add: mem_inv_def read_async_def)

lemma mem_inv_invalidate: "mem_inv s \<Longrightarrow> mem_inv (fst (invalidate c s))"
  by (simp add: mem_inv_def invalidate_def Let_def)

lemma mem_inv_read_impl: "mem_inv s \<Longrightarrow> mem_inv (fst (read_impl now p timeout swv s))"
  by (auto simp: mem_inv_def read_impl_def Let_def case_prod_beta less_Suc_eq split: list.splits)

lemma mem_inv_timeout: "mem_inv s \<Longrightarrow> mem_inv (fst (timeout_callback i s))"
  by (auto simp: mem_inv_def timeout_callback_def distinct_map_remove1
      dest: notin_set_remove1 split: option.splits)

lemma mem_inv_timer [simp]: "mem_inv (s\<lparr>m_timer := t\<rparr>) \<longleftrightarrow> mem_inv s"
  by (simp add: mem_inv_def)

lemma mem_inv_read_strand [simp]: "mem_inv (s\<lparr>m_read_strand := ts\<rparr>) \<longleftrightarrow> mem_inv s"
  by (simp add: mem_inv_def)

lemma mem_inv_write_task: "mem_inv s \<Longrightarrow> mem_inv (fst (run_write_strand now ok s))"
proof (cases "m_write_strand s")
  case (Cons t ts)
  assume inv: "mem_inv s"
  show ?thesis
  proof (cases t)
    case (W_write p d tp)
    then show ?thesis
      using inv Cons
      by (auto simp: mem_inv_def run_write_strand_def write_impl_def split: option.splits)
  next
    case W_resolve
    have "\<not> resolve_next ts"
      using inv Cons by (intro resolve_next_strand [of t]) (simp add: mem_inv_def)
    then show ?thesis
      using inv Cons W_resolve
      by (cases "m_read_promises s"; cases "m_queue s"; cases ts)
        (auto simp: mem_inv_def run_write_strand_def resolve_read_promise_def)
  qed
qed (simp add: run_write_strand_def)

lemma mem_inv_step: "mem_inv s \<Longrightarrow> mem_inv (fst (mem_step s e))"
  by (cases e)
    (simp_all add: mem_inv_write_async mem_inv_read_async mem_inv_invalidate mem_inv_write_task
      run_read_strand_def mem_inv_read_impl run_timer_handler_def Let_def case_prod_beta
      mem_inv_timeout split: list.split option.split read_task.split)


section \<open>Conservation of promises\<close>

lemma pending_timeout:
  "mem_pending (fst (timeout_callback i s)) + mset (map fst (snd (timeout_callback i s))) =
   mem_pending s"
proof (cases "find (\<lambda>el. rp_id el = i) (m_read_promises s)")
  case (Some el)
  then have "el \<in> set (m_read_promises s)"
    by (auto simp: find_Some_iff)
  then have "image_mset rp_promise (mset (m_read_promises s)) =
      add_mset (rp_promise el) (image_mset rp_promise (mset (remove1 el (m_read_promises s))))"
    by (metis image_mset_add_mset insert_DiffM mset_remove1 set_mset_mset)
  then show ?thesis
    using Some by (simp add: timeout_callback_def mem_pending_def)
qed (simp add: timeout_callback_def)

lemma pending_resolve:
  "mem_pending (fst (resolve_read_promise s)) + mset (map fst (snd (resolve_read_promise s))) =
   mem_pending s"
  by (cases "m_read_promises s"; cases "m_queue s")
    (simp_all add: resolve_read_promise_def mem_pending_def)

lemma pending_read_impl:
  "mem_pending (fst (read_impl now p timeout swv s))
     + mset (map fst (snd (read_impl now p timeout swv s))) = mem_pending s + {#p#}"
  by (simp add: read_impl_def mem_pending_def Let_def case_prod_beta split: list.split)

lemma pending_simps [simp]:
  "mem_pending (s\<lparr>m_timer := t\<rparr>) = mem_pending s"
  "mem_pending (s\<lparr>m_queue := q\<rparr>) = mem_pending s"
  by (simp_all add: mem_pending_def)

lemma pending_write_task:
  "mem_pending (fst (run_write_strand now ok s))
     + mset (map fst (snd (run_write_strand now ok s))) = mem_pending s"
proof (cases "m_write_strand s")
  case (Cons t ts)
  show ?thesis
  proof (cases t)
    case (W_write p d tp)
    then show ?thesis
      using Cons by (simp add: run_write_strand_def write_impl_def mem_pending_def)
  next
    case W_resolve
    then show ?thesis
      using Cons pending_resolve [of "s\<lparr>m_write_strand := ts\<rparr>"]
      by (simp add: run_write_strand_def mem_pending_def)
  qed
qed (simp add: run_write_strand_def)

lemma pending_read_task:
  "mem_pending (fst (run_read_strand now s)) + mset (map fst (snd (run_read_strand now s))) =
   mem_pending s"
proof (cases "m_read_strand s")
  case (Cons t ts)
  then show ?thesis
    using pending_read_impl [of now _ _ _ "s\<lparr>m_read_strand := ts\<rparr>"]
    by (cases t) (simp add: run_read_strand_def mem_pending_def)
qed (simp add: run_read_strand_def)

lemma pending_timer_handler:
  "mem_pending (fst (run_timer_handler i s)) + mset (map fst (snd (run_timer_handler i s))) =
   mem_pending s"
proof -
  obtain t cb where "multiple_timer_handler i (m_timer s) = (t, cb)" by fastforce
  then show ?thesis
    using pending_timeout [of _ "s\<lparr>m_timer := t\<rparr>"]
    by (cases cb) (simp_all add: run_timer_handler_def)
qed

lemma mem_conserve:
  "mem_pending (fst (mem_step s e)) + mset (map fst (snd (mem_step s e))) =
   mem_pending s + mem_opened s e"
proof (cases e)
  case (Mb_write now p d timeout)
  then show ?thesis by (simp add: write_async_def mem_pending_def Let_def)
next
  case (Mb_read p timeout)
  then show ?thesis by (simp add: read_async_def mem_pending_def)
next
  case (Mb_invalidate c)
  then show ?thesis by (simp add: invalidate_def mem_pending_def Let_def multiset.map_comp comp_def)
qed (use pending_write_task pending_read_task pending_timer_handler in simp_all)


section \<open>The endpoint contract\<close>

lemma invalid_step:
  assumes "mem_inv s" "\<not> m_is_valid s"
  shows "\<not> m_is_valid (fst (mem_step s e)) \<and>
    (\<forall>(p, r) \<in> set (snd (mem_step s e)). op_res r \<in> {Op_canceled, Op_failed})"
proof (cases e)
  case (Mb_write_task now ok)
  then show ?thesis
    using assms
    by (cases "m_write_strand s"; cases "hd (m_write_strand s)")
      (simp_all add: mem_inv_def run_write_strand_def write_impl_def resolve_read_promise_def)
next
  case (Mb_read_task now)
  then show ?thesis
    using assms
    by (cases "m_read_strand s"; cases "hd (m_read_strand s)")
      (auto simp: mem_inv_def run_read_strand_def read_impl_def)
next
  case (Mb_timer_handler i)
  then show ?thesis
    using assms
    by (simp add: mem_inv_def run_timer_handler_def timeout_callback_def case_prod_beta Let_def
        split: option.split)
qed (use assms in \<open>simp_all add: write_async_def read_async_def invalidate_def\<close>)

interpretation mb: prompt_pipe_endpoint mem_step mem_inv mem_pending mem_opened m_is_valid
proof unfold_locales
  fix s e p r
  show "mem_inv s \<Longrightarrow> mem_inv (fst (mem_step s e))" by (rule mem_inv_step)
  show "mem_pending (fst (mem_step s e)) + mset (map fst (snd (mem_step s e))) =
      mem_pending s + mem_opened s e" by (rule mem_conserve)
  show "\<not> m_is_valid (fst (mem_step s e))" if "mem_inv s" "\<not> m_is_valid s"
    using invalid_step [OF that] by blast
  have "op_res r \<in> {Op_canceled, Op_failed}"
    if "mem_inv s" "\<not> m_is_valid s" "(p, r) \<in> set (snd (mem_step s e))"
    using invalid_step [OF that(1,2)] that(3) by blast
  then show "op_res r \<noteq> Op_timeout" "op_res r \<noteq> Op_success"
    if "mem_inv s" "\<not> m_is_valid s" "(p, r) \<in> set (snd (mem_step s e))"
    using that by auto
qed


section \<open>Order and completeness of delivery\<close>

text \<open>The message that a step accepts into the queue.\<close>

fun mem_accepted :: "mem_buffer \<Rightarrow> mem_event \<Rightarrow> bytes list" where
  "mem_accepted s (Mb_write_task now push_ok) =
     (case m_write_strand s of
        W_write p data tp # ts \<Rightarrow>
          if snd (write_impl now push_ok data tp s) = Op_success then [data] else []
      | _ \<Rightarrow> [])"
| "mem_accepted s _ = []"

lemma fifo_step:
  assumes "m_is_valid (fst (mem_step s e))"
  shows "m_queue s @ mem_accepted s e = delivered (snd (mem_step s e)) @ m_queue (fst (mem_step s e))"
proof (cases e)
  case (Mb_write_task now ok)
  then show ?thesis
    using assms
    by (cases "m_write_strand s"; cases "hd (m_write_strand s)")
      (auto simp: run_write_strand_def write_impl_def resolve_read_promise_def
        split: list.splits)
next
  case (Mb_read_task now)
  then show ?thesis
    using assms
    by (cases "m_read_strand s"; cases "hd (m_read_strand s)"; cases "m_queue s")
      (auto simp: run_read_strand_def read_impl_def Let_def case_prod_beta split: if_splits)
next
  case (Mb_timer_handler i)
  then show ?thesis
    by (simp add: run_timer_handler_def timeout_callback_def case_prod_beta Let_def
        split: option.split)
next
  case (Mb_invalidate c)
  then show ?thesis using assms by (auto simp: invalidate_def Let_def split: if_splits)
qed (simp_all add: write_async_def read_async_def Let_def)

lemma invalid_accepts_nothing: "\<not> m_is_valid (fst (mem_step s e)) \<Longrightarrow> mem_accepted s e = []"
  by (cases "(s, e)" rule: mem_accepted.cases)
    (auto simp: run_write_strand_def write_impl_def split: list.splits write_task.splits if_splits)

lemma step_to_invalid_delivers_nothing:
  "\<not> m_is_valid (fst (mem_step s e)) \<Longrightarrow> mem_inv s \<Longrightarrow> delivered (snd (mem_step s e)) = []"
proof (cases "m_is_valid s")
  case False
  then show "mem_inv s \<Longrightarrow> ?thesis" using mb.disconnected_delivers_nothing [of s "[e]"] by simp
next
  case True
  then show "\<not> m_is_valid (fst (mem_step s e)) \<Longrightarrow> ?thesis"
    by (cases e)
      (auto simp: mem_defs Let_def case_prod_beta
        split: list.splits write_task.splits read_task.splits option.splits if_splits)
qed

lemma fifo_run:
  "mem_inv s \<Longrightarrow>
   prefix (delivered (run_output mem_step s es)) (m_queue s @ run_collect mem_step mem_accepted s es) \<and>
   (m_is_valid (run_state mem_step s es) \<longrightarrow>
      m_queue s @ run_collect mem_step mem_accepted s es =
      delivered (run_output mem_step s es) @ m_queue (run_state mem_step s es))"
proof (induction es arbitrary: s)
  case Nil
  then show ?case by simp
next
  case (Cons e es)
  let ?s = "fst (mem_step s e)"
  have inv: "mem_inv ?s" using Cons.prems by (rule mem_inv_step)
  show ?case
  proof (cases "m_is_valid ?s")
    case True
    have "m_queue s @ mem_accepted s e = delivered (snd (mem_step s e)) @ m_queue ?s"
      using True by (rule fifo_step)
    then show ?thesis
      using Cons.IH [OF inv] by simp (metis append.assoc same_prefix_prefix)
  next
    case False
    then have "\<not> m_is_valid (run_state mem_step ?s es)"
      by (rule mb.disconnected_run [OF inv])
    then show ?thesis
      using False inv Cons.prems mb.disconnected_delivers_nothing step_to_invalid_delivers_nothing
      by simp
  qed
qed

text \<open>Accepted messages were written by a caller, and the strand keeps the order of the calls.\<close>

fun strand_writes :: "write_task list \<Rightarrow> (promise_id \<times> bytes) list" where
  "strand_writes [] = []"
| "strand_writes (W_write p data tp # ts) = (p, data) # strand_writes ts"
| "strand_writes (W_resolve # ts) = strand_writes ts"

fun mem_writes :: "mem_event list \<Rightarrow> (promise_id \<times> bytes) list" where
  "mem_writes [] = []"
| "mem_writes (Mb_write now p data timeout # es) = (p, data) # mem_writes es"
| "mem_writes (_ # es) = mem_writes es"

text \<open>The writes that complete with success, in the order of their completion.\<close>

fun succeeded_writes :: "pipe_result completion list \<Rightarrow> promise_id list" where
  "succeeded_writes [] = []"
| "succeeded_writes ((p, Written Op_success) # cs) = p # succeeded_writes cs"
| "succeeded_writes (_ # cs) = succeeded_writes cs"

lemma succeeded_writes_append [simp]: "succeeded_writes (xs @ ys) = succeeded_writes xs @ succeeded_writes ys"
  by (induction xs rule: succeeded_writes.induct) simp_all

lemma mem_writes_append [simp]: "mem_writes (xs @ ys) = mem_writes xs @ mem_writes ys"
  by (induction xs rule: mem_writes.induct) simp_all

lemma strand_writes_append [simp]: "strand_writes (xs @ ys) = strand_writes xs @ strand_writes ys"
  by (induction xs rule: strand_writes.induct) simp_all

lemma succeeded_writes_reads [simp]: "succeeded_writes (map (\<lambda>el. (f el, Read r (g el))) xs) = []"
  by (induction xs) simp_all

text \<open>A step takes the accepted write from the front of the strand.\<close>

lemma strand_writes_step:
  "\<exists>ws. subseq (ws @ strand_writes (m_write_strand (fst (mem_step s e)))) (strand_writes (m_write_strand s) @ mem_writes [e]) \<and>
     map fst ws = succeeded_writes (snd (mem_step s e)) \<and> map snd ws = mem_accepted s e"
proof (cases e)
  case (Mb_write_task now ok)
  show ?thesis
  proof (cases "m_write_strand s")
    case Nil
    then show ?thesis using Mb_write_task by (simp add: run_write_strand_def)
  next
    case (Cons t ts)
    show ?thesis
    proof (cases t)
      case (W_write p data tp)
      obtain s' r where r: "write_impl now ok data tp s = (s', r)" by fastforce
      have "r = Op_success \<or> succeeded_writes [(p, Written r)] = []" by (cases r) simp_all
      then show ?thesis using Mb_write_task Cons W_write r
        by (intro exI [of _ "if r = Op_success then [(p, data)] else []"])
          (auto simp: run_write_strand_def write_impl_def split: if_splits option.splits)
    next
      case W_resolve
      then show ?thesis using Mb_write_task Cons
        by (auto simp: run_write_strand_def resolve_read_promise_def split: list.split)
    qed
  qed
next
  case (Mb_read_task now)
  then show ?thesis
    by (auto simp: run_read_strand_def read_impl_def Let_def case_prod_beta split: list.split read_task.split)
next
  case (Mb_timer_handler i)
  then show ?thesis
    by (auto simp: run_timer_handler_def timeout_callback_def Let_def case_prod_beta split: option.split)
qed (auto simp: write_async_def read_async_def invalidate_def Let_def)

lemma accepted_writes:
  "\<exists>ws. subseq ws (strand_writes (m_write_strand s) @ mem_writes es) \<and>
     map fst ws = succeeded_writes (run_output mem_step s es) \<and> map snd ws = run_collect mem_step mem_accepted s es"
proof (induction es arbitrary: s)
  case (Cons e es)
  let ?s = "fst (mem_step s e)"
  obtain ws where ws: "subseq ws (strand_writes (m_write_strand ?s) @ mem_writes es)"
    "map fst ws = succeeded_writes (run_output mem_step ?s es)" "map snd ws = run_collect mem_step mem_accepted ?s es"
    using Cons.IH [of ?s] by blast
  obtain w where w: "subseq (w @ strand_writes (m_write_strand ?s)) (strand_writes (m_write_strand s) @ mem_writes [e])"
    "map fst w = succeeded_writes (snd (mem_step s e))" "map snd w = mem_accepted s e"
    using strand_writes_step [of s e] by blast
  have "subseq (w @ ws) ((w @ strand_writes (m_write_strand ?s)) @ mem_writes es)"
    using ws(1) by (simp add: list_emb_append_mono)
  also have "subseq \<dots> ((strand_writes (m_write_strand s) @ mem_writes [e]) @ mem_writes es)"
    using w(1) by (rule list_emb_append_mono) simp
  finally have "subseq (w @ ws) (strand_writes (m_write_strand s) @ mem_writes (e # es))"
    using mem_writes_append [of "[e]" es] by simp
  then show ?case using w ws by (intro exI [of _ "w @ ws"]) simp
qed simp

text \<open>
  C4: Under every interleaving of the strands, the timers and the callers, each read and write
  of a memory buffer is completed exactly once or still pending, and no promise is completed
  twice when the operations are started with distinct promises.
\<close>

theorem mem_buffer_exactly_once:
  assumes "\<And>p. count (run_opened mem_step mem_opened mem_buffer_create es) p \<le> 1"
  shows "distinct (map fst (run_output mem_step mem_buffer_create es)) \<and>
    mset (map fst (run_output mem_step mem_buffer_create es))
      + mem_pending (run_state mem_step mem_buffer_create es) =
    run_opened mem_step mem_opened mem_buffer_create es"
proof -
  have "mem_pending mem_buffer_create = {#}"
    by (simp add: mem_pending_def mem_buffer_create_def)
  then show ?thesis
    using mb.conserve_run [OF mem_inv_create, of es] assms
      mb.completed_at_most_once [OF mem_inv_create, of es]
    by (simp add: add.commute)
qed

definition mem_example :: "mem_event list" where
  "mem_example =
     [Mb_read 1 (Some 50), Mb_read 2 None, Mb_read_task 0, Mb_read_task 0,
      Mb_write 3 3 [7] None, Mb_write_task 4 True, Mb_timer_expire 60 0,
      Mb_timer_handler 0, Mb_write_task 61 True]"

theorem mem_buffer_exactly_once_witness:
  "distinct (map fst (run_output mem_step mem_buffer_create mem_example)) \<and>
    mset (map fst (run_output mem_step mem_buffer_create mem_example))
      + mem_pending (run_state mem_step mem_buffer_create mem_example) =
    run_opened mem_step mem_opened mem_buffer_create mem_example"
  by (rule mem_buffer_exactly_once) (simp add: mem_example_def)

text \<open>
  C5: A memory buffer delivers messages in the order in which it accepted them, without loss,
  duplication or alteration: while it is valid, the accepted messages are the delivered ones
  followed by the queue; after an invalidation the delivered ones are still a prefix.
\<close>

theorem mem_buffer_fifo:
  "prefix (delivered (run_output mem_step mem_buffer_create es))
     (run_collect mem_step mem_accepted mem_buffer_create es) \<and>
   (m_is_valid (run_state mem_step mem_buffer_create es) \<longrightarrow>
      run_collect mem_step mem_accepted mem_buffer_create es =
      delivered (run_output mem_step mem_buffer_create es)
        @ m_queue (run_state mem_step mem_buffer_create es))"
  using fifo_run [OF mem_inv_create, of es] by (simp add: mem_buffer_create_def)

theorem mem_buffer_fifo_witness:
  "run_collect mem_step mem_accepted mem_buffer_create mem_example =
     delivered (run_output mem_step mem_buffer_create mem_example)
       @ m_queue (run_state mem_step mem_buffer_create mem_example)"
proof -
  have "m_is_valid (run_state mem_step mem_buffer_create mem_example)"
    by (simp add: mem_example_def mem_buffer_create_def mem_defs multiple_timer_defs
        multiple_timer_init_def cancel_timer_def)
  then show ?thesis using mem_buffer_fifo [of mem_example] by blast
qed

text \<open>
  No wakeup is lost: in every reachable state in which the tasks of the write strand are
  done, messages and waiting reads do not exist at the same time.
\<close>

theorem mem_buffer_no_lost_wakeup:
  assumes "m_write_strand (run_state mem_step mem_buffer_create es) = []"
  shows "get_pending_messages_count (run_state mem_step mem_buffer_create es) = 0 \<or>
         get_pending_read_handlers_count (run_state mem_step mem_buffer_create es) = 0"
  using mb.inv_run [OF mem_inv_create, of es] assms
  by (auto simp: mem_inv_def get_pending_messages_count_def get_pending_read_handlers_count_def)

theorem mem_buffer_no_lost_wakeup_witness:
  "get_pending_messages_count (run_state mem_step mem_buffer_create mem_example) = 0 \<or>
   get_pending_read_handlers_count (run_state mem_step mem_buffer_create mem_example) = 0"
  by (rule mem_buffer_no_lost_wakeup)
    (simp add: mem_example_def mem_buffer_create_def mem_defs multiple_timer_defs
        multiple_timer_init_def cancel_timer_def)

text \<open>
  Invalidation in any reachable state completes every waiting read at once, with
  cancellation or failure as requested, empties the queue, and from then on no operation of the
  buffer succeeds or times out.
\<close>

theorem mem_buffer_invalidate_contract:
  fixes es es' :: "mem_event list"
  defines "s \<equiv> run_state mem_step mem_buffer_create es"
  assumes "m_is_valid s"
  shows "snd (invalidate c s) =
      map (\<lambda>el. (rp_promise el, Read (if c then Op_canceled else Op_failed) None)) (m_read_promises s) \<and>
    get_pending_messages_count (fst (invalidate c s)) = 0 \<and>
    get_pending_read_handlers_count (fst (invalidate c s)) = 0 \<and>
    (\<forall>(p, r) \<in> set (run_output mem_step (fst (invalidate c s)) es').
       op_res r \<in> {Op_canceled, Op_failed})"
proof -
  have "mem_inv s" unfolding s_def by (rule mb.inv_run [OF mem_inv_create])
  then have inv: "mem_inv (fst (invalidate c s))" by (rule mem_inv_invalidate)
  have v: "\<not> m_is_valid (fst (invalidate c s))"
    by (simp add: invalidate_def Let_def)
  have "\<forall>(p, r) \<in> set (run_output mem_step (fst (invalidate c s)) es').
      op_res r \<in> {Op_canceled, Op_failed}"
    using mb.disconnected_results_run [OF inv v] by blast
  moreover have "snd (invalidate c s) =
      map (\<lambda>el. (rp_promise el, Read (if c then Op_canceled else Op_failed) None)) (m_read_promises s)"
    "get_pending_messages_count (fst (invalidate c s)) = 0"
    "get_pending_read_handlers_count (fst (invalidate c s)) = 0"
    using assms(2) by (simp_all add: invalidate_def Let_def get_pending_messages_count_def
        get_pending_read_handlers_count_def)
  ultimately show ?thesis by blast
qed

theorem mem_buffer_invalidate_contract_witness:
  "get_pending_messages_count (fst (invalidate True (run_state mem_step mem_buffer_create
     [Mb_write 0 4 [1, 2] None, Mb_write_task 1 True]))) = 0"
  using mem_buffer_invalidate_contract
    [of "[Mb_write 0 4 [1, 2] None, Mb_write_task 1 True]" True "[]"]
  by (simp add: mem_buffer_create_def mem_defs)

end
