(* ===== verification/Mem_Pipe.thy ===== *)
theory Mem_Pipe
  imports Mem_Buffer
begin

text \<open>
  The in-process pipe: the pair of buffers (\<open>mem-buffers.cpp\<close>), the endpoint on either side
  (\<open>mem-pipe-endpoint.cpp\<close>) and the environment that pairs clients with servers
  (\<open>mem-pipe-env.cpp\<close>).  The method \<open>invalidate_impl\<close> locks three different mutexes one after the
  other; a call that is under way is a value of \<open>invalidation\<close>, and other steps may
  interleave between its sections.
\<close>

section \<open>The two buffers of a pipe\<close>

datatype invalidation =
    Inv_client_to_server bool bool
  | Inv_server_to_client bool
  | Inv_notify

record mem_buffers =
  m_client_to_server :: mem_buffer
  m_server_to_client :: mem_buffer
  m_invalidated :: bool
  m_on_invalidate :: "nat list"
  m_invalidating :: "invalidation list"

definition mem_buffers_create :: mem_buffers where
  "mem_buffers_create =
     \<lparr>m_client_to_server = mem_buffer_create, m_server_to_client = mem_buffer_create,
      m_invalidated = False, m_on_invalidate = [], m_invalidating = []\<rparr>"

text \<open>
  The visible effects: an operation on the buffer towards the server or towards the client is
  completed, or a disconnect callback is executed.
\<close>

datatype pipe_out =
    To_server "pipe_result completion"
  | To_client "pipe_result completion"
  | Callback nat

definition on_client_to_server ::
  "(mem_buffer \<Rightarrow> mem_buffer_result) \<Rightarrow> mem_buffers \<Rightarrow> mem_buffers \<times> pipe_out list"
where
  "on_client_to_server f b =
     (let (m, os) = f (m_client_to_server b) in (b\<lparr>m_client_to_server := m\<rparr>, map To_server os))"

definition on_server_to_client ::
  "(mem_buffer \<Rightarrow> mem_buffer_result) \<Rightarrow> mem_buffers \<Rightarrow> mem_buffers \<times> pipe_out list"
where
  "on_server_to_client f b =
     (let (m, os) = f (m_server_to_client b) in (b\<lparr>m_server_to_client := m\<rparr>, map To_client os))"

definition read_async_from_server ::
  "promise_id \<Rightarrow> nat option \<Rightarrow> mem_buffers \<Rightarrow> mem_buffers \<times> pipe_out list"
where
  "read_async_from_server p timeout = on_server_to_client (read_async p timeout)"

definition read_async_from_client ::
  "promise_id \<Rightarrow> nat option \<Rightarrow> mem_buffers \<Rightarrow> mem_buffers \<times> pipe_out list"
where
  "read_async_from_client p timeout = on_client_to_server (read_async p timeout)"

definition write_async_to_client ::
  "time_point \<Rightarrow> promise_id \<Rightarrow> bytes \<Rightarrow> nat option \<Rightarrow> mem_buffers \<Rightarrow> mem_buffers \<times> pipe_out list"
where
  "write_async_to_client now p msg timeout = on_server_to_client (write_async now p msg timeout)"

definition write_async_to_server ::
  "time_point \<Rightarrow> promise_id \<Rightarrow> bytes \<Rightarrow> nat option \<Rightarrow> mem_buffers \<Rightarrow> mem_buffers \<times> pipe_out list"
where
  "write_async_to_server now p msg timeout = on_client_to_server (write_async now p msg timeout)"

definition set_invalidate_callback :: "nat \<Rightarrow> mem_buffers \<Rightarrow> mem_buffers \<times> pipe_out list" where
  "set_invalidate_callback cb b =
     (if m_invalidated b then (b, [Callback cb])
      else (b\<lparr>m_on_invalidate := m_on_invalidate b @ [cb]\<rparr>, []))"

text \<open>A call of \<open>invalidate_impl\<close> begins; its three sections run by \<open>invalidate_progress\<close>.\<close>

definition invalidate_impl :: "bool \<Rightarrow> bool \<Rightarrow> mem_buffers \<Rightarrow> mem_buffers" where
  "invalidate_impl cancel_server_side cancel_client_side b =
     b\<lparr>m_invalidating := m_invalidating b
         @ [Inv_client_to_server cancel_server_side cancel_client_side]\<rparr>"

definition invalidate_buffers :: "bool \<Rightarrow> mem_buffers \<Rightarrow> mem_buffers" where
  "invalidate_buffers by_server b = invalidate_impl by_server (\<not> by_server) b"

definition invalidate_progress :: "nat \<Rightarrow> mem_buffers \<Rightarrow> mem_buffers \<times> pipe_out list" where
  "invalidate_progress i b =
     (if i \<ge> length (m_invalidating b) then (b, [])
      else
        case m_invalidating b ! i of
          Inv_client_to_server cancel_server_side cancel_client_side \<Rightarrow>
            on_client_to_server (invalidate cancel_server_side)
              (b\<lparr>m_invalidating := (m_invalidating b)[i := Inv_server_to_client cancel_client_side]\<rparr>)
        | Inv_server_to_client cancel_client_side \<Rightarrow>
            on_server_to_client (invalidate cancel_client_side)
              (b\<lparr>m_invalidating := (m_invalidating b)[i := Inv_notify]\<rparr>)
        | Inv_notify \<Rightarrow>
            (b\<lparr>m_invalidated := True, m_on_invalidate := [],
               m_invalidating := take i (m_invalidating b) @ drop (Suc i) (m_invalidating b)\<rparr>,
             map Callback (m_on_invalidate b)))"

definition buffers_is_valid :: "mem_buffers \<Rightarrow> bool" where
  "buffers_is_valid b \<longleftrightarrow> \<not> m_invalidated b"

definition get_invalidate_callbacks_count :: "mem_buffers \<Rightarrow> nat" where
  "get_invalidate_callbacks_count b = length (m_on_invalidate b)"


section \<open>The endpoint on either side\<close>

definition endpoint_is_connected :: "mem_buffers \<Rightarrow> bool" where
  "endpoint_is_connected b = buffers_is_valid b"

definition endpoint_write_async ::
  "bool \<Rightarrow> time_point \<Rightarrow> promise_id \<Rightarrow> bytes \<Rightarrow> nat option \<Rightarrow> mem_buffers \<Rightarrow> mem_buffers \<times> pipe_out list"
where
  "endpoint_write_async is_server now p msg timeout b =
     (if is_server then write_async_to_client now p msg timeout b
      else write_async_to_server now p msg timeout b)"

definition endpoint_read_async ::
  "bool \<Rightarrow> promise_id \<Rightarrow> nat option \<Rightarrow> mem_buffers \<Rightarrow> mem_buffers \<times> pipe_out list"
where
  "endpoint_read_async is_server p timeout b =
     (if is_server then read_async_from_client p timeout b
      else read_async_from_server p timeout b)"

definition endpoint_invalidate :: "bool \<Rightarrow> mem_buffers \<Rightarrow> mem_buffers" where
  "endpoint_invalidate is_server b = invalidate_buffers is_server b"

datatype pipe_event =
    Pe_write bool time_point promise_id bytes "nat option"
  | Pe_read bool promise_id "nat option"
  | Pe_invalidate bool
  | Pe_invalidate_progress nat
  | Pe_set_callback nat
  | Pe_write_task bool time_point bool
  | Pe_read_task bool time_point
  | Pe_timer_expire bool time_point timer_id
  | Pe_timer_handler bool timer_id

text \<open>
  For the tasks and timers the flag selects the buffer towards the server.  The destructor of an
  endpoint is \<open>Pe_invalidate\<close>.
\<close>

definition on_buffer :: "bool \<Rightarrow> mem_event \<Rightarrow> mem_buffers \<Rightarrow> mem_buffers \<times> pipe_out list" where
  "on_buffer to_server e b =
     (if to_server then on_client_to_server (\<lambda>m. mem_step m e) b
      else on_server_to_client (\<lambda>m. mem_step m e) b)"

fun pipe_step :: "mem_buffers \<Rightarrow> pipe_event \<Rightarrow> mem_buffers \<times> pipe_out list" where
  "pipe_step b (Pe_write is_server now p msg timeout) = endpoint_write_async is_server now p msg timeout b"
| "pipe_step b (Pe_read is_server p timeout) = endpoint_read_async is_server p timeout b"
| "pipe_step b (Pe_invalidate is_server) = (endpoint_invalidate is_server b, [])"
| "pipe_step b (Pe_invalidate_progress i) = invalidate_progress i b"
| "pipe_step b (Pe_set_callback cb) = set_invalidate_callback cb b"
| "pipe_step b (Pe_write_task to_server now push_ok) = on_buffer to_server (Mb_write_task now push_ok) b"
| "pipe_step b (Pe_read_task to_server now) = on_buffer to_server (Mb_read_task now) b"
| "pipe_step b (Pe_timer_expire to_server now i) = on_buffer to_server (Mb_timer_expire now i) b"
| "pipe_step b (Pe_timer_handler to_server i) = on_buffer to_server (Mb_timer_handler i) b"


section \<open>The environment\<close>

text \<open>An endpoint handed out: whether it is the server's side, and the number of its pipe.\<close>

type_synonym pipe_end = "bool \<times> nat"
type_synonym wait_result = "pipe_wait_res \<times> pipe_end option"

record promise_data =
  pd_id :: nat
  pd_client_id :: nat
  pd_timer_id :: "timer_id option"
  pd_promise :: promise_id

text \<open>The timer callback names the container (the server's if true) and the id to remove.\<close>

record mem_pipe_env =
  env_next_promise_id :: nat
  env_timer :: "(bool \<times> nat) multiple_timer"
  m_client_side_pipe_promises :: "promise_data list"
  m_server_side_pipe_promises :: "promise_data list"
  env_pipes :: nat

definition mem_pipe_env_create :: mem_pipe_env where
  "mem_pipe_env_create =
     \<lparr>env_next_promise_id = 0, env_timer = multiple_timer_init,
      m_client_side_pipe_promises = [], m_server_side_pipe_promises = [], env_pipes = 0\<rparr>"

definition container :: "bool \<Rightarrow> mem_pipe_env \<Rightarrow> promise_data list" where
  "container server s =
     (if server then m_server_side_pipe_promises s else m_client_side_pipe_promises s)"

definition set_container :: "bool \<Rightarrow> promise_data list \<Rightarrow> mem_pipe_env \<Rightarrow> mem_pipe_env" where
  "set_container server xs s =
     (if server then s\<lparr>m_server_side_pipe_promises := xs\<rparr>
      else s\<lparr>m_client_side_pipe_promises := xs\<rparr>)"

definition cancel_env_timer :: "timer_id option \<Rightarrow> mem_pipe_env \<Rightarrow> mem_pipe_env" where
  "cancel_env_timer i s =
     (case i of None \<Rightarrow> s | Some j \<Rightarrow> s\<lparr>env_timer := multiple_timer_cancel j (env_timer s)\<rparr>)"

definition create_new_pipe_end ::
  "time_point \<Rightarrow> promise_id \<Rightarrow> nat \<Rightarrow> bool \<Rightarrow> nat option \<Rightarrow> mem_pipe_env \<Rightarrow>
   mem_pipe_env \<times> wait_result completion list"
where
  "create_new_pipe_end now p client_id is_server timeout s =
     (case container (\<not> is_server) s of
        [] \<Rightarrow>
          let pid = env_next_promise_id s;
              (timer_id, timer) =
                (case timeout of
                   None \<Rightarrow> (None, env_timer s)
                 | Some t \<Rightarrow> map_prod Some id (multiple_timer_start now (is_server, pid) t (env_timer s)));
              s = s\<lparr>env_next_promise_id := Suc pid, env_timer := timer\<rparr>
          in (set_container is_server
                (container is_server s @
                 [\<lparr>pd_id = pid, pd_client_id = client_id, pd_timer_id = timer_id, pd_promise = p\<rparr>]) s,
              [])
      | el # others \<Rightarrow>
          let k = env_pipes s;
              s = cancel_env_timer (pd_timer_id el) (s\<lparr>env_pipes := Suc k\<rparr>)
          in (set_container (\<not> is_server) others s,
              [(pd_promise el, (Wait_success, Some (\<not> is_server, k))),
               (p, (Wait_success, Some (is_server, k)))]))"

text \<open>The loop over the container, in its order; a matching element is removed.\<close>

fun cancel_loop :: "nat option \<Rightarrow> promise_data list \<Rightarrow> mem_pipe_env \<Rightarrow>
  promise_data list \<times> mem_pipe_env \<times> wait_result completion list"
where
  "cancel_loop client_id [] s = ([], s, [])"
| "cancel_loop client_id (el # q) s =
     (if client_id = None \<or> client_id = Some (pd_client_id el) then
        let (kept, s', os) = cancel_loop client_id q (cancel_env_timer (pd_timer_id el) s)
        in (kept, s', (pd_promise el, (Wait_canceled, None)) # os)
      else
        let (kept, s', os) = cancel_loop client_id q s in (el # kept, s', os))"

definition cancel_pending_endpoints :: "nat option \<Rightarrow> bool \<Rightarrow> mem_pipe_env \<Rightarrow>
  mem_pipe_env \<times> wait_result completion list"
where
  "cancel_pending_endpoints client_id server s =
     (let (kept, s', os) = cancel_loop client_id (container server s) s
      in (set_container server kept s', os))"

definition remove_promise_by_timeout :: "bool \<Rightarrow> nat \<Rightarrow> mem_pipe_env \<Rightarrow>
  mem_pipe_env \<times> wait_result completion list"
where
  "remove_promise_by_timeout server i s =
     (case find (\<lambda>el. pd_id el = i) (container server s) of
        None \<Rightarrow> (s, [])
      | Some el \<Rightarrow>
          (set_container server (remove1 el (container server s)) s,
           [(pd_promise el, (Wait_timeout, None))]))"

definition env_create_pipe where
  "env_create_pipe now p client_id timeout = create_new_pipe_end now p client_id True timeout"

definition env_open_pipe where
  "env_open_pipe now p client_id timeout = create_new_pipe_end now p client_id False timeout"

definition get_pending_client_endpoints_count :: "mem_pipe_env \<Rightarrow> nat" where
  "get_pending_client_endpoints_count s = length (m_client_side_pipe_promises s)"

definition get_pending_server_endpoints_count :: "mem_pipe_env \<Rightarrow> nat" where
  "get_pending_server_endpoints_count s = length (m_server_side_pipe_promises s)"

definition env_timer_handler :: "timer_id \<Rightarrow> mem_pipe_env \<Rightarrow> mem_pipe_env \<times> wait_result completion list"
where
  "env_timer_handler i s =
     (let (t, cb) = multiple_timer_handler i (env_timer s); s' = s\<lparr>env_timer := t\<rparr>
      in case cb of None \<Rightarrow> (s', []) | Some (server, pid) \<Rightarrow> remove_promise_by_timeout server pid s')"

datatype env_event =
    Env_create time_point promise_id nat "nat option"
  | Env_open time_point promise_id nat "nat option"
  | Env_cancel "nat option" bool
  | Env_timer_expire time_point timer_id
  | Env_timer_handler timer_id

fun env_step :: "mem_pipe_env \<Rightarrow> env_event \<Rightarrow> mem_pipe_env \<times> wait_result completion list" where
  "env_step s (Env_create now p client_id timeout) = env_create_pipe now p client_id timeout s"
| "env_step s (Env_open now p client_id timeout) = env_open_pipe now p client_id timeout s"
| "env_step s (Env_cancel client_id server) = cancel_pending_endpoints client_id server s"
| "env_step s (Env_timer_expire now i) = (s\<lparr>env_timer := multiple_timer_expire now i (env_timer s)\<rparr>, [])"
| "env_step s (Env_timer_handler i) = env_timer_handler i s"


section \<open>Each direction is a memory buffer\<close>

text \<open>The buffer of a direction, the outputs of a direction, and what a pipe step does to it.\<close>

definition buffer_to :: "bool \<Rightarrow> mem_buffers \<Rightarrow> mem_buffer" where
  "buffer_to to_server b = (if to_server then m_client_to_server b else m_server_to_client b)"

fun outs_to :: "bool \<Rightarrow> pipe_out list \<Rightarrow> pipe_result completion list" where
  "outs_to d [] = []"
| "outs_to d (To_server c # os) = (if d then c # outs_to d os else outs_to d os)"
| "outs_to d (To_client c # os) = (if d then outs_to d os else c # outs_to d os)"
| "outs_to d (Callback cb # os) = outs_to d os"

fun buffer_events :: "bool \<Rightarrow> mem_buffers \<Rightarrow> pipe_event \<Rightarrow> mem_event list" where
  "buffer_events d b (Pe_write is_server now p msg timeout) =
     (if is_server = d then [] else [Mb_write now p msg timeout])"
| "buffer_events d b (Pe_read is_server p timeout) = (if is_server = d then [Mb_read p timeout] else [])"
| "buffer_events d b (Pe_invalidate_progress i) =
     (if i \<ge> length (m_invalidating b) then []
      else case m_invalidating b ! i of
             Inv_client_to_server cs cc \<Rightarrow> if d then [Mb_invalidate cs] else []
           | Inv_server_to_client cc \<Rightarrow> if d then [] else [Mb_invalidate cc]
           | Inv_notify \<Rightarrow> [])"
| "buffer_events d b (Pe_write_task to_server now ok) = (if to_server = d then [Mb_write_task now ok] else [])"
| "buffer_events d b (Pe_read_task to_server now) = (if to_server = d then [Mb_read_task now] else [])"
| "buffer_events d b (Pe_timer_expire to_server now i) = (if to_server = d then [Mb_timer_expire now i] else [])"
| "buffer_events d b (Pe_timer_handler to_server i) = (if to_server = d then [Mb_timer_handler i] else [])"
| "buffer_events d b _ = []"

lemma outs_to_append [simp]: "outs_to d (xs @ ys) = outs_to d xs @ outs_to d ys"
  by (induction d xs rule: outs_to.induct) simp_all

lemma outs_to_map_server [simp]: "outs_to d (map To_server cs) = (if d then cs else [])"
  by (induction cs) auto

lemma outs_to_map_client [simp]: "outs_to d (map To_client cs) = (if d then [] else cs)"
  by (induction cs) auto

lemma outs_to_map_callback [simp]: "outs_to d (map Callback cbs) = []"
  by (induction cbs) simp_all

lemmas pipe_defs =
  on_client_to_server_def on_server_to_client_def read_async_from_server_def
  read_async_from_client_def write_async_to_client_def write_async_to_server_def
  set_invalidate_callback_def invalidate_impl_def invalidate_buffers_def
  invalidate_progress_def endpoint_write_async_def endpoint_read_async_def
  endpoint_invalidate_def on_buffer_def

lemma pipe_step_buffer:
  "buffer_to d (fst (pipe_step b e)) = run_state mem_step (buffer_to d b) (buffer_events d b e) \<and>
   outs_to d (snd (pipe_step b e)) = run_output mem_step (buffer_to d b) (buffer_events d b e)"
  by (cases e; cases d)
    (auto simp: pipe_defs buffer_to_def case_prod_beta Let_def split: invalidation.split)

lemma pipe_run_buffer:
  "buffer_to d (run_state pipe_step b es) =
     run_state mem_step (buffer_to d b) (run_collect pipe_step (buffer_events d) b es) \<and>
   outs_to d (run_output pipe_step b es) =
     run_output mem_step (buffer_to d b) (run_collect pipe_step (buffer_events d) b es)"
  by (induction es arbitrary: b)
    (simp_all add: pipe_step_buffer run_append_state run_append_output)

text \<open>The writes of an endpoint, in the order of the calls.\<close>

fun written_by :: "bool \<Rightarrow> pipe_event list \<Rightarrow> (promise_id \<times> bytes) list" where
  "written_by sv [] = []"
| "written_by sv (Pe_write is_server now p msg timeout # es) =
     (if is_server = sv then (p, msg) # written_by sv es else written_by sv es)"
| "written_by sv (_ # es) = written_by sv es"

lemma writes_buffer_events: "mem_writes (run_collect pipe_step (buffer_events d) b es) = written_by (\<not> d) es"
proof (induction es arbitrary: b)
  case (Cons e es)
  have "mem_writes (buffer_events d b e) = written_by (\<not> d) [e]"
    by (cases e; cases d) (auto split: invalidation.split)
  moreover have "written_by (\<not> d) (e # es) = written_by (\<not> d) [e] @ written_by (\<not> d) es"
    by (cases e) simp_all
  ultimately show ?case using Cons.IH by simp
qed simp


text \<open>The client writes two messages and the server reads one of them.\<close>

definition delivery_session :: "pipe_event list" where
  "delivery_session =
     [Pe_write False 0 1 [10] None, Pe_write False 0 2 [20] None, Pe_read True 3 None, Pe_write_task True 0 True,
      Pe_read_task True 0, Pe_write_task True 0 True, Pe_write_task True 0 True]"



section \<open>Disconnection\<close>

fun callbacks :: "pipe_out list \<Rightarrow> nat list" where
  "callbacks [] = []"
| "callbacks (Callback cb # os) = cb # callbacks os"
| "callbacks (_ # os) = callbacks os"

fun registered :: "pipe_event list \<Rightarrow> nat list" where
  "registered [] = []"
| "registered (Pe_set_callback cb # es) = cb # registered es"
| "registered (_ # es) = registered es"

lemma callbacks_append [simp]: "callbacks (xs @ ys) = callbacks xs @ callbacks ys"
  by (induction xs rule: callbacks.induct) simp_all

lemma callbacks_map [simp]: "callbacks (map Callback cbs) = cbs"
  by (induction cbs) simp_all

lemma callbacks_map_completions [simp]:
  "callbacks (map To_server cs) = []" "callbacks (map To_client cs) = []"
  by (induction cs) simp_all

fun past_first :: "invalidation \<Rightarrow> bool" where
  "past_first (Inv_client_to_server cs cc) = False"
| "past_first _ = True"

text \<open>
  An invalidated pipe has no callback left, and a buffer is invalid only if the pipe is
  invalidated or a call of \<open>invalidate_impl\<close> has passed the section of that buffer.
\<close>

definition pipe_inv :: "mem_buffers \<Rightarrow> bool" where
  "pipe_inv b \<longleftrightarrow>
     (m_invalidated b \<longrightarrow> m_on_invalidate b = []) \<and>
     (\<not> m_is_valid (m_client_to_server b) \<longrightarrow>
        m_invalidated b \<or> (\<exists>i \<in> set (m_invalidating b). past_first i)) \<and>
     (\<not> m_is_valid (m_server_to_client b) \<longrightarrow>
        m_invalidated b \<or> Inv_notify \<in> set (m_invalidating b))"


lemma pipe_inv_create: "pipe_inv mem_buffers_create"
  by (simp add: pipe_inv_def mem_buffers_create_def mem_buffer_create_def)

lemma mem_step_valid:
  "m_is_valid s \<Longrightarrow> \<forall>c. e \<noteq> Mb_invalidate c \<Longrightarrow> m_is_valid (fst (mem_step s e))"
  by (cases e)
    (auto simp: mem_defs Let_def case_prod_beta
      split: list.splits write_task.splits read_task.splits option.splits)

lemma mem_step_invalid:
  "\<not> m_is_valid s \<Longrightarrow> \<not> m_is_valid (fst (mem_step s e))"
  by (cases e)
    (auto simp: mem_defs Let_def case_prod_beta
      split: list.splits write_task.splits read_task.splits option.splits)

lemma invalidate_invalid [simp]: "\<not> m_is_valid (fst (invalidate c s))"
  by (simp add: invalidate_def Let_def)

lemma pipe_inv_progress: "pipe_inv b \<Longrightarrow> pipe_inv (fst (invalidate_progress i b))"
proof (cases "i < length (m_invalidating b)")
  case True
  assume inv: "pipe_inv b"
  let ?l = "m_invalidating b"
  show ?thesis
  proof (cases "?l ! i")
    case (Inv_client_to_server cs cc)
    then have "Inv_notify \<in> set ?l \<Longrightarrow> Inv_notify \<in> set (?l[i := Inv_server_to_client cc])"
      by (intro in_set_list_update_other) simp_all
    moreover have "\<exists>x \<in> set (?l[i := Inv_server_to_client cc]). past_first x"
      using set_update_memI [OF True] by (rule bexI [rotated]) simp
    ultimately show ?thesis
      using True inv Inv_client_to_server
      by (auto simp: pipe_inv_def invalidate_progress_def on_client_to_server_def case_prod_beta)
  next
    case (Inv_server_to_client cc)
    have "\<exists>x \<in> set (?l[i := Inv_notify]). past_first x"
      using set_update_memI [OF True] by (rule bexI [rotated]) simp
    then show ?thesis
      using True inv Inv_server_to_client set_update_memI [OF True, of Inv_notify]
      by (auto simp: pipe_inv_def invalidate_progress_def on_server_to_client_def case_prod_beta)
  next
    case Inv_notify
    then show ?thesis
      using True by (simp add: pipe_inv_def invalidate_progress_def)
  qed
qed (simp add: invalidate_progress_def)

lemma pipe_inv_on_buffer:
  "pipe_inv b \<Longrightarrow> \<forall>c. e \<noteq> Mb_invalidate c \<Longrightarrow> pipe_inv (fst (on_buffer d e b))"
  using mem_step_valid [of _ e]
  by (auto simp: pipe_inv_def on_buffer_def on_client_to_server_def on_server_to_client_def
      case_prod_beta)

lemma pipe_step_on_buffer:
  "pipe_step b (Pe_write srv now p msg timeout) = on_buffer (\<not> srv) (Mb_write now p msg timeout) b"
  "pipe_step b (Pe_read srv p timeout) = on_buffer srv (Mb_read p timeout) b"
  by (simp_all add: pipe_defs)

lemma pipe_inv_step: "pipe_inv b \<Longrightarrow> pipe_inv (fst (pipe_step b e))"
proof (cases e)
  case (Pe_write srv now p msg timeout)
  then show "pipe_inv b \<Longrightarrow> ?thesis"
    by (simp only: pipe_step_on_buffer) (rule pipe_inv_on_buffer, simp_all)
next
  case (Pe_read srv p timeout)
  then show "pipe_inv b \<Longrightarrow> ?thesis"
    by (simp only: pipe_step_on_buffer) (rule pipe_inv_on_buffer, simp_all)
next
  case (Pe_invalidate srv)
  then show "pipe_inv b \<Longrightarrow> ?thesis"
    by (auto simp: pipe_inv_def endpoint_invalidate_def invalidate_buffers_def invalidate_impl_def)
next
  case (Pe_set_callback cb)
  then show "pipe_inv b \<Longrightarrow> ?thesis"
    by (auto simp: pipe_inv_def set_invalidate_callback_def)
qed (simp_all add: pipe_inv_progress pipe_inv_on_buffer)

interpretation mp: event_system pipe_step pipe_inv
  by (unfold_locales, erule pipe_inv_step)

lemma on_buffer_callbacks [simp]:
  "callbacks (snd (on_buffer d e b)) = []" "m_on_invalidate (fst (on_buffer d e b)) = m_on_invalidate b"
  by (simp_all add: on_buffer_def on_client_to_server_def on_server_to_client_def case_prod_beta)

lemma callbacks_step:
  "mset (callbacks (snd (pipe_step b e))) + mset (m_on_invalidate (fst (pipe_step b e))) =
   mset (m_on_invalidate b) + mset (registered [e])"
proof (cases e)
  case (Pe_write srv now p msg timeout)
  then show ?thesis by (simp only: pipe_step_on_buffer) simp
next
  case (Pe_read srv p timeout)
  then show ?thesis by (simp only: pipe_step_on_buffer) simp
next
  case (Pe_invalidate_progress i)
  then show ?thesis
    by (simp add: invalidate_progress_def on_client_to_server_def on_server_to_client_def
        case_prod_beta split: invalidation.split)
qed (simp_all add: endpoint_invalidate_def invalidate_buffers_def invalidate_impl_def
      set_invalidate_callback_def)

lemma registered_Cons: "registered (e # es) = registered [e] @ registered es"
  by (cases e) simp_all

lemma callbacks_run:
  "mset (callbacks (run_output pipe_step b es)) + mset (m_on_invalidate (run_state pipe_step b es)) =
   mset (m_on_invalidate b) + mset (registered es)"
proof (induction es arbitrary: b)
  case Nil
  then show ?case by simp
next
  case (Cons e es)
  then show ?case
    using callbacks_step [of b e] registered_Cons [of e es]
    by (simp add: union_assoc)
qed

text \<open>
  Every disconnect callback is executed exactly once when the pipe is invalidated, at once
  if it already is, and not before: the callbacks executed so far together with the waiting
  ones are the registered ones, and none waits once the pipe is invalidated.
\<close>

theorem mem_pipe_disconnect_callbacks:
  "mset (callbacks (run_output pipe_step mem_buffers_create es))
     + mset (m_on_invalidate (run_state pipe_step mem_buffers_create es)) = mset (registered es) \<and>
   (\<not> endpoint_is_connected (run_state pipe_step mem_buffers_create es) \<longrightarrow>
      get_invalidate_callbacks_count (run_state pipe_step mem_buffers_create es) = 0)"
  using callbacks_run [of mem_buffers_create es] mp.inv_run [OF pipe_inv_create, of es]
  by (auto simp: mem_buffers_create_def pipe_inv_def endpoint_is_connected_def
      buffers_is_valid_def get_invalidate_callbacks_count_def)

theorem mem_pipe_disconnect_callbacks_witness:
  "get_invalidate_callbacks_count (run_state pipe_step mem_buffers_create
     [Pe_set_callback 1, Pe_invalidate True, Pe_invalidate_progress 0, Pe_invalidate_progress 0,
      Pe_invalidate_progress 0]) = 0"
proof -
  let ?es = "[Pe_set_callback 1, Pe_invalidate True, Pe_invalidate_progress 0,
    Pe_invalidate_progress 0, Pe_invalidate_progress 0]"
  have "\<not> endpoint_is_connected (run_state pipe_step mem_buffers_create ?es)"
    by (simp add: pipe_defs endpoint_is_connected_def buffers_is_valid_def mem_buffers_create_def
        case_prod_beta)
  then show ?thesis using mem_pipe_disconnect_callbacks [of ?es] by blast
qed

text \<open>
  When one side of an undisturbed pipe invalidates it, its own waiting reads are cancelled,
  the waiting reads of the other side fail, and then the disconnect callbacks run; afterwards
  both directions are invalid.
\<close>

theorem mem_pipe_invalidate:
  fixes es :: "pipe_event list" and srv :: bool
  defines "b \<equiv> run_state pipe_step mem_buffers_create es"
    and "call \<equiv> [Pe_invalidate srv, Pe_invalidate_progress 0, Pe_invalidate_progress 0,
                  Pe_invalidate_progress 0]"
  assumes "endpoint_is_connected b" "m_invalidating b = []"
  shows "run_output pipe_step b call =
      map (\<lambda>el. To_server (rp_promise el, Read (if srv then Op_canceled else Op_failed) None))
        (m_read_promises (m_client_to_server b)) @
      map (\<lambda>el. To_client (rp_promise el, Read (if srv then Op_failed else Op_canceled) None))
        (m_read_promises (m_server_to_client b)) @
      map Callback (m_on_invalidate b) \<and>
    \<not> endpoint_is_connected (run_state pipe_step b call) \<and>
    \<not> m_is_valid (m_client_to_server (run_state pipe_step b call)) \<and>
    \<not> m_is_valid (m_server_to_client (run_state pipe_step b call))"
proof -
  have inv: "pipe_inv b" unfolding b_def by (rule mp.inv_run [OF pipe_inv_create])
  then have v: "m_is_valid (m_client_to_server b)" "m_is_valid (m_server_to_client b)"
    using assms(3,4) by (auto simp: pipe_inv_def endpoint_is_connected_def buffers_is_valid_def)
  show ?thesis
    using v assms(4)
    by (simp add: call_def pipe_defs invalidate_def Let_def comp_def endpoint_is_connected_def
        buffers_is_valid_def)
qed

theorem mem_pipe_invalidate_witness:
  "\<not> endpoint_is_connected (run_state pipe_step
     (run_state pipe_step mem_buffers_create [Pe_read True 1 None, Pe_read_task True 0])
     [Pe_invalidate False, Pe_invalidate_progress 0, Pe_invalidate_progress 0,
      Pe_invalidate_progress 0])"
  using mem_pipe_invalidate [of "[Pe_read True 1 None, Pe_read_task True 0]" False]
  by (simp add: pipe_defs mem_buffers_create_def endpoint_is_connected_def buffers_is_valid_def
      case_prod_beta)


text \<open>
  A write that waits in its strand when the peer invalidates the pipe is reported as cancelled,
  although the endpoint contract asks for failure when the connection is lost.
\<close>

lemma peer_invalidation_cancels_write:
  "run_output pipe_step mem_buffers_create
     [Pe_write False 0 1 [5] None, Pe_invalidate True, Pe_invalidate_progress 0,
      Pe_invalidate_progress 0, Pe_invalidate_progress 0, Pe_write_task True 0 True] =
   [To_server (1, Written Op_canceled)]"
  by (simp add: pipe_defs mem_buffers_create_def mem_buffer_create_def mem_defs)


section \<open>Pairing clients and servers\<close>

definition env_inv :: "mem_pipe_env \<Rightarrow> bool" where
  "env_inv s \<longleftrightarrow> m_client_side_pipe_promises s = [] \<or> m_server_side_pipe_promises s = []"

definition env_pending :: "mem_pipe_env \<Rightarrow> promise_id multiset" where
  "env_pending s =
     mset (map pd_promise (m_client_side_pipe_promises s))
     + mset (map pd_promise (m_server_side_pipe_promises s))"

fun env_opened :: "mem_pipe_env \<Rightarrow> env_event \<Rightarrow> promise_id multiset" where
  "env_opened s (Env_create now p client_id timeout) = {#p#}"
| "env_opened s (Env_open now p client_id timeout) = {#p#}"
| "env_opened s _ = {#}"

lemma container_simps [simp]:
  "container d (set_container d xs s) = xs"
  "container (\<not> d) (set_container d xs s) = container (\<not> d) s"
  "container d (set_container (\<not> d) xs s) = container d s"
  "container d (cancel_env_timer i s) = container d s"
  "container d (s\<lparr>env_timer := t\<rparr>) = container d s"
  "container d (s\<lparr>env_next_promise_id := n\<rparr>) = container d s"
  "container d (s\<lparr>env_pipes := k\<rparr>) = container d s"
  by (auto simp: container_def set_container_def cancel_env_timer_def split: option.split)

lemma env_inv_container: "env_inv s \<longleftrightarrow> container d s = [] \<or> container (\<not> d) s = []"
  by (cases d) (auto simp: env_inv_def container_def)

lemma env_pending_container:
  "env_pending s = mset (map pd_promise (container d s)) + mset (map pd_promise (container (\<not> d) s))"
  by (cases d) (auto simp: env_pending_def container_def)

lemma env_pipes_simps [simp]:
  "env_pipes (set_container d xs s) = env_pipes s"
  "env_pipes (cancel_env_timer i s) = env_pipes s"
  by (simp_all add: set_container_def cancel_env_timer_def split: option.split)

lemma cancel_loop_frame:
  "cancel_loop c q s = (kept, s', os) \<Longrightarrow>
   container d s' = container d s \<and> env_pipes s' = env_pipes s \<and>
   (\<forall>(p, r) \<in> set os. r = (Wait_canceled, None)) \<and>
   map fst os = map pd_promise [el \<leftarrow> q. c = None \<or> c = Some (pd_client_id el)] \<and>
   kept = [el \<leftarrow> q. \<not> (c = None \<or> c = Some (pd_client_id el))]"
proof (induction q arbitrary: s kept s' os)
  case Nil
  then show ?case by simp
next
  case (Cons el q)
  show ?case
  proof (cases "c = None \<or> c = Some (pd_client_id el)")
    case True
    obtain os' where r: "cancel_loop c q (cancel_env_timer (pd_timer_id el) s) = (kept, s', os')"
      "os = (pd_promise el, Wait_canceled, None) # os'"
      using Cons.prems True by (auto simp: Let_def split: prod.splits)
    then show ?thesis using Cons.IH [OF r(1)] True by auto
  next
    case False
    obtain kept' where r: "cancel_loop c q s = (kept', s', os)" "kept = el # kept'"
      using Cons.prems False by (auto simp: Let_def split: prod.splits)
    then show ?thesis using Cons.IH [OF r(1)] False by auto
  qed
qed

lemma cancel_pending_frame:
  assumes "cancel_pending_endpoints c d s = (s', os)"
  shows "container (\<not> d) s' = container (\<not> d) s" "set (container d s') \<subseteq> set (container d s)"
    "mset (map pd_promise (container d s')) + mset (map fst os) = mset (map pd_promise (container d s))"
    "env_pipes s' = env_pipes s" "\<forall>(p, r) \<in> set os. r = (Wait_canceled, None)"
    "map fst os = map pd_promise [el \<leftarrow> container d s. c = None \<or> c = Some (pd_client_id el)]"
    "container d s' = [el \<leftarrow> container d s. \<not> (c = None \<or> c = Some (pd_client_id el))]"
proof -
  obtain kept t where l: "cancel_loop c (container d s) s = (kept, t, os)"
    and s': "s' = set_container d kept t"
    using assms by (auto simp: cancel_pending_endpoints_def Let_def split: prod.splits)
  let ?P = "\<lambda>el. c = None \<or> c = Some (pd_client_id el)"
  have os: "map fst os = map pd_promise (filter ?P (container d s))"
    and kept: "container d s' = filter (\<lambda>el. \<not> ?P el) (container d s)"
    using cancel_loop_frame [OF l, of d] unfolding s' container_simps by blast+
  show "mset (map pd_promise (container d s')) + mset (map fst os) = mset (map pd_promise (container d s))"
    unfolding os kept by (rule mset_map_filter_split)
  show "set (container d s') \<subseteq> set (container d s)"
    unfolding kept by (rule filter_is_subset)
  show "container (\<not> d) s' = container (\<not> d) s"
    "env_pipes s' = env_pipes s" "\<forall>(p, r) \<in> set os. r = (Wait_canceled, None)"
    "map fst os = map pd_promise [el \<leftarrow> container d s. c = None \<or> c = Some (pd_client_id el)]"
    "container d s' = [el \<leftarrow> container d s. \<not> (c = None \<or> c = Some (pd_client_id el))]"
    using cancel_loop_frame [OF l, of d] cancel_loop_frame [OF l, of "\<not> d"] os kept
    unfolding s' container_simps env_pipes_simps by blast+
qed

lemma remove_promise_frame:
  assumes "remove_promise_by_timeout d i s = (s', os)"
  shows "container (\<not> d) s' = container (\<not> d) s" "set (container d s') \<subseteq> set (container d s)"
    "mset (map pd_promise (container d s')) + mset (map fst os) = mset (map pd_promise (container d s))"
    "env_pipes s' = env_pipes s" "\<forall>(p, r) \<in> set os. r = (Wait_timeout, None)"
proof -
  have "el \<in> set (container d s) \<Longrightarrow>
      add_mset (pd_promise el) (image_mset pd_promise (mset (remove1 el (container d s)))) =
      image_mset pd_promise (mset (container d s))" for el
    by (metis image_mset_add_mset insert_DiffM mset_remove1 set_mset_mset)
  then show "container (\<not> d) s' = container (\<not> d) s" "set (container d s') \<subseteq> set (container d s)"
    "mset (map pd_promise (container d s')) + mset (map fst os) = mset (map pd_promise (container d s))"
    "env_pipes s' = env_pipes s" "\<forall>(p, r) \<in> set os. r = (Wait_timeout, None)"
    using assms
    by (auto simp: remove_promise_by_timeout_def find_Some_iff
        dest: subsetD [OF set_remove1_subset] split: option.splits)
qed

lemma env_timer_handler_cases:
  obtains t where "env_timer_handler i s = (s\<lparr>env_timer := t\<rparr>, [])"
  | t d pid where "env_timer_handler i s = remove_promise_by_timeout d pid (s\<lparr>env_timer := t\<rparr>)"
proof -
  obtain t cb where "multiple_timer_handler i (env_timer s) = (t, cb)" by fastforce
  then show thesis using that by (cases cb) (auto simp: env_timer_handler_def split: prod.splits)
qed

text \<open>Creating an end: either it is queued, or it is paired with the oldest end of the other kind.\<close>

lemma create_new_pipe_end_cases:
  obtains (queued) el where "container (\<not> d) s = []" "pd_promise el = p" "pd_client_id el = c"
    "snd (create_new_pipe_end now p c d timeout s) = []"
    "container d (fst (create_new_pipe_end now p c d timeout s)) = container d s @ [el]"
    "container (\<not> d) (fst (create_new_pipe_end now p c d timeout s)) = []"
    "env_pipes (fst (create_new_pipe_end now p c d timeout s)) = env_pipes s"
  | (paired) el others where "container (\<not> d) s = el # others"
    "snd (create_new_pipe_end now p c d timeout s) =
       [(pd_promise el, (Wait_success, Some (\<not> d, env_pipes s))),
        (p, (Wait_success, Some (d, env_pipes s)))]"
    "container d (fst (create_new_pipe_end now p c d timeout s)) = container d s"
    "container (\<not> d) (fst (create_new_pipe_end now p c d timeout s)) = others"
    "env_pipes (fst (create_new_pipe_end now p c d timeout s)) = Suc (env_pipes s)"
proof (cases "container (\<not> d) s")
  case Nil
  then show thesis
    using that(1) [of "\<lparr>pd_id = env_next_promise_id s, pd_client_id = c,
      pd_timer_id = fst (case timeout of None \<Rightarrow> (None, env_timer s)
        | Some t \<Rightarrow> map_prod Some id (multiple_timer_start now (d, env_next_promise_id s) t (env_timer s))),
      pd_promise = p\<rparr>"]
    by (simp add: create_new_pipe_end_def Let_def case_prod_beta)
next
  case (Cons el others)
  then show thesis
    using that(2) [of el others] container_simps(1) [of "\<not> d"] container_simps(2) [of "\<not> d"]
    by (simp add: create_new_pipe_end_def Let_def)
qed


lemma env_frame_inv:
  assumes "env_inv s" "container (\<not> d) s' = container (\<not> d) s"
    and "set (container d s') \<subseteq> set (container d s)"
  shows "env_inv s'"
  using assms by (auto simp: env_inv_container [of _ d])

lemma env_inv_create: "env_inv s \<Longrightarrow> env_inv (fst (create_new_pipe_end now p c d timeout s))"
  by (rule create_new_pipe_end_cases [of d s p c now timeout])
    (auto simp: env_inv_container [of _ d])

lemma env_inv_step: "env_inv s \<Longrightarrow> env_inv (fst (env_step s e))"
proof (cases e)
  case (Env_cancel c d)
  obtain s' os where r: "cancel_pending_endpoints c d s = (s', os)" by fastforce
  assume "env_inv s"
  from env_frame_inv [OF this cancel_pending_frame(1,2) [OF r]] show ?thesis
    using Env_cancel r by simp
next
  case (Env_timer_handler i)
  assume inv: "env_inv s"
  show ?thesis
  proof (rule env_timer_handler_cases [of i s])
    fix t d pid
    assume h: "env_timer_handler i s = remove_promise_by_timeout d pid (s\<lparr>env_timer := t\<rparr>)"
    obtain s' os where r: "remove_promise_by_timeout d pid (s\<lparr>env_timer := t\<rparr>) = (s', os)"
      by fastforce
    have "env_inv (s\<lparr>env_timer := t\<rparr>)" using inv by (simp add: env_inv_def)
    from env_frame_inv [OF this remove_promise_frame(1,2) [OF r]] show ?thesis
      using Env_timer_handler h r by simp
  qed (use inv Env_timer_handler in \<open>simp add: env_inv_def\<close>)
next
  case (Env_create now p c timeout)
  then show "env_inv s \<Longrightarrow> ?thesis" by (simp add: env_create_pipe_def env_inv_create)
next
  case (Env_open now p c timeout)
  then show "env_inv s \<Longrightarrow> ?thesis" by (simp add: env_open_pipe_def env_inv_create)
qed (simp add: env_inv_def)

lemma env_conserve_create:
  "env_pending (fst (create_new_pipe_end now p c d timeout s))
     + mset (map fst (snd (create_new_pipe_end now p c d timeout s))) = env_pending s + {#p#}"
  by (rule create_new_pipe_end_cases [of d s p c now timeout])
    (simp_all add: env_pending_container [of _ d])

lemma env_conserve:
  "env_pending (fst (env_step s e)) + mset (map fst (snd (env_step s e))) =
   env_pending s + env_opened s e"
proof (cases e)
  case (Env_cancel c d)
  then show ?thesis
    using cancel_pending_frame(1,3) [of c d s "fst (env_step s e)" "snd (env_step s e)"]
    by (simp add: env_pending_container [of _ d] union_assoc union_commute)
next
  case (Env_timer_handler i)
  show ?thesis
  proof (rule env_timer_handler_cases [of i s])
    fix t d pid
    assume h: "env_timer_handler i s = remove_promise_by_timeout d pid (s\<lparr>env_timer := t\<rparr>)"
    then show ?thesis
      using Env_timer_handler remove_promise_frame(1,3) [of d pid "s\<lparr>env_timer := t\<rparr>"
          "fst (env_step s e)" "snd (env_step s e)"]
      by (simp add: env_pending_container [of _ d] union_assoc union_commute)
  qed (simp add: Env_timer_handler env_pending_def)
next
  case (Env_create now p c timeout)
  then show ?thesis
    using env_conserve_create [of now p c True timeout s] by (simp add: env_create_pipe_def)
next
  case (Env_open now p c timeout)
  then show ?thesis
    using env_conserve_create [of now p c False timeout s] by (simp add: env_open_pipe_def)
qed (simp add: env_pending_def)

interpretation me: completion_system env_step env_inv env_pending env_opened
  by (unfold_locales, erule env_inv_step, rule env_conserve)

text \<open>The successful completions of a run: the promise and the end it got.\<close>

fun successes :: "wait_result completion list \<Rightarrow> (promise_id \<times> pipe_end) list" where
  "successes [] = []"
| "successes ((p, (Wait_success, Some e)) # os) = (p, e) # successes os"
| "successes (_ # os) = successes os"

lemma successes_append [simp]: "successes (xs @ ys) = successes xs @ successes ys"
  by (induction xs rule: successes.induct) simp_all

lemma successes_none: "\<forall>(p, r) \<in> set os. fst r \<noteq> Wait_success \<Longrightarrow> successes os = []"
  by (induction os rule: successes.induct) auto

text \<open>The shape of the successful completions: pair after pair of opposite ends of one pipe.\<close>

fun paired_from :: "nat \<Rightarrow> (promise_id \<times> pipe_end) list \<Rightarrow> bool" where
  "paired_from k [] = True"
| "paired_from k [x] = False"
| "paired_from k ((p, (d, i)) # (q, (d', j)) # xs) =
     (d' = (\<not> d) \<and> i = k \<and> j = k \<and> paired_from (Suc k) xs)"

lemma successes_create:
  assumes r_def: "r = create_new_pipe_end now p c d timeout s"
  shows "(successes (snd r) = [] \<and> env_pipes (fst r) = env_pipes s) \<or>
    (\<exists>p q d. successes (snd r) = [(p, (\<not> d, env_pipes s)), (q, (d, env_pipes s))] \<and>
      env_pipes (fst r) = Suc (env_pipes s))"
proof (rule create_new_pipe_end_cases [of d s p c now timeout])
  fix el others
  assume "snd (create_new_pipe_end now p c d timeout s) =
       [(pd_promise el, (Wait_success, Some (\<not> d, env_pipes s))),
        (p, (Wait_success, Some (d, env_pipes s)))]"
    and "env_pipes (fst (create_new_pipe_end now p c d timeout s)) = Suc (env_pipes s)"
  then show ?thesis
    unfolding r_def by (intro disjI2 exI [of _ "pd_promise el"] exI [of _ p] exI [of _ d]) simp
qed (simp add: r_def)

lemma successes_step:
  "(successes (snd (env_step s e)) = [] \<and> env_pipes (fst (env_step s e)) = env_pipes s) \<or>
   (\<exists>p q d. successes (snd (env_step s e)) = [(p, (\<not> d, env_pipes s)), (q, (d, env_pipes s))] \<and>
      env_pipes (fst (env_step s e)) = Suc (env_pipes s))"
proof (cases e)
  case (Env_create now p c timeout)
  then have e: "env_step s e = create_new_pipe_end now p c True timeout s"
    by (simp add: env_create_pipe_def)
  show ?thesis
    unfolding e by (rule successes_create [OF refl])
next
  case (Env_open now p c timeout)
  then have e: "env_step s e = create_new_pipe_end now p c False timeout s"
    by (simp add: env_open_pipe_def)
  show ?thesis
    unfolding e by (rule successes_create [OF refl])
next
  case (Env_cancel c d)
  then show ?thesis
    using cancel_pending_frame(4,5) [of c d s "fst (env_step s e)" "snd (env_step s e)"]
    by (intro disjI1 conjI successes_none) auto
next
  case (Env_timer_handler i)
  show ?thesis
  proof (rule env_timer_handler_cases [of i s])
    fix t d pid
    assume "env_timer_handler i s = remove_promise_by_timeout d pid (s\<lparr>env_timer := t\<rparr>)"
    then show ?thesis
      using Env_timer_handler remove_promise_frame(4,5) [of d pid "s\<lparr>env_timer := t\<rparr>"
          "fst (env_step s e)" "snd (env_step s e)"]
      by (intro disjI1 conjI successes_none) auto
  qed (simp add: Env_timer_handler)
qed simp

lemma paired_run: "paired_from (env_pipes s) (successes (run_output env_step s es))"
proof (induction es arbitrary: s)
  case Nil
  then show ?case by simp
next
  case (Cons e es)
  have "paired_from (env_pipes (fst (env_step s e)))
      (successes (run_output env_step (fst (env_step s e)) es))" by (rule Cons.IH)
  with successes_step [of s e] show ?case by auto
qed

text \<open>
  The memory pipe environment completes every request for an end exactly once, never has
  clients and servers waiting at the same time, and hands out ends in pairs: each new pipe has
  exactly one client end and one server end.
\<close>

theorem mem_pipe_env_pairs:
  "mset (map fst (run_output env_step mem_pipe_env_create es))
     + env_pending (run_state env_step mem_pipe_env_create es) =
   run_opened env_step env_opened mem_pipe_env_create es \<and>
   (get_pending_client_endpoints_count (run_state env_step mem_pipe_env_create es) = 0 \<or>
    get_pending_server_endpoints_count (run_state env_step mem_pipe_env_create es) = 0) \<and>
   paired_from 0 (successes (run_output env_step mem_pipe_env_create es))"
proof -
  have init: "env_inv mem_pipe_env_create" "env_pending mem_pipe_env_create = {#}"
    "env_pipes mem_pipe_env_create = 0"
    by (simp_all add: env_inv_def env_pending_def mem_pipe_env_create_def)
  then show ?thesis
    using me.conserve_run [OF init(1), of es] me.inv_run [OF init(1), of es]
      paired_run [of mem_pipe_env_create es]
    by (simp add: env_inv_def get_pending_client_endpoints_count_def
        get_pending_server_endpoints_count_def add.commute)
qed

text \<open>
  Cancelling completes exactly the waiting ends of the given client (or all of that side)
  as cancelled and leaves the others, and the other side, waiting; a timeout removes one end.
\<close>

theorem mem_pipe_env_cancel:
  assumes "cancel_pending_endpoints client_id d s = (s', os)"
  shows "map fst os = map pd_promise
       [el \<leftarrow> container d s. client_id = None \<or> client_id = Some (pd_client_id el)] \<and>
     container d s' = [el \<leftarrow> container d s. \<not> (client_id = None \<or> client_id = Some (pd_client_id el))] \<and>
     container (\<not> d) s' = container (\<not> d) s \<and>
     (\<forall>(p, r) \<in> set os. r = (Wait_canceled, None))"
  by (intro conjI cancel_pending_frame [OF assms])

definition env_example :: mem_pipe_env where
  "env_example = mem_pipe_env_create\<lparr>m_server_side_pipe_promises :=
     [\<lparr>pd_id = 0, pd_client_id = 7, pd_timer_id = None, pd_promise = 1\<rparr>,
      \<lparr>pd_id = 1, pd_client_id = 8, pd_timer_id = None, pd_promise = 2\<rparr>,
      \<lparr>pd_id = 2, pd_client_id = 7, pd_timer_id = None, pd_promise = 3\<rparr>],
     env_next_promise_id := 3\<rparr>"

theorem mem_pipe_env_cancel_witness:
  "map fst (snd (cancel_pending_endpoints (Some 7) True env_example)) = [1, 3]"
proof -
  obtain s' os where c: "cancel_pending_endpoints (Some 7) True env_example = (s', os)"
    by fastforce
  show ?thesis
    using mem_pipe_env_cancel [OF c] unfolding c by (simp add: container_def env_example_def)
qed

end
