(* ===== verification/Tcp_Endpoint.thy ===== *)
theory Tcp_Endpoint
  imports Transfer_Message Pipe_Endpoint Timers "HOL-Library.Sublist"
begin

text \<open>
  The socket endpoint, \<open>rpc-lib/pipe/tcp-pipe/tcp-pipe-endpoint.cpp\<close>: length-prefixed messages
  over a byte stream, one transfer in flight per direction, timeouts, and invalidation.

  The two directions instantiate the same templates of the source, so an operation has one type
  here with a body that is a write or a read.  The operation lists are kept from \<open>back()\<close>, the
  operation in flight, to \<open>front()\<close>, the newest.  The socket is the operating system's: a
  started \<open>async_read_some\<close> or \<open>async_write_some\<close> is completed by an event that
  chooses how many bytes are moved (at least one, unless none was asked for), and its handler
  runs in a later step; a transfer that is still open when the socket is closed completes
  as aborted.  The fields \<open>t_wire\<close> and \<open>t_messages\<close> are history variables: the bytes moved over
  the socket and the messages whose transfer is complete; no step reads them.
\<close>

datatype side = Wr | Rd

definition s_header_size :: nat where
  "s_header_size = 4"

text \<open>\<open>native_to_big\<close> and \<open>big_to_native\<close> of the four header bytes.\<close>

definition header_bytes :: "nat \<Rightarrow> bytes" where
  "header_bytes n = from_uint32_to_big_endian (of_nat n)"

definition tcp_frame :: "bytes \<Rightarrow> bytes" where
  "tcp_frame msg = header_bytes (length msg) @ msg"

section \<open>Operations\<close>

text \<open>
  A write has its payload and the bytes transferred; a read the header bytes received so far, the
  payload buffer (its size and the bytes received into it) once it is allocated, and the bytes read.
\<close>

datatype op_body =
    Write_op bytes nat
  | Read_op bytes "(nat \<times> bytes) option" nat

record op_data =
  od_id :: nat
  od_timer_id :: "timer_id option"
  od_is_promise_resolved :: bool
  od_promise :: promise_id
  od_body :: op_body

definition write_operation :: "bytes \<Rightarrow> op_body" where
  "write_operation message = Write_op message 0"

definition read_operation :: op_body where
  "read_operation = Read_op [] None 0"

fun is_header_completed :: "op_body \<Rightarrow> bool" where
  "is_header_completed (Write_op payload n) = (n \<ge> s_header_size)"
| "is_header_completed (Read_op header payload n) = (n \<ge> s_header_size)"

fun is_payload_completed :: "op_body \<Rightarrow> bool" where
  "is_payload_completed (Write_op payload n) = (n = s_header_size + length payload)"
| "is_payload_completed (Read_op header payload n) =
     (case payload of None \<Rightarrow> False | Some (sz, got) \<Rightarrow> n = sz + s_header_size)"

fun is_payload_buffer_valid :: "op_body \<Rightarrow> bool" where
  "is_payload_buffer_valid (Write_op payload n) = True"
| "is_payload_buffer_valid (Read_op header payload n) = (payload \<noteq> None)"

text \<open>The bytes that a write offers to the socket, and how many a read asks for.\<close>

fun get_unwritten_header_buffer :: "op_body \<Rightarrow> bytes" where
  "get_unwritten_header_buffer (Write_op payload n) = drop n (header_bytes (length payload))"
| "get_unwritten_header_buffer (Read_op header payload n) = []"

fun get_unwritten_payload_buffer :: "op_body \<Rightarrow> bytes" where
  "get_unwritten_payload_buffer (Write_op payload n) = drop (n - s_header_size) payload"
| "get_unwritten_payload_buffer (Read_op header payload n) = []"

fun get_size_for_unread_header :: "op_body \<Rightarrow> nat" where
  "get_size_for_unread_header (Read_op header payload n) = s_header_size - n"
| "get_size_for_unread_header (Write_op payload n) = 0"

fun get_size_for_unread_payload :: "op_body \<Rightarrow> nat" where
  "get_size_for_unread_payload (Read_op header payload n) =
     (case payload of None \<Rightarrow> 0 | Some (sz, got) \<Rightarrow> sz - (n - s_header_size))"
| "get_size_for_unread_payload (Write_op payload n) = 0"

text \<open>
  \<open>add_bytes\<close>, with the bytes that the socket has put into the header or payload buffer: the
  payload buffer is allocated when the header is complete and announces an acceptable size.
\<close>

fun add_bytes :: "op_body \<Rightarrow> bytes \<Rightarrow> op_body" where
  "add_bytes (Write_op payload n) d = Write_op payload (n + length d)"
| "add_bytes (Read_op header payload n) d =
     (let header = (if n < s_header_size then header @ d else header);
          payload = (if n < s_header_size then payload
                     else map_option (\<lambda>(sz, got). (sz, got @ d)) payload);
          n = n + length d
      in if payload = None \<and> n = s_header_size
         then let message_size = to_uint32_to_big_endian header
              in if message_size \<noteq> 0 \<and> message_size \<le> MaxTransferMessageSize
                 then Read_op header (Some (unat message_size, [])) n
                 else Read_op header None n
         else Read_op header payload n)"

fun op_result :: "pipe_op_res \<Rightarrow> op_body \<Rightarrow> pipe_result" where
  "op_result r (Write_op payload n) = Written r"
| "op_result r (Read_op header payload n) =
     Read r (if r = Op_success then map_option snd payload else None)"

definition take_pending_result :: "pipe_op_res \<Rightarrow> op_data \<Rightarrow> op_data \<times> pipe_result completion list" where
  "take_pending_result r op =
     (if od_is_promise_resolved op then (op, [])
      else (op\<lparr>od_is_promise_resolved := True\<rparr>, [(od_promise op, op_result r (od_body op))]))"

text \<open>The message of a completed transfer.\<close>

fun op_message :: "op_body \<Rightarrow> bytes" where
  "op_message (Write_op payload n) = payload"
| "op_message (Read_op header payload n) = (case payload of None \<Rightarrow> [] | Some (sz, got) \<Rightarrow> got)"


section \<open>The endpoint\<close>

datatype io_phase = Ph_header | Ph_payload
datatype error_code = Ec_ok | Ec_aborted | Ec_error

text \<open>The transfer of a direction: none, started, or done and waiting for its handler.\<close>

datatype io_state = Io_idle | Io_started io_phase | Io_done io_phase error_code bytes

record tcp_endpoint =
  t_next_op_id :: "side \<Rightarrow> nat"
  t_operations :: "side \<Rightarrow> op_data list"
  t_io :: "side \<Rightarrow> io_state"
  t_socket_open :: bool
  t_was_invalidated_by_fail :: bool
  t_disconnect_callbacks :: "nat list"
  t_executed_callbacks :: "nat list"
  t_timer :: "(side \<times> nat) multiple_timer"
  t_wire :: "side \<Rightarrow> bytes"
  t_messages :: "side \<Rightarrow> bytes list"

definition tcp_create :: tcp_endpoint where
  "tcp_create =
     \<lparr>t_next_op_id = (\<lambda>_. 0), t_operations = (\<lambda>_. []), t_io = (\<lambda>_. Io_idle),
      t_socket_open = True, t_was_invalidated_by_fail = False, t_disconnect_callbacks = [],
      t_executed_callbacks = [], t_timer = multiple_timer_init, t_wire = (\<lambda>_. []),
      t_messages = (\<lambda>_. [])\<rparr>"

type_synonym tcp_result = "tcp_endpoint \<times> pipe_result completion list"

definition tcp_is_connected :: "tcp_endpoint \<Rightarrow> bool" where
  "tcp_is_connected s = t_socket_open s"

definition set_disconnect_callback :: "nat \<Rightarrow> tcp_endpoint \<Rightarrow> tcp_endpoint" where
  "set_disconnect_callback cb s =
     (if t_socket_open s then s\<lparr>t_disconnect_callbacks := t_disconnect_callbacks s @ [cb]\<rparr>
      else s\<lparr>t_executed_callbacks := t_executed_callbacks s @ [cb]\<rparr>)"

definition set_ops :: "side \<Rightarrow> op_data list \<Rightarrow> tcp_endpoint \<Rightarrow> tcp_endpoint" where
  "set_ops sd ops s = s\<lparr>t_operations := (t_operations s)(sd := ops)\<rparr>"

definition set_io :: "side \<Rightarrow> io_state \<Rightarrow> tcp_endpoint \<Rightarrow> tcp_endpoint" where
  "set_io sd io s = s\<lparr>t_io := (t_io s)(sd := io)\<rparr>"

definition cancel_op_timer :: "op_data \<Rightarrow> tcp_endpoint \<Rightarrow> tcp_endpoint" where
  "cancel_op_timer op s =
     (case od_timer_id op of None \<Rightarrow> s | Some i \<Rightarrow> s\<lparr>t_timer := multiple_timer_cancel i (t_timer s)\<rparr>)"

text \<open>The result for operations that find the socket closed.\<close>

definition closed_result :: "tcp_endpoint \<Rightarrow> pipe_op_res" where
  "closed_result s = (if t_was_invalidated_by_fail s then Op_failed else Op_canceled)"

fun complete_ops :: "pipe_op_res \<Rightarrow> op_data list \<Rightarrow> tcp_endpoint \<Rightarrow> tcp_result" where
  "complete_ops r [] s = (s, [])"
| "complete_ops r (op # ops) s =
     (let os = snd (take_pending_result r op);
          (s', os') = complete_ops r ops (cancel_op_timer op s)
      in (s', os @ os'))"

definition complete_all_operations_unsafe :: "pipe_op_res \<Rightarrow> side \<Rightarrow> tcp_endpoint \<Rightarrow> tcp_result" where
  "complete_all_operations_unsafe r sd s =
     (let (s', os) = complete_ops r (t_operations s sd) s in (set_ops sd [] s', os))"

definition invalidate_unsafe :: "bool \<Rightarrow> tcp_endpoint \<Rightarrow> tcp_endpoint" where
  "invalidate_unsafe by_cancel s =
     (let s = (if t_socket_open s
               then s\<lparr>t_was_invalidated_by_fail := \<not> by_cancel, t_socket_open := False\<rparr> else s)
      in s\<lparr>t_executed_callbacks := t_executed_callbacks s @ t_disconnect_callbacks s,
           t_disconnect_callbacks := []\<rparr>)"

definition tcp_invalidate :: "tcp_endpoint \<Rightarrow> tcp_endpoint" where
  "tcp_invalidate s = invalidate_unsafe True s"

text \<open>\<open>start_write_header_async\<close> and \<open>start_read_header_async\<close>.\<close>

definition start_header_async :: "side \<Rightarrow> tcp_endpoint \<Rightarrow> tcp_result" where
  "start_header_async sd s =
     (if \<not> t_socket_open s then complete_all_operations_unsafe (closed_result s) sd s
      else (set_io sd (Io_started Ph_header) s, []))"

definition start_write_payload_async :: "tcp_endpoint \<Rightarrow> tcp_result" where
  "start_write_payload_async s =
     (if \<not> t_socket_open s then complete_all_operations_unsafe (closed_result s) Wr s
      else (set_io Wr (Io_started Ph_payload) s, []))"

definition start_read_payload_async :: "tcp_endpoint \<Rightarrow> tcp_result" where
  "start_read_payload_async s =
     (if \<not> is_payload_buffer_valid (od_body (hd (t_operations s Rd)))
      then complete_all_operations_unsafe Op_failed Rd (invalidate_unsafe False s)
      else if \<not> t_socket_open s then complete_all_operations_unsafe (closed_result s) Rd s
      else (set_io Rd (Io_started Ph_payload) s, []))"

definition start_payload_async :: "side \<Rightarrow> tcp_endpoint \<Rightarrow> tcp_result" where
  "start_payload_async sd s =
     (case sd of Wr \<Rightarrow> start_write_payload_async s | Rd \<Rightarrow> start_read_payload_async s)"

text \<open>The error branch that both completion handlers share.\<close>

definition on_error :: "error_code \<Rightarrow> side \<Rightarrow> tcp_endpoint \<Rightarrow> tcp_result" where
  "on_error ec sd s =
     (if ec = Ec_aborted \<or> \<not> t_socket_open s
      then complete_all_operations_unsafe (closed_result s) sd s
      else complete_all_operations_unsafe Op_failed sd (invalidate_unsafe False s))"

definition add_bytes_back :: "side \<Rightarrow> bytes \<Rightarrow> tcp_endpoint \<Rightarrow> tcp_endpoint" where
  "add_bytes_back sd d s =
     (case t_operations s sd of
        [] \<Rightarrow> s
      | op # ops \<Rightarrow> set_ops sd (op\<lparr>od_body := add_bytes (od_body op) d\<rparr> # ops) s)"

definition on_header_operation :: "error_code \<Rightarrow> bytes \<Rightarrow> side \<Rightarrow> tcp_endpoint \<Rightarrow> tcp_result" where
  "on_header_operation ec d sd s =
     (let s = add_bytes_back sd d s in
      if ec \<noteq> Ec_ok then on_error ec sd s
      else if \<not> is_header_completed (od_body (hd (t_operations s sd)))
      then start_header_async sd s
      else start_payload_async sd s)"

definition on_payload_operation :: "error_code \<Rightarrow> bytes \<Rightarrow> side \<Rightarrow> tcp_endpoint \<Rightarrow> tcp_result" where
  "on_payload_operation ec d sd s =
     (let s = add_bytes_back sd d s; op = hd (t_operations s sd) in
      if ec \<noteq> Ec_ok then on_error ec sd s
      else if \<not> is_payload_completed (od_body op) then start_payload_async sd s
      else
        let os = snd (take_pending_result Op_success op);
            s = cancel_op_timer op s;
            s = s\<lparr>t_messages := (t_messages s)(sd := t_messages s sd @ [op_message (od_body op)])\<rparr>;
            s = set_ops sd (tl (t_operations s sd)) s
        in if t_operations s sd = [] then (s, os)
           else let (s', os') = start_header_async sd s in (s', os @ os'))"

text \<open>The callback of an operation timer.\<close>

definition timeout_callback :: "side \<Rightarrow> nat \<Rightarrow> tcp_endpoint \<Rightarrow> tcp_result" where
  "timeout_callback sd i s =
     (case find (\<lambda>op. od_id op = i) (t_operations s sd) of
        None \<Rightarrow> (s, [])
      | Some op \<Rightarrow>
          let r = (if t_socket_open s then Op_timeout else closed_result s);
              (op', os) = take_pending_result r op
          in (set_ops sd
                (if od_id op \<noteq> od_id (hd (t_operations s sd))
                 then remove1 op (t_operations s sd)
                 else op' # tl (t_operations s sd)) s, os))"

definition start_operation ::
  "side \<Rightarrow> op_body \<Rightarrow> time_point \<Rightarrow> promise_id \<Rightarrow> nat option \<Rightarrow> tcp_endpoint \<Rightarrow> tcp_result"
where
  "start_operation sd body now p timeout s =
     (if \<not> t_socket_open s then (s, [(p, op_result Op_failed body)])
      else
        let i = t_next_op_id s sd;
            (timer_id, timer) =
              (case timeout of
                 None \<Rightarrow> (None, t_timer s)
               | Some t \<Rightarrow> map_prod Some id (multiple_timer_start now (sd, i) t (t_timer s)));
            op = \<lparr>od_id = i, od_timer_id = timer_id, od_is_promise_resolved = False,
                  od_promise = p, od_body = body\<rparr>;
            s = s\<lparr>t_next_op_id := (t_next_op_id s)(sd := Suc i), t_timer := timer\<rparr>;
            s = set_ops sd (t_operations s sd @ [op]) s
        in if length (t_operations s sd) = 1 then start_header_async sd s else (s, []))"

definition write_async ::
  "time_point \<Rightarrow> promise_id \<Rightarrow> bytes \<Rightarrow> nat option \<Rightarrow> tcp_endpoint \<Rightarrow> tcp_result"
where
  "write_async now p msg timeout s = start_operation Wr (write_operation msg) now p timeout s"

definition read_async :: "time_point \<Rightarrow> promise_id \<Rightarrow> nat option \<Rightarrow> tcp_endpoint \<Rightarrow> tcp_result" where
  "read_async now p timeout s = start_operation Rd read_operation now p timeout s"


section \<open>The socket\<close>

text \<open>How many bytes the started transfer of a direction can move.\<close>

definition io_capacity :: "side \<Rightarrow> io_phase \<Rightarrow> tcp_endpoint \<Rightarrow> nat" where
  "io_capacity sd ph s =
     (case t_operations s sd of
        [] \<Rightarrow> 0
      | op # ops \<Rightarrow>
          (case (sd, ph) of
             (Wr, Ph_header) \<Rightarrow> length (get_unwritten_header_buffer (od_body op))
           | (Wr, Ph_payload) \<Rightarrow> length (get_unwritten_payload_buffer (od_body op))
           | (Rd, Ph_header) \<Rightarrow> get_size_for_unread_header (od_body op)
           | (Rd, Ph_payload) \<Rightarrow> get_size_for_unread_payload (od_body op)))"

text \<open>
  The operating system completes the started transfer: \<open>d\<close> are the bytes taken from the
  buffer of a write, or put into the buffer of a read.
\<close>

definition io_transfer :: "side \<Rightarrow> error_code \<Rightarrow> bytes \<Rightarrow> tcp_endpoint \<Rightarrow> tcp_endpoint" where
  "io_transfer sd ec d s =
     (case t_io s sd of
        Io_started ph \<Rightarrow>
          let cap = io_capacity sd ph s;
              allowed = (if \<not> t_socket_open s then ec = Ec_aborted \<and> d = []
                         else if ec = Ec_ok then length d \<le> cap \<and> (d \<noteq> [] \<or> cap = 0)
                         else ec = Ec_error \<and> d = [])
          in if allowed
             then (set_io sd (Io_done ph ec d) s)\<lparr>t_wire := (t_wire s)(sd := t_wire s sd @ d)\<rparr>
             else s
      | _ \<Rightarrow> s)"

text \<open>The bytes that a write of the given number of bytes takes from its buffer.\<close>

definition offered_bytes :: "nat \<Rightarrow> tcp_endpoint \<Rightarrow> bytes" where
  "offered_bytes n s =
     (case t_io s Wr of
        Io_started Ph_header \<Rightarrow> take n (get_unwritten_header_buffer (od_body (hd (t_operations s Wr))))
      | Io_started Ph_payload \<Rightarrow> take n (get_unwritten_payload_buffer (od_body (hd (t_operations s Wr))))
      | _ \<Rightarrow> [])"

definition io_handler :: "side \<Rightarrow> tcp_endpoint \<Rightarrow> tcp_result" where
  "io_handler sd s =
     (case t_io s sd of
        Io_done Ph_header ec d \<Rightarrow> on_header_operation ec d sd (set_io sd Io_idle s)
      | Io_done Ph_payload ec d \<Rightarrow> on_payload_operation ec d sd (set_io sd Io_idle s)
      | _ \<Rightarrow> (s, []))"

definition tcp_timer_handler :: "timer_id \<Rightarrow> tcp_endpoint \<Rightarrow> tcp_result" where
  "tcp_timer_handler i s =
     (let (t, cb) = multiple_timer_handler i (t_timer s); s' = s\<lparr>t_timer := t\<rparr>
      in case cb of None \<Rightarrow> (s', []) | Some (sd, oid) \<Rightarrow> timeout_callback sd oid s')"

datatype tcp_event =
    Tcp_write time_point promise_id bytes "nat option"
  | Tcp_read time_point promise_id "nat option"
  | Tcp_invalidate
  | Tcp_set_callback nat
  | Tcp_sent error_code nat
  | Tcp_received error_code bytes
  | Tcp_handler side
  | Tcp_timer_expire time_point timer_id
  | Tcp_timer_handler timer_id

fun tcp_step :: "tcp_endpoint \<Rightarrow> tcp_event \<Rightarrow> tcp_result" where
  "tcp_step s (Tcp_write now p msg timeout) = write_async now p msg timeout s"
| "tcp_step s (Tcp_read now p timeout) = read_async now p timeout s"
| "tcp_step s Tcp_invalidate = (tcp_invalidate s, [])"
| "tcp_step s (Tcp_set_callback cb) = (set_disconnect_callback cb s, [])"
| "tcp_step s (Tcp_sent ec n) = (io_transfer Wr ec (offered_bytes n s) s, [])"
| "tcp_step s (Tcp_received ec d) = (io_transfer Rd ec d s, [])"
| "tcp_step s (Tcp_handler sd) = io_handler sd s"
| "tcp_step s (Tcp_timer_expire now i) = (s\<lparr>t_timer := multiple_timer_expire now i (t_timer s)\<rparr>, [])"
| "tcp_step s (Tcp_timer_handler i) = tcp_timer_handler i s"


section \<open>Frame lemmas\<close>

lemma set_ops_simps [simp]:
  "t_operations (set_ops sd ops s) = (t_operations s)(sd := ops)"
  "t_io (set_ops sd ops s) = t_io s" "t_next_op_id (set_ops sd ops s) = t_next_op_id s"
  "t_socket_open (set_ops sd ops s) = t_socket_open s"
  "t_was_invalidated_by_fail (set_ops sd ops s) = t_was_invalidated_by_fail s"
  "t_wire (set_ops sd ops s) = t_wire s" "t_messages (set_ops sd ops s) = t_messages s"
  "t_timer (set_ops sd ops s) = t_timer s"
  by (simp_all add: set_ops_def)

lemma set_io_simps [simp]:
  "t_operations (set_io sd io s) = t_operations s"
  "t_io (set_io sd io s) = (t_io s)(sd := io)" "t_next_op_id (set_io sd io s) = t_next_op_id s"
  "t_socket_open (set_io sd io s) = t_socket_open s"
  "t_was_invalidated_by_fail (set_io sd io s) = t_was_invalidated_by_fail s"
  "t_wire (set_io sd io s) = t_wire s" "t_messages (set_io sd io s) = t_messages s"
  by (simp_all add: set_io_def)

lemma cancel_op_timer_simps [simp]:
  "t_operations (cancel_op_timer op s) = t_operations s" "t_io (cancel_op_timer op s) = t_io s"
  "t_next_op_id (cancel_op_timer op s) = t_next_op_id s"
  "t_socket_open (cancel_op_timer op s) = t_socket_open s"
  "t_was_invalidated_by_fail (cancel_op_timer op s) = t_was_invalidated_by_fail s"
  "t_wire (cancel_op_timer op s) = t_wire s" "t_messages (cancel_op_timer op s) = t_messages s"
  by (simp_all add: cancel_op_timer_def split: option.split)

lemma invalidate_unsafe_simps [simp]:
  "t_operations (invalidate_unsafe c s) = t_operations s" "t_io (invalidate_unsafe c s) = t_io s"
  "t_next_op_id (invalidate_unsafe c s) = t_next_op_id s"
  "\<not> t_socket_open (invalidate_unsafe c s)"
  "t_wire (invalidate_unsafe c s) = t_wire s" "t_messages (invalidate_unsafe c s) = t_messages s"
  by (simp_all add: invalidate_unsafe_def Let_def)

lemma complete_ops_simps [simp]:
  "t_operations (fst (complete_ops r ops s)) = t_operations s"
  "t_io (fst (complete_ops r ops s)) = t_io s"
  "t_next_op_id (fst (complete_ops r ops s)) = t_next_op_id s"
  "t_socket_open (fst (complete_ops r ops s)) = t_socket_open s"
  "t_wire (fst (complete_ops r ops s)) = t_wire s"
  "t_messages (fst (complete_ops r ops s)) = t_messages s"
  by (induction ops arbitrary: s) (simp_all add: case_prod_beta Let_def)

lemma complete_all_simps [simp]:
  "t_operations (fst (complete_all_operations_unsafe r sd s)) = (t_operations s)(sd := [])"
  "t_io (fst (complete_all_operations_unsafe r sd s)) = t_io s"
  "t_next_op_id (fst (complete_all_operations_unsafe r sd s)) = t_next_op_id s"
  "t_socket_open (fst (complete_all_operations_unsafe r sd s)) = t_socket_open s"
  "t_wire (fst (complete_all_operations_unsafe r sd s)) = t_wire s"
  "t_messages (fst (complete_all_operations_unsafe r sd s)) = t_messages s"
  by (simp_all add: complete_all_operations_unsafe_def case_prod_beta Let_def)

text \<open>The promises of a list of operations that are not resolved yet.\<close>

definition unresolved :: "op_data list \<Rightarrow> promise_id list" where
  "unresolved ops = map od_promise (filter (\<lambda>op. \<not> od_is_promise_resolved op) ops)"

lemma unresolved_simps [simp]:
  "unresolved [] = []"
  "unresolved (op # ops) = (if od_is_promise_resolved op then unresolved ops else od_promise op # unresolved ops)"
  "unresolved (xs @ ys) = unresolved xs @ unresolved ys"
  by (simp_all add: unresolved_def)

lemma complete_ops_output:
  "map fst (snd (complete_ops r ops s)) = unresolved ops \<and>
   (\<forall>(p, x) \<in> set (snd (complete_ops r ops s)). op_res x = r)"
proof (induction ops arbitrary: s)
  case Nil
  then show ?case by simp
next
  case (Cons op ops)
  have "op_res (op_result r b) = r" for b by (cases b) simp_all
  then show ?case
    using Cons.IH by (auto simp: case_prod_beta Let_def take_pending_result_def)
qed

lemma complete_all_output:
  "map fst (snd (complete_all_operations_unsafe r sd s)) = unresolved (t_operations s sd)"
  "\<forall>(p, x) \<in> set (snd (complete_all_operations_unsafe r sd s)). op_res x = r"
  using complete_ops_output [of r "t_operations s sd" s]
  by (simp_all add: complete_all_operations_unsafe_def case_prod_beta Let_def)


section \<open>Invariant and conservation\<close>

text \<open>
  A direction has a transfer in flight exactly when it has operations; only the operation in
  flight may have a resolved promise (it timed out); ids are distinct and issued.
\<close>

definition ops_ok :: "op_data list \<Rightarrow> nat \<Rightarrow> bool" where
  "ops_ok ops n \<longleftrightarrow>
     distinct (map od_id ops) \<and> (\<forall>op \<in> set ops. od_id op < n) \<and>
     (\<forall>op \<in> set (tl ops). \<not> od_is_promise_resolved op)"

definition side_ok :: "side \<Rightarrow> tcp_endpoint \<Rightarrow> bool" where
  "side_ok sd s \<longleftrightarrow>
     (t_operations s sd = [] \<longleftrightarrow> t_io s sd = Io_idle) \<and>
     ops_ok (t_operations s sd) (t_next_op_id s sd)"

definition tcp_inv :: "tcp_endpoint \<Rightarrow> bool" where
  "tcp_inv s \<longleftrightarrow> (\<forall>sd. side_ok sd s)"

definition tcp_pending :: "tcp_endpoint \<Rightarrow> promise_id multiset" where
  "tcp_pending s = mset (unresolved (t_operations s Wr)) + mset (unresolved (t_operations s Rd))"

fun tcp_opened :: "tcp_endpoint \<Rightarrow> tcp_event \<Rightarrow> promise_id multiset" where
  "tcp_opened s (Tcp_write now p msg timeout) = {#p#}"
| "tcp_opened s (Tcp_read now p timeout) = {#p#}"
| "tcp_opened s _ = {#}"

fun other :: "side \<Rightarrow> side" where
  "other Wr = Rd"
| "other Rd = Wr"

lemma other_neq [simp]: "other sd \<noteq> sd" "sd \<noteq> other sd"
  by (cases sd; simp)+

lemma side_cases: "sd' = sd \<or> sd' = other sd"
  by (cases sd; cases sd') simp_all

lemma tcp_pending_side:
  "tcp_pending s = mset (unresolved (t_operations s sd)) + mset (unresolved (t_operations s (other sd)))"
  by (cases sd) (simp_all add: tcp_pending_def)

text \<open>
  What a step on direction \<open>sd\<close> has to establish: it leaves the other direction alone, keeps
  its own consistent, completes what it no longer holds, does not reopen the socket, and from
  a closed socket reports no timeout.
\<close>

definition good_step :: "side \<Rightarrow> tcp_endpoint \<Rightarrow> promise_id multiset \<Rightarrow> tcp_result \<Rightarrow> bool" where
  "good_step sd s new res \<longleftrightarrow>
     side_ok sd (fst res) \<and>
     t_operations (fst res) (other sd) = t_operations s (other sd) \<and>
     t_io (fst res) (other sd) = t_io s (other sd) \<and>
     t_next_op_id (fst res) (other sd) = t_next_op_id s (other sd) \<and>
     mset (unresolved (t_operations (fst res) sd)) + mset (map fst (snd res)) =
       mset (unresolved (t_operations s sd)) + new \<and>
     (\<not> t_socket_open s \<longrightarrow> \<not> t_socket_open (fst res) \<and>
        (\<forall>(p, r) \<in> set (snd res). op_res r \<noteq> Op_timeout))"

lemma good_step_inv:
  assumes "good_step sd s new res" "tcp_inv s"
  shows "tcp_inv (fst res)"
  unfolding tcp_inv_def
proof
  fix sd'
  show "side_ok sd' (fst res)"
    using side_cases [of sd' sd] assms by (auto simp: good_step_def tcp_inv_def side_ok_def)
qed

lemma good_step_conserve:
  "good_step sd s new res \<Longrightarrow>
   tcp_pending (fst res) + mset (map fst (snd res)) = tcp_pending s + new"
  by (simp add: good_step_def tcp_pending_side [of _ sd] union_assoc union_commute)

lemma closed_result_not_timeout [simp]: "closed_result s \<noteq> Op_timeout" "closed_result s \<noteq> Op_success"
  by (simp_all add: closed_result_def)

lemma ops_ok_Nil [simp]: "ops_ok [] n"
  by (simp add: ops_ok_def)

lemma complete_all_good:
  assumes "t_io s sd = Io_idle" "r \<noteq> Op_timeout"
  shows "good_step sd s {#} (complete_all_operations_unsafe r sd s)"
  using assms complete_all_output [of r sd s]
  by (auto simp: good_step_def side_ok_def)


text \<open>A step may be judged from a state that agrees on what \<^const>\<open>good_step\<close> mentions.\<close>

lemma good_step_from:
  assumes "good_step sd s' new res"
    and "t_operations s' (other sd) = t_operations s (other sd)"
    and "t_io s' (other sd) = t_io s (other sd)"
    and "t_next_op_id s' (other sd) = t_next_op_id s (other sd)"
    and "unresolved (t_operations s' sd) = unresolved (t_operations s sd)"
    and "t_socket_open s' \<longrightarrow> t_socket_open s"
  shows "good_step sd s new res"
  using assms by (auto simp: good_step_def)

lemma invalidate_complete_good:
  assumes "t_io s sd = Io_idle"
  shows "good_step sd s {#} (complete_all_operations_unsafe Op_failed sd (invalidate_unsafe False s))"
  by (rule good_step_from [OF complete_all_good]) (simp_all add: assms)

lemma start_header_good:
  assumes "t_io s sd = Io_idle" "t_operations s sd \<noteq> []" "ops_ok (t_operations s sd) (t_next_op_id s sd)"
  shows "good_step sd s {#} (start_header_async sd s)"
proof (cases "t_socket_open s")
  case True
  then show ?thesis
    using assms by (simp add: start_header_async_def good_step_def side_ok_def)
next
  case False
  then show ?thesis
    using assms by (simp add: start_header_async_def complete_all_good)
qed

lemma start_payload_good:
  assumes "t_io s sd = Io_idle" "t_operations s sd \<noteq> []" "ops_ok (t_operations s sd) (t_next_op_id s sd)"
  shows "good_step sd s {#} (start_payload_async sd s)"
proof (cases sd)
  case Wr
  then show ?thesis
    using assms complete_all_good [of s Wr "closed_result s"]
    by (cases "t_socket_open s")
      (simp_all add: start_payload_async_def start_write_payload_async_def good_step_def side_ok_def)
next
  case Rd
  then show ?thesis
    using assms complete_all_good [of s Rd "closed_result s"] invalidate_complete_good [of s Rd]
    by (cases "t_socket_open s")
      (simp_all add: start_payload_async_def start_read_payload_async_def good_step_def side_ok_def)
qed

lemma on_error_good:
  "t_io s sd = Io_idle \<Longrightarrow> good_step sd s {#} (on_error ec sd s)"
  by (simp add: on_error_def complete_all_good invalidate_complete_good)

lemma add_bytes_back_simps [simp]:
  "t_io (add_bytes_back sd d s) = t_io s" "t_next_op_id (add_bytes_back sd d s) = t_next_op_id s"
  "t_socket_open (add_bytes_back sd d s) = t_socket_open s"
  "t_wire (add_bytes_back sd d s) = t_wire s" "t_messages (add_bytes_back sd d s) = t_messages s"
  "t_operations (add_bytes_back sd d s) (other sd) = t_operations s (other sd)"
  "unresolved (t_operations (add_bytes_back sd d s) sd) = unresolved (t_operations s sd)"
  "t_operations (add_bytes_back sd d s) sd = [] \<longleftrightarrow> t_operations s sd = []"
  "ops_ok (t_operations (add_bytes_back sd d s) sd) n \<longleftrightarrow> ops_ok (t_operations s sd) n"
  by (auto simp: add_bytes_back_def ops_ok_def split: list.split)

lemma ops_ok_tl: "ops_ok (op # ops) n \<Longrightarrow> ops_ok ops n"
  by (cases ops) (auto simp: ops_ok_def)

lemma on_header_good:
  assumes "t_io s sd = Io_idle" "t_operations s sd \<noteq> []" "ops_ok (t_operations s sd) (t_next_op_id s sd)"
  shows "good_step sd s {#} (on_header_operation ec d sd s)"
proof -
  let ?s = "add_bytes_back sd d s"
  have "good_step sd ?s {#} (on_header_operation ec d sd s)"
    using assms unfolding on_header_operation_def Let_def
    by (simp add: on_error_good start_header_good start_payload_good)
  then show ?thesis by (rule good_step_from) simp_all
qed

lemma finish_transfer_good:
  assumes "t_io s sd = Io_idle" "t_operations s sd = op # ops" "ops_ok (op # ops) (t_next_op_id s sd)"
    and "s' = set_ops sd ops ((cancel_op_timer op s)\<lparr>t_messages := m\<rparr>)"
  shows "good_step sd s {#}
    (if ops = [] then (s', snd (take_pending_result Op_success op))
     else (fst (start_header_async sd s'),
           snd (take_pending_result Op_success op) @ snd (start_header_async sd s')))"
proof -
  have res: "op_res (op_result Op_success b) \<noteq> Op_timeout" for b by (cases b) simp_all
  have s': "t_io s' = t_io s" "t_next_op_id s' = t_next_op_id s" "t_operations s' = (t_operations s)(sd := ops)"
    "t_socket_open s' = t_socket_open s"
    by (simp_all add: assms(4))
  have ok: "ops_ok ops (t_next_op_id s sd)" using assms(3) by (rule ops_ok_tl)
  show ?thesis
  proof (cases "ops = []")
    case True
    then show ?thesis
      using assms(1,2) s' res
      by (auto simp: good_step_def side_ok_def take_pending_result_def)
  next
    case False
    have "good_step sd s' {#} (start_header_async sd s')"
      using False assms(1) s' ok by (intro start_header_good) simp_all
    then show ?thesis
      using False assms(2) s' res
      by (auto simp: good_step_def take_pending_result_def)
  qed
qed

lemma on_payload_good:
  assumes "t_io s sd = Io_idle" "t_operations s sd \<noteq> []" "ops_ok (t_operations s sd) (t_next_op_id s sd)"
  shows "good_step sd s {#} (on_payload_operation ec d sd s)"
proof -
  let ?s = "add_bytes_back sd d s"
  obtain op ops where ops: "t_operations ?s sd = op # ops"
    using assms(2) by (cases "t_operations ?s sd") (metis add_bytes_back_simps(8), auto)
  have ok: "ops_ok (op # ops) (t_next_op_id ?s sd)"
    using assms(3) by (simp flip: ops)
  have "good_step sd ?s {#} (on_payload_operation ec d sd s)"
  proof (cases "ec = Ec_ok \<and> is_payload_completed (od_body op)")
    case False
    then have "on_payload_operation ec d sd s =
        (if ec \<noteq> Ec_ok then on_error ec sd ?s else start_payload_async sd ?s)"
      using ops by (simp add: on_payload_operation_def Let_def)
    then show ?thesis
      using assms by (simp add: on_error_good start_payload_good)
  next
    case True
    let ?m = "(t_messages ?s)(sd := t_messages ?s sd @ [op_message (od_body op)])"
    have "good_step sd ?s {#}
      (if ops = [] then (set_ops sd ops ((cancel_op_timer op ?s)\<lparr>t_messages := ?m\<rparr>),
          snd (take_pending_result Op_success op))
       else (fst (start_header_async sd (set_ops sd ops ((cancel_op_timer op ?s)\<lparr>t_messages := ?m\<rparr>))),
         snd (take_pending_result Op_success op) @
         snd (start_header_async sd (set_ops sd ops ((cancel_op_timer op ?s)\<lparr>t_messages := ?m\<rparr>)))))"
      using assms(1) ops ok by (intro finish_transfer_good) simp_all
    then show ?thesis
      using True ops unfolding on_payload_operation_def Let_def
      by (cases "ops = []") (simp_all add: case_prod_beta)
  qed
  then show ?thesis by (rule good_step_from) simp_all
qed


lemma io_handler_good:
  assumes "tcp_inv s"
  shows "good_step sd s {#} (io_handler sd s)"
proof (cases "t_io s sd")
  case (Io_done ph ec d)
  let ?s = "set_io sd Io_idle s"
  have pre: "t_io ?s sd = Io_idle" "t_operations ?s sd \<noteq> []"
    "ops_ok (t_operations ?s sd) (t_next_op_id ?s sd)"
    using assms Io_done by (auto simp: tcp_inv_def side_ok_def)
  have "good_step sd ?s {#} (io_handler sd s)"
    using on_header_good [OF pre] on_payload_good [OF pre] Io_done
    by (cases ph) (simp_all add: io_handler_def)
  then show ?thesis by (rule good_step_from) simp_all
qed (use assms in \<open>auto simp: io_handler_def good_step_def tcp_inv_def\<close>)

lemma unresolved_remove1:
  "op \<in> set ops \<Longrightarrow> mset (unresolved ops) = mset (unresolved (remove1 op ops)) + mset (unresolved [op])"
  by (induction ops) auto

lemma timeout_callback_good:
  assumes "tcp_inv s"
  shows "good_step sd s {#} (timeout_callback sd i s)"
proof (cases "find (\<lambda>op. od_id op = i) (t_operations s sd)")
  case None
  then show ?thesis
    using assms by (auto simp: timeout_callback_def good_step_def tcp_inv_def)
next
  case (Some op)
  then have mem: "op \<in> set (t_operations s sd)" by (auto simp: find_Some_iff)
  then obtain h ops where ops: "t_operations s sd = h # ops" by (cases "t_operations s sd") auto
  have ok: "ops_ok (h # ops) (t_next_op_id s sd)" "t_io s sd \<noteq> Io_idle"
    using assms ops by (auto simp: tcp_inv_def side_ok_def dest: spec [of _ sd])
  have res: "op_res (op_result r b) = r" for r b by (cases b) simp_all
  show ?thesis
  proof (cases "od_id op = od_id h")
    case True
    then have "op \<notin> set ops" using ok(1) by (auto simp: ops_ok_def image_iff)
    then have "op = h" using mem ops by simp
    then show ?thesis
      using Some ops ok
      by (auto simp: timeout_callback_def Let_def good_step_def side_ok_def ops_ok_def res
          take_pending_result_def)
  next
    case False
    then have "op \<in> set ops" using mem ops by auto
    then have "\<not> od_is_promise_resolved op" using ok(1) by (simp add: ops_ok_def)
    moreover have "ops_ok (h # remove1 op ops) (t_next_op_id s sd)"
      using ok(1) by (auto simp: ops_ok_def distinct_map_remove1 dest: notin_set_remove1
          subsetD [OF set_remove1_subset])
    moreover have "h \<noteq> op" using False by auto
    ultimately show ?thesis
      using Some ops ok unresolved_remove1 [OF \<open>op \<in> set ops\<close>] False
      by (auto simp: timeout_callback_def Let_def good_step_def side_ok_def res
          take_pending_result_def)
  qed
qed

lemma start_operation_good:
  assumes "tcp_inv s"
  shows "good_step sd s {#p#} (start_operation sd body now p timeout s)"
proof (cases "t_socket_open s")
  case False
  then show ?thesis
    using assms by (cases body) (auto simp: start_operation_def good_step_def tcp_inv_def)
next
  case True
  let ?i = "t_next_op_id s sd"
  define tt where "tt = (case timeout of None \<Rightarrow> (None, t_timer s)
    | Some t \<Rightarrow> map_prod Some id (multiple_timer_start now (sd, ?i) t (t_timer s)))"
  define op where "op = \<lparr>od_id = ?i, od_timer_id = fst tt, od_is_promise_resolved = False,
    od_promise = p, od_body = body\<rparr>"
  define s' where "s' = set_ops sd (t_operations s sd @ [op])
    (s\<lparr>t_next_op_id := (t_next_op_id s)(sd := Suc ?i), t_timer := snd tt\<rparr>)"
  have eq: "start_operation sd body now p timeout s =
      (if t_operations s sd = [] then start_header_async sd s' else (s', []))"
    using True by (simp add: start_operation_def s'_def op_def tt_def Let_def case_prod_beta)
  have io: "(t_operations s sd = []) = (t_io s sd = Io_idle)" "ops_ok (t_operations s sd) ?i"
    using assms by (simp_all add: tcp_inv_def side_ok_def)
  have s': "t_operations s' = (t_operations s)(sd := t_operations s sd @ [op])" "t_io s' = t_io s"
    "t_next_op_id s' = (t_next_op_id s)(sd := Suc ?i)" "t_socket_open s'"
    using True by (simp_all add: s'_def)
  have ok: "ops_ok (t_operations s sd @ [op]) (Suc ?i)"
    using io(2) by (cases "t_operations s sd") (auto simp: ops_ok_def op_def)
  have un: "unresolved [op] = [p]" by (simp add: op_def)
  note opened = True
  show ?thesis
  proof (cases "t_operations s sd = []")
    case True
    have "good_step sd s' {#} (start_header_async sd s')"
      using True io ok s' by (intro start_header_good) simp_all
    then show ?thesis
      using True opened eq s' un by (simp add: good_step_def)
  next
    case False
    then show ?thesis
      using opened eq io ok s' un by (simp add: good_step_def side_ok_def)
  qed
qed


lemma tcp_timer_handler_good:
  assumes "tcp_inv s"
  shows "good_step sd s {#} (tcp_timer_handler i s) \<or> good_step (other sd) s {#} (tcp_timer_handler i s)"
proof -
  obtain t cb where h: "multiple_timer_handler i (t_timer s) = (t, cb)" by fastforce
  let ?s = "s\<lparr>t_timer := t\<rparr>"
  have inv: "tcp_inv ?s" using assms by (simp add: tcp_inv_def side_ok_def)
  have ok: "side_ok sd s" using assms by (simp add: tcp_inv_def)
  show ?thesis
  proof (cases cb)
    case None
    then have "good_step sd s {#} (tcp_timer_handler i s)"
      using ok h by (simp add: tcp_timer_handler_def good_step_def side_ok_def)
    then show ?thesis ..
  next
    case (Some x)
    then obtain sd' oid where x: "cb = Some (sd', oid)" by (cases x) simp
    have "good_step sd' ?s {#} (tcp_timer_handler i s)"
      using timeout_callback_good [OF inv, of sd' oid] h x by (simp add: tcp_timer_handler_def)
    then have "good_step sd' s {#} (tcp_timer_handler i s)"
      by (rule good_step_from) simp_all
    then show ?thesis using side_cases [of sd' sd] by auto
  qed
qed

lemma io_transfer_simps [simp]:
  "t_operations (io_transfer sd ec d s) = t_operations s"
  "t_next_op_id (io_transfer sd ec d s) = t_next_op_id s"
  "t_socket_open (io_transfer sd ec d s) = t_socket_open s"
  "t_messages (io_transfer sd ec d s) = t_messages s"
  "t_io (io_transfer sd ec d s) sd' = Io_idle \<longleftrightarrow> t_io s sd' = Io_idle"
  by (auto simp: io_transfer_def Let_def set_io_def split: io_state.split)

lemma io_transfer_good:
  assumes "tcp_inv s"
  shows "good_step sd s {#} (io_transfer sd ec d s, [])"
proof -
  have "t_io (io_transfer sd ec d s) (other sd) = t_io s (other sd)"
    by (simp add: io_transfer_def Let_def set_io_def split: io_state.split)
  then show ?thesis
    using assms by (simp add: good_step_def tcp_inv_def side_ok_def)
qed

text \<open>Every step is good on one direction, or changes no operation at all.\<close>

lemma tcp_step_good:
  assumes "tcp_inv s"
  shows "\<exists>sd. good_step sd s (tcp_opened s e) (tcp_step s e)"
proof (cases e)
  case (Tcp_write now p msg timeout)
  then show ?thesis
    by (simp add: write_async_def) (rule exI, rule start_operation_good [OF assms])
next
  case (Tcp_read now p timeout)
  then show ?thesis
    by (simp add: read_async_def) (rule exI, rule start_operation_good [OF assms])
next
  case (Tcp_handler sd)
  then show ?thesis using io_handler_good [OF assms] by auto
next
  case (Tcp_timer_handler i)
  then show ?thesis using tcp_timer_handler_good [OF assms, of Wr i] by auto
next
  case (Tcp_sent ec n)
  then show ?thesis by (simp only: tcp_step.simps tcp_opened.simps)
      (rule exI, rule io_transfer_good [OF assms])
next
  case (Tcp_received ec d)
  then show ?thesis by (simp only: tcp_step.simps tcp_opened.simps)
      (rule exI, rule io_transfer_good [OF assms])
qed (use assms in \<open>auto simp: good_step_def tcp_inv_def side_ok_def tcp_invalidate_def
      set_disconnect_callback_def\<close>)

lemma tcp_inv_create: "tcp_inv tcp_create"
  by (simp add: tcp_inv_def side_ok_def tcp_create_def)

interpretation tcp: pipe_endpoint tcp_step tcp_inv tcp_pending tcp_opened tcp_is_connected
proof unfold_locales
  fix s e p r
  assume inv: "tcp_inv s"
  obtain sd where g: "good_step sd s (tcp_opened s e) (tcp_step s e)"
    using tcp_step_good [OF inv] by blast
  show "tcp_inv (fst (tcp_step s e))" using g inv by (rule good_step_inv)
  show "tcp_pending (fst (tcp_step s e)) + mset (map fst (snd (tcp_step s e))) =
      tcp_pending s + tcp_opened s e" using g by (rule good_step_conserve)
  show "\<not> tcp_is_connected (fst (tcp_step s e))" if "\<not> tcp_is_connected s"
    using g that by (simp add: good_step_def tcp_is_connected_def)
  show "op_res r \<noteq> Op_timeout" if "\<not> tcp_is_connected s" "(p, r) \<in> set (snd (tcp_step s e))"
    using g that by (auto simp: good_step_def tcp_is_connected_def)
qed

text \<open>
  C8: Under every interleaving of callers, socket completions, timers and invalidation, each
  read and write of a TCP endpoint is completed exactly once or is still pending, and once the
  socket is closed no operation is reported as timed out.
\<close>

theorem tcp_exactly_once:
  assumes "\<And>p. count (run_opened tcp_step tcp_opened tcp_create es) p \<le> 1"
  shows "distinct (map fst (run_output tcp_step tcp_create es)) \<and>
    mset (map fst (run_output tcp_step tcp_create es))
      + tcp_pending (run_state tcp_step tcp_create es) =
    run_opened tcp_step tcp_opened tcp_create es \<and>
    (\<not> tcp_is_connected (run_state tcp_step tcp_create es) \<longrightarrow>
       (\<forall>(p, r) \<in> set (run_output tcp_step (run_state tcp_step tcp_create es) es').
          op_res r \<noteq> Op_timeout))"
proof -
  have "tcp_pending tcp_create = {#}"
    by (simp add: tcp_pending_def tcp_create_def)
  moreover have "\<forall>(p, r) \<in> set (run_output tcp_step (run_state tcp_step tcp_create es) es').
      op_res r \<noteq> Op_timeout" if "\<not> tcp_is_connected (run_state tcp_step tcp_create es)"
    using tcp.disconnected_never_times_out [OF tcp.inv_run [OF tcp_inv_create] that] by blast
  ultimately show ?thesis
    using tcp.conserve_run [OF tcp_inv_create, of es] assms
      tcp.completed_at_most_once [OF tcp_inv_create, of es]
    by (simp add: add.commute)
qed

definition tcp_example :: "tcp_event list" where
  "tcp_example =
     [Tcp_write 0 1 [9, 8] (Some 5), Tcp_write 0 2 [7] None, Tcp_sent Ec_ok 3, Tcp_handler Wr,
      Tcp_sent Ec_ok 1, Tcp_handler Wr, Tcp_timer_expire 9 0, Tcp_timer_handler 0,
      Tcp_sent Ec_ok 2, Tcp_handler Wr, Tcp_invalidate]"

theorem tcp_exactly_once_witness:
  "distinct (map fst (run_output tcp_step tcp_create tcp_example))"
  using tcp_exactly_once [of tcp_example] by (simp add: tcp_example_def)

end
