(* ===== verification/Tcp_Stream.thy ===== *)
theory Tcp_Stream
  imports Tcp_Endpoint
begin

text \<open>
  The byte stream of the socket endpoint.  In each direction the bytes moved over the socket are
  at every moment the frames of the transferred messages followed by the part of the operation
  in flight, however the operating system cuts the transfers, whichever operations time out and
  whenever the endpoint is invalidated.  Frames are self-delimiting, so a receiver that gets a
  prefix of the sender's bytes gets a prefix of the sender's messages.
\<close>

section \<open>Progress of one operation\<close>

fun body_bytes :: "op_body \<Rightarrow> bytes" where
  "body_bytes (Write_op payload n) = take n (tcp_frame payload)"
| "body_bytes (Read_op header payload n) =
     header @ (case payload of None \<Rightarrow> [] | Some (sz, got) \<Rightarrow> got)"

fun shape_ok :: "side \<Rightarrow> op_body \<Rightarrow> bool" where
  "shape_ok Wr (Write_op payload n) = (n \<le> 4 + length payload)"
| "shape_ok Rd (Read_op header payload n) =
     (if n < 4 then length header = n \<and> payload = None
      else length header = 4 \<and>
        (case payload of
           None \<Rightarrow> False
         | Some (sz, got) \<Rightarrow> sz = unat (to_uint32_to_big_endian header) \<and> 0 < sz \<and>
             sz \<le> unat MaxTransferMessageSize \<and> n = 4 + length got \<and> length got \<le> sz))"
| "shape_ok sd body = False"

text \<open>A read whose header announces an unacceptable size; it lives only inside a handler.\<close>

fun bad_header :: "side \<Rightarrow> op_body \<Rightarrow> bool" where
  "bad_header Rd (Read_op header None n) = (n = 4)"
| "bad_header sd body = False"

fun fresh_body :: "side \<Rightarrow> op_body \<Rightarrow> bool" where
  "fresh_body Wr (Write_op payload n) = (n = 0)"
| "fresh_body Rd (Read_op header payload n) = (header = [] \<and> payload = None \<and> n = 0)"
| "fresh_body sd body = False"

fun unfinished :: "op_body \<Rightarrow> bool" where
  "unfinished (Write_op payload n) = (n < 4 + length payload \<or> payload = [] \<and> n = 4)"
| "unfinished (Read_op header payload n) =
     (case payload of None \<Rightarrow> True | Some (sz, got) \<Rightarrow> length got < sz)"

text \<open>The bytes \<open>d\<close> that a completed transfer of phase \<open>ph\<close> has moved fit the operation.\<close>

fun done_ok :: "side \<Rightarrow> io_phase \<Rightarrow> op_body \<Rightarrow> bytes \<Rightarrow> bool" where
  "done_ok Wr Ph_header body d = prefix d (get_unwritten_header_buffer body)"
| "done_ok Wr Ph_payload body d = prefix d (get_unwritten_payload_buffer body)"
| "done_ok Rd Ph_header body d = (length d \<le> get_size_for_unread_header body)"
| "done_ok Rd Ph_payload body d = (length d \<le> get_size_for_unread_payload body)"

definition phase_ok :: "io_phase \<Rightarrow> op_body \<Rightarrow> bool" where
  "phase_ok ph body \<longleftrightarrow> (ph = Ph_header) = (\<not> is_header_completed body)"

lemma header_length [simp]: "length (header_bytes n) = 4"
  by (simp add: header_bytes_def)

lemma frame_length [simp]: "length (tcp_frame m) = 4 + length m"
  by (simp add: tcp_frame_def)

lemma take_frame_append:
  assumes "prefix d (drop n (tcp_frame p))"
  shows "take (n + length d) (tcp_frame p) = take n (tcp_frame p) @ d"
proof -
  from assms obtain r where "drop n (tcp_frame p) = d @ r" by (auto simp: prefix_def)
  then show ?thesis by (simp add: take_add)
qed

lemma unwritten_in_frame:
  assumes "phase_ok ph (Write_op p n)" "done_ok Wr ph (Write_op p n) d"
  shows "prefix d (drop n (tcp_frame p))"
proof (cases ph)
  case Ph_header
  then show ?thesis
    using assms by (auto simp: tcp_frame_def phase_ok_def s_header_size_def)
next
  case Ph_payload
  then have "n \<ge> 4" using assms(1) by (simp add: phase_ok_def s_header_size_def)
  then show ?thesis
    using assms Ph_payload by (simp add: tcp_frame_def s_header_size_def)
qed

text \<open>\<open>add_bytes\<close> adds exactly the bytes moved and keeps the operation in shape.\<close>

lemma add_bytes_write:
  assumes "shape_ok Wr b" "phase_ok ph b" "done_ok Wr ph b d"
  shows "body_bytes (add_bytes b d) = body_bytes b @ d \<and> shape_ok Wr (add_bytes b d)"
proof (cases b)
  case (Write_op p n)
  have pre: "prefix d (drop n (tcp_frame p))"
    using assms Write_op by (intro unwritten_in_frame) simp_all
  then have "length d \<le> length (drop n (tcp_frame p))" by (rule prefix_length_le)
  then show ?thesis
    using Write_op assms(1) take_frame_append [OF pre] by auto
qed (use assms in simp)

lemma add_bytes_read_header:
  assumes "n < 4" "length d \<le> 4 - n" "length h = n"
  shows "body_bytes (add_bytes (Read_op h None n) d) = h @ d \<and>
    (shape_ok Rd (add_bytes (Read_op h None n) d) \<or> bad_header Rd (add_bytes (Read_op h None n) d))"
proof (cases "n + length d = 4")
  case True
  have "0 < unat w" if "w \<noteq> 0" for w :: uint32
    using that by (simp add: unat_gt_0)
  moreover have "unat w \<le> 1048676" if "w \<le> MaxTransferMessageSize" for w :: uint32
    using that unfolding word_le_nat_alt by simp
  ultimately show ?thesis
    using True assms by (simp add: s_header_size_def Let_def)
next
  case False
  then show ?thesis using assms by (simp add: s_header_size_def Let_def)
qed

lemma add_bytes_read:
  assumes "shape_ok Rd b" "phase_ok ph b" "done_ok Rd ph b d"
  shows "body_bytes (add_bytes b d) = body_bytes b @ d \<and>
    (shape_ok Rd (add_bytes b d) \<or> bad_header Rd (add_bytes b d))"
proof (cases b)
  case (Read_op h pl n)
  show ?thesis
  proof (cases "n < 4")
    case True
    then have "ph = Ph_header" "pl = None" "length h = n"
      using assms Read_op by (auto simp: phase_ok_def s_header_size_def)
    then show ?thesis
      using add_bytes_read_header [of n d h] True assms(3) Read_op by (simp add: s_header_size_def)
  next
    case False
    then obtain sz got where pl: "pl = Some (sz, got)" and "ph = Ph_payload"
      using assms Read_op by (cases ph) (auto simp: phase_ok_def s_header_size_def split: option.splits)
    then show ?thesis
      using assms Read_op False by (auto simp: s_header_size_def Let_def)
  qed
qed (use assms in simp)

lemma add_bytes_ok:
  assumes "shape_ok sd b" "phase_ok ph b" "done_ok sd ph b d"
  shows "body_bytes (add_bytes b d) = body_bytes b @ d"
    and "shape_ok sd (add_bytes b d) \<or> bad_header sd (add_bytes b d)"
  using assms add_bytes_write [of b ph d] add_bytes_read [of b ph d] by (cases sd; blast)+

lemma op_message_add_bytes_write: "shape_ok Wr b \<Longrightarrow> op_message (add_bytes b d) = op_message b"
  by (cases b) simp_all

text \<open>The bytes of a completed operation are the frame of its message.\<close>

lemma completed_is_frame:
  assumes "shape_ok sd b" "is_payload_completed b"
  shows "body_bytes b = tcp_frame (op_message b)"
    and "sd = Rd \<Longrightarrow> op_message b \<noteq> [] \<and> length (op_message b) \<le> unat MaxTransferMessageSize"
proof -
  have "header_bytes k = h" if "length h = 4" "unat (to_uint32_to_big_endian h) = k" for h k
    using that by (auto simp: header_bytes_def)
  then show "body_bytes b = tcp_frame (op_message b)"
    using assms
    by (cases sd; cases b) (auto simp: s_header_size_def tcp_frame_def split: option.splits if_splits)
  show "sd = Rd \<Longrightarrow> op_message b \<noteq> [] \<and> length (op_message b) \<le> unat MaxTransferMessageSize"
    using assms by (cases b) (auto simp: s_header_size_def split: option.splits if_splits)
qed

lemma fresh_bytes: "fresh_body sd b \<Longrightarrow> body_bytes b = [] \<and> shape_ok sd b \<and> unfinished b \<and>
    \<not> is_header_completed b"
  by (cases sd; cases b) (auto simp: s_header_size_def)

lemma not_completed_unfinished:
  "shape_ok sd b \<Longrightarrow> \<not> is_payload_completed b \<Longrightarrow> unfinished b"
  by (cases sd; cases b) (auto simp: s_header_size_def split: option.splits if_splits)

lemma header_only_unfinished:
  "shape_ok sd b \<Longrightarrow> \<not> is_header_completed b \<Longrightarrow> unfinished b"
  by (cases sd; cases b) (auto simp: s_header_size_def split: option.splits if_splits)


section \<open>The stream invariant\<close>

fun io_bytes :: "io_state \<Rightarrow> bytes" where
  "io_bytes (Io_done ph ec d) = d"
| "io_bytes _ = []"

fun flight_ok :: "side \<Rightarrow> io_state \<Rightarrow> op_body \<Rightarrow> bool" where
  "flight_ok sd Io_idle b = False"
| "flight_ok sd (Io_started ph) b = (phase_ok ph b \<and> unfinished b)"
| "flight_ok sd (Io_done ph ec d) b =
     (phase_ok ph b \<and> unfinished b \<and> done_ok sd ph b d \<and> (ec \<noteq> Ec_ok \<longrightarrow> d = []))"

text \<open>What can be left on the wire of a writer that lost its operation in flight.\<close>

definition partial :: "bytes set \<Rightarrow> bytes \<Rightarrow> bool" where
  "partial M part \<longleftrightarrow>
     part = [] \<or> (\<exists>m \<in> M. prefix part (tcp_frame m) \<and> (part \<noteq> tcp_frame m \<or> m = []))"

definition queue_ok :: "bytes set \<Rightarrow> side \<Rightarrow> op_data list \<Rightarrow> bool" where
  "queue_ok M sd ops \<longleftrightarrow>
     (\<forall>op \<in> set ops. fresh_body sd (od_body op) \<and> (sd = Wr \<longrightarrow> op_message (od_body op) \<in> M))"

definition messages_ok :: "bytes set \<Rightarrow> side \<Rightarrow> bytes list \<Rightarrow> bool" where
  "messages_ok M sd ms \<longleftrightarrow>
     (sd = Wr \<longrightarrow> set ms \<subseteq> M) \<and>
     (sd = Rd \<longrightarrow> (\<forall>m \<in> set ms. m \<noteq> [] \<and> length m \<le> unat MaxTransferMessageSize))"

text \<open>
  The wire of a direction, given the messages transferred so far, the operations and the
  transfer: \<open>M\<close> is the set of messages submitted for writing.
\<close>

definition stream_ok ::
  "bytes set \<Rightarrow> side \<Rightarrow> bool \<Rightarrow> bytes \<Rightarrow> bytes list \<Rightarrow> op_data list \<Rightarrow> io_state \<Rightarrow> bool"
where
  "stream_ok M sd opened wire ms ops io \<longleftrightarrow>
     messages_ok M sd ms \<and> (opened \<longrightarrow> (\<forall>ph d. io \<noteq> Io_done ph Ec_aborted d)) \<and>
     (case ops of
        [] \<Rightarrow> \<exists>part. wire = concat (map tcp_frame ms) @ part \<and>
                (sd = Wr \<longrightarrow> partial M part) \<and> (opened \<longrightarrow> part = [])
      | op # rest \<Rightarrow>
          wire = concat (map tcp_frame ms) @ body_bytes (od_body op) @ io_bytes io \<and>
          shape_ok sd (od_body op) \<and> (sd = Wr \<longrightarrow> op_message (od_body op) \<in> M) \<and>
          flight_ok sd io (od_body op) \<and> queue_ok M sd rest)"

definition side_stream :: "bytes set \<Rightarrow> side \<Rightarrow> tcp_endpoint \<Rightarrow> bool" where
  "side_stream M sd s \<longleftrightarrow>
     stream_ok M sd (t_socket_open s) (t_wire s sd) (t_messages s sd) (t_operations s sd) (t_io s sd)"

definition tcp_stream_inv :: "bytes set \<Rightarrow> tcp_endpoint \<Rightarrow> bool" where
  "tcp_stream_inv M s \<longleftrightarrow> (\<forall>sd. side_stream M sd s)"

text \<open>
  The situation inside a handler: the transfer has been taken, the operation in flight has its
  bytes added.
\<close>

definition mid_ok :: "bytes set \<Rightarrow> side \<Rightarrow> tcp_endpoint \<Rightarrow> op_data \<Rightarrow> op_data list \<Rightarrow> bool" where
  "mid_ok M sd s op rest \<longleftrightarrow>
     t_operations s sd = op # rest \<and>
     t_wire s sd = concat (map tcp_frame (t_messages s sd)) @ body_bytes (od_body op) \<and>
     (sd = Wr \<longrightarrow> op_message (od_body op) \<in> M) \<and>
     queue_ok M sd rest \<and> messages_ok M sd (t_messages s sd)"

text \<open>What a step on one direction keeps of the other one.\<close>

definition same_other :: "side \<Rightarrow> tcp_endpoint \<Rightarrow> tcp_endpoint \<Rightarrow> bool" where
  "same_other sd s s' \<longleftrightarrow>
     t_operations s' (other sd) = t_operations s (other sd) \<and>
     t_io s' (other sd) = t_io s (other sd) \<and> t_wire s' (other sd) = t_wire s (other sd) \<and>
     t_messages s' (other sd) = t_messages s (other sd) \<and> (t_socket_open s' \<longrightarrow> t_socket_open s)"

lemma partial_mono: "partial M part \<Longrightarrow> M \<subseteq> M' \<Longrightarrow> partial M' part"
  unfolding partial_def by blast

lemma stream_ok_mono:
  "stream_ok M sd op wire ms ops io \<Longrightarrow> M \<subseteq> M' \<Longrightarrow> (op' \<longrightarrow> op) \<Longrightarrow>
   stream_ok M' sd op' wire ms ops io"
  by (auto simp: stream_ok_def messages_ok_def queue_ok_def split: list.splits
      intro: partial_mono)

lemma other_stream:
  assumes "side_stream M' sd s'" "same_other sd s s'" "tcp_stream_inv M s" "M \<subseteq> M'"
  shows "tcp_stream_inv M' s'"
  unfolding tcp_stream_inv_def
proof
  fix sd'
  have "side_stream M' (other sd) s'"
    using assms(2-4) stream_ok_mono unfolding tcp_stream_inv_def side_stream_def same_other_def
    by metis
  then show "side_stream M' sd' s'" using side_cases [of sd' sd] assms(1) by auto
qed

lemma same_other_trans: "same_other sd s s' \<Longrightarrow> same_other sd s' s'' \<Longrightarrow> same_other sd s s''"
  by (simp add: same_other_def)

lemma same_other_complete:
  "same_other sd s (fst (complete_all_operations_unsafe r sd s))"
  by (simp add: same_other_def)

text \<open>A writer that drops an unfinished operation leaves a partial frame.\<close>

lemma unfinished_partial:
  assumes "shape_ok Wr b" "unfinished b" "op_message b \<in> M"
  shows "partial M (body_bytes b)"
proof (cases b)
  case (Write_op p n)
  have "prefix (take n (tcp_frame p)) (tcp_frame p)" by (rule take_is_prefix)
  moreover have "take n (tcp_frame p) \<noteq> tcp_frame p \<or> p = []"
    using assms(2) Write_op by (auto dest: arg_cong [where f = length])
  ultimately show ?thesis
    using assms(3) Write_op unfolding partial_def by auto
qed (use assms in simp)

lemma drop_all_stream:
  assumes "mid_ok M sd s op rest" "sd = Wr \<Longrightarrow> shape_ok Wr (od_body op) \<and> unfinished (od_body op)"
    and "\<not> t_socket_open s'" "t_wire s' = t_wire s" "t_messages s' = t_messages s"
  shows "side_stream M sd (fst (complete_all_operations_unsafe r sd s'))"
  using assms unfinished_partial [of "od_body op" M]
  by (auto simp: side_stream_def stream_ok_def mid_ok_def)

lemma start_header_stream:
  assumes "mid_ok M sd s op rest" "shape_ok sd (od_body op)" "\<not> is_header_completed (od_body op)"
  shows "side_stream M sd (fst (start_header_async sd s)) \<and>
    same_other sd s (fst (start_header_async sd s))"
proof (cases "t_socket_open s")
  case True
  then show ?thesis
    using assms header_only_unfinished [OF assms(2,3)]
    by (simp add: start_header_async_def side_stream_def stream_ok_def mid_ok_def same_other_def
        phase_ok_def)
next
  case False
  then show ?thesis
    using assms header_only_unfinished [OF assms(2,3)] drop_all_stream [OF assms(1), of s]
      same_other_complete by (auto simp: start_header_async_def)
qed

lemma start_payload_stream:
  assumes "mid_ok M sd s op rest" "shape_ok sd (od_body op) \<or> bad_header sd (od_body op)"
    and "is_header_completed (od_body op)" "shape_ok sd (od_body op) \<Longrightarrow> unfinished (od_body op)"
  shows "side_stream M sd (fst (start_payload_async sd s)) \<and>
    same_other sd s (fst (start_payload_async sd s))"
proof (cases "bad_header sd (od_body op)")
  case True
  then have "sd = Rd" "\<not> is_payload_buffer_valid (od_body op)"
    by (cases "(sd, od_body op)" rule: bad_header.cases; simp)+
  then have eq: "start_payload_async sd s =
      complete_all_operations_unsafe Op_failed sd (invalidate_unsafe False s)"
    using assms(1) by (simp add: start_payload_async_def start_read_payload_async_def mid_ok_def)
  have "side_stream M sd (fst (complete_all_operations_unsafe Op_failed sd (invalidate_unsafe False s)))"
    using \<open>sd = Rd\<close> by (intro drop_all_stream [OF assms(1)]) simp_all
  then show ?thesis unfolding eq by (simp add: same_other_def)
next
  case False
  then have ok: "shape_ok sd (od_body op)" "unfinished (od_body op)" using assms by auto
  then have "is_payload_buffer_valid (od_body op)"
    using assms(3) by (cases sd; cases "od_body op") (auto simp: s_header_size_def split: option.splits)
  then have eq: "start_payload_async sd s =
      (if \<not> t_socket_open s then complete_all_operations_unsafe (closed_result s) sd s
       else (set_io sd (Io_started Ph_payload) s, []))"
    using assms(1) by (cases sd) (simp_all add: start_payload_async_def start_read_payload_async_def
        start_write_payload_async_def mid_ok_def)
  show ?thesis
  proof (cases "t_socket_open s")
    case True
    then show ?thesis
      using assms ok unfolding eq
      by (simp add: side_stream_def stream_ok_def mid_ok_def same_other_def phase_ok_def)
  next
    case False
    then show ?thesis
      using ok drop_all_stream [OF assms(1), of s] same_other_complete unfolding eq by auto
  qed
qed

lemma on_error_stream:
  assumes "mid_ok M sd s op rest" "shape_ok sd (od_body op)" "unfinished (od_body op)"
  shows "side_stream M sd (fst (on_error ec sd s)) \<and> same_other sd s (fst (on_error ec sd s)) \<or>
    (ec = Ec_aborted \<and> t_socket_open s)"
  using drop_all_stream [OF assms(1), of s] drop_all_stream [OF assms(1), of "invalidate_unsafe False s"]
    assms(2,3) by (auto simp: on_error_def same_other_def)


lemma add_bytes_nil: "shape_ok sd b \<Longrightarrow> add_bytes b [] = b"
  by (cases sd; cases b) (auto simp: s_header_size_def Let_def split: option.splits if_splits)

lemma add_bytes_header_unfinished:
  assumes "shape_ok sd b" "phase_ok Ph_header b" "done_ok sd Ph_header b d" "shape_ok sd (add_bytes b d)"
  shows "unfinished (add_bytes b d)"
proof (cases sd)
  case Wr
  then obtain p n where b: "b = Write_op p n" "n < 4"
    using assms(1,2) by (cases b) (auto simp: phase_ok_def s_header_size_def)
  have "length d \<le> 4 - n"
    using assms(3) Wr b prefix_length_le by fastforce
  then show ?thesis using b by (cases p) auto
next
  case Rd
  then obtain h n where b: "b = Read_op h None n" "n < 4" "length h = n"
    using assms(1,2) by (cases b) (auto simp: phase_ok_def s_header_size_def)
  then show ?thesis
    using assms(3,4) Rd by (auto simp: s_header_size_def Let_def split: if_splits)
qed

lemma add_bytes_keeps_header: "is_header_completed b \<Longrightarrow> is_header_completed (add_bytes b d)"
  by (cases b) (simp_all add: Let_def)

text \<open>A handler starts from a state in which the moved bytes have been added.\<close>

lemma handler_mid:
  assumes "side_stream M sd s" "t_io s sd = Io_done ph ec d" "t_operations s sd = op # rest"
  defines "op' \<equiv> op\<lparr>od_body := add_bytes (od_body op) d\<rparr>"
    and "s' \<equiv> add_bytes_back sd d (set_io sd Io_idle s)"
  shows "mid_ok M sd s' op' rest" "shape_ok sd (od_body op') \<or> bad_header sd (od_body op')"
    and "ec \<noteq> Ec_ok \<Longrightarrow> shape_ok sd (od_body op') \<and> unfinished (od_body op')"
    and "same_other sd s s'" "t_socket_open s' = t_socket_open s"
    and "t_socket_open s \<Longrightarrow> ec \<noteq> Ec_aborted"
proof -
  have st: "messages_ok M sd (t_messages s sd)"
    "t_wire s sd = concat (map tcp_frame (t_messages s sd)) @ body_bytes (od_body op) @ d"
    "shape_ok sd (od_body op)" "sd = Wr \<longrightarrow> op_message (od_body op) \<in> M"
    "phase_ok ph (od_body op)" "unfinished (od_body op)" "done_ok sd ph (od_body op) d"
    "ec \<noteq> Ec_ok \<longrightarrow> d = []" "queue_ok M sd rest" "t_socket_open s \<longrightarrow> ec \<noteq> Ec_aborted"
    using assms(1-3) by (auto simp: side_stream_def stream_ok_def)
  have ab: "body_bytes (od_body op') = body_bytes (od_body op) @ d"
    "shape_ok sd (od_body op') \<or> bad_header sd (od_body op')"
    using add_bytes_ok [OF st(3,5,7)] by (simp_all add: op'_def)
  have s': "t_operations s' sd = op' # rest"
    using assms(3) by (simp add: s'_def op'_def add_bytes_back_def)
  have m: "sd = Wr \<longrightarrow> op_message (od_body op') \<in> M"
    using st(3,4) op_message_add_bytes_write by (auto simp: op'_def)
  show "mid_ok M sd s' op' rest"
    using s' st ab m by (simp add: mid_ok_def) (simp add: s'_def)
  show "shape_ok sd (od_body op') \<or> bad_header sd (od_body op')" by (rule ab)
  show "shape_ok sd (od_body op') \<and> unfinished (od_body op')" if "ec \<noteq> Ec_ok"
    using that st add_bytes_nil by (auto simp: op'_def)
  show "same_other sd s s'"
    by (simp add: same_other_def s'_def)
  show "t_socket_open s' = t_socket_open s" by (simp add: s'_def)
  show "ec \<noteq> Ec_aborted" if "t_socket_open s" using that st(10) by simp
qed

lemma bad_header_completed: "bad_header sd b \<Longrightarrow> is_header_completed b \<and> \<not> is_payload_completed b"
  by (cases "(sd, b)" rule: bad_header.cases) (simp_all add: s_header_size_def)

text \<open>
  The payload is complete: the message is recorded and the next operation starts.
\<close>

lemma finish_stream:
  assumes "mid_ok M sd s op rest" "shape_ok sd (od_body op)" "is_payload_completed (od_body op)"
    and "t_io s sd = Io_idle"
  defines "s' \<equiv> set_ops sd rest ((cancel_op_timer op s)\<lparr>t_messages :=
        (t_messages s)(sd := t_messages s sd @ [op_message (od_body op)])\<rparr>)"
  shows "same_other sd s s'" "rest = [] \<Longrightarrow> side_stream M sd s'"
    and "rest \<noteq> [] \<Longrightarrow> side_stream M sd (fst (start_header_async sd s')) \<and>
      same_other sd s' (fst (start_header_async sd s'))"
proof -
  have ms: "messages_ok M sd (t_messages s sd @ [op_message (od_body op)])"
    using assms(1) completed_is_frame(2) [OF assms(2,3)]
    by (auto simp: mid_ok_def messages_ok_def)
  have w: "t_wire s' sd = concat (map tcp_frame (t_messages s' sd))"
    "t_messages s' sd = t_messages s sd @ [op_message (od_body op)]"
    using assms(1) completed_is_frame(1) [OF assms(2,3)] by (simp_all add: s'_def mid_ok_def)
  show "same_other sd s s'" by (simp add: same_other_def s'_def)
  show "side_stream M sd s'" if "rest = []"
    using that ms w assms(4)
    by (simp add: side_stream_def stream_ok_def) (simp add: s'_def partial_def)
  show "side_stream M sd (fst (start_header_async sd s')) \<and>
      same_other sd s' (fst (start_header_async sd s'))" if "rest \<noteq> []"
  proof -
    from that obtain nxt rest' where rest: "rest = nxt # rest'" by (cases rest) auto
    have fresh: "fresh_body sd (od_body nxt)" "sd = Wr \<longrightarrow> op_message (od_body nxt) \<in> M"
      "queue_ok M sd rest'"
      using assms(1) rest by (auto simp: mid_ok_def queue_ok_def)
    have "mid_ok M sd s' nxt rest'"
      using ms w fresh fresh_bytes [OF fresh(1)] rest by (simp add: mid_ok_def) (simp add: s'_def)
    then show ?thesis
      using fresh_bytes [OF fresh(1)] by (intro start_header_stream) auto
  qed
qed

lemma io_handler_stream:
  assumes "side_stream M sd s" "side_ok sd s"
  shows "side_stream M sd (fst (io_handler sd s)) \<and> same_other sd s (fst (io_handler sd s))"
proof (cases "t_io s sd")
  case (Io_done ph ec d)
  then obtain op rest where ops: "t_operations s sd = op # rest"
    using assms(2) by (cases "t_operations s sd") (auto simp: side_ok_def)
  define op' where "op' = op\<lparr>od_body := add_bytes (od_body op) d\<rparr>"
  define s' where "s' = add_bytes_back sd d (set_io sd Io_idle s)"
  note mid = handler_mid [OF assms(1) Io_done ops, folded op'_def s'_def]
  have s': "t_operations s' sd = op' # rest" "t_io s' sd = Io_idle"
    using mid(1) by (simp_all add: mid_ok_def s'_def)
  have step: "side_stream M sd (fst r) \<and> same_other sd s' (fst r) \<Longrightarrow>
      side_stream M sd (fst r) \<and> same_other sd s (fst r)" for r :: tcp_result
    using same_other_trans [OF mid(4)] by blast
  show ?thesis
  proof (cases "ec = Ec_ok")
    case False
    then have "io_handler sd s = on_error ec sd s'"
      using Io_done by (cases ph) (simp_all add: io_handler_def on_header_operation_def
          on_payload_operation_def s'_def Let_def)
    moreover have "side_stream M sd (fst (on_error ec sd s')) \<and> same_other sd s' (fst (on_error ec sd s'))"
      using on_error_stream [OF mid(1), of ec] mid(3,5,6) False by auto
    ultimately show ?thesis using step by simp
  next
    case True
    have flight: "shape_ok sd (od_body op)" "phase_ok ph (od_body op)" "done_ok sd ph (od_body op) d"
      using assms(1) Io_done ops by (simp_all add: side_stream_def stream_ok_def)
    have body: "od_body op' = add_bytes (od_body op) d" by (simp add: op'_def)
    show ?thesis
    proof (cases ph)
      case Ph_header
      then have eq: "io_handler sd s = (if \<not> is_header_completed (od_body op')
          then start_header_async sd s' else start_payload_async sd s')"
        using Io_done True s'(1) by (simp add: io_handler_def on_header_operation_def s'_def Let_def)
      have unf: "shape_ok sd (od_body op') \<Longrightarrow> unfinished (od_body op')"
        unfolding body using flight Ph_header by (intro add_bytes_header_unfinished) simp_all
      have "shape_ok sd (od_body op')" if "\<not> is_header_completed (od_body op')"
        using that mid(2) bad_header_completed by blast
      then show ?thesis
        unfolding eq using start_header_stream [OF mid(1)] start_payload_stream [OF mid(1,2) _ unf]
        by (intro step) simp
    next
      case Ph_payload
      have hc: "is_header_completed (od_body op')"
        unfolding body using flight(2) Ph_payload
        by (intro add_bytes_keeps_header) (simp add: phase_ok_def)
      show ?thesis
      proof (cases "is_payload_completed (od_body op')")
        case False
        then have eq: "io_handler sd s = start_payload_async sd s'"
          using Io_done True s'(1) Ph_payload
          by (simp add: io_handler_def on_payload_operation_def s'_def Let_def)
        have unf: "shape_ok sd (od_body op') \<Longrightarrow> unfinished (od_body op')"
          using False not_completed_unfinished by blast
        show ?thesis
          unfolding eq by (rule step [OF start_payload_stream [OF mid(1,2) hc unf]])
      next
        case completed: True
        then have ok: "shape_ok sd (od_body op')" using mid(2) bad_header_completed by blast
        note fin = finish_stream [OF mid(1) ok completed s'(2)]
        define s'' where "s'' = set_ops sd rest ((cancel_op_timer op' s')\<lparr>t_messages :=
            (t_messages s')(sd := t_messages s' sd @ [op_message (od_body op')])\<rparr>)"
        have "fst (io_handler sd s) = (if rest = [] then s'' else fst (start_header_async sd s''))"
          using Io_done True s'(1) Ph_payload completed
          by (cases "rest = []") (simp_all add: io_handler_def on_payload_operation_def s'_def [symmetric]
              s''_def Let_def case_prod_beta)
        moreover have so: "same_other sd s s''"
          using mid(4) fin(1) [folded s''_def] by (rule same_other_trans)
        moreover have "rest \<noteq> [] \<Longrightarrow> same_other sd s (fst (start_header_async sd s''))"
          using so fin(3) [folded s''_def] same_other_trans by blast
        ultimately show ?thesis
          using fin(2,3) [folded s''_def] by (cases "rest = []") simp_all
      qed
    qed
  qed
qed (use assms in \<open>simp_all add: io_handler_def same_other_def\<close>)


lemma timeout_callback_stream:
  assumes "side_stream M sd s" "side_ok sd s"
  shows "side_stream M sd (fst (timeout_callback sd i s)) \<and> same_other sd s (fst (timeout_callback sd i s))"
proof (cases "find (\<lambda>op. od_id op = i) (t_operations s sd)")
  case None
  then show ?thesis using assms(1) by (simp add: timeout_callback_def same_other_def)
next
  case (Some op)
  then have mem: "op \<in> set (t_operations s sd)" by (auto simp: find_Some_iff)
  then obtain h ops where ops: "t_operations s sd = h # ops" by (cases "t_operations s sd") auto
  define op' where "op' = (if od_is_promise_resolved op then op else op\<lparr>od_is_promise_resolved := True\<rparr>)"
  have body: "od_body op' = od_body op" by (simp add: op'_def)
  have eq: "fst (timeout_callback sd i s) =
      set_ops sd (if od_id op \<noteq> od_id h then remove1 op (h # ops) else op' # ops) s"
    using Some ops by (simp add: timeout_callback_def Let_def take_pending_result_def op'_def)
  show ?thesis
  proof (cases "od_id op = od_id h")
    case True
    then have "op \<notin> set ops" using assms(2) ops by (auto simp: side_ok_def ops_ok_def image_iff)
    then have "op = h" using mem ops by simp
    then show ?thesis
      using assms(1) ops True body unfolding eq
      by (simp add: side_stream_def stream_ok_def same_other_def)
  next
    case False
    then have "remove1 op (h # ops) = h # remove1 op ops" by auto
    moreover have "queue_ok M sd ops \<Longrightarrow> queue_ok M sd (remove1 op ops)"
      by (auto simp: queue_ok_def dest: subsetD [OF set_remove1_subset])
    ultimately show ?thesis
      using assms(1) ops False unfolding eq
      by (auto simp: side_stream_def stream_ok_def same_other_def)
  qed
qed

lemma start_operation_stream:
  assumes "side_stream M sd s" "side_ok sd s" "fresh_body sd body" "M \<subseteq> M'"
    and "sd = Wr \<longrightarrow> op_message body \<in> M'"
  shows "side_stream M' sd (fst (start_operation sd body now p timeout s)) \<and>
    same_other sd s (fst (start_operation sd body now p timeout s))"
proof (cases "t_socket_open s")
  case False
  then show ?thesis
    using assms(1,4) stream_ok_mono
    by (simp add: start_operation_def same_other_def side_stream_def)
next
  case True
  define tt where "tt = (case timeout of None \<Rightarrow> (None, t_timer s)
    | Some t \<Rightarrow> map_prod Some id (multiple_timer_start now (sd, t_next_op_id s sd) t (t_timer s)))"
  define op where "op = \<lparr>od_id = t_next_op_id s sd, od_timer_id = fst tt,
    od_is_promise_resolved = False, od_promise = p, od_body = body\<rparr>"
  define s' where "s' = set_ops sd (t_operations s sd @ [op])
    (s\<lparr>t_next_op_id := (t_next_op_id s)(sd := Suc (t_next_op_id s sd)), t_timer := snd tt\<rparr>)"
  have eq: "start_operation sd body now p timeout s =
      (if t_operations s sd = [] then start_header_async sd s' else (s', []))"
    using True by (simp add: start_operation_def s'_def op_def tt_def Let_def case_prod_beta)
  have so: "same_other sd s s'" by (simp add: same_other_def s'_def)
  have st: "stream_ok M' sd True (t_wire s sd) (t_messages s sd) (t_operations s sd) (t_io s sd)"
    using assms(1,4) True stream_ok_mono by (auto simp: side_stream_def)
  have body: "od_body op = body" by (simp add: op_def)
  show ?thesis
  proof (cases "t_operations s sd")
    case Nil
    have "mid_ok M' sd s' op []"
      using st Nil assms(3,5) fresh_bytes [OF assms(3)] body
      by (simp add: mid_ok_def stream_ok_def queue_ok_def) (simp add: s'_def)
    then show ?thesis
      using start_header_stream [of M' sd s' op "[]"] fresh_bytes [OF assms(3)] body
        same_other_trans [OF so] Nil unfolding eq by auto
  next
    case (Cons h ops)
    have "stream_ok M' sd True (t_wire s sd) (t_messages s sd) (h # ops @ [op]) (t_io s sd)"
      using st Cons assms(3,5) body by (auto simp: stream_ok_def queue_ok_def)
    then have "side_stream M' sd s'"
      using True Cons by (simp add: side_stream_def s'_def)
    then show ?thesis using eq Cons so by simp
  qed
qed

lemma offered_done_ok:
  assumes "t_io s Wr = Io_started ph" "t_operations s Wr = op # rest"
  shows "done_ok Wr ph (od_body op) (offered_bytes n s)"
  using assms by (cases ph) (simp_all add: offered_bytes_def take_is_prefix)

lemma io_transfer_stream:
  assumes "side_stream M sd s" "side_ok sd s" "sd = Wr \<Longrightarrow> d = offered_bytes n s"
  shows "side_stream M sd (io_transfer sd ec d s) \<and> same_other sd s (io_transfer sd ec d s)"
proof (cases "t_io s sd")
  case (Io_started ph)
  then obtain op rest where ops: "t_operations s sd = op # rest"
    using assms(2) by (cases "t_operations s sd") (auto simp: side_ok_def)
  have st: "stream_ok M sd (t_socket_open s) (t_wire s sd) (t_messages s sd) (op # rest) (Io_started ph)"
    using assms(1) Io_started ops by (simp add: side_stream_def)
  have cap: "done_ok sd ph (od_body op) d" if "length d \<le> io_capacity sd ph s"
  proof (cases sd)
    case Wr
    then show ?thesis using offered_done_ok [of s ph op rest n] assms(3) Io_started ops by simp
  next
    case Rd
    then show ?thesis using that ops by (cases ph) (simp_all add: io_capacity_def)
  qed
  show ?thesis
  proof (cases "io_transfer sd ec d s = s")
    case True
    then show ?thesis using assms(1) by (simp add: same_other_def)
  next
    case False
    let ?s = "(set_io sd (Io_done ph ec d) s)\<lparr>t_wire := (t_wire s)(sd := t_wire s sd @ d)\<rparr>"
    have eq: "io_transfer sd ec d s = ?s"
      using False Io_started by (auto simp: io_transfer_def Let_def split: if_splits)
    have al: "length d \<le> io_capacity sd ph s" "ec \<noteq> Ec_ok \<longrightarrow> d = []"
      "t_socket_open s \<longrightarrow> ec \<noteq> Ec_aborted"
      using False Io_started by (auto simp: io_transfer_def Let_def split: if_splits)
    have "stream_ok M sd (t_socket_open s) (t_wire s sd @ d) (t_messages s sd) (op # rest) (Io_done ph ec d)"
      using st cap [OF al(1)] al by (auto simp: stream_ok_def)
    then have "side_stream M sd ?s" using ops by (simp add: side_stream_def)
    then show ?thesis unfolding eq by (simp add: same_other_def)
  qed
qed (use assms(1) in \<open>simp_all add: io_transfer_def same_other_def\<close>)

text \<open>The messages submitted for writing, in order.\<close>

fun submitted :: "tcp_event list \<Rightarrow> bytes list" where
  "submitted [] = []"
| "submitted (Tcp_write now p msg timeout # es) = msg # submitted es"
| "submitted (_ # es) = submitted es"

lemma tcp_stream_step:
  assumes "tcp_stream_inv M s" "tcp_inv s"
  shows "tcp_stream_inv (M \<union> set (submitted [e])) (fst (tcp_step s e))"
proof -
  have st: "side_stream M sd s" "side_ok sd s" for sd
    using assms by (simp_all add: tcp_stream_inv_def tcp_inv_def)
  have id: "tcp_stream_inv M' s'" if "M \<subseteq> M'" "t_operations s' = t_operations s" "t_io s' = t_io s"
    "t_wire s' = t_wire s" "t_messages s' = t_messages s" "t_socket_open s' \<longrightarrow> t_socket_open s" for M' s'
    unfolding tcp_stream_inv_def side_stream_def that(2-5)
    using assms(1) by (auto simp: tcp_stream_inv_def side_stream_def intro: stream_ok_mono [OF _ that(1,6)])
  show ?thesis
  proof (cases e)
    case (Tcp_write now p msg timeout)
    then show ?thesis
      using start_operation_stream [OF st, of Wr "write_operation msg" "insert msg M" now p timeout]
        other_stream [OF _ _ assms(1), of "insert msg M" Wr]
      by (auto simp: write_async_def write_operation_def)
  next
    case (Tcp_read now p timeout)
    then show ?thesis
      using start_operation_stream [OF st, of Rd read_operation M now p timeout]
        other_stream [OF _ _ assms(1), of M Rd]
      by (auto simp: read_async_def read_operation_def)
  next
    case (Tcp_sent ec n)
    then show ?thesis
      using io_transfer_stream [OF st, of Wr "offered_bytes n s" n ec]
        other_stream [OF _ _ assms(1), of M Wr] by auto
  next
    case (Tcp_received ec d)
    then show ?thesis
      using io_transfer_stream [OF st, of Rd d 0 ec] other_stream [OF _ _ assms(1), of M Rd] by auto
  next
    case (Tcp_handler sd)
    then show ?thesis
      using io_handler_stream [OF st, of sd] other_stream [OF _ _ assms(1), of M sd] by auto
  next
    case (Tcp_timer_handler i)
    obtain t cb where h: "multiple_timer_handler i (t_timer s) = (t, cb)" by fastforce
    let ?s = "s\<lparr>t_timer := t\<rparr>"
    have st': "tcp_stream_inv M ?s" "side_stream M sd ?s" "side_ok sd ?s" for sd
      using id [of M ?s] st by (simp_all add: tcp_stream_inv_def side_ok_def)
    show ?thesis
    proof (cases cb)
      case None
      then show ?thesis using Tcp_timer_handler h st' by (simp add: tcp_timer_handler_def)
    next
      case (Some x)
      then obtain sd oid where x: "cb = Some (sd, oid)" by (cases x) simp
      have "tcp_stream_inv M (fst (timeout_callback sd oid ?s))"
        using timeout_callback_stream [OF st'(2,3), of sd oid] other_stream [OF _ _ st'(1), of M sd] by auto
      then show ?thesis using Tcp_timer_handler h x by (simp add: tcp_timer_handler_def)
    qed
  qed (use id in \<open>simp_all add: tcp_invalidate_def set_disconnect_callback_def\<close>)
qed


lemma submitted_Cons: "submitted (e # es) = submitted [e] @ submitted es"
  by (cases e) simp_all

lemma tcp_stream_run:
  "tcp_stream_inv M s \<Longrightarrow> tcp_inv s \<Longrightarrow>
   tcp_stream_inv (M \<union> set (submitted es)) (run_state tcp_step s es)"
proof (induction es arbitrary: s M)
  case Nil
  then show ?case by simp
next
  case (Cons e es)
  have "tcp_stream_inv (M \<union> set (submitted [e])) (fst (tcp_step s e))"
    using Cons.prems by (rule tcp_stream_step)
  then have "tcp_stream_inv (M \<union> set (submitted [e]) \<union> set (submitted es))
      (run_state tcp_step (fst (tcp_step s e)) es)"
    by (rule Cons.IH) (rule tcp.inv_step [OF Cons.prems(2)])
  then show ?case by (subst submitted_Cons) (simp add: Un_assoc)
qed

lemma tcp_stream_create: "tcp_stream_inv {} tcp_create"
  by (simp add: tcp_stream_inv_def side_stream_def stream_ok_def messages_ok_def partial_def tcp_create_def)


section \<open>Frames are self-delimiting\<close>

lemma header_bytes_inject:
  assumes "header_bytes a = header_bytes b" "a < 2 ^ 32" "b < 2 ^ 32"
  shows "a = b"
proof -
  have "(of_nat a :: uint32) = of_nat b"
    using arg_cong [OF assms(1), of to_uint32_to_big_endian] by (simp add: header_bytes_def)
  moreover have "unat (of_nat a :: uint32) = a" "unat (of_nat b :: uint32) = b"
    using assms(2,3) by (simp_all add: unat_of_nat take_bit_nat_eq_self)
  ultimately show ?thesis by metis
qed

lemma frame_prefix_unique:
  assumes "prefix (tcp_frame r @ x) (tcp_frame t @ y)" "length r < 2 ^ 32" "length t < 2 ^ 32"
  shows "r = t \<and> prefix x y"
proof -
  from assms(1) obtain z where eq: "tcp_frame t @ y = (tcp_frame r @ x) @ z" by (auto simp: prefix_def)
  have "header_bytes (length t) = header_bytes (length r)"
    using arg_cong [OF eq, of "take 4"] by (simp add: tcp_frame_def)
  then have "length t = length r" using assms(2,3) by (rule_tac header_bytes_inject) simp_all
  then show ?thesis using eq by (simp add: tcp_frame_def prefix_def)
qed

lemma partial_no_frame:
  assumes "partial M part" "prefix (tcp_frame r) part" "r \<noteq> []" "length r < 2 ^ 32"
    and "\<forall>m \<in> M. length m < 2 ^ 32"
  shows False
proof -
  have "part \<noteq> []" using prefix_length_le [OF assms(2)] by auto
  then obtain m where m: "m \<in> M" "prefix part (tcp_frame m)" "part \<noteq> tcp_frame m \<or> m = []"
    using assms(1) by (auto simp: partial_def)
  have "prefix (tcp_frame r @ []) (tcp_frame m @ [])"
    using assms(2) m(2) by (simp add: prefix_order.trans)
  then have "r = m" using frame_prefix_unique assms(4,5) m(1) by blast
  then have "part = tcp_frame m" using assms(2) m(2) by (simp add: prefix_order.antisym)
  then show False using m(3) \<open>r = m\<close> assms(3) by simp
qed

lemma frames_prefix:
  assumes "prefix (concat (map tcp_frame rs)) (concat (map tcp_frame ts) @ part)" "partial M part"
    and "\<forall>m \<in> set ts \<union> M. length m < 2 ^ 32" "\<forall>r \<in> set rs. r \<noteq> [] \<and> length r < 2 ^ 32"
  shows "prefix rs ts"
  using assms(1,3,4)
proof (induction rs arbitrary: ts)
  case Nil
  then show ?case by simp
next
  case (Cons r rs)
  show ?case
  proof (cases ts)
    case Nil
    then have "prefix (tcp_frame r) part"
      using Cons.prems(1) by (auto simp: prefix_def)
    then show ?thesis using partial_no_frame [OF assms(2)] Cons.prems(2,3) by auto
  next
    case (Cons t ts')
    then have "prefix (tcp_frame r @ concat (map tcp_frame rs))
        (tcp_frame t @ (concat (map tcp_frame ts') @ part))"
      using Cons.prems(1) by simp
    then have "r = t \<and> prefix (concat (map tcp_frame rs)) (concat (map tcp_frame ts') @ part)"
      using Cons.prems(2,3) \<open>ts = t # ts'\<close> by (intro frame_prefix_unique) simp_all
    then show ?thesis
      using Cons.IH [of ts'] Cons.prems(2,3) \<open>ts = t # ts'\<close> by simp
  qed
qed


section \<open>What is on the wire of a writer\<close>

text \<open>
  The messages whose frames are completely on the wire: the transferred ones, and the one whose
  last bytes have been moved but whose handler has not run yet.
\<close>

definition wire_messages :: "tcp_endpoint \<Rightarrow> bytes list" where
  "wire_messages s = t_messages s Wr @
     (case (t_operations s Wr, t_io s Wr) of
        (op # rest, Io_done Ph_payload Ec_ok d) \<Rightarrow>
          if is_payload_completed (add_bytes (od_body op) d) then [op_message (od_body op)] else []
      | _ \<Rightarrow> [])"

lemma flight_wire:
  assumes "flight_ok Wr io b" "shape_ok Wr b" "op_message b \<in> M"
  defines "whole \<equiv> (case io of Io_done Ph_payload Ec_ok d \<Rightarrow>
      if is_payload_completed (add_bytes b d) then [op_message b] else [] | _ \<Rightarrow> [])"
  shows "\<exists>part. body_bytes b @ io_bytes io = concat (map tcp_frame whole) @ part \<and> partial M part"
proof (cases io)
  case (Io_started ph)
  then show ?thesis using unfinished_partial [OF assms(2) _ assms(3)] assms(1) by (simp add: whole_def)
next
  case (Io_done ph ec d)
  have ab: "body_bytes (add_bytes b d) = body_bytes b @ d" "shape_ok Wr (add_bytes b d)"
    using add_bytes_write [OF assms(2), of ph d] assms(1) Io_done by simp_all
  have m: "op_message (add_bytes b d) = op_message b"
    using assms(2) by (rule op_message_add_bytes_write)
  show ?thesis
  proof (cases "whole = []")
    case False
    then have "is_payload_completed (add_bytes b d)" "whole = [op_message b]"
      using Io_done by (auto simp: whole_def split: io_phase.splits error_code.splits if_splits)
    then show ?thesis
      using completed_is_frame(1) [OF ab(2)] ab(1) m Io_done by (simp add: partial_def)
  next
    case True
    have "unfinished (add_bytes b d)"
    proof (cases "ec = Ec_ok")
      case False
      then show ?thesis using assms(1,2) Io_done add_bytes_nil by auto
    next
      case ok: True
      show ?thesis
      proof (cases ph)
        case Ph_header
        then show ?thesis
          using assms(1,2) Io_done ab(2) by (intro add_bytes_header_unfinished) simp_all
      next
        case Ph_payload
        then show ?thesis
          using True ok Io_done ab(2) not_completed_unfinished by (auto simp: whole_def split: if_splits)
      qed
    qed
    then show ?thesis
      using unfinished_partial [OF ab(2)] ab(1) m assms(3) Io_done True by simp
  qed
qed (use assms(1) in simp)

lemma writer_wire:
  assumes "tcp_stream_inv M s"
  shows "\<exists>part. t_wire s Wr = concat (map tcp_frame (wire_messages s)) @ part \<and> partial M part"
proof (cases "t_operations s Wr")
  case Nil
  then show ?thesis
    using assms by (auto simp: tcp_stream_inv_def side_stream_def stream_ok_def wire_messages_def
        dest!: spec [of _ Wr])
next
  case (Cons op rest)
  have st: "stream_ok M Wr (t_socket_open s) (t_wire s Wr) (t_messages s Wr) (op # rest) (t_io s Wr)"
    using assms Cons by (simp add: tcp_stream_inv_def side_stream_def flip: Cons)
  show ?thesis
    using st Cons flight_wire [of "t_io s Wr" "od_body op" M]
    by (auto simp: stream_ok_def wire_messages_def)
qed



section \<open>Submitted and delivered messages\<close>

lemma start_frame:
  "t_messages (fst (start_header_async sd s)) = t_messages s"
  "t_operations (fst (start_header_async sd s)) sd \<in> {t_operations s sd, []}"
  "t_messages (fst (start_payload_async sd s)) = t_messages s"
  "t_operations (fst (start_payload_async sd s)) sd \<in> {t_operations s sd, []}"
  "t_messages (fst (on_error ec sd s)) = t_messages s" "t_operations (fst (on_error ec sd s)) sd = []"
  by (cases sd; simp add: start_header_async_def start_payload_async_def
      start_write_payload_async_def start_read_payload_async_def on_error_def)+

lemma complete_all_delivers_nothing:
  "r \<noteq> Op_success \<Longrightarrow> delivered (snd (complete_all_operations_unsafe r sd s)) = []"
  using complete_all_output(2) [of r sd s] by (intro delivered_none) auto

lemma start_delivers_nothing:
  "delivered (snd (start_header_async sd s)) = []" "delivered (snd (start_payload_async sd s)) = []"
  "delivered (snd (on_error ec sd s)) = []"
  by (cases sd; simp add: start_header_async_def start_payload_async_def
      start_write_payload_async_def start_read_payload_async_def on_error_def
      complete_all_delivers_nothing)+

text \<open>A handler either finishes the message in flight or leaves the list of messages alone.\<close>

lemma io_handler_frame:
  assumes "t_io s sd = Io_done ph ec d" "t_operations s sd = op # rest"
  defines "op' \<equiv> op\<lparr>od_body := add_bytes (od_body op) d\<rparr>"
  shows "t_messages (fst (io_handler sd s)) = t_messages s \<and>
      t_operations (fst (io_handler sd s)) sd \<in> {op' # rest, []} \<and> delivered (snd (io_handler sd s)) = [] \<or>
    t_messages (fst (io_handler sd s)) =
        (t_messages s)(sd := t_messages s sd @ [op_message (od_body op')]) \<and>
      t_operations (fst (io_handler sd s)) sd \<in> {rest, []} \<and> is_payload_completed (od_body op') \<and>
      delivered (snd (io_handler sd s)) =
        delivered (snd (take_pending_result Op_success op'))"
proof -
  define s' where "s' = add_bytes_back sd d (set_io sd Io_idle s)"
  have s': "t_operations s' sd = op' # rest" "t_messages s' = t_messages s"
    using assms(2) by (simp_all add: s'_def op'_def add_bytes_back_def)
  show ?thesis
  proof (cases "ph = Ph_payload \<and> ec = Ec_ok \<and> is_payload_completed (od_body op')")
    case False
    then have "io_handler sd s \<in> {on_error ec sd s', start_header_async sd s', start_payload_async sd s'}"
      using assms(1) s'(1) by (cases ph) (auto simp: io_handler_def on_header_operation_def
          on_payload_operation_def Let_def simp flip: s'_def)
    then show ?thesis
      using start_frame(1-4) [of sd s'] start_frame(5,6) [of ec sd s'] start_delivers_nothing(1,2) [of sd s']
        start_delivers_nothing(3) [of ec sd s'] s' by auto
  next
    case True
    define s'' where "s'' = set_ops sd rest ((cancel_op_timer op' s')\<lparr>t_messages :=
        (t_messages s')(sd := t_messages s' sd @ [op_message (od_body op')])\<rparr>)"
    have "io_handler sd s = (if rest = [] then (s'', snd (take_pending_result Op_success op'))
        else (fst (start_header_async sd s''),
          snd (take_pending_result Op_success op') @ snd (start_header_async sd s'')))"
      using assms(1) s'(1) True by (cases "rest = []") (simp_all add: io_handler_def
          on_payload_operation_def Let_def case_prod_beta s''_def flip: s'_def)
    moreover have "t_operations s'' sd = rest"
      "t_messages s'' = (t_messages s)(sd := t_messages s sd @ [op_message (od_body op')])"
      by (simp_all add: s''_def s')
    ultimately show ?thesis
      using True start_frame(1,2) [of sd s''] start_delivers_nothing(1) [of sd s'']
      by (cases "rest = []") auto
  qed
qed


lemma start_operation_frame:
  assumes r_def: "r = start_operation sd body now p timeout s"
  shows "t_messages (fst r) = t_messages s" "delivered (snd r) = []"
    "\<not> t_socket_open s \<Longrightarrow> t_operations (fst r) = t_operations s"
    "t_socket_open s \<Longrightarrow> \<exists>op. t_operations (fst r) = (t_operations s)(sd := t_operations s sd @ [op]) \<and>
       od_body op = body \<and> \<not> od_is_promise_resolved op"
proof -
  have "delivered [(p, op_result Op_failed body)] = []" by (cases body) simp_all
  then show "t_messages (fst r) = t_messages s" "delivered (snd r) = []"
    "\<not> t_socket_open s \<Longrightarrow> t_operations (fst r) = t_operations s"
    "t_socket_open s \<Longrightarrow> \<exists>op. t_operations (fst r) = (t_operations s)(sd := t_operations s sd @ [op]) \<and>
       od_body op = body \<and> \<not> od_is_promise_resolved op"
    by (auto simp: r_def start_operation_def Let_def case_prod_beta start_frame start_delivers_nothing
        start_header_async_def)
qed

lemma timeout_callback_frame:
  assumes "side_ok sd s"
  shows "t_messages (fst (timeout_callback sd i s)) = t_messages s"
    "delivered (snd (timeout_callback sd i s)) = []"
    "subseq (map (op_message \<circ> od_body) (t_operations (fst (timeout_callback sd i s)) sd))
       (map (op_message \<circ> od_body) (t_operations s sd))"
    "t_operations (fst (timeout_callback sd i s)) (other sd) = t_operations s (other sd)"
proof -
  show "t_messages (fst (timeout_callback sd i s)) = t_messages s"
    "t_operations (fst (timeout_callback sd i s)) (other sd) = t_operations s (other sd)"
    by (simp_all add: timeout_callback_def Let_def case_prod_beta split: option.split)
  have none: "delivered (snd (take_pending_result r op)) = []" if "r \<noteq> Op_success" for r op
    using that by (cases "od_body op"; cases r) (simp_all add: take_pending_result_def)
  show "delivered (snd (timeout_callback sd i s)) = []"
    by (simp add: timeout_callback_def Let_def case_prod_beta none split: option.split)
  show "subseq (map (op_message \<circ> od_body) (t_operations (fst (timeout_callback sd i s)) sd))
       (map (op_message \<circ> od_body) (t_operations s sd))"
  proof (cases "find (\<lambda>op. od_id op = i) (t_operations s sd)")
    case None
    then show ?thesis by (simp add: timeout_callback_def)
  next
    case (Some op)
    then have mem: "op \<in> set (t_operations s sd)" by (auto simp: find_Some_iff)
    then obtain h ops where ops: "t_operations s sd = h # ops" by (cases "t_operations s sd") auto
    have rm: "subseq (remove1 op xs) xs" for xs
      by (induction xs) auto
    show ?thesis
    proof (cases "od_id op = od_id h")
      case True
      then have "op \<notin> set ops" using assms ops by (auto simp: side_ok_def ops_ok_def image_iff)
      then have "op = h" using mem ops by simp
      then show ?thesis
        using Some ops by (simp add: timeout_callback_def Let_def take_pending_result_def)
    next
      case False
      then have "t_operations (fst (timeout_callback sd i s)) sd = remove1 op (t_operations s sd)"
        using Some ops by (simp add: timeout_callback_def Let_def case_prod_beta)
      then show ?thesis using subseq_map [OF rm] by simp
    qed
  qed
qed

lemma tcp_timer_handler_frame:
  assumes "tcp_inv s"
  shows "t_messages (fst (tcp_timer_handler i s)) = t_messages s"
    "delivered (snd (tcp_timer_handler i s)) = []"
    "subseq (map (op_message \<circ> od_body) (t_operations (fst (tcp_timer_handler i s)) sd))
       (map (op_message \<circ> od_body) (t_operations s sd))"
proof -
  obtain t cb where h: "multiple_timer_handler i (t_timer s) = (t, cb)" by fastforce
  let ?s = "s\<lparr>t_timer := t\<rparr>"
  have "side_ok sd' ?s" for sd' using assms by (simp add: tcp_inv_def side_ok_def)
  note f = timeout_callback_frame [OF this]
  have r: "tcp_timer_handler i s = (?s, []) \<or>
      (\<exists>sd' oid. tcp_timer_handler i s = timeout_callback sd' oid ?s)"
    using h by (cases cb) (auto simp: tcp_timer_handler_def)
  show "t_messages (fst (tcp_timer_handler i s)) = t_messages s"
    "delivered (snd (tcp_timer_handler i s)) = []" using r f(1,2) by auto
  have "subseq (map (op_message \<circ> od_body) (t_operations (fst (timeout_callback sd' oid ?s)) sd))
       (map (op_message \<circ> od_body) (t_operations s sd))" for sd' oid
    using f(3,4) [of sd' oid] side_cases [of sd sd'] by auto
  then show "subseq (map (op_message \<circ> od_body) (t_operations (fst (tcp_timer_handler i s)) sd))
       (map (op_message \<circ> od_body) (t_operations s sd))" using r by auto
qed

text \<open>The writer's messages, transferred or still queued, are submitted messages in order.\<close>

definition write_history :: "tcp_endpoint \<Rightarrow> bytes list" where
  "write_history s = t_messages s Wr @ map (op_message \<circ> od_body) (t_operations s Wr)"

lemma io_handler_history:
  assumes "tcp_inv s" "tcp_stream_inv M s"
  shows "subseq (write_history (fst (io_handler sd s))) (write_history s)"
proof (cases sd)
  case Rd
  have "same_other Rd s (fst (io_handler Rd s))"
    using io_handler_stream [of M Rd s] assms by (simp add: tcp_inv_def tcp_stream_inv_def)
  then show ?thesis using Rd by (simp add: write_history_def same_other_def)
next
  case Wr
  show ?thesis
  proof (cases "t_io s Wr")
    case (Io_done ph ec d)
    then obtain op rest where ops: "t_operations s Wr = op # rest"
      using assms(1) by (cases "t_operations s Wr") (auto simp: tcp_inv_def side_ok_def dest: spec [of _ Wr])
    have "shape_ok Wr (od_body op)"
      using assms(2) ops by (auto simp: tcp_stream_inv_def side_stream_def stream_ok_def dest!: spec [of _ Wr])
    then have m: "op_message (add_bytes (od_body op) d) = op_message (od_body op)"
      by (rule op_message_add_bytes_write)
    show ?thesis
      using io_handler_frame [OF Io_done ops] m Wr ops
      by (auto simp: write_history_def)
  qed (simp_all add: Wr io_handler_def)
qed

lemma write_history_step:
  assumes "tcp_inv s" "tcp_stream_inv M s"
  shows "subseq (write_history (fst (tcp_step s e))) (write_history s @ submitted [e])"
proof (cases e)
  case (Tcp_write now p msg timeout)
  show ?thesis
  proof (cases "t_socket_open s")
    case True
    then show ?thesis
      using Tcp_write start_operation_frame(1,4) [where sd = Wr and body = "write_operation msg" and now = now and p = p and timeout = timeout and s = s, OF refl]
      by (auto simp: write_history_def write_async_def write_operation_def)
  next
    case False
    then show ?thesis
      using Tcp_write start_operation_frame(1,3) [where sd = Wr and body = "write_operation msg" and now = now and p = p and timeout = timeout and s = s, OF refl]
      by (auto simp: write_history_def write_async_def)
  qed
next
  case (Tcp_read now p timeout)
  have "same_other Rd s (fst (read_async now p timeout s))"
    using start_operation_stream [of M Rd s read_operation M now p timeout] assms
    by (simp add: tcp_stream_inv_def tcp_inv_def read_async_def read_operation_def)
  then show ?thesis using Tcp_read by (simp add: write_history_def same_other_def)
next
  case (Tcp_handler sd)
  then show ?thesis using io_handler_history [OF assms] by simp
next
  case (Tcp_timer_handler i)
  then show ?thesis
    using tcp_timer_handler_frame(1,3) [OF assms(1), of i]
    by (simp add: write_history_def list_emb_append_mono)
qed (simp_all add: write_history_def tcp_invalidate_def set_disconnect_callback_def)

lemma write_history_run:
  "tcp_inv s \<Longrightarrow> tcp_stream_inv M s \<Longrightarrow>
   subseq (write_history (run_state tcp_step s es)) (write_history s @ submitted es)"
proof (induction es arbitrary: s M)
  case Nil
  then show ?case by simp
next
  case (Cons e es)
  have "subseq (write_history (run_state tcp_step (fst (tcp_step s e)) es))
      (write_history (fst (tcp_step s e)) @ submitted es)"
    using tcp.inv_step [OF Cons.prems(1)] tcp_stream_step [OF Cons.prems(2,1)] by (rule Cons.IH)
  also have "subseq \<dots> ((write_history s @ submitted [e]) @ submitted es)"
    using write_history_step [OF Cons.prems] by (intro list_emb_append_mono) simp_all
  finally show ?case by (simp add: submitted_Cons [of e es])
qed

lemma wire_messages_history: "subseq (wire_messages s) (write_history s)"
  by (auto simp: wire_messages_def write_history_def split: list.split io_state.split io_phase.split
      error_code.split)


section \<open>What the reader delivers\<close>

text \<open>A handler delivers at most the message it records; all of it if the read is pending.\<close>

lemma take_pending_delivers:
  assumes "shape_ok sd (od_body op)" "is_payload_completed (od_body op)"
  shows "delivered (snd (take_pending_result Op_success op)) =
    (if sd = Rd \<and> \<not> od_is_promise_resolved op then [op_message (od_body op)] else [])"
  using assms by (cases sd; cases "od_body op")
    (auto simp: take_pending_result_def split: option.splits)

text \<open>
  No read can have timed out: every pending read is unresolved and no timer belongs to one.
\<close>

definition no_read_timers :: "(side \<times> nat) multiple_timer \<Rightarrow> bool" where
  "no_read_timers t \<longleftrightarrow> (\<forall>i e. m_timers_map t i = Some e \<longrightarrow> fst (te_callback e) = Wr)"

definition calm :: "tcp_endpoint \<Rightarrow> bool" where
  "calm s \<longleftrightarrow> no_read_timers (t_timer s) \<and> (\<forall>op \<in> set (t_operations s Rd). \<not> od_is_promise_resolved op)"

fun untimed_read :: "tcp_event \<Rightarrow> bool" where
  "untimed_read (Tcp_read now p timeout) = (timeout = None)"
| "untimed_read e = True"

lemma no_read_timers_ops:
  assumes "no_read_timers t"
  shows "no_read_timers (multiple_timer_cancel i t)" "no_read_timers (multiple_timer_expire now i t)"
    "no_read_timers (fst (multiple_timer_handler i t))"
    "no_read_timers (snd (multiple_timer_start now (Wr, k) n t))"
    "snd (multiple_timer_handler i t) = Some (sd, oid) \<Longrightarrow> sd = Wr"
  using assms
  by (auto simp: no_read_timers_def multiple_timer_cancel_def multiple_timer_expire_def
      multiple_timer_handler_def multiple_timer_start_def abort_wait_def Let_def
      split: option.splits wait_state.splits if_splits) (metis fst_conv)?

lemma timer_simps [simp]:
  "t_timer (set_io sd io s) = t_timer s" "t_timer (invalidate_unsafe b s) = t_timer s"
  "t_timer (add_bytes_back sd d s) = t_timer s"
  by (simp_all add: set_io_def invalidate_unsafe_def Let_def add_bytes_back_def split: list.split)

lemma cancel_op_timers:
  "no_read_timers (t_timer s) \<Longrightarrow> no_read_timers (t_timer (cancel_op_timer op s))"
  by (simp add: cancel_op_timer_def no_read_timers_ops(1) split: option.split)

lemma complete_all_timers:
  "no_read_timers (t_timer s) \<Longrightarrow> no_read_timers (t_timer (fst (complete_all_operations_unsafe r sd s)))"
proof -
  have "no_read_timers (t_timer s) \<Longrightarrow> no_read_timers (t_timer (fst (complete_ops r ops s)))" for ops
    by (induction ops arbitrary: s) (simp_all add: case_prod_beta cancel_op_timers)
  then show "no_read_timers (t_timer s) \<Longrightarrow> ?thesis"
    by (simp add: complete_all_operations_unsafe_def case_prod_beta)
qed

lemma start_timers:
  assumes "no_read_timers (t_timer s)"
  shows "no_read_timers (t_timer (fst (start_header_async sd s)))"
    "no_read_timers (t_timer (fst (start_payload_async sd s)))"
    "no_read_timers (t_timer (fst (on_error ec sd s)))"
  using assms
  by (cases sd; simp add: start_header_async_def start_payload_async_def start_write_payload_async_def
      start_read_payload_async_def on_error_def complete_all_timers)+

lemma io_handler_timers:
  "no_read_timers (t_timer s) \<Longrightarrow> no_read_timers (t_timer (fst (io_handler sd s)))"
  by (auto simp: io_handler_def on_header_operation_def on_payload_operation_def Let_def case_prod_beta
      start_timers cancel_op_timers split: io_state.split io_phase.split)

lemma timeout_callback_timers [simp]: "t_timer (fst (timeout_callback sd i s)) = t_timer s"
  by (simp add: timeout_callback_def Let_def case_prod_beta split: option.split)

lemma calm_read:
  assumes "calm s"
  shows "calm (fst (read_async now p None s))"
proof (cases "t_socket_open s")
  case True
  have "t_timer (fst (read_async now p None s)) = t_timer s"
    using True by (simp add: read_async_def start_operation_def Let_def start_header_async_def)
  then show ?thesis
    using assms start_operation_frame(4) [OF refl True, of Rd read_operation now p None]
    by (auto simp: calm_def read_async_def)
qed (use assms in \<open>simp add: calm_def read_async_def start_operation_def\<close>)

lemma calm_write:
  assumes "calm s"
  shows "calm (fst (write_async now p msg timeout s))"
proof (cases "t_socket_open s")
  case True
  have "no_read_timers (t_timer (fst (write_async now p msg timeout s)))"
    using True assms by (cases timeout)
      (simp_all add: write_async_def start_operation_def Let_def start_header_async_def case_prod_beta
        calm_def no_read_timers_ops)
  then show ?thesis
    using assms start_operation_frame(4) [OF refl True, of Wr "write_operation msg" now p timeout]
    by (auto simp: calm_def write_async_def)
qed (use assms in \<open>simp add: calm_def write_async_def start_operation_def\<close>)

lemma calm_timer_handler:
  assumes "calm s"
  shows "calm (fst (tcp_timer_handler i s))"
proof -
  obtain t cb where h: "multiple_timer_handler i (t_timer s) = (t, cb)" by fastforce
  have t: "no_read_timers t" using no_read_timers_ops(3) [of "t_timer s" i] assms h by (simp add: calm_def)
  show ?thesis
  proof (cases cb)
    case None
    then show ?thesis using h t assms by (simp add: tcp_timer_handler_def calm_def)
  next
    case (Some c)
    then obtain oid where "c = (Wr, oid)"
      using no_read_timers_ops(5) [of "t_timer s" i] assms h by (cases c) (auto simp: calm_def)
    moreover have "t_operations (fst (timeout_callback Wr oid s')) Rd = t_operations s' Rd" for s'
      by (simp add: timeout_callback_def Let_def case_prod_beta split: option.split)
    ultimately show ?thesis using h t assms Some by (simp add: tcp_timer_handler_def calm_def)
  qed
qed

lemma calm_io_handler:
  assumes "calm s" "tcp_inv s" "tcp_stream_inv M s"
  shows "calm (fst (io_handler sd s))"
proof (cases sd)
  case Wr
  have "same_other Wr s (fst (io_handler Wr s))"
    using io_handler_stream [of M Wr s] assms by (simp add: tcp_inv_def tcp_stream_inv_def)
  then show ?thesis using Wr assms(1) io_handler_timers by (simp add: calm_def same_other_def)
next
  case Rd
  show ?thesis
  proof (cases "t_io s Rd")
    case (Io_done ph ec d)
    then obtain op rest where ops: "t_operations s Rd = op # rest"
      using assms(2) by (cases "t_operations s Rd") (auto simp: tcp_inv_def side_ok_def dest: spec [of _ Rd])
    then show ?thesis
      using io_handler_frame [OF Io_done ops] io_handler_timers [of s Rd] assms(1) Rd
      by (auto simp: calm_def)
  qed (use Rd assms(1) in \<open>simp_all add: io_handler_def\<close>)
qed

lemma calm_step:
  assumes "calm s" "tcp_inv s" "tcp_stream_inv M s" "untimed_read e"
  shows "calm (fst (tcp_step s e))"
  using assms calm_io_handler [OF assms(1-3)] calm_timer_handler [OF assms(1)] calm_write [OF assms(1)]
    calm_read [OF assms(1)]
  by (cases e) (simp_all add: calm_def tcp_invalidate_def set_disconnect_callback_def io_transfer_def
      no_read_timers_ops Let_def split: io_state.split)

text \<open>What a step delivers is among the messages it adds, and is all of them without timeouts.\<close>

definition delivers :: "tcp_endpoint \<Rightarrow> tcp_result \<Rightarrow> bool" where
  "delivers s res \<longleftrightarrow>
     (\<exists>ms. t_messages (fst res) Rd = t_messages s Rd @ ms \<and> subseq (delivered (snd res)) ms \<and>
        (calm s \<longrightarrow> delivered (snd res) = ms))"

lemma delivers_nothing:
  "t_messages (fst res) Rd = t_messages s Rd \<Longrightarrow> delivered (snd res) = [] \<Longrightarrow> delivers s res"
  by (simp add: delivers_def)

lemma io_handler_delivers:
  assumes "tcp_inv s" "tcp_stream_inv M s"
  shows "delivers s (io_handler sd s)"
proof (cases "t_io s sd")
  case (Io_done ph ec d)
  then obtain op rest where ops: "t_operations s sd = op # rest"
    using assms(1) by (cases "t_operations s sd") (auto simp: tcp_inv_def side_ok_def dest: spec [of _ sd])
  have st: "side_stream M sd s" using assms(2) by (simp add: tcp_stream_inv_def)
  let ?op = "op\<lparr>od_body := add_bytes (od_body op) d\<rparr>"
  have shape: "shape_ok sd (od_body ?op)" if "is_payload_completed (od_body ?op)"
    using handler_mid(2) [OF st Io_done ops] bad_header_completed that by blast
  have calm: "calm s \<Longrightarrow> sd = Rd \<Longrightarrow> \<not> od_is_promise_resolved op"
    using ops by (simp add: calm_def)
  from io_handler_frame [OF Io_done ops] show ?thesis
  proof (elim disjE conjE)
    assume "t_messages (fst (io_handler sd s)) = t_messages s" "delivered (snd (io_handler sd s)) = []"
    then show ?thesis by (simp add: delivers_nothing)
  next
    assume new: "t_messages (fst (io_handler sd s)) =
        (t_messages s)(sd := t_messages s sd @ [op_message (od_body ?op)])"
      and fin: "is_payload_completed (od_body ?op)"
      and out: "delivered (snd (io_handler sd s)) = delivered (snd (take_pending_result Op_success ?op))"
    show ?thesis
      using new out take_pending_delivers [OF shape [OF fin] fin] calm
      by (cases sd) (auto simp: delivers_def)
  qed
qed (simp_all add: io_handler_def delivers_def)

lemma delivers_step:
  assumes "tcp_inv s" "tcp_stream_inv M s"
  shows "delivers s (tcp_step s e)"
proof (cases e)
  case (Tcp_write now p msg timeout)
  then show ?thesis
    using start_operation_frame(1,2) [OF refl] by (intro delivers_nothing) (simp_all add: write_async_def)
next
  case (Tcp_read now p timeout)
  then show ?thesis
    using start_operation_frame(1,2) [OF refl] by (intro delivers_nothing) (simp_all add: read_async_def)
next
  case (Tcp_handler sd)
  then show ?thesis using io_handler_delivers [OF assms] by simp
next
  case (Tcp_timer_handler i)
  then show ?thesis
    using tcp_timer_handler_frame(1,2) [OF assms(1)] by (intro delivers_nothing) simp_all
qed (simp_all add: delivers_def tcp_invalidate_def set_disconnect_callback_def io_transfer_def Let_def
    split: io_state.split)

lemma delivers_run:
  "tcp_inv s \<Longrightarrow> tcp_stream_inv M s \<Longrightarrow>
   \<exists>ms. t_messages (run_state tcp_step s es) Rd = t_messages s Rd @ ms \<and>
     subseq (delivered (run_output tcp_step s es)) ms \<and>
     (calm s \<and> (\<forall>e \<in> set es. untimed_read e) \<longrightarrow> delivered (run_output tcp_step s es) = ms)"
proof (induction es arbitrary: s M)
  case Nil
  then show ?case by simp
next
  case (Cons e es)
  obtain s' os where r: "tcp_step s e = (s', os)" by fastforce
  have inv: "tcp_inv s'" "tcp_stream_inv (M \<union> set (submitted [e])) s'"
    using tcp.inv_step [OF Cons.prems(1), of e] tcp_stream_step [OF Cons.prems(2,1), of e] r by simp_all
  obtain ms where ms: "t_messages s' Rd = t_messages s Rd @ ms" "subseq (delivered os) ms"
      "calm s \<longrightarrow> delivered os = ms"
    using delivers_step [OF Cons.prems, of e] r by (auto simp: delivers_def)
  obtain ns where ns: "t_messages (run_state tcp_step s' es) Rd = t_messages s' Rd @ ns"
      "subseq (delivered (run_output tcp_step s' es)) ns"
      "calm s' \<and> (\<forall>e \<in> set es. untimed_read e) \<longrightarrow> delivered (run_output tcp_step s' es) = ns"
    using Cons.IH [OF inv] by blast
  have "calm s \<Longrightarrow> untimed_read e \<Longrightarrow> calm s'"
    using calm_step [OF _ Cons.prems, of e] r by simp
  then show ?case
    using r ms ns by (intro exI [of _ "ms @ ns"]) (auto simp: list_emb_append_mono)
qed

lemma calm_create: "calm tcp_create"
  by (simp add: calm_def no_read_timers_def tcp_create_def multiple_timer_init_def)


section \<open>From a sender to a receiver\<close>

lemma run_from_create:
  defines "s \<equiv> \<lambda>es. run_state tcp_step tcp_create es"
  shows "tcp_inv (s es)" "tcp_stream_inv (set (submitted es)) (s es)"
  using tcp.inv_run [OF tcp_inv_create] tcp_stream_run [OF tcp_stream_create tcp_inv_create]
  by (simp_all add: s_def)

lemma subseq_in_set: "subseq xs ys \<Longrightarrow> set xs \<subseteq> set ys"
  by (induction rule: list_emb.induct) auto

lemma wire_messages_submitted:
  "subseq (wire_messages (run_state tcp_step tcp_create es)) (submitted es)"
proof -
  have "subseq (write_history (run_state tcp_step tcp_create es)) (submitted es)"
    using write_history_run [OF tcp_inv_create tcp_stream_create, of es]
    by (simp add: write_history_def tcp_create_def)
  then show ?thesis using wire_messages_history subseq_order.trans by blast
qed

text \<open>The reader's wire starts with the frames of its messages, all of acceptable size.\<close>

lemma reader_wire:
  assumes "tcp_stream_inv M s"
  shows "prefix (concat (map tcp_frame (t_messages s Rd))) (t_wire s Rd)"
    and "\<forall>m \<in> set (t_messages s Rd). m \<noteq> [] \<and> length m \<le> unat MaxTransferMessageSize"
proof -
  have st: "stream_ok M Rd (t_socket_open s) (t_wire s Rd) (t_messages s Rd) (t_operations s Rd) (t_io s Rd)"
    using assms by (simp add: tcp_stream_inv_def side_stream_def)
  then show "prefix (concat (map tcp_frame (t_messages s Rd))) (t_wire s Rd)"
    by (auto simp: stream_ok_def split: list.splits)
  show "\<forall>m \<in> set (t_messages s Rd). m \<noteq> [] \<and> length m \<le> unat MaxTransferMessageSize"
    using st by (simp add: stream_ok_def messages_ok_def)
qed

lemma received_messages_prefix:
  assumes "tcp_stream_inv M a" "tcp_stream_inv N b" "prefix (t_wire b Rd) (t_wire a Wr)"
    and "\<forall>m \<in> M. length m < 2 ^ 32" "set (wire_messages a) \<subseteq> M"
  shows "prefix (t_messages b Rd) (wire_messages a)"
proof -
  obtain part where part: "t_wire a Wr = concat (map tcp_frame (wire_messages a)) @ part" "partial M part"
    using writer_wire [OF assms(1)] by blast
  have "prefix (concat (map tcp_frame (t_messages b Rd))) (concat (map tcp_frame (wire_messages a)) @ part)"
    using reader_wire(1) [OF assms(2)] assms(3) part(1) prefix_order.trans by metis
  moreover have "unat MaxTransferMessageSize < 2 ^ 32" by simp
  then have "\<forall>r \<in> set (t_messages b Rd). r \<noteq> [] \<and> length r < 2 ^ 32"
    using reader_wire(2) [OF assms(2)] by (meson le_less_trans)
  ultimately show ?thesis
    using frames_prefix [OF _ part(2)] assms(4,5) by blast
qed

text \<open>
  C9: A TCP connection transports messages faithfully.  If the bytes that a receiver has got from
  its socket are a prefix of those that the sender has put into its own, then, however both sides
  interleave calls, partial transfers, timeouts and invalidation: the messages transferred to the
  receiver are a prefix of those the sender has put on the wire, which are submitted messages in
  order; what reads deliver is a subsequence of the submitted messages, none empty and none
  longer than \<open>MaxTransferMessageSize\<close>; and when no read has a timeout, the deliveries are
  exactly the transferred messages, without gap, repetition or reordering.
\<close>

theorem tcp_end_to_end:
  fixes es_a es_b :: "tcp_event list"
  defines "a \<equiv> run_state tcp_step tcp_create es_a" and "b \<equiv> run_state tcp_step tcp_create es_b"
  assumes stream: "prefix (t_wire b Rd) (t_wire a Wr)"
    and small: "\<forall>m \<in> set (submitted es_a). length m < 2 ^ 32"
  shows "prefix (t_messages b Rd) (wire_messages a) \<and>
    subseq (wire_messages a) (submitted es_a) \<and>
    subseq (delivered (run_output tcp_step tcp_create es_b)) (submitted es_a) \<and>
    (\<forall>m \<in> set (delivered (run_output tcp_step tcp_create es_b)).
       m \<noteq> [] \<and> length m \<le> unat MaxTransferMessageSize) \<and>
    ((\<forall>e \<in> set es_b. untimed_read e) \<longrightarrow>
       delivered (run_output tcp_step tcp_create es_b) = t_messages b Rd)"
proof -
  let ?del = "delivered (run_output tcp_step tcp_create es_b)"
  have sub: "subseq (wire_messages a) (submitted es_a)"
    unfolding a_def by (rule wire_messages_submitted)
  have inv: "tcp_stream_inv (set (submitted es_a)) a" "tcp_stream_inv (set (submitted es_b)) b"
    using run_from_create by (simp_all add: a_def b_def)
  have "set (wire_messages a) \<subseteq> set (submitted es_a)" using sub by (rule subseq_in_set)
  with inv stream small have pre: "prefix (t_messages b Rd) (wire_messages a)"
    by (rule received_messages_prefix)
  have del: "subseq ?del (t_messages b Rd)" "(\<forall>e \<in> set es_b. untimed_read e) \<longrightarrow> ?del = t_messages b Rd"
    using delivers_run [OF tcp_inv_create tcp_stream_create, of es_b] calm_create
    by (auto simp: b_def tcp_create_def)
  have "subseq ?del (submitted es_a)"
    using del(1) prefix_imp_subseq [OF pre] sub by (meson subseq_order.trans)
  moreover have "set ?del \<subseteq> set (t_messages b Rd)" using del(1) by (rule subseq_in_set)
  ultimately show ?thesis using pre sub del(2) reader_wire(2) [OF inv(2)] by blast
qed

definition tcp_reader_example :: "tcp_event list" where
  "tcp_reader_example =
     [Tcp_read 0 5 None, Tcp_received Ec_ok [0, 0], Tcp_handler Rd, Tcp_received Ec_ok [0, 2],
      Tcp_handler Rd, Tcp_received Ec_ok [9], Tcp_handler Rd, Tcp_received Ec_ok [8], Tcp_handler Rd]"

theorem tcp_end_to_end_witness:
  "delivered (run_output tcp_step tcp_create tcp_reader_example) = [[9, 8]] \<and>
   subseq (delivered (run_output tcp_step tcp_create tcp_reader_example)) (submitted tcp_example)"
proof -
  have "prefix (t_wire (run_state tcp_step tcp_create tcp_reader_example) Rd)
      (t_wire (run_state tcp_step tcp_create tcp_example) Wr)"
    by code_simp
  moreover have "\<forall>m \<in> set (submitted tcp_example). length m < 2 ^ 32"
    by (simp add: tcp_example_def)
  moreover have "delivered (run_output tcp_step tcp_create tcp_reader_example) = [[9, 8]]"
    by code_simp
  ultimately show ?thesis using tcp_end_to_end [of tcp_reader_example tcp_example] by simp
qed

end
