(* ===== verification/Connection.thy ===== *)
theory Connection
  imports Transfer_Message Timers Pipe_Endpoint
begin

text \<open>
  The connection, \<open>rpc-lib/internal/connection\<close> and \<open>rpc-lib/internal/transport\<close>: requests are
  numbered messages with a promise and a receive timer, responses are matched by number, a
  periodic watcher pings a silent peer and deactivates a connection whose peer does not answer.

  A step is one critical section or one executed callback.  The pipe endpoint below and the service
  above are interfaces of the source: the completion of a send, of the outstanding read and of a
  service call are events that choose the result.  \<open>c_sends\<close> and \<open>tr_reads\<close> count the
  continuations that wait for the pipe, \<open>c_served\<close> the requests in the hands of the service;
  \<open>tr_sent\<close> is the sequence of messages handed to the pipe.
\<close>

section \<open>The watcher\<close>

record connection_watcher =
  w_ping_period :: nat
  w_activity_flag :: bool
  w_start_ping_waiting :: "time_point option"

definition connection_watcher_init :: "nat \<Rightarrow> connection_watcher" where
  "connection_watcher_init ping_period =
     \<lparr>w_ping_period = ping_period, w_activity_flag = True, w_start_ping_waiting = None\<rparr>"

definition check_and_drop_activity_flag :: "connection_watcher \<Rightarrow> bool \<times> connection_watcher" where
  "check_and_drop_activity_flag w = (w_activity_flag w, w\<lparr>w_activity_flag := False\<rparr>)"

definition set_activity_flag :: "connection_watcher \<Rightarrow> connection_watcher" where
  "set_activity_flag w = w\<lparr>w_activity_flag := True, w_start_ping_waiting := None\<rparr>"

definition set_ping_waiting :: "time_point \<Rightarrow> connection_watcher \<Rightarrow> connection_watcher" where
  "set_ping_waiting now w =
     (if w_start_ping_waiting w = None then w\<lparr>w_start_ping_waiting := Some now\<rparr> else w)"

definition is_connection_not_responding :: "time_point \<Rightarrow> connection_watcher \<Rightarrow> bool" where
  "is_connection_not_responding now w =
     (case w_start_ping_waiting w of None \<Rightarrow> False | Some t \<Rightarrow> now > t + w_ping_period w)"


section \<open>The transport\<close>

text \<open>
  What the connection can observe of its pipe endpoint: whether it is connected, the messages
  written to it, the outstanding reads, and the disconnect callbacks.
\<close>

record transport =
  tr_running :: bool
  tr_sent :: "bytes list"
  tr_reads :: nat
  tr_stop_callbacks :: "nat list"
  tr_executed :: "nat list"

definition transport_init :: transport where
  "transport_init =
     \<lparr>tr_running = True, tr_sent = [], tr_reads = 0, tr_stop_callbacks = [], tr_executed = []\<rparr>"

definition transport_send_async :: "bytes \<Rightarrow> transport \<Rightarrow> transport" where
  "transport_send_async message tr = tr\<lparr>tr_sent := tr_sent tr @ [message]\<rparr>"

definition transport_recv_async :: "transport \<Rightarrow> transport" where
  "transport_recv_async tr = tr\<lparr>tr_reads := Suc (tr_reads tr)\<rparr>"

text \<open>The pipe loses its connection: it runs the disconnect callbacks.\<close>

definition pipe_disconnect :: "transport \<Rightarrow> transport" where
  "pipe_disconnect tr =
     tr\<lparr>tr_running := False, tr_stop_callbacks := [],
        tr_executed := tr_executed tr @ tr_stop_callbacks tr\<rparr>"

definition transport_stop :: "transport \<Rightarrow> transport" where
  "transport_stop tr = pipe_disconnect tr"

definition transport_is_running :: "transport \<Rightarrow> bool" where
  "transport_is_running tr = tr_running tr"

definition transport_set_stop_callback :: "nat \<Rightarrow> transport \<Rightarrow> transport" where
  "transport_set_stop_callback cb tr =
     (if tr_running tr then tr\<lparr>tr_stop_callbacks := tr_stop_callbacks tr @ [cb]\<rparr>
      else tr\<lparr>tr_executed := tr_executed tr @ [cb]\<rparr>)"


section \<open>The connection\<close>

datatype conn_state = Never_started | Started | Deactivated

record request_data =
  rd_promise :: promise_id
  rd_timer_id :: timer_id
  rd_is_req_sent :: bool
  rd_fail_req_result :: "request_result option"

type_synonym request_map = "(uint64 \<times> request_data) list"

record connection =
  c_state :: conn_state
  c_recv_timeout :: nat
  c_has_service :: bool
  c_request_map :: request_map
  c_multiple_timer :: "uint64 multiple_timer"
  c_watcher_timer :: "unit periodic_timer"
  c_transport :: transport
  c_watcher :: connection_watcher
  c_sends :: "uint64 list"
  c_served :: "bytes list"

definition connection_init :: "bool \<Rightarrow> nat \<Rightarrow> nat \<Rightarrow> connection" where
  "connection_init has_service recv_ms ping_ms =
     \<lparr>c_state = Never_started, c_recv_timeout = recv_ms, c_has_service = has_service,
      c_request_map = [], c_multiple_timer = multiple_timer_init,
      c_watcher_timer = periodic_timer_init, c_transport = transport_init,
      c_watcher = connection_watcher_init ping_ms, c_sends = [], c_served = []\<rparr>"

text \<open>The result of a request: its code and response, or the exception of a dropped promise.\<close>

datatype conn_result = Completed request_result "bytes option" | Broken_promise

type_synonym conn_res = "connection \<times> conn_result completion list"

definition map_erase :: "uint64 \<Rightarrow> request_map \<Rightarrow> request_map" where
  "map_erase n m = filter (\<lambda>(k, d). k \<noteq> n) m"

definition send_message :: "bytes \<Rightarrow> connection \<Rightarrow> connection" where
  "send_message msg c = c\<lparr>c_transport := transport_send_async msg (c_transport c)\<rparr>"

definition total_periods :: nat where
  "total_periods = 2 ^ 64 - 1"

definition start_watching :: "connection \<Rightarrow> connection or_exn" where
  "start_watching c =
     map_sum id (\<lambda>t. c\<lparr>c_watcher_timer := t\<rparr>) (periodic_timer_start total_periods (c_watcher_timer c))"

definition do_receive_async :: "connection \<Rightarrow> connection" where
  "do_receive_async c = c\<lparr>c_transport := transport_recv_async (c_transport c)\<rparr>"

definition conn_start :: "connection \<Rightarrow> connection or_exn" where
  "conn_start c =
     (if c_state c = Never_started
      then map_sum id do_receive_async (start_watching (c\<lparr>c_state := Started\<rparr>))
      else Inr c)"

definition conn_deactivate :: "connection \<Rightarrow> connection" where
  "conn_deactivate c = c\<lparr>c_state := Deactivated, c_transport := transport_stop (c_transport c)\<rparr>"

definition conn_is_active :: "connection \<Rightarrow> bool" where
  "conn_is_active c = (c_state c = Started \<and> transport_is_running (c_transport c))"

definition get_pending_requests_count :: "connection \<Rightarrow> nat" where
  "get_pending_requests_count c = length (c_request_map c)"

text \<open>
  \<open>add_request_to_map\<close>: the timer is started first; \<open>emplace\<close> drops the new entry, and with it
  the promise, when the number is in use.
\<close>

definition add_request_to_map :: "time_point \<Rightarrow> uint64 \<Rightarrow> promise_id \<Rightarrow> connection \<Rightarrow> conn_res" where
  "add_request_to_map now msg_number p c =
     (let (timer_id, t) = multiple_timer_start now msg_number (c_recv_timeout c) (c_multiple_timer c);
          c = c\<lparr>c_multiple_timer := t\<rparr>
      in if msg_number \<in> fst ` set (c_request_map c) then (c, [(p, Broken_promise)])
         else (c\<lparr>c_request_map := c_request_map c @
                  [(msg_number, \<lparr>rd_promise = p, rd_timer_id = timer_id, rd_is_req_sent = False,
                                 rd_fail_req_result = None\<rparr>)]\<rparr>, []))"

definition request_async :: "time_point \<Rightarrow> promise_id \<Rightarrow> bytes \<Rightarrow> connection \<Rightarrow> conn_res or_exn" where
  "request_async now p message c =
     (if c_state c \<noteq> Started \<or> \<not> transport_is_running (c_transport c)
      then Inr (c, [(p, Completed Rq_failed None)])
      else
        case get_msg_number_req (Some message) of
          Inl e \<Rightarrow> Inl e
        | Inr msg_number \<Rightarrow>
            let (c, os) = add_request_to_map now msg_number p c;
                c = send_message message c
            in Inr (c\<lparr>c_sends := c_sends c @ [msg_number]\<rparr>, os))"

definition complete_request ::
  "uint64 \<Rightarrow> request_result \<Rightarrow> bytes option \<Rightarrow> connection \<Rightarrow> conn_res"
where
  "complete_request req_msg_number result res_msg c =
     (case map_of (c_request_map c) req_msg_number of
        None \<Rightarrow> (c, [])
      | Some d \<Rightarrow>
          (c\<lparr>c_multiple_timer := multiple_timer_cancel (rd_timer_id d) (c_multiple_timer c),
             c_request_map := map_erase req_msg_number (c_request_map c)\<rparr>,
           [(rd_promise d, Completed result res_msg)]))"

definition mark_sent :: "uint64 \<Rightarrow> request_map \<Rightarrow> request_map" where
  "mark_sent n m =
     map (\<lambda>(k, d). if k = n then (k, d\<lparr>rd_is_req_sent := True\<rparr>) else (k, d)) m"

definition process_request_sent :: "uint64 \<Rightarrow> connection \<Rightarrow> conn_res" where
  "process_request_sent req_msg_number c =
     (case map_of (c_request_map c) req_msg_number of
        None \<Rightarrow> (c, [])
      | Some d \<Rightarrow>
          (case rd_fail_req_result d of
             None \<Rightarrow>
               (c\<lparr>c_request_map := mark_sent req_msg_number (c_request_map c)\<rparr>, [])
           | Some result \<Rightarrow>
               (c\<lparr>c_request_map := map_erase req_msg_number (c_request_map c)\<rparr>,
                [(rd_promise d, Completed result None)])))"

text \<open>The callback of the send of a request.\<close>

definition send_callback :: "uint64 \<Rightarrow> pipe_op_res \<Rightarrow> connection \<Rightarrow> conn_res" where
  "send_callback msg_number result c =
     (case result of
        Op_success \<Rightarrow> process_request_sent msg_number c
      | Op_canceled \<Rightarrow> complete_request msg_number Rq_send_canceled None c
      | Op_timeout \<Rightarrow> complete_request msg_number Rq_send_timeout None c
      | Op_failed \<Rightarrow> complete_request msg_number Rq_send_failed None c)"

definition handle_received_request :: "bytes \<Rightarrow> connection \<Rightarrow> connection" where
  "handle_received_request message c =
     (if \<not> c_has_service c then c else c\<lparr>c_served := c_served c @ [message]\<rparr>)"

definition handle_received_response :: "bytes \<Rightarrow> connection \<Rightarrow> conn_res or_exn" where
  "handle_received_response message c =
     (case get_msg_number_res (Some message) of
        Inl e \<Rightarrow> Inl e
      | Inr message_number \<Rightarrow> Inr (complete_request message_number Rq_ok (Some message) c))"

text \<open>
  The byte of a ping or pong is written over whatever the allocated memory holds, so any memory
  of the right size gives the same message.
\<close>

definition ping_message :: bytes where
  "ping_message = create_transfer_msg_ping (\<lambda>n. replicate n 0)"

definition pong_message :: bytes where
  "pong_message = create_transfer_msg_pong (\<lambda>n. replicate n 0)"

definition handle_received_ping :: "connection \<Rightarrow> connection" where
  "handle_received_ping c = send_message pong_message c"

definition handle_message :: "transfer_msg_type \<Rightarrow> bytes \<Rightarrow> connection \<Rightarrow> conn_res or_exn" where
  "handle_message type message c =
     (case type of
        Msg_req \<Rightarrow> Inr (handle_received_request message c, [])
      | Msg_res \<Rightarrow> handle_received_response message c
      | Msg_ping \<Rightarrow> Inr (handle_received_ping c, [])
      | Msg_pong \<Rightarrow> Inr (c, [])
      | Msg_other b \<Rightarrow> Inr (c, []))"

text \<open>Exceptions of the handlers are swallowed, and then the activity flag is not set.\<close>

definition dispatch_receive_event :: "bytes option \<Rightarrow> connection \<Rightarrow> conn_res" where
  "dispatch_receive_event message c =
     (case get_transfer_msg_type message of
        Inl e \<Rightarrow> (c, [])
      | Inr type \<Rightarrow>
          (case handle_message type (the message) c of
             Inl e \<Rightarrow> (c, [])
           | Inr (c', os) \<Rightarrow> (c'\<lparr>c_watcher := set_activity_flag (c_watcher c')\<rparr>, os)))"

definition process_watch_event :: "time_point \<Rightarrow> connection \<Rightarrow> connection" where
  "process_watch_event now c =
     (if is_connection_not_responding now (c_watcher c) then conn_deactivate c
      else
        let (active, w) = check_and_drop_activity_flag (c_watcher c);
            c = c\<lparr>c_watcher := w\<rparr>
        in if active then c
           else let c = send_message ping_message c
                in c\<lparr>c_watcher := set_ping_waiting now (c_watcher c)\<rparr>)"

text \<open>The loop of \<open>complete_receive_routine\<close> over the request map.\<close>

fun complete_loop ::
  "request_result \<Rightarrow> request_map \<Rightarrow> uint64 multiple_timer \<Rightarrow>
   request_map \<times> uint64 multiple_timer \<times> conn_result completion list"
where
  "complete_loop r [] t = ([], t, [])"
| "complete_loop r ((n, d) # m) t =
     (let (m', t', os) = complete_loop r m (multiple_timer_cancel (rd_timer_id d) t)
      in if rd_is_req_sent d then (m', t', (rd_promise d, Completed r None) # os)
         else ((n, d\<lparr>rd_fail_req_result := Some r\<rparr>) # m', t', os))"

definition complete_receive_routine :: "pipe_op_res \<Rightarrow> connection \<Rightarrow> conn_res" where
  "complete_receive_routine r c =
     (let wt = fst (stop_async None (c_watcher_timer c));
          req_result = (if r = Op_canceled then Rq_canceled else Rq_failed);
          (m, t, os) = complete_loop req_result (c_request_map c) (c_multiple_timer c)
      in (c\<lparr>c_watcher_timer := wt, c_request_map := m, c_multiple_timer := t\<rparr>, os))"

text \<open>The continuation of a read.\<close>

definition recv_callback :: "pipe_op_res \<Rightarrow> bytes option \<Rightarrow> connection \<Rightarrow> conn_res" where
  "recv_callback result message c =
     (if result = Op_success
      then let (c, os) = dispatch_receive_event message c in (do_receive_async c, os)
      else complete_receive_routine result c)"

datatype conn_event =
    Conn_start
  | Conn_deactivate
  | Conn_request time_point promise_id bytes
  | Conn_set_stop_callback nat
  | Conn_sent uint64 pipe_op_res
  | Conn_received pipe_op_res "bytes option"
  | Conn_service_done bytes bytes
  | Conn_timer_expire time_point timer_id
  | Conn_timer_handler timer_id
  | Conn_watch_expire
  | Conn_watch_handler time_point
  | Conn_watch_done
  | Conn_lost

definition conn_timer_handler :: "timer_id \<Rightarrow> connection \<Rightarrow> conn_res" where
  "conn_timer_handler i c =
     (let (t, cb) = multiple_timer_handler i (c_multiple_timer c); c = c\<lparr>c_multiple_timer := t\<rparr>
      in case cb of None \<Rightarrow> (c, []) | Some msg_number \<Rightarrow> complete_request msg_number Rq_timeout None c)"

text \<open>The handler of the watcher timer runs the watch callback when the period has expired.\<close>

definition conn_watch_handler :: "time_point \<Rightarrow> connection \<Rightarrow> connection" where
  "conn_watch_handler now c =
     (let (t, os) = period_handler (c_watcher_timer c); c = c\<lparr>c_watcher_timer := t\<rparr>
      in if Period_callback \<in> set os then process_watch_event now c else c)"

definition conn_recv :: "pipe_op_res \<Rightarrow> bytes option \<Rightarrow> connection \<Rightarrow> conn_res" where
  "conn_recv r message c =
     (if tr_reads (c_transport c) = 0 then (c, [])
      else recv_callback r message
        (c\<lparr>c_transport := (c_transport c)\<lparr>tr_reads := tr_reads (c_transport c) - 1\<rparr>\<rparr>))"

fun conn_step :: "connection \<Rightarrow> conn_event \<Rightarrow> conn_res" where
  "conn_step c Conn_start = (case conn_start c of Inl e \<Rightarrow> (c, []) | Inr c' \<Rightarrow> (c', []))"
| "conn_step c Conn_deactivate = (conn_deactivate c, [])"
| "conn_step c (Conn_request now p msg) =
     (case request_async now p msg c of Inl e \<Rightarrow> (c, []) | Inr res \<Rightarrow> res)"
| "conn_step c (Conn_set_stop_callback cb) =
     (c\<lparr>c_transport := transport_set_stop_callback cb (c_transport c)\<rparr>, [])"
| "conn_step c (Conn_sent n r) =
     (if n \<in> set (c_sends c) then send_callback n r (c\<lparr>c_sends := remove1 n (c_sends c)\<rparr>) else (c, []))"
| "conn_step c (Conn_received r message) = conn_recv r message c"
| "conn_step c (Conn_service_done req res) =
     (if req \<in> set (c_served c) then (send_message res (c\<lparr>c_served := remove1 req (c_served c)\<rparr>), [])
      else (c, []))"
| "conn_step c (Conn_timer_expire now i) =
     (c\<lparr>c_multiple_timer := multiple_timer_expire now i (c_multiple_timer c)\<rparr>, [])"
| "conn_step c (Conn_timer_handler i) = conn_timer_handler i c"
| "conn_step c Conn_watch_expire = (c\<lparr>c_watcher_timer := period_expire (c_watcher_timer c)\<rparr>, [])"
| "conn_step c (Conn_watch_handler now) = (conn_watch_handler now c, [])"
| "conn_step c Conn_watch_done =
     (c\<lparr>c_watcher_timer := fst (period_callback_done Continue (c_watcher_timer c))\<rparr>, [])"
| "conn_step c Conn_lost = (c\<lparr>c_transport := pipe_disconnect (c_transport c)\<rparr>, [])"


section \<open>The request map\<close>

text \<open>The timer of a request that can still complete it.\<close>

definition live_timer :: "uint64 multiple_timer \<Rightarrow> timer_id \<Rightarrow> uint64 \<Rightarrow> bool" where
  "live_timer t i n \<longleftrightarrow>
     (\<exists>e. m_timers_map t i = Some e \<and> te_state e \<noteq> Aborted \<and> te_callback e = n)"

text \<open>
  A pending request waits for its send, or for its timer.  After the receive routine has
  ended it waits for its send alone.
\<close>

definition entry_ok :: "uint64 list \<Rightarrow> uint64 multiple_timer \<Rightarrow> uint64 \<times> request_data \<Rightarrow> bool" where
  "entry_ok sends t x \<longleftrightarrow>
     (\<not> rd_is_req_sent (snd x) \<longrightarrow> fst x \<in> set sends) \<and>
     (rd_is_req_sent (snd x) \<longrightarrow> rd_fail_req_result (snd x) = None) \<and>
     rd_timer_id (snd x) < m_next_id t \<and>
     (rd_fail_req_result (snd x) = None \<longrightarrow> live_timer t (rd_timer_id (snd x)) (fst x))"

definition map_ok :: "request_map \<Rightarrow> uint64 list \<Rightarrow> uint64 multiple_timer \<Rightarrow> bool" where
  "map_ok m sends t \<longleftrightarrow>
     distinct (map fst m) \<and> distinct (map (rd_timer_id \<circ> snd) m) \<and> timer_inv t \<and>
     (\<forall>x \<in> set m. entry_ok sends t x)"

definition requests_ok :: "connection \<Rightarrow> bool" where
  "requests_ok c \<longleftrightarrow> map_ok (c_request_map c) (c_sends c) (c_multiple_timer c)"

definition reading_ok :: "connection \<Rightarrow> bool" where
  "reading_ok c \<longleftrightarrow> tr_reads (c_transport c) \<le> 1 \<and>
     (c_state c = Never_started \<longrightarrow>
        tr_reads (c_transport c) = 0 \<and> c_watcher_timer c = periodic_timer_init \<and> c_request_map c = [])"

definition conn_inv :: "connection \<Rightarrow> bool" where
  "conn_inv c \<longleftrightarrow> requests_ok c \<and> reading_ok c"

definition conn_pending :: "connection \<Rightarrow> promise_id multiset" where
  "conn_pending c = mset (map (rd_promise \<circ> snd) (c_request_map c))"

fun conn_opened :: "connection \<Rightarrow> conn_event \<Rightarrow> promise_id multiset" where
  "conn_opened c (Conn_request now p msg) =
     (case request_async now p msg c of Inl e \<Rightarrow> {#} | Inr res \<Rightarrow> {#p#})"
| "conn_opened c e = {#}"

lemma live_timer_start:
  assumes "timer_inv t" "i < m_next_id t" "live_timer t i n"
  shows "live_timer (snd (multiple_timer_start now k timeout t)) i n"
  using assms by (auto simp: live_timer_def multiple_timer_start_def Let_def)

lemma live_timer_cancel_other:
  "live_timer t i n \<Longrightarrow> i \<noteq> j \<Longrightarrow> live_timer (multiple_timer_cancel j t) i n"
  by (auto simp: live_timer_def multiple_timer_cancel_def split: option.split)

lemma live_timer_expire: "live_timer t i n \<Longrightarrow> live_timer (multiple_timer_expire now j t) i n"
  by (auto simp: live_timer_def multiple_timer_expire_def split: option.split)

text \<open>A handler takes away a live timer only by running its callback.\<close>

lemma live_timer_handler:
  assumes "live_timer t i n"
  shows "live_timer (fst (multiple_timer_handler j t)) i n \<or> snd (multiple_timer_handler j t) = Some n"
  using assms by (auto simp: live_timer_def multiple_timer_handler_def split: option.split wait_state.split)

lemma timer_inv_ops:
  assumes "timer_inv t"
  shows "timer_inv (snd (multiple_timer_start now k timeout t))" "timer_inv (multiple_timer_cancel i t)"
    "timer_inv (multiple_timer_expire now i t)" "timer_inv (fst (multiple_timer_handler i t))"
  using assms timer_inv_step [of t "Timer_start now k timeout"] timer_inv_step [of t "Timer_cancel i"]
    timer_inv_step [of t "Timer_expire now i"] timer_inv_step [of t "Timer_handler i"]
  by (simp_all add: case_prod_beta split: option.splits prod.splits)

lemma next_id_ops [simp]:
  "m_next_id (multiple_timer_cancel i t) = m_next_id t"
  "m_next_id (multiple_timer_expire now i t) = m_next_id t"
  "m_next_id (fst (multiple_timer_handler i t)) = m_next_id t"
  "m_next_id (snd (multiple_timer_start now k timeout t)) = Suc (m_next_id t)"
  by (simp_all add: multiple_timer_cancel_def multiple_timer_expire_def multiple_timer_handler_def
      multiple_timer_start_def Let_def split: option.split wait_state.split)

lemma map_erase_mset:
  "distinct (map fst m) \<Longrightarrow> map_of m n = Some d \<Longrightarrow>
   mset (map f m) = add_mset (f (n, d)) (mset (map f (map_erase n m)))"
proof (induction m)
  case Nil
  then show ?case by simp
next
  case (Cons x m)
  show ?case
  proof (cases "fst x = n")
    case True
    then have "\<forall>y \<in> set m. fst y \<noteq> n" using Cons.prems(1) by (metis distinct.simps(2) imageI list.set_map list.simps(9))
    then have "map_erase n m = m" by (auto simp: map_erase_def filter_id_conv)
    then show ?thesis using True Cons.prems(2) by (cases x) (auto simp: map_erase_def)
  next
    case False
    then show ?thesis using Cons by (cases x) (auto simp: map_erase_def)
  qed
qed

lemma map_erase_set: "x \<in> set (map_erase n m) \<longleftrightarrow> x \<in> set m \<and> fst x \<noteq> n"
  by (auto simp: map_erase_def)

lemma map_erase_distinct: "distinct (map f m) \<Longrightarrow> distinct (map f (map_erase n m))"
  by (auto simp: map_erase_def distinct_map inj_on_def)

text \<open>The invariant while the request numbered \<open>n\<close> is being dealt with.\<close>

definition map_ok_but :: "uint64 \<Rightarrow> request_map \<Rightarrow> uint64 list \<Rightarrow> uint64 multiple_timer \<Rightarrow> bool" where
  "map_ok_but n m sends t \<longleftrightarrow>
     distinct (map fst m) \<and> distinct (map (rd_timer_id \<circ> snd) m) \<and> timer_inv t \<and>
     (\<forall>x \<in> set m. fst x \<noteq> n \<longrightarrow> entry_ok sends t x)"

lemma map_ok_but_sent: "map_ok m sends t \<Longrightarrow> map_ok_but n m (remove1 n sends) t"
  by (auto simp: map_ok_def map_ok_but_def entry_ok_def)

lemma map_ok_but_all: "map_ok m sends t \<Longrightarrow> map_ok_but n m sends t"
  by (auto simp: map_ok_def map_ok_but_def)

lemma map_ok_but_erase:
  assumes "map_ok_but n m sends t" "map_of m n = Some d"
  shows "map_ok (map_erase n m) sends t"
    and "map_ok (map_erase n m) sends (multiple_timer_cancel (rd_timer_id d) t)"
proof -
  have d: "(n, d) \<in> set m" using assms(2) by (rule map_of_SomeD)
  have inj: "x = (n, d)" if "x \<in> set m" "rd_timer_id (snd x) = rd_timer_id d" for x
    using assms(1) d that inj_onD [of "rd_timer_id \<circ> snd" "set m" x "(n, d)"]
    by (simp add: map_ok_but_def distinct_map)
  show "map_ok (map_erase n m) sends t"
    using assms(1) by (auto simp: map_ok_def map_ok_but_def map_erase_set map_erase_distinct)
  have "entry_ok sends (multiple_timer_cancel (rd_timer_id d) t) x" if "x \<in> set (map_erase n m)" for x
  proof -
    have "entry_ok sends t x" "rd_timer_id (snd x) \<noteq> rd_timer_id d"
      using that assms(1) inj [of x] by (auto simp: map_ok_but_def map_erase_set)
    then show ?thesis by (auto simp: entry_ok_def live_timer_cancel_other)
  qed
  then show "map_ok (map_erase n m) sends (multiple_timer_cancel (rd_timer_id d) t)"
    using assms(1) by (auto simp: map_ok_def map_ok_but_def map_erase_distinct timer_inv_ops)
qed

lemma map_ok_but_absent:
  "map_ok_but n m sends t \<Longrightarrow> map_of m n = None \<Longrightarrow> map_ok m sends t"
  by (auto simp: map_ok_def map_ok_but_def map_of_eq_None_iff image_iff)

lemma complete_request_ok:
  assumes "map_ok_but n (c_request_map c) (c_sends c) (c_multiple_timer c)"
  shows "requests_ok (fst (complete_request n r b c)) \<and>
    conn_pending (fst (complete_request n r b c)) + mset (map fst (snd (complete_request n r b c))) =
      conn_pending c"
proof (cases "map_of (c_request_map c) n")
  case None
  then show ?thesis
    using map_ok_but_absent [OF assms] by (simp add: complete_request_def requests_ok_def)
next
  case (Some d)
  have "distinct (map fst (c_request_map c))" using assms by (simp add: map_ok_but_def)
  from map_erase_mset [OF this Some, of "rd_promise \<circ> snd"] map_ok_but_erase(2) [OF assms Some] Some
  show ?thesis by (simp add: complete_request_def requests_ok_def conn_pending_def)
qed

lemma mark_sent_simps [simp]:
  "map fst (mark_sent n m) = map fst m"
  "map (rd_promise \<circ> snd) (mark_sent n m) = map (rd_promise \<circ> snd) m"
  "map (rd_timer_id \<circ> snd) (mark_sent n m) = map (rd_timer_id \<circ> snd) m"
  by (induction m) (auto simp: mark_sent_def)

lemma mark_sent_set:
  "y \<in> set (mark_sent n m) \<longleftrightarrow>
   (\<exists>x \<in> set m. y = (if fst x = n then (n, (snd x)\<lparr>rd_is_req_sent := True\<rparr>) else x))"
  by (force simp: mark_sent_def image_iff)

lemma process_request_sent_ok:
  assumes "map_ok_but n (c_request_map c) (c_sends c) (c_multiple_timer c)"
    and "\<forall>d. map_of (c_request_map c) n = Some d \<longrightarrow> rd_fail_req_result d = None \<longrightarrow>
      rd_timer_id d < m_next_id (c_multiple_timer c) \<and> live_timer (c_multiple_timer c) (rd_timer_id d) n"
  shows "requests_ok (fst (process_request_sent n c)) \<and>
    conn_pending (fst (process_request_sent n c)) + mset (map fst (snd (process_request_sent n c))) =
      conn_pending c"
proof (cases "map_of (c_request_map c) n")
  case None
  then show ?thesis
    using map_ok_but_absent [OF assms(1)] by (simp add: process_request_sent_def requests_ok_def)
next
  case (Some d)
  have dist: "distinct (map fst (c_request_map c))" using assms(1) by (simp add: map_ok_but_def)
  show ?thesis
  proof (cases "rd_fail_req_result d")
    case None
    have "entry_ok (c_sends c) (c_multiple_timer c) y" if y: "y \<in> set (mark_sent n (c_request_map c))" for y
    proof -
      obtain x where x: "x \<in> set (c_request_map c)"
          "y = (if fst x = n then (n, (snd x)\<lparr>rd_is_req_sent := True\<rparr>) else x)"
        using y unfolding mark_sent_set by blast
      show ?thesis
      proof (cases "fst x = n")
        case True
        then have "snd x = d" using x(1) dist Some by (metis map_of_eq_Some_iff prod.collapse option.inject)
        then show ?thesis using True None Some assms(2) x(2) by (simp add: entry_ok_def)
      next
        case False
        then show ?thesis using assms(1) x by (simp add: map_ok_but_def)
      qed
    qed
    then show ?thesis
      using None Some assms(1)
      by (simp add: process_request_sent_def requests_ok_def map_ok_def map_ok_but_def conn_pending_def)
  next
    case (Some r)
    then show ?thesis
      using \<open>map_of (c_request_map c) n = Some d\<close> map_ok_but_erase(1) [OF assms(1)]
        map_erase_mset [OF dist, of n d "rd_promise \<circ> snd"]
      by (simp add: process_request_sent_def requests_ok_def conn_pending_def)
  qed
qed

text \<open>The end of the receive routine, in closed form.\<close>

lemma complete_loop_map:
  "fst (complete_loop r m t) =
     map (\<lambda>x. (fst x, (snd x)\<lparr>rd_fail_req_result := Some r\<rparr>)) (filter (\<lambda>x. \<not> rd_is_req_sent (snd x)) m)"
  by (induction r m t rule: complete_loop.induct) (simp_all add: case_prod_beta)

lemma complete_loop_output:
  "snd (snd (complete_loop r m t)) =
     map (\<lambda>x. (rd_promise (snd x), Completed r None)) (filter (\<lambda>x. rd_is_req_sent (snd x)) m)"
  by (induction r m t rule: complete_loop.induct) (simp_all add: case_prod_beta)

lemma complete_loop_timer:
  "m_next_id (fst (snd (complete_loop r m t))) = m_next_id t"
  "timer_inv t \<Longrightarrow> timer_inv (fst (snd (complete_loop r m t)))"
  by (induction r m t rule: complete_loop.induct) (simp_all add: case_prod_beta timer_inv_ops)

lemma complete_loop_ok:
  assumes "map_ok m sends t"
  shows "map_ok (fst (complete_loop r m t)) sends (fst (snd (complete_loop r m t)))"
proof -
  have "distinct (map fst m)" "distinct (map (rd_timer_id \<circ> snd) m)" using assms by (simp_all add: map_ok_def)
  then have "distinct (map fst (fst (complete_loop r m t)))"
    "distinct (map (rd_timer_id \<circ> snd) (fst (complete_loop r m t)))"
    by (simp_all add: complete_loop_map comp_def distinct_map_filter)
  then show ?thesis
    using assms by (auto simp: map_ok_def complete_loop_timer complete_loop_map entry_ok_def)
qed

lemma complete_receive_routine_ok:
  assumes "requests_ok c"
  shows "requests_ok (fst (complete_receive_routine r c)) \<and>
    conn_pending (fst (complete_receive_routine r c)) +
      mset (map fst (snd (complete_receive_routine r c))) = conn_pending c"
proof -
  have "mset (map (rd_promise \<circ> snd) (filter (\<lambda>x. \<not> rd_is_req_sent (snd x)) m)) +
      mset (map (rd_promise \<circ> snd) (filter (\<lambda>x. rd_is_req_sent (snd x)) m)) =
      mset (map (rd_promise \<circ> snd) m)" for m :: request_map
    by (rule mset_map_filter_split)
  then show ?thesis
    using assms complete_loop_ok
    by (simp add: complete_receive_routine_def requests_ok_def Let_def case_prod_beta conn_pending_def
        complete_loop_map complete_loop_output comp_def)
qed

lemma timer_handler_map_ok:
  assumes "map_ok m sends t" "multiple_timer_handler j t = (t', cb)"
  shows "case cb of None \<Rightarrow> map_ok m sends t' | Some n \<Rightarrow> map_ok_but n m sends t'"
proof -
  have t': "timer_inv t'" "m_next_id t' = m_next_id t"
    using assms timer_inv_ops(4) [of t j] next_id_ops(3) [of j t] by (simp_all add: map_ok_def)
  have "live_timer t' i n \<or> cb = Some n" if "live_timer t i n" for i n
    using live_timer_handler [OF that, of j] assms(2) by simp
  then show ?thesis
    using assms(1) t' by (auto simp: map_ok_def map_ok_but_def entry_ok_def split: option.split)
qed

lemma conn_timer_handler_ok:
  assumes "requests_ok c"
  shows "requests_ok (fst (conn_timer_handler i c)) \<and>
    conn_pending (fst (conn_timer_handler i c)) + mset (map fst (snd (conn_timer_handler i c))) =
      conn_pending c"
proof -
  obtain t cb where h: "multiple_timer_handler i (c_multiple_timer c) = (t, cb)" by fastforce
  let ?c = "c\<lparr>c_multiple_timer := t\<rparr>"
  have ok: "case cb of None \<Rightarrow> map_ok (c_request_map c) (c_sends c) t
      | Some n \<Rightarrow> map_ok_but n (c_request_map c) (c_sends c) t"
    using timer_handler_map_ok [OF _ h] assms by (simp add: requests_ok_def)
  show ?thesis
  proof (cases cb)
    case None
    then show ?thesis using h ok by (simp add: conn_timer_handler_def requests_ok_def conn_pending_def)
  next
    case (Some n)
    then have "map_ok_but n (c_request_map ?c) (c_sends ?c) (c_multiple_timer ?c)" using ok by simp
    from complete_request_ok [OF this, of Rq_timeout None] show ?thesis
      using h Some by (simp add: conn_timer_handler_def conn_pending_def)
  qed
qed

lemma send_callback_ok:
  assumes "requests_ok c" "n \<in> set (c_sends c)"
  defines "c' \<equiv> c\<lparr>c_sends := remove1 n (c_sends c)\<rparr>"
  shows "requests_ok (fst (send_callback n r c')) \<and>
    conn_pending (fst (send_callback n r c')) + mset (map fst (snd (send_callback n r c'))) =
      conn_pending c"
proof -
  have but: "map_ok_but n (c_request_map c') (c_sends c') (c_multiple_timer c')"
    using map_ok_but_sent assms(1) by (simp add: requests_ok_def c'_def)
  have "\<forall>d. map_of (c_request_map c') n = Some d \<longrightarrow> rd_fail_req_result d = None \<longrightarrow>
      rd_timer_id d < m_next_id (c_multiple_timer c') \<and> live_timer (c_multiple_timer c') (rd_timer_id d) n"
    using assms(1) by (auto simp: requests_ok_def map_ok_def entry_ok_def c'_def dest!: map_of_SomeD)
  from process_request_sent_ok [OF but this] complete_request_ok [OF but]
  show ?thesis by (cases r) (simp_all add: send_callback_def conn_pending_def c'_def)
qed


section \<open>Every step keeps the invariant\<close>

text \<open>What a step owes to the request map; \<open>new\<close> are the promises it opens.\<close>

definition conn_good :: "connection \<Rightarrow> promise_id multiset \<Rightarrow> conn_res \<Rightarrow> bool" where
  "conn_good c new res \<longleftrightarrow>
     requests_ok (fst res) \<and>
     conn_pending (fst res) + mset (map fst (snd res)) = conn_pending c + new"

definition same_requests :: "connection \<Rightarrow> connection \<Rightarrow> bool" where
  "same_requests c c' \<longleftrightarrow>
     c_request_map c' = c_request_map c \<and> c_sends c' = c_sends c \<and>
     c_multiple_timer c' = c_multiple_timer c"

lemma same_requests_good: "same_requests c c' \<Longrightarrow> requests_ok c \<Longrightarrow> conn_good c {#} (c', [])"
  by (simp add: same_requests_def conn_good_def requests_ok_def conn_pending_def)

lemma conn_good_from: "conn_good c' new res \<Longrightarrow> same_requests c c' \<Longrightarrow> conn_good c new res"
  by (simp add: same_requests_def conn_good_def conn_pending_def)

lemma conn_good_to: "conn_good c new (c', os) \<Longrightarrow> same_requests c' c'' \<Longrightarrow> conn_good c new (c'', os)"
  by (simp add: same_requests_def conn_good_def conn_pending_def requests_ok_def)

lemma same_requests_simps [simp]:
  "same_requests c c" "same_requests c (send_message msg c)" "same_requests c (conn_deactivate c)"
  "same_requests c (c\<lparr>c_transport := tr\<rparr>)" "same_requests c (c\<lparr>c_watcher := w\<rparr>)"
  "same_requests c (c\<lparr>c_watcher_timer := wt\<rparr>)" "same_requests c (c\<lparr>c_served := sv\<rparr>)"
  "same_requests c (c\<lparr>c_state := st\<rparr>)" "same_requests c (do_receive_async c)"
  "same_requests c (handle_received_request msg c)" "same_requests c (handle_received_ping c)"
  by (simp_all add: same_requests_def send_message_def conn_deactivate_def do_receive_async_def
      handle_received_request_def handle_received_ping_def)

lemma same_requests_trans: "same_requests a b \<Longrightarrow> same_requests b c \<Longrightarrow> same_requests a c"
  by (simp add: same_requests_def)

lemma same_requests_start: "conn_start c = Inr c' \<Longrightarrow> same_requests c c'"
  by (auto simp: conn_start_def start_watching_def periodic_timer_start_def same_requests_def
      do_receive_async_def split: if_splits)

lemma same_requests_watch: "same_requests c (conn_watch_handler now c)"
  by (simp add: conn_watch_handler_def process_watch_event_def Let_def case_prod_beta same_requests_def
      conn_deactivate_def send_message_def)

lemma request_async_good:
  assumes "requests_ok c" "request_async now p msg c = Inr res"
  shows "conn_good c {#p#} res"
proof (cases "c_state c \<noteq> Started \<or> \<not> transport_is_running (c_transport c)")
  case True
  then show ?thesis
    using assms by (auto simp: request_async_def conn_good_def)
next
  case False
  then obtain n where n: "get_msg_number_req (Some msg) = Inr n"
    using assms(2) by (auto simp: request_async_def split: sum.splits)
  let ?t = "snd (multiple_timer_start now n (c_recv_timeout c) (c_multiple_timer c))"
  let ?i = "m_next_id (c_multiple_timer c)"
  have ok: "map_ok (c_request_map c) (c_sends c) (c_multiple_timer c)" using assms(1) by (simp add: requests_ok_def)
  have inv: "timer_inv (c_multiple_timer c)" using ok by (simp add: map_ok_def)
  have old: "entry_ok (c_sends c @ [n]) ?t x" if "x \<in> set (c_request_map c)" for x
    using that ok live_timer_start [OF inv] by (auto simp: map_ok_def entry_ok_def)
  have fst: "fst (multiple_timer_start now n (c_recv_timeout c) (c_multiple_timer c)) = ?i"
    by (simp add: multiple_timer_start_def Let_def)
  have live: "live_timer ?t ?i n" by (simp add: live_timer_def multiple_timer_start_def Let_def)
  have ids: "?i \<notin> (rd_timer_id \<circ> snd) ` set (c_request_map c)"
    using ok by (force simp: map_ok_def entry_ok_def)
  have map: "map_ok (c_request_map c) (c_sends c @ [n]) ?t"
    using ok old timer_inv_ops(1) [OF inv] by (simp add: map_ok_def)
  let ?d = "\<lparr>rd_promise = p, rd_timer_id = ?i, rd_is_req_sent = False, rd_fail_req_result = None\<rparr>"
  have new: "map_ok (c_request_map c @ [(n, ?d)]) (c_sends c @ [n]) ?t"
    if "n \<notin> fst ` set (c_request_map c)"
    using map that ids live by (simp add: map_ok_def entry_ok_def)
  have res: "res = (let (c', os) = add_request_to_map now n p c
      in ((send_message msg c')\<lparr>c_sends := c_sends c' @ [n]\<rparr>, os))"
    using False n assms(2) by (simp add: request_async_def Let_def case_prod_beta send_message_def)
  show ?thesis
  proof (cases "n \<in> fst ` set (c_request_map c)")
    case True
    then show ?thesis
      using map fst unfolding res
      by (simp add: add_request_to_map_def Let_def case_prod_beta conn_good_def requests_ok_def
          conn_pending_def send_message_def)
  next
    case False
    then show ?thesis
      using new fst unfolding res
      by (simp add: add_request_to_map_def Let_def case_prod_beta conn_good_def requests_ok_def
          conn_pending_def send_message_def)
  qed
qed

lemma handle_message_good:
  assumes "requests_ok c" "handle_message ty msg c = Inr res"
  shows "conn_good c {#} res"
proof (cases ty)
  case Msg_res
  then obtain n where "res = complete_request n Rq_ok (Some msg) c"
    using assms(2) by (auto simp: handle_message_def handle_received_response_def split: sum.splits)
  then show ?thesis
    using complete_request_ok [of n c Rq_ok "Some msg"] map_ok_but_all assms(1)
    by (simp add: conn_good_def requests_ok_def)
qed (use assms in \<open>auto simp: handle_message_def intro: same_requests_good\<close>)

lemma dispatch_good:
  assumes "requests_ok c"
  shows "conn_good c {#} (dispatch_receive_event msg c)"
proof (cases "get_transfer_msg_type msg")
  case (Inl e)
  then show ?thesis using assms same_requests_good [of c c] by (simp add: dispatch_receive_event_def)
next
  case (Inr ty)
  show ?thesis
  proof (cases "handle_message ty (the msg) c")
    case (Inl e)
    then show ?thesis
      using Inr assms same_requests_good [of c c] by (simp add: dispatch_receive_event_def)
  next
    case (Inr res)
    obtain c' os where res: "res = (c', os)" by fastforce
    show ?thesis
      using \<open>get_transfer_msg_type msg = Inr ty\<close> Inr res handle_message_good [OF assms Inr]
      by (auto simp: dispatch_receive_event_def intro: conn_good_to)
  qed
qed

lemma conn_recv_good:
  assumes "requests_ok c"
  shows "conn_good c {#} (conn_recv r msg c)"
proof (cases "tr_reads (c_transport c) = 0")
  case True
  then show ?thesis using assms same_requests_good [of c c] by (simp add: conn_recv_def)
next
  case False
  let ?c = "c\<lparr>c_transport := (c_transport c)\<lparr>tr_reads := tr_reads (c_transport c) - 1\<rparr>\<rparr>"
  have ok: "requests_ok ?c" using assms by (simp add: requests_ok_def)
  obtain c' os where d: "dispatch_receive_event msg ?c = (c', os)" by fastforce
  have "conn_good ?c {#} (recv_callback r msg ?c)"
    using complete_receive_routine_ok [OF ok] dispatch_good [OF ok, of msg] d
    by (auto simp: recv_callback_def conn_good_def intro: conn_good_to [unfolded conn_good_def]
        simp: requests_ok_def conn_pending_def do_receive_async_def)
  then show ?thesis using False by (auto simp: conn_recv_def intro: conn_good_from)
qed

lemma conn_step_good:
  assumes "requests_ok c"
  shows "conn_good c (conn_opened c e) (conn_step c e)"
proof (cases e)
  case Conn_start
  then show ?thesis
    using same_requests_good [OF same_requests_start assms] same_requests_good [of c c, OF _ assms]
    by (simp split: sum.split)
next
  case (Conn_request now p msg)
  then show ?thesis
    using request_async_good [OF assms, of now p msg] same_requests_good [of c c, OF _ assms]
    by (simp split: sum.split)
next
  case (Conn_sent n r)
  then show ?thesis
    using send_callback_ok [OF assms, of n r] same_requests_good [of c c, OF _ assms]
    by (simp add: conn_good_def)
next
  case (Conn_received r msg)
  then show ?thesis using conn_recv_good [OF assms] by simp
next
  case (Conn_service_done req res)
  have "same_requests c (send_message res (c\<lparr>c_served := sv\<rparr>))" for sv
    by (rule same_requests_trans [of _ "c\<lparr>c_served := sv\<rparr>"]) simp_all
  then show ?thesis using Conn_service_done assms same_requests_good [OF _ assms] by simp
next
  case (Conn_timer_expire now i)
  then show ?thesis
    using assms by (auto simp: conn_good_def requests_ok_def map_ok_def entry_ok_def conn_pending_def
        timer_inv_ops live_timer_expire)
next
  case (Conn_timer_handler i)
  then show ?thesis using conn_timer_handler_ok [OF assms] by (simp add: conn_good_def)
next
  case (Conn_watch_handler now)
  then show ?thesis using same_requests_good [OF same_requests_watch assms] by simp
qed (use same_requests_good [OF _ assms] in simp_all)

text \<open>Completing requests touches neither the transport nor the watcher.\<close>

definition same_link :: "connection \<Rightarrow> connection \<Rightarrow> bool" where
  "same_link c c' \<longleftrightarrow>
     c_state c' = c_state c \<and> c_transport c' = c_transport c \<and>
     c_watcher_timer c' = c_watcher_timer c \<and> c_watcher c' = c_watcher c \<and>
     (c_request_map c = [] \<longrightarrow> c_request_map c' = [])"

lemma same_link_ops:
  "same_link c (fst (complete_request n r b c))" "same_link c (fst (process_request_sent n c))"
  "same_link c (fst (send_callback n q c))" "same_link c (fst (conn_timer_handler i c))"
proof -
  show "same_link c (fst (complete_request n r b c))" "same_link c (fst (process_request_sent n c))"
    by (auto simp: complete_request_def process_request_sent_def same_link_def map_erase_def mark_sent_def
        split: option.split)
  show "same_link c (fst (send_callback n q c))"
    by (cases q) (auto simp: send_callback_def complete_request_def process_request_sent_def same_link_def
        map_erase_def mark_sent_def split: option.split)
  show "same_link c (fst (conn_timer_handler i c))"
    by (auto simp: conn_timer_handler_def Let_def case_prod_beta complete_request_def same_link_def
        map_erase_def split: option.split)
qed

lemma same_link_reading: "same_link c c' \<Longrightarrow> reading_ok c \<Longrightarrow> reading_ok c'"
  by (simp add: same_link_def reading_ok_def)

lemma handle_message_link:
  assumes "handle_message ty msg c = Inr (c', os)"
  shows "c_state c' = c_state c \<and> tr_reads (c_transport c') = tr_reads (c_transport c) \<and>
    tr_running (c_transport c') = tr_running (c_transport c) \<and>
    tr_stop_callbacks (c_transport c') = tr_stop_callbacks (c_transport c) \<and>
    tr_executed (c_transport c') = tr_executed (c_transport c) \<and>
    c_watcher_timer c' = c_watcher_timer c \<and> c_watcher c' = c_watcher c"
  using assms same_link_ops(1) [of c _ Rq_ok "Some msg"]
  by (cases ty) (auto simp: handle_message_def handle_received_request_def handle_received_ping_def
      handle_received_response_def send_message_def transport_send_async_def same_link_def
      split: sum.splits if_splits; metis fst_conv)+

lemma dispatch_link:
  "c_state (fst (dispatch_receive_event msg c)) = c_state c \<and>
   tr_reads (c_transport (fst (dispatch_receive_event msg c))) = tr_reads (c_transport c) \<and>
   tr_running (c_transport (fst (dispatch_receive_event msg c))) = tr_running (c_transport c) \<and>
   tr_stop_callbacks (c_transport (fst (dispatch_receive_event msg c))) = tr_stop_callbacks (c_transport c) \<and>
   tr_executed (c_transport (fst (dispatch_receive_event msg c))) = tr_executed (c_transport c) \<and>
   c_watcher_timer (fst (dispatch_receive_event msg c)) = c_watcher_timer c"
  using handle_message_link [of _ "the msg" c]
  by (auto simp: dispatch_receive_event_def split: sum.split)

lemma reading_ok_recv: "reading_ok c \<Longrightarrow> reading_ok (fst (conn_recv r msg c))"
  using dispatch_link [of msg "c\<lparr>c_transport := (c_transport c)\<lparr>tr_reads := tr_reads (c_transport c) - 1\<rparr>\<rparr>"]
  by (auto simp: reading_ok_def conn_recv_def recv_callback_def case_prod_beta do_receive_async_def
      transport_recv_async_def complete_receive_routine_def Let_def)

lemma reading_ok_watch: "reading_ok c \<Longrightarrow> reading_ok (conn_watch_handler now c)"
  by (auto simp: reading_ok_def conn_watch_handler_def process_watch_event_def Let_def case_prod_beta
      conn_deactivate_def transport_stop_def pipe_disconnect_def send_message_def transport_send_async_def
      period_handler_def periodic_timer_init_def split: period_wait.split)

lemma reading_ok_request:
  "reading_ok c \<Longrightarrow> request_async now p msg c = Inr res \<Longrightarrow> reading_ok (fst res)"
  by (auto simp: reading_ok_def request_async_def add_request_to_map_def Let_def case_prod_beta
      send_message_def transport_send_async_def split: if_splits sum.splits)

lemma reading_ok_start: "reading_ok c \<Longrightarrow> conn_start c = Inr c' \<Longrightarrow> reading_ok c'"
  by (auto simp: reading_ok_def conn_start_def start_watching_def periodic_timer_start_def
      do_receive_async_def transport_recv_async_def split: if_splits)

lemma reading_ok_step:
  assumes "reading_ok c"
  shows "reading_ok (fst (conn_step c e))"
proof (cases e)
  case (Conn_sent n r)
  have "reading_ok (c\<lparr>c_sends := remove1 n (c_sends c)\<rparr>)" using assms by (simp add: reading_ok_def)
  then show ?thesis
    using Conn_sent assms same_link_reading [OF same_link_ops(3)] by simp
next
  case (Conn_timer_handler i)
  then show ?thesis using assms same_link_reading [OF same_link_ops(4)] by simp
next
  case Conn_start
  then show ?thesis using assms reading_ok_start [OF assms] by (simp split: sum.split)
next
  case (Conn_request now p msg)
  then show ?thesis using assms reading_ok_request [OF assms, of now p msg] by (simp split: sum.split)
next
  case (Conn_received r msg)
  then show ?thesis using reading_ok_recv [OF assms] by simp
next
  case (Conn_watch_handler now)
  then show ?thesis using reading_ok_watch [OF assms] by simp
next
  case Conn_watch_expire
  then show ?thesis using assms by (simp add: reading_ok_def period_expire_def periodic_timer_init_def)
next
  case Conn_watch_done
  then show ?thesis
    using assms by (simp add: reading_ok_def period_callback_done_def periodic_timer_init_def)
qed (use assms in \<open>simp_all add: reading_ok_def conn_deactivate_def transport_stop_def pipe_disconnect_def
      transport_set_stop_callback_def send_message_def transport_send_async_def\<close>)

lemma conn_inv_step: "conn_inv c \<Longrightarrow> conn_inv (fst (conn_step c e))"
  using conn_step_good [of c e] reading_ok_step [of c e] by (simp add: conn_inv_def conn_good_def)

lemma conn_conserve:
  "conn_inv c \<Longrightarrow>
   conn_pending (fst (conn_step c e)) + mset (map fst (snd (conn_step c e))) =
   conn_pending c + conn_opened c e"
  using conn_step_good [of c e] by (simp add: conn_inv_def conn_good_def)

interpretation cn: completion_system conn_step conn_inv conn_pending conn_opened
  by (unfold_locales, erule conn_inv_step, erule conn_conserve)

lemma conn_inv_init: "conn_inv (connection_init sv rt pt)"
  by (simp add: conn_inv_def requests_ok_def map_ok_def reading_ok_def connection_init_def
      transport_init_def timer_inv_init)


section \<open>Requests are completed exactly once\<close>

text \<open>
  C10: Whatever the interleaving of callers, send and receive completions, timers, watch events and
  loss of the pipe, the promise of each accepted request is completed exactly once or is still in
  the request map, and none is completed twice.
\<close>

theorem connection_exactly_once:
  fixes sv :: bool and rt pt :: nat and es :: "conn_event list"
  defines "c0 \<equiv> connection_init sv rt pt"
  assumes "\<And>p. count (run_opened conn_step conn_opened c0 es) p \<le> 1"
  shows "distinct (map fst (run_output conn_step c0 es)) \<and>
    mset (map fst (run_output conn_step c0 es)) + conn_pending (run_state conn_step c0 es) =
      run_opened conn_step conn_opened c0 es"
proof -
  have inv: "conn_inv c0" unfolding c0_def by (rule conn_inv_init)
  have "conn_pending c0 = {#}" by (simp add: c0_def conn_pending_def connection_init_def)
  then show ?thesis
    using cn.conserve_run [OF inv, of es] cn.completed_at_most_once [OF inv, of es] assms(2)
    by (simp add: add.commute)
qed

definition example_request :: bytes where
  "example_request = [0, 0, 0, 0, 0, 0, 0, 0, 0, 0, 0, 0, 7, 0, 0, 0, 1]"

definition example_response :: bytes where
  "example_response = [1, 0, 0, 0, 0, 0, 0, 0, 0, 0, 0, 0, 7, 0]"

definition connection_example :: "conn_event list" where
  "connection_example =
     [Conn_start, Conn_request 0 5 example_request, Conn_sent 7 Op_success,
      Conn_received Op_success (Some example_response), Conn_deactivate, Conn_timer_handler 0]"

lemma example_messages:
  "get_msg_number_req (Some example_request) = Inr 7"
  "get_transfer_msg_type (Some example_response) = Inr Msg_res"
  "get_msg_number_res (Some example_response) = Inr 7"
  by code_simp+

lemmas connection_example_simps =
  connection_example_def connection_init_def conn_start_def start_watching_def periodic_timer_start_def
  periodic_timer_init_def start_period_def do_receive_async_def transport_init_def transport_recv_async_def
  request_async_def transport_is_running_def example_messages add_request_to_map_def multiple_timer_start_def
  multiple_timer_init_def send_message_def transport_send_async_def send_callback_def
  process_request_sent_def mark_sent_def conn_recv_def recv_callback_def dispatch_receive_event_def
  handle_message_def handle_received_response_def complete_request_def multiple_timer_cancel_def
  abort_wait_def map_erase_def conn_deactivate_def transport_stop_def pipe_disconnect_def
  conn_timer_handler_def multiple_timer_handler_def Let_def

lemma connection_example_output:
  "run_output conn_step (connection_init True 10 10) connection_example =
     [(5, Completed Rq_ok (Some example_response))]"
  by (simp add: connection_example_simps)

theorem connection_exactly_once_witness:
  "distinct (map fst (run_output conn_step (connection_init True 10 10) connection_example))"
proof -
  have "run_opened conn_step conn_opened (connection_init True 10 10) connection_example = {#5#}"
    by (simp add: connection_example_simps)
  then show ?thesis using connection_exactly_once [of True 10 10 connection_example] by simp
qed

text \<open>
  C11: No request is forgotten.  When no send is outstanding and no timer is active, so that
  nothing is left that could complete a request, the request map is empty and every accepted
  request has been completed.
\<close>

theorem connection_no_request_forgotten:
  fixes sv :: bool and rt pt :: nat and es :: "conn_event list"
  defines "c0 \<equiv> connection_init sv rt pt"
  defines "c \<equiv> run_state conn_step c0 es"
  assumes "c_sends c = []" "get_active_timers_count (c_multiple_timer c) = 0"
  shows "c_request_map c = [] \<and>
    mset (map fst (run_output conn_step c0 es)) = run_opened conn_step conn_opened c0 es"
proof -
  have inv0: "conn_inv c0" unfolding c0_def by (rule conn_inv_init)
  then have ok: "map_ok (c_request_map c) (c_sends c) (c_multiple_timer c)"
    using cn.inv_run unfolding c_def by (simp add: conn_inv_def requests_ok_def)
  then have "m_timers_map (c_multiple_timer c) = Map.empty"
    using assms(4) by (simp add: get_active_timers_count_def map_ok_def timer_inv_def)
  then have none: "\<not> live_timer (c_multiple_timer c) i n" for i n by (simp add: live_timer_def)
  have "x \<notin> set (c_request_map c)" for x
    using ok assms(3) none by (auto simp: map_ok_def entry_ok_def)
  then have "c_request_map c = []" by (cases "c_request_map c") auto
  then show ?thesis
    using cn.conserve_run [OF inv0, of es]
    by (simp add: c_def conn_pending_def c0_def connection_init_def)
qed

theorem connection_no_request_forgotten_witness:
  "mset (map fst (run_output conn_step (connection_init True 10 10) connection_example)) = {#5#}"
proof -
  let ?c = "run_state conn_step (connection_init True 10 10) connection_example"
  have "c_sends ?c = []" "get_active_timers_count (c_multiple_timer ?c) = 0"
    by (simp_all add: connection_example_simps get_active_timers_count_def)
  then show ?thesis
    using connection_no_request_forgotten [of True 10 10 connection_example] connection_example_output
    by simp
qed


section \<open>Responses reach the request they answer\<close>

text \<open>The promises and numbers of the requests among some events.\<close>

definition asked :: "conn_event list \<Rightarrow> (promise_id \<times> uint64) set" where
  "asked es =
     {(p, n). \<exists>now msg. Conn_request now p msg \<in> set es \<and> get_msg_number_req (Some msg) = Inr n}"

definition entries_from :: "(promise_id \<times> uint64) set \<Rightarrow> request_map \<Rightarrow> bool" where
  "entries_from A m \<longleftrightarrow>
     (\<forall>x \<in> set m. (rd_promise (snd x), fst x) \<in> A \<and> rd_fail_req_result (snd x) \<noteq> Some Rq_ok)"

lemma entries_from_ops:
  assumes "entries_from A m"
  shows "entries_from A (map_erase n m)" "entries_from A (mark_sent n m)"
    "r \<noteq> Rq_ok \<Longrightarrow> entries_from A (fst (complete_loop r m t))"
proof -
  show "entries_from A (map_erase n m)" "r \<noteq> Rq_ok \<Longrightarrow> entries_from A (fst (complete_loop r m t))"
    using assms by (auto simp: entries_from_def map_erase_set complete_loop_map)
  show "entries_from A (mark_sent n m)"
    unfolding entries_from_def
  proof
    fix y
    assume "y \<in> set (mark_sent n m)"
    then obtain x where "x \<in> set m" "y = (if fst x = n then (n, (snd x)\<lparr>rd_is_req_sent := True\<rparr>) else x)"
      unfolding mark_sent_set by blast
    then show "(rd_promise (snd y), fst y) \<in> A \<and> rd_fail_req_result (snd y) \<noteq> Some Rq_ok"
      using assms by (cases "fst x = n") (auto simp: entries_from_def)
  qed
qed

lemma complete_request_from:
  assumes "entries_from A (c_request_map c)"
  shows "entries_from A (c_request_map (fst (complete_request n r b c)))"
    "\<forall>(p, res) \<in> set (snd (complete_request n r b c)). res = Completed r b \<and> (p, n) \<in> A"
  using assms entries_from_ops(1) [OF assms, of n]
  by (auto simp: complete_request_def entries_from_def split: option.split dest!: map_of_SomeD)

lemma process_request_sent_from:
  assumes "entries_from A (c_request_map c)"
  shows "entries_from A (c_request_map (fst (process_request_sent n c)))"
    "\<forall>(p, res) \<in> set (snd (process_request_sent n c)). \<forall>b. res \<noteq> Completed Rq_ok b"
proof -
  have "\<forall>d. map_of (c_request_map c) n = Some d \<longrightarrow> rd_fail_req_result d \<noteq> Some Rq_ok"
    using assms by (auto simp: entries_from_def dest!: map_of_SomeD)
  then show "entries_from A (c_request_map (fst (process_request_sent n c)))"
    "\<forall>(p, res) \<in> set (snd (process_request_sent n c)). \<forall>b. res \<noteq> Completed Rq_ok b"
    using assms entries_from_ops(1,2) [OF assms, of n]
    by (auto simp: process_request_sent_def split: option.split)
qed

text \<open>What a step does to the entries, and when it may report success.\<close>

definition from_good :: "(promise_id \<times> uint64) set \<Rightarrow> conn_event \<Rightarrow> conn_res \<Rightarrow> bool" where
  "from_good A e res \<longleftrightarrow>
     entries_from (A \<union> asked [e]) (c_request_map (fst res)) \<and>
     (\<forall>(p, x) \<in> set (snd res). \<forall>b. x = Completed Rq_ok b \<longrightarrow>
        (\<exists>m n. e = Conn_received Op_success (Some m) \<and> b = Some m \<and>
           get_msg_number_res (Some m) = Inr n \<and> (p, n) \<in> A))"

lemma from_good_quiet:
  assumes "entries_from A m" "c_request_map (fst res) = m" "\<forall>x \<in> set (snd res). \<forall>b. snd x \<noteq> Completed Rq_ok b"
  shows "from_good A e res"
  using assms by (auto simp: from_good_def entries_from_def)

lemma dispatch_from:
  assumes "entries_from A (c_request_map c)"
  shows "entries_from A (c_request_map (fst (dispatch_receive_event msg c))) \<and>
    (\<forall>(p, x) \<in> set (snd (dispatch_receive_event msg c)). \<forall>b. x = Completed Rq_ok b \<longrightarrow>
       (\<exists>m n. msg = Some m \<and> b = Some m \<and> get_msg_number_res (Some m) = Inr n \<and> (p, n) \<in> A))"
proof (cases "get_transfer_msg_type msg")
  case (Inr ty)
  then obtain bs where bs: "msg = Some bs" by (cases msg) (auto simp: get_transfer_msg_type_def)
  show ?thesis
  proof (cases "\<exists>n. ty = Msg_res \<and> get_msg_number_res (Some bs) = Inr n")
    case True
    then obtain n where n: "ty = Msg_res" "get_msg_number_res (Some bs) = Inr n" by blast
    obtain c' os where cr: "complete_request n Rq_ok (Some bs) c = (c', os)" by fastforce
    show ?thesis
      using complete_request_from [OF assms, of n Rq_ok "Some bs"] cr n bs Inr
      by (auto simp: dispatch_receive_event_def handle_message_def handle_received_response_def)
  next
    case False
    then show ?thesis
      using Inr assms bs
      by (cases ty) (auto simp: dispatch_receive_event_def handle_message_def handle_received_request_def
          handle_received_ping_def handle_received_response_def send_message_def split: sum.split)
  qed
qed (use assms in \<open>simp add: dispatch_receive_event_def\<close>)

lemma conn_recv_from:
  assumes "entries_from A (c_request_map c)"
  shows "from_good A (Conn_received r msg) (conn_recv r msg c)"
proof -
  let ?c = "c\<lparr>c_transport := (c_transport c)\<lparr>tr_reads := tr_reads (c_transport c) - 1\<rparr>\<rparr>"
  have none: "asked [Conn_received r msg] = {}" by (simp add: asked_def)
  have "entries_from A (c_request_map ?c)" using assms by simp
  note disp = dispatch_from [OF this, of msg]
  have loop: "entries_from A (fst (complete_loop (if r = Op_canceled then Rq_canceled else Rq_failed) (c_request_map c) t))"
    for t by (rule entries_from_ops(3) [OF assms]) simp
  show ?thesis
  proof (cases "tr_reads (c_transport c) = 0 \<or> r \<noteq> Op_success")
    case True
    then show ?thesis
      using loop assms none by (auto simp: from_good_def conn_recv_def recv_callback_def
          complete_receive_routine_def Let_def case_prod_beta complete_loop_output)
  next
    case False
    obtain c' os where d: "dispatch_receive_event msg ?c = (c', os)" by fastforce
    have "conn_recv r msg c = (do_receive_async c', os)"
      using False d by (simp add: conn_recv_def recv_callback_def)
    then show ?thesis
      using False disp none d by (auto simp: from_good_def do_receive_async_def)
  qed
qed

lemma entries_from_mono: "entries_from A m \<Longrightarrow> A \<subseteq> B \<Longrightarrow> entries_from B m"
  by (auto simp: entries_from_def)

lemma conn_request_from:
  assumes "entries_from A (c_request_map c)" "request_async now p msg c = Inr res"
  shows "from_good A (Conn_request now p msg) res"
proof -
  have "entries_from (A \<union> asked [Conn_request now p msg]) (c_request_map c)"
    using assms(1) by (rule entries_from_mono) simp
  then show ?thesis
    using assms(2)
    by (auto simp: from_good_def request_async_def add_request_to_map_def Let_def case_prod_beta
        send_message_def entries_from_def asked_def split: if_splits sum.splits)
qed

text \<open>Steps that complete no request with \<open>ok\<close>.\<close>

definition from_quiet :: "(promise_id \<times> uint64) set \<Rightarrow> conn_res \<Rightarrow> bool" where
  "from_quiet A res \<longleftrightarrow>
     entries_from A (c_request_map (fst res)) \<and> (\<forall>x \<in> set (snd res). \<forall>b. snd x \<noteq> Completed Rq_ok b)"

lemma from_quiet_good: "from_quiet A res \<Longrightarrow> from_good A e res"
  by (auto simp: from_quiet_def intro: from_good_quiet)

lemma complete_request_quiet:
  "entries_from A (c_request_map c) \<Longrightarrow> r \<noteq> Rq_ok \<Longrightarrow> from_quiet A (complete_request n r b c)"
  using complete_request_from [of A c n r b] by (auto simp: from_quiet_def)

lemma send_callback_quiet:
  assumes "entries_from A (c_request_map c)"
  shows "from_quiet A (send_callback n r c)"
proof (cases r)
  case Op_success
  then show ?thesis
    using process_request_sent_from [OF assms, of n] by (auto simp: send_callback_def from_quiet_def)
qed (simp_all add: send_callback_def complete_request_quiet [OF assms])

lemma conn_timer_handler_quiet:
  assumes "entries_from A (c_request_map c)"
  shows "from_quiet A (conn_timer_handler i c)"
proof -
  obtain t cb where h: "multiple_timer_handler i (c_multiple_timer c) = (t, cb)" by fastforce
  have "entries_from A (c_request_map (c\<lparr>c_multiple_timer := t\<rparr>))" using assms by simp
  then show ?thesis
    using complete_request_quiet [of A "c\<lparr>c_multiple_timer := t\<rparr>" Rq_timeout] assms h
    by (cases cb) (simp_all add: conn_timer_handler_def from_quiet_def)
qed

lemma conn_step_from:
  assumes "entries_from A (c_request_map c)"
  shows "from_good A e (conn_step c e)"
proof -
  have same: "from_good A e (c', [])" if "c_request_map c' = c_request_map c" for c'
    using assms that by (intro from_quiet_good) (simp add: from_quiet_def)
  show ?thesis
  proof (cases e)
    case Conn_start
    have "c_request_map c' = c_request_map c" if "conn_start c = Inr c'" for c'
      using same_requests_start [OF that] by (simp add: same_requests_def)
    then show ?thesis using same Conn_start by (simp split: sum.split)
  next
    case (Conn_request now p msg)
    then show ?thesis
      using conn_request_from [OF assms, of now p msg] same by (simp split: sum.split)
  next
    case (Conn_sent n r)
    have "from_quiet A (send_callback n r (c\<lparr>c_sends := remove1 n (c_sends c)\<rparr>))"
      using assms by (intro send_callback_quiet) simp
    then show ?thesis using Conn_sent same from_quiet_good by simp
  next
    case (Conn_received r msg)
    then show ?thesis using conn_recv_from [OF assms] by simp
  next
    case (Conn_timer_handler i)
    then show ?thesis using from_quiet_good [OF conn_timer_handler_quiet [OF assms]] by simp
  next
    case (Conn_watch_handler now)
    then show ?thesis using same same_requests_watch [of c now] by (simp add: same_requests_def)
  qed (use same in \<open>simp_all add: conn_deactivate_def send_message_def\<close>)
qed

lemma conn_run_from:
  "entries_from A (c_request_map c) \<Longrightarrow>
   \<forall>(p, x) \<in> set (run_output conn_step c es). \<forall>b. x = Completed Rq_ok b \<longrightarrow>
     (\<exists>m n. Conn_received Op_success (Some m) \<in> set es \<and> b = Some m \<and>
        get_msg_number_res (Some m) = Inr n \<and> (p, n) \<in> A \<union> asked es)"
proof (induction es arbitrary: A c)
  case Nil
  then show ?case by simp
next
  case (Cons e es)
  have good: "from_good A e (conn_step c e)" using Cons.prems by (rule conn_step_from)
  then have "entries_from (A \<union> asked [e]) (c_request_map (fst (conn_step c e)))"
    by (simp add: from_good_def)
  note ih = Cons.IH [OF this]
  have sub: "asked [e] \<subseteq> asked (e # es)" "asked es \<subseteq> asked (e # es)" by (auto simp: asked_def)
  show ?case
  proof (intro ballI, clarify)
    fix p b
    assume "(p, Completed Rq_ok b) \<in> set (run_output conn_step c (e # es))"
    then consider "(p, Completed Rq_ok b) \<in> set (snd (conn_step c e))"
      | "(p, Completed Rq_ok b) \<in> set (run_output conn_step (fst (conn_step c e)) es)" by auto
    then show "\<exists>m n. Conn_received Op_success (Some m) \<in> set (e # es) \<and> b = Some m \<and>
        get_msg_number_res (Some m) = Inr n \<and> (p, n) \<in> A \<union> asked (e # es)"
    proof cases
      case 1
      then show ?thesis using good unfolding from_good_def by fastforce
    next
      case 2
      then obtain m n where "Conn_received Op_success (Some m) \<in> set es" "b = Some m"
          "get_msg_number_res (Some m) = Inr n" "(p, n) \<in> A \<union> asked [e] \<union> asked es"
        using ih by fastforce
      then show ?thesis using sub by auto
    qed
  qed
qed

text \<open>
  C12: A request is completed with \<open>ok\<close> only by a response that was received from the pipe, is well
  formed and carries the number of that request; the buffer handed to the caller is that response.
\<close>

theorem connection_response_matches:
  assumes "(p, Completed Rq_ok b) \<in> set (run_output conn_step (connection_init sv rt pt) es)"
  shows "\<exists>now req m n. Conn_request now p req \<in> set es \<and> Conn_received Op_success (Some m) \<in> set es \<and>
    b = Some m \<and> is_response_buffer_valid (Some m) \<and>
    get_msg_number_req (Some req) = Inr n \<and> get_msg_number_res (Some m) = Inr n"
proof -
  have "entries_from {} (c_request_map (connection_init sv rt pt))"
    by (simp add: entries_from_def connection_init_def)
  from bspec [OF conn_run_from [OF this] assms] obtain m n where
    r: "Conn_received Op_success (Some m) \<in> set es" "b = Some m" "get_msg_number_res (Some m) = Inr n"
      "(p, n) \<in> asked es" by auto
  moreover have "is_response_buffer_valid (Some m)"
    using r(3) by (auto simp: get_msg_number_res_def split: if_splits)
  ultimately show ?thesis unfolding asked_def by blast
qed

theorem connection_response_matches_witness:
  "\<exists>now req m n. Conn_request now 5 req \<in> set connection_example \<and>
     Conn_received Op_success (Some m) \<in> set connection_example \<and>
     Some example_response = Some m \<and> is_response_buffer_valid (Some m) \<and>
     get_msg_number_req (Some req) = Inr n \<and> get_msg_number_res (Some m) = Inr n"
  using connection_response_matches [of 5 "Some example_response" True 10 10 connection_example]
    connection_example_output by simp


section \<open>The end of the receive routine\<close>

lemma reachable_inv: "conn_inv (run_state conn_step (connection_init sv rt pt) es)"
  by (rule cn.inv_run [OF conn_inv_init])

lemma complete_loop_member:
  "(n, d') \<in> set (fst (complete_loop r m t)) \<longleftrightarrow>
   (\<exists>d. (n, d) \<in> set m \<and> \<not> rd_is_req_sent d \<and> d' = d\<lparr>rd_fail_req_result := Some r\<rparr>)"
  by (force simp: complete_loop_map)

text \<open>
  When the outstanding read fails, every request that has been sent is completed at once, with
  \<open>canceled\<close> if the pipe was cancelled and \<open>failed\<close> otherwise; the others stay until their
  send is over, are no longer subject to their timers' results, and then complete with the same
  code even though the send succeeded.  No further read is started.
\<close>

theorem connection_receive_failure:
  fixes sv :: bool and rt pt :: nat and es :: "conn_event list" and r :: pipe_op_res
    and b :: "bytes option"
  defines "c \<equiv> run_state conn_step (connection_init sv rt pt) es"
  assumes "tr_reads (c_transport c) > 0" "r \<noteq> Op_success"
  defines "c' \<equiv> fst (conn_step c (Conn_received r b))"
    and "res \<equiv> Completed (if r = Op_canceled then Rq_canceled else Rq_failed) None"
  shows "snd (conn_step c (Conn_received r b)) =
      map (\<lambda>x. (rd_promise (snd x), res)) (filter (\<lambda>x. rd_is_req_sent (snd x)) (c_request_map c)) \<and>
    tr_reads (c_transport c') = 0 \<and>
    map fst (c_request_map c') =
      map fst (filter (\<lambda>x. \<not> rd_is_req_sent (snd x)) (c_request_map c)) \<and>
    (\<forall>(n, d) \<in> set (c_request_map c'). n \<in> set (c_sends c') \<and>
       snd (conn_step c' (Conn_sent n Op_success)) = [(rd_promise d, res)])"
proof -
  let ?q = "if r = Op_canceled then Rq_canceled else Rq_failed"
  have inv: "conn_inv c" unfolding c_def by (rule reachable_inv)
  have inv': "conn_inv c'" unfolding c'_def by (rule conn_inv_step [OF inv])
  have step: "conn_step c (Conn_received r b) = complete_receive_routine r
      (c\<lparr>c_transport := (c_transport c)\<lparr>tr_reads := tr_reads (c_transport c) - 1\<rparr>\<rparr>)"
    using assms(2,3) by (simp add: conn_recv_def recv_callback_def)
  have map': "c_request_map c' = fst (complete_loop ?q (c_request_map c) (c_multiple_timer c))"
    unfolding c'_def step by (simp add: complete_receive_routine_def Let_def case_prod_beta)
  have one: "tr_reads (c_transport c) = 1"
    using inv assms(2) by (simp add: conn_inv_def reading_ok_def)
  have out: "n \<in> set (c_sends c') \<and> snd (conn_step c' (Conn_sent n Op_success)) = [(rd_promise d, res)]"
    if mem: "(n, d) \<in> set (c_request_map c')" for n d
  proof -
    have d: "\<not> rd_is_req_sent d" "rd_fail_req_result d = Some ?q"
      using mem unfolding map' complete_loop_member by auto
    have ok: "map_ok (c_request_map c') (c_sends c') (c_multiple_timer c')"
      using inv' by (simp add: conn_inv_def requests_ok_def)
    then have "n \<in> set (c_sends c')" "map_of (c_request_map c') n = Some d"
      using mem d(1) by (auto simp: map_ok_def entry_ok_def)
    then show ?thesis
      using d(2) by (simp add: send_callback_def process_request_sent_def res_def)
  qed
  have "snd (conn_step c (Conn_received r b)) =
      map (\<lambda>x. (rd_promise (snd x), res)) (filter (\<lambda>x. rd_is_req_sent (snd x)) (c_request_map c))"
    unfolding step res_def
    by (simp add: complete_receive_routine_def Let_def case_prod_beta complete_loop_output)
  moreover have "tr_reads (c_transport c') = 0"
    using one unfolding c'_def step by (simp add: complete_receive_routine_def Let_def case_prod_beta)
  moreover have "map fst (c_request_map c') =
      map fst (filter (\<lambda>x. \<not> rd_is_req_sent (snd x)) (c_request_map c))"
    unfolding map' complete_loop_map by (simp add: comp_def)
  ultimately show ?thesis using out by blast
qed

definition failing_example :: "conn_event list" where
  "failing_example = [Conn_start, Conn_request 0 5 example_request]"

theorem connection_receive_failure_witness:
  "snd (conn_step (run_state conn_step (connection_init True 10 10) failing_example)
     (Conn_received Op_failed None)) = []"
proof -
  have run: "0 < tr_reads (c_transport (run_state conn_step (connection_init True 10 10) failing_example))"
    "filter (\<lambda>x. rd_is_req_sent (snd x))
      (c_request_map (run_state conn_step (connection_init True 10 10) failing_example)) = []"
    by (simp_all add: failing_example_def connection_example_simps)
  show ?thesis
    using connection_receive_failure [of True 10 10 failing_example Op_failed None] run by simp
qed

end
