(* ===== verification/Connection_Watch.thy ===== *)
theory Connection_Watch
  imports Connection
begin

text \<open>
  The watcher of a connection over time: it deactivates a connection only after an unanswered ping,
  and it does deactivate one whose peer stays silent.
\<close>

section \<open>Activity and watch events\<close>

text \<open>A received message counts as activity unless its handler throws.\<close>

definition message_accepted :: "bytes option \<Rightarrow> bool" where
  "message_accepted msg \<longleftrightarrow>
     (case get_transfer_msg_type msg of
        Inl e \<Rightarrow> False
      | Inr ty \<Rightarrow> ty = Msg_res \<longrightarrow> is_response_buffer_valid msg)"

fun activity :: "connection \<Rightarrow> conn_event \<Rightarrow> unit list" where
  "activity c (Conn_received r msg) =
     (if tr_reads (c_transport c) > 0 \<and> r = Op_success \<and> message_accepted msg then [()] else [])"
| "activity c e = []"

text \<open>The times at which the watch callback runs.\<close>

fun watched :: "connection \<Rightarrow> conn_event \<Rightarrow> time_point list" where
  "watched c (Conn_watch_handler now) =
     (if m_wait (c_watcher_timer c) = Period_expired then [now] else [])"
| "watched c e = []"

lemma handle_message_accepted:
  "get_transfer_msg_type msg = Inr ty \<Longrightarrow>
   (\<exists>res. handle_message ty (the msg) c = Inr res) \<longleftrightarrow> message_accepted msg"
  by (cases msg; cases ty)
    (auto simp: get_transfer_msg_type_def handle_message_def handle_received_response_def
      message_accepted_def get_msg_number_res_def Let_def)

lemma dispatch_watcher:
  "c_watcher (fst (dispatch_receive_event msg c)) =
     (if message_accepted msg then set_activity_flag (c_watcher c) else c_watcher c)"
proof (cases "get_transfer_msg_type msg")
  case (Inl e)
  then show ?thesis by (simp add: dispatch_receive_event_def message_accepted_def)
next
  case (Inr ty)
  show ?thesis
  proof (cases "handle_message ty (the msg) c")
    case (Inl e)
    then have "\<not> message_accepted msg" using handle_message_accepted [OF Inr, of c] by simp
    then show ?thesis using Inr Inl by (simp add: dispatch_receive_event_def)
  next
    case (Inr res)
    obtain c' os where res: "res = (c', os)" by fastforce
    have "message_accepted msg" using handle_message_accepted [OF \<open>get_transfer_msg_type msg = Inr ty\<close>, of c] Inr by auto
    moreover have "c_watcher c' = c_watcher c"
      using handle_message_link [of ty "the msg" c c' os] Inr res by simp
    ultimately show ?thesis
      using \<open>get_transfer_msg_type msg = Inr ty\<close> Inr res by (simp add: dispatch_receive_event_def)
  qed
qed

lemma conn_recv_watcher:
  "c_watcher (fst (conn_recv r msg c)) =
     (if activity c (Conn_received r msg) \<noteq> [] then set_activity_flag (c_watcher c) else c_watcher c)"
  "c_state (fst (conn_recv r msg c)) = c_state c"
  "tr_running (c_transport (fst (conn_recv r msg c))) = tr_running (c_transport c)"
  using dispatch_watcher [of msg "c\<lparr>c_transport := (c_transport c)\<lparr>tr_reads := tr_reads (c_transport c) - 1\<rparr>\<rparr>"]
    dispatch_link [of msg "c\<lparr>c_transport := (c_transport c)\<lparr>tr_reads := tr_reads (c_transport c) - 1\<rparr>\<rparr>"]
  by (simp_all add: conn_recv_def recv_callback_def case_prod_beta do_receive_async_def
      transport_recv_async_def complete_receive_routine_def Let_def)

text \<open>The watch handler, in terms of the watcher alone.\<close>

lemma watch_handler_idle:
  "watched c (Conn_watch_handler now) = [] \<Longrightarrow>
   c_watcher (conn_watch_handler now c) = c_watcher c \<and> c_state (conn_watch_handler now c) = c_state c \<and>
   c_transport (conn_watch_handler now c) = c_transport c"
  by (auto simp: conn_watch_handler_def period_handler_def deactivate_timer_def Let_def
      split: period_wait.splits if_splits)

lemma watch_handler_runs:
  assumes "watched c (Conn_watch_handler now) \<noteq> []"
  defines "c' \<equiv> conn_watch_handler now c"
  shows "is_connection_not_responding now (c_watcher c) \<Longrightarrow>
      c_state c' = Deactivated \<and> \<not> tr_running (c_transport c') \<and> c_watcher c' = c_watcher c"
    "\<not> is_connection_not_responding now (c_watcher c) \<Longrightarrow>
      c_state c' = c_state c \<and> tr_running (c_transport c') = tr_running (c_transport c) \<and>
      \<not> w_activity_flag (c_watcher c') \<and> w_ping_period (c_watcher c') = w_ping_period (c_watcher c) \<and>
      (if w_activity_flag (c_watcher c)
       then w_start_ping_waiting (c_watcher c') = w_start_ping_waiting (c_watcher c) \<and>
         tr_sent (c_transport c') = tr_sent (c_transport c)
       else tr_sent (c_transport c') = tr_sent (c_transport c) @ [ping_message] \<and>
         w_start_ping_waiting (c_watcher c') =
           Some (case w_start_ping_waiting (c_watcher c) of None \<Rightarrow> now | Some t \<Rightarrow> t))"
proof -
  have "m_wait (c_watcher_timer c) = Period_expired" using assms(1) by (simp split: if_splits)
  then have c': "c' = process_watch_event now (c\<lparr>c_watcher_timer := (c_watcher_timer c)\<lparr>m_wait := In_callback\<rparr>\<rparr>)"
    by (simp add: c'_def conn_watch_handler_def period_handler_def)
  show "is_connection_not_responding now (c_watcher c) \<Longrightarrow>
      c_state c' = Deactivated \<and> \<not> tr_running (c_transport c') \<and> c_watcher c' = c_watcher c"
    by (simp add: c' process_watch_event_def conn_deactivate_def transport_stop_def pipe_disconnect_def)
  show "\<not> is_connection_not_responding now (c_watcher c) \<Longrightarrow>
      c_state c' = c_state c \<and> tr_running (c_transport c') = tr_running (c_transport c) \<and>
      \<not> w_activity_flag (c_watcher c') \<and> w_ping_period (c_watcher c') = w_ping_period (c_watcher c) \<and>
      (if w_activity_flag (c_watcher c)
       then w_start_ping_waiting (c_watcher c') = w_start_ping_waiting (c_watcher c) \<and>
         tr_sent (c_transport c') = tr_sent (c_transport c)
       else tr_sent (c_transport c') = tr_sent (c_transport c) @ [ping_message] \<and>
         w_start_ping_waiting (c_watcher c') =
           Some (case w_start_ping_waiting (c_watcher c) of None \<Rightarrow> now | Some t \<Rightarrow> t))"
    by (auto simp: c' process_watch_event_def check_and_drop_activity_flag_def send_message_def
        transport_send_async_def set_ping_waiting_def Let_def split: option.split)
qed

text \<open>All other steps leave the watcher alone and never reactivate a connection.\<close>

lemma quiet_step:
  assumes "activity c e = []" "watched c e = []"
  shows "c_watcher (fst (conn_step c e)) = c_watcher c \<and>
    (c_state c = Deactivated \<longrightarrow> c_state (fst (conn_step c e)) = Deactivated) \<and>
    (\<not> tr_running (c_transport c) \<longrightarrow> \<not> tr_running (c_transport (fst (conn_step c e))))"
proof (cases e)
  case Conn_start
  then show ?thesis
    by (auto simp: conn_start_def start_watching_def periodic_timer_start_def do_receive_async_def
        transport_recv_async_def split: sum.split)
next
  case (Conn_request now p msg)
  then show ?thesis
    by (auto simp: request_async_def add_request_to_map_def Let_def case_prod_beta send_message_def
        transport_send_async_def split: sum.split)
next
  case (Conn_sent n r)
  then show ?thesis
    using same_link_ops(3) [of "c\<lparr>c_sends := remove1 n (c_sends c)\<rparr>" n r] by (simp add: same_link_def)
next
  case (Conn_received r msg)
  then show ?thesis using assms(1) conn_recv_watcher [of r msg c] by simp
next
  case (Conn_timer_handler i)
  then show ?thesis using same_link_ops(4) [of c i] by (simp add: same_link_def)
next
  case (Conn_watch_handler now)
  then show ?thesis using watch_handler_idle [of c now] assms(2) by simp
qed (simp_all add: conn_deactivate_def transport_stop_def pipe_disconnect_def send_message_def
    transport_set_stop_callback_def transport_send_async_def)

lemma run_collect_append:
  "run_collect step f s (es @ es') = run_collect step f s es @ run_collect step f (run_state step s es) es'"
  by (induction es arbitrary: s) simp_all

lemma ping_period_step: "w_ping_period (c_watcher (fst (conn_step c e))) = w_ping_period (c_watcher c)"
proof (cases "activity c e = [] \<and> watched c e = []")
  case True
  then show ?thesis using quiet_step by simp
next
  case False
  then show ?thesis
    using conn_recv_watcher(1) watch_handler_runs [of c]
    by (cases e) (auto simp: set_activity_flag_def; metis)+
qed

lemma ping_period_run: "w_ping_period (c_watcher (run_state conn_step c es)) = w_ping_period (c_watcher c)"
  by (induction es arbitrary: c) (simp_all add: ping_period_step)


section \<open>A deactivation by the watcher follows an unanswered ping\<close>

lemma ping_waiting_step:
  assumes "w_start_ping_waiting (c_watcher (fst (conn_step c e))) = Some t"
  shows "w_start_ping_waiting (c_watcher c) = Some t \<and> activity c e = [] \<or>
    e = Conn_watch_handler t \<and>
      tr_sent (c_transport (fst (conn_step c e))) = tr_sent (c_transport c) @ [ping_message]"
proof (cases "activity c e = []")
  case False
  then show ?thesis
    using assms conn_recv_watcher(1) by (cases e) (auto simp: set_activity_flag_def)
next
  case quiet: True
  show ?thesis
  proof (cases "watched c e = []")
    case True
    then show ?thesis using assms quiet quiet_step [OF quiet True] by simp
  next
    case False
    then obtain now where e: "e = Conn_watch_handler now" by (cases e) simp_all
    then show ?thesis
      using assms quiet False watch_handler_runs [of c now]
      by (cases "is_connection_not_responding now (c_watcher c)")
        (auto split: if_splits option.splits)
  qed
qed

lemma ping_waiting_run:
  assumes "w_start_ping_waiting (c_watcher c0) = None"
    "w_start_ping_waiting (c_watcher (run_state conn_step c0 es)) = Some t"
  shows "\<exists>es1 es2. es = es1 @ Conn_watch_handler t # es2 \<and>
    (let c1 = run_state conn_step c0 es1; c2 = fst (conn_step c1 (Conn_watch_handler t))
     in tr_sent (c_transport c2) = tr_sent (c_transport c1) @ [ping_message] \<and>
        run_collect conn_step activity c2 es2 = [])"
  using assms(2)
proof (induction es rule: rev_induct)
  case Nil
  then show ?case using assms(1) by simp
next
  case (snoc e es)
  let ?c = "run_state conn_step c0 es"
  from snoc.prems have "w_start_ping_waiting (c_watcher (fst (conn_step ?c e))) = Some t"
    by (simp add: run_append_state)
  then consider "w_start_ping_waiting (c_watcher ?c) = Some t" "activity ?c e = []"
    | "e = Conn_watch_handler t"
      "tr_sent (c_transport (fst (conn_step ?c e))) = tr_sent (c_transport ?c) @ [ping_message]"
    using ping_waiting_step by blast
  then show ?case
  proof cases
    case 1
    then obtain es1 es2 where es: "es = es1 @ Conn_watch_handler t # es2"
      and r: "let c1 = run_state conn_step c0 es1; c2 = fst (conn_step c1 (Conn_watch_handler t))
        in tr_sent (c_transport c2) = tr_sent (c_transport c1) @ [ping_message] \<and>
          run_collect conn_step activity c2 es2 = []"
      using snoc.IH by blast
    have "run_collect conn_step activity (fst (conn_step (run_state conn_step c0 es1) (Conn_watch_handler t)))
        (es2 @ [e]) = []"
      using r 1(2) es by (simp add: Let_def run_collect_append run_append_state)
    then show ?thesis
      using r es by (intro exI [of _ es1] exI [of _ "es2 @ [e]"]) (simp add: Let_def)
  next
    case 2
    then show ?thesis by (intro exI [of _ es] exI [of _ "[]"]) (simp add: Let_def)
  qed
qed

text \<open>
  C13: The watcher deactivates a connection only when the peer really did not answer: a watch event
  at some time \<open>t\<close> sent a ping, more than the ping timeout has passed since, and no
  message has been accepted in between.
\<close>

theorem watcher_deactivation_justified:
  fixes sv :: bool and rt pt :: nat and es :: "conn_event list"
  defines "c0 \<equiv> connection_init sv rt pt"
  assumes "c_state (run_state conn_step c0 es) \<noteq> Deactivated"
    and "c_state (conn_watch_handler now (run_state conn_step c0 es)) = Deactivated"
  shows "\<exists>es1 t es2. es = es1 @ Conn_watch_handler t # es2 \<and> now > t + pt \<and>
    (let c1 = run_state conn_step c0 es1; c2 = fst (conn_step c1 (Conn_watch_handler t))
     in tr_sent (c_transport c2) = tr_sent (c_transport c1) @ [ping_message] \<and>
        run_collect conn_step activity c2 es2 = [])"
proof -
  let ?c = "run_state conn_step c0 es"
  have "watched ?c (Conn_watch_handler now) \<noteq> []"
    using assms(2,3) watch_handler_idle [of ?c now] by metis
  then have "is_connection_not_responding now (c_watcher ?c)"
    using assms(2,3) watch_handler_runs(2) [of ?c now] by auto
  then obtain t where t: "w_start_ping_waiting (c_watcher ?c) = Some t"
      "now > t + w_ping_period (c_watcher ?c)"
    by (auto simp: is_connection_not_responding_def split: option.splits)
  have "w_start_ping_waiting (c_watcher c0) = None" "w_ping_period (c_watcher c0) = pt"
    by (simp_all add: c0_def connection_init_def connection_watcher_init_def)
  moreover have "w_ping_period (c_watcher ?c) = w_ping_period (c_watcher c0)"
    by (rule ping_period_run)
  ultimately show ?thesis using t ping_waiting_run [of c0 es t] by metis
qed

definition watch_example :: "conn_event list" where
  "watch_example =
     [Conn_start, Conn_watch_expire, Conn_watch_handler 1, Conn_watch_done,
      Conn_watch_expire, Conn_watch_handler 2, Conn_watch_done, Conn_watch_expire]"

lemmas watch_example_simps =
  watch_example_def connection_example_simps period_expire_def period_handler_def conn_watch_handler_def
  process_watch_event_def connection_watcher_init_def is_connection_not_responding_def
  check_and_drop_activity_flag_def set_ping_waiting_def period_callback_done_def total_periods_def

theorem watcher_deactivation_justified_witness:
  "\<exists>es1 t es2. watch_example = es1 @ Conn_watch_handler t # es2 \<and> 20 > t + 10 \<and>
    (let c1 = run_state conn_step (connection_init True 10 10) es1;
         c2 = fst (conn_step c1 (Conn_watch_handler t))
     in tr_sent (c_transport c2) = tr_sent (c_transport c1) @ [ping_message] \<and>
        run_collect conn_step activity c2 es2 = [])"
proof -
  let ?c = "run_state conn_step (connection_init True 10 10) watch_example"
  have "c_state ?c \<noteq> Deactivated" "c_state (conn_watch_handler 20 ?c) = Deactivated"
    by (simp_all add: watch_example_simps)
  then show ?thesis
    using watcher_deactivation_justified [of True 10 10 watch_example 20] by simp
qed


section \<open>A silent peer is detected\<close>

lemma deactivated_step: "c_state c = Deactivated \<Longrightarrow> c_state (fst (conn_step c e)) = Deactivated"
proof (cases "activity c e = [] \<and> watched c e = []")
  case True
  then show "c_state c = Deactivated \<Longrightarrow> ?thesis" using quiet_step by simp
next
  case False
  then show "c_state c = Deactivated \<Longrightarrow> ?thesis"
    using conn_recv_watcher(2) watch_handler_runs [of c]
    by (cases e) (auto; metis)+
qed

lemma deactivated_stays: "c_state c = Deactivated \<Longrightarrow> c_state (run_state conn_step c es) = Deactivated"
  by (induction es arbitrary: c) (simp_all add: deactivated_step)

text \<open>Three phases of silence: the flag is down, a ping waits, the wait is over.\<close>

lemma silent_ping:
  assumes "w_start_ping_waiting (c_watcher c) = Some t0" "run_collect conn_step activity c es = []"
    and "t \<in> set (run_collect conn_step watched c es)" "t > t0 + w_ping_period (c_watcher c)"
  shows "c_state (run_state conn_step c es) = Deactivated"
  using assms
proof (induction es arbitrary: c)
  case Nil
  then show ?case by simp
next
  case (Cons e es)
  let ?c = "fst (conn_step c e)"
  have silent: "activity c e = []" "run_collect conn_step activity ?c es = []" using Cons.prems(2) by simp_all
  show ?case
  proof (cases "c_state ?c = Deactivated")
    case True
    then show ?thesis using deactivated_stays by simp
  next
    case False
    have "w_start_ping_waiting (c_watcher ?c) = Some t0 \<and> t \<notin> set (watched c e)"
    proof (cases "watched c e = []")
      case True
      then show ?thesis using quiet_step [OF silent(1) True] Cons.prems(1) by simp
    next
      case w: False
      then obtain now where e: "e = Conn_watch_handler now" by (cases e) simp_all
      have responds: "\<not> is_connection_not_responding now (c_watcher c)"
        using watch_handler_runs(1) [of c now] False w e by auto
      then have "t \<noteq> now" using Cons.prems(1,4) by (auto simp: is_connection_not_responding_def)
      then show ?thesis
        using watch_handler_runs(2) [of c now, OF _ responds] w e Cons.prems(1)
        by (auto split: if_splits)
    qed
    then show ?thesis
      using Cons.IH [of ?c] silent(2) Cons.prems(3,4) by (simp add: ping_period_step)
  qed
qed

lemma silent_flag_down:
  assumes "\<not> w_activity_flag (c_watcher c)" "run_collect conn_step activity c es = []"
    and "run_collect conn_step watched c es = t2 # ts" "t \<in> set ts" "t > t2 + w_ping_period (c_watcher c)"
    and "\<forall>t0. w_start_ping_waiting (c_watcher c) = Some t0 \<longrightarrow> t0 \<le> t2"
  shows "c_state (run_state conn_step c es) = Deactivated"
  using assms
proof (induction es arbitrary: c)
  case Nil
  then show ?case by simp
next
  case (Cons e es)
  let ?c = "fst (conn_step c e)"
  have silent: "activity c e = []" "run_collect conn_step activity ?c es = []" using Cons.prems(2) by simp_all
  show ?case
  proof (cases "watched c e = []")
    case True
    then show ?thesis
      using quiet_step [OF silent(1) True] Cons silent by (simp add: ping_period_step)
  next
    case w: False
    then obtain now where e: "e = Conn_watch_handler now" by (cases e) simp_all
    then have ts: "now = t2" "run_collect conn_step watched ?c es = ts"
      using Cons.prems(3) w by (auto split: if_splits)
    show ?thesis
    proof (cases "is_connection_not_responding now (c_watcher c)")
      case True
      then show ?thesis
        using watch_handler_runs(1) [of c now] w e deactivated_stays [of ?c es] by simp
    next
      case False
      obtain t0 where "w_start_ping_waiting (c_watcher ?c) = Some t0" "t0 \<le> t2"
        using watch_handler_runs(2) [of c now, OF _ False] w e Cons.prems(1,6) ts(1)
        by (auto split: option.splits)
      then show ?thesis
        using silent_ping [of ?c t0 es t] silent(2) ts(2) Cons.prems(4,5)
        by (simp add: ping_period_step)
    qed
  qed
qed



end
