(* ===== verification/Promise_Future.thy ===== *)
theory Promise_Future
  imports Common_Prelude
begin

text \<open>
  Promises and futures, \<open>common-lib/thread/future\<close>, on a thread pool.

  Controllers live in a store and are named by their index.  The continuations of the source are
  closures over a child controller and a user callback; here each closure of \<open>future-impl.h\<close> is a
  constructor that carries what it captures, and the user's callbacks are a parameter \<open>U\<close> from
  callback names and arguments to results.  Work posted to the pool is a list of tasks, and a
  step may run any of them, so every schedule of the pool's threads is a run.  A value is
  \<open>Plain\<close> or itself a future, which \<open>flatten_future\<close> unwraps.  Values are not changed after
  they are set: a continuation that moves the shared value away is not modelled.
\<close>

section \<open>Controllers and continuations\<close>

type_synonym controller_id = nat
type_synonym task_id = nat

text \<open>The value of a controller, \<open>Void\<close> for a future without one; a future is a controller or invalid.\<close>

datatype 'v fval = Plain 'v | Void | Fut "controller_id option"

datatype 'v outcome = Value "'v fval" | Exception exn

text \<open>What a user callback gets and what it does.\<close>

datatype 'v task_arg = Arg_value "'v fval" | Arg_exception exn | Arg_none
datatype 'v task_ret = Ret 'v | Ret_void | Ret_future "controller_id option" | Throws exn

type_synonym 'v callbacks = "task_id \<Rightarrow> 'v task_arg \<Rightarrow> 'v task_ret"

text \<open>The \<open>on_success\<close> and \<open>on_fail\<close> closures; the first argument is the child controller.\<close>

datatype 'v on_success =
    S_then controller_id task_id
  | S_flatten controller_id
  | S_forward controller_id
  | S_discard controller_id
  | S_finally controller_id task_id
  | S_set_value controller_id "'v fval"
  | S_set_exception controller_id exn

datatype on_fail =
    F_forward controller_id
  | F_catch controller_id task_id
  | F_finally controller_id task_id

record 'v future_controller =
  fc_val :: "'v fval option"
  fc_exception :: "exn option"
  fc_on_success_queue :: "'v on_success list"
  fc_on_fail_queue :: "on_fail list"

definition future_controller_init :: "'v future_controller" where
  "future_controller_init =
     \<lparr>fc_val = None, fc_exception = None, fc_on_success_queue = [], fc_on_fail_queue = []\<rparr>"

datatype 'v pool_task =
    Process_success controller_id
  | Process_fail controller_id
  | Call_success controller_id "'v on_success"
  | Call_fail controller_id on_fail

text \<open>
  \<open>f_promises\<close> are the controllers whose promise still has its completion pending.
\<close>

record 'v future_state =
  f_store :: "'v future_controller list"
  f_pool :: "'v pool_task list"
  f_promises :: "controller_id list"

definition future_state_init :: "'v future_state" where
  "future_state_init = \<lparr>f_store = [], f_pool = [], f_promises = []\<rparr>"

definition future_post :: "'v pool_task list \<Rightarrow> 'v future_state \<Rightarrow> 'v future_state" where
  "future_post ts st = st\<lparr>f_pool := f_pool st @ ts\<rparr>"

definition update_controller ::
  "controller_id \<Rightarrow> ('v future_controller \<Rightarrow> 'v future_controller) \<Rightarrow> 'v future_state \<Rightarrow> 'v future_state"
where
  "update_controller c g st = st\<lparr>f_store := (f_store st)[c := g (f_store st ! c)]\<rparr>"

definition new_controller :: "'v future_state \<Rightarrow> 'v future_state" where
  "new_controller st = st\<lparr>f_store := f_store st @ [future_controller_init]\<rparr>"

definition has_value :: "'v future_state \<Rightarrow> controller_id \<Rightarrow> bool" where
  "has_value st c \<longleftrightarrow> fc_val (f_store st ! c) \<noteq> None"

definition has_exception :: "'v future_state \<Rightarrow> controller_id \<Rightarrow> bool" where
  "has_exception st c \<longleftrightarrow> fc_exception (f_store st ! c) \<noteq> None"

text \<open>What \<open>get\<close> returns or throws; \<open>None\<close> while it would block.\<close>

definition get_outcome :: "'v future_state \<Rightarrow> controller_id \<Rightarrow> 'v outcome option" where
  "get_outcome st c =
     (case fc_exception (f_store st ! c) of
        Some e \<Rightarrow> Some (Exception e)
      | None \<Rightarrow> map_option Value (fc_val (f_store st ! c)))"

definition set_on_success_and_fail ::
  "controller_id \<Rightarrow> 'v on_success \<Rightarrow> on_fail \<Rightarrow> 'v future_state \<Rightarrow> 'v future_state"
where
  "set_on_success_and_fail c s f st =
     future_post [Process_success c, Process_fail c]
       (update_controller c
          (\<lambda>fc. fc\<lparr>fc_on_success_queue := fc_on_success_queue fc @ [s],
                  fc_on_fail_queue := fc_on_fail_queue fc @ [f]\<rparr>) st)"

definition set_value_state :: "controller_id \<Rightarrow> 'v fval \<Rightarrow> 'v future_state \<Rightarrow> 'v future_state" where
  "set_value_state c v st =
     future_post [Process_success c, Process_fail c] (update_controller c (\<lambda>fc. fc\<lparr>fc_val := Some v\<rparr>) st)"

definition set_exception :: "controller_id \<Rightarrow> exn \<Rightarrow> 'v future_state \<Rightarrow> 'v future_state" where
  "set_exception c e st =
     future_post [Process_success c, Process_fail c]
       (update_controller c (\<lambda>fc. fc\<lparr>fc_exception := Some e\<rparr>) st)"

text \<open>The tasks of \<open>process_on_success_async\<close> and \<open>process_on_fail_async\<close>.\<close>

definition process_on_success :: "controller_id \<Rightarrow> 'v future_state \<Rightarrow> 'v future_state" where
  "process_on_success c st =
     (let fc = f_store st ! c;
          cleared = update_controller c (\<lambda>fc. fc\<lparr>fc_on_success_queue := []\<rparr>) st
      in if fc_val fc \<noteq> None then future_post (map (Call_success c) (fc_on_success_queue fc)) cleared
         else if fc_exception fc \<noteq> None then cleared
         else st)"

definition process_on_fail :: "controller_id \<Rightarrow> 'v future_state \<Rightarrow> 'v future_state" where
  "process_on_fail c st =
     (let fc = f_store st ! c;
          cleared = update_controller c (\<lambda>fc. fc\<lparr>fc_on_fail_queue := []\<rparr>) st
      in if fc_exception fc \<noteq> None then future_post (map (Call_fail c) (fc_on_fail_queue fc)) cleared
         else if fc_val fc \<noteq> None then cleared
         else st)"


section \<open>Running continuations\<close>

text \<open>
  A continuation completes its child with a value or an exception, or makes it wait for another
  future.
\<close>

datatype 'v action =
    Complete_value controller_id "'v fval"
  | Complete_exception controller_id exn
  | Wait_for controller_id "'v on_success" on_fail

definition invalid_future :: exn where
  "invalid_future = Logic_error ''returned future is invalid''"

definition exec_then_on_success :: "controller_id \<Rightarrow> 'v task_ret \<Rightarrow> 'v action" where
  "exec_then_on_success n ret =
     (case ret of
        Ret x \<Rightarrow> Complete_value n (Plain x)
      | Ret_void \<Rightarrow> Complete_value n Void
      | Ret_future k \<Rightarrow> Complete_value n (Fut k)
      | Throws e \<Rightarrow> Complete_exception n e)"

definition flatten_on_success :: "controller_id \<Rightarrow> 'v fval \<Rightarrow> 'v action" where
  "flatten_on_success n v =
     (case v of
        Fut None \<Rightarrow> Complete_exception n invalid_future
      | Fut (Some k) \<Rightarrow> Wait_for k (S_forward n) (F_forward n)
      | _ \<Rightarrow> Complete_value n v)"

definition finally_on_success :: "controller_id \<Rightarrow> 'v fval \<Rightarrow> 'v task_ret \<Rightarrow> 'v action" where
  "finally_on_success n v ret =
     (case ret of
        Ret x \<Rightarrow> Complete_value n v
      | Ret_void \<Rightarrow> Complete_value n v
      | Ret_future None \<Rightarrow> Complete_exception n invalid_future
      | Ret_future (Some k) \<Rightarrow> Wait_for k (S_set_value n v) (F_forward n)
      | Throws e \<Rightarrow> Complete_exception n e)"

definition catched_on_fail :: "controller_id \<Rightarrow> 'v task_ret \<Rightarrow> 'v action" where
  "catched_on_fail n ret =
     (case ret of
        Ret x \<Rightarrow> Complete_value n (Plain x)
      | Ret_void \<Rightarrow> Complete_value n Void
      | Ret_future None \<Rightarrow> Complete_exception n invalid_future
      | Ret_future (Some k) \<Rightarrow> Wait_for k (S_forward n) (F_forward n)
      | Throws e \<Rightarrow> Complete_exception n e)"

definition finally_on_fail :: "controller_id \<Rightarrow> exn \<Rightarrow> 'v task_ret \<Rightarrow> 'v action" where
  "finally_on_fail n ep ret =
     (case ret of
        Ret x \<Rightarrow> Complete_exception n ep
      | Ret_void \<Rightarrow> Complete_exception n ep
      | Ret_future None \<Rightarrow> Complete_exception n invalid_future
      | Ret_future (Some k) \<Rightarrow> Wait_for k (S_set_exception n ep) (F_forward n)
      | Throws e \<Rightarrow> Complete_exception n e)"

fun call_success :: "'v callbacks \<Rightarrow> 'v fval \<Rightarrow> 'v on_success \<Rightarrow> 'v action" where
  "call_success U v (S_then n t) = exec_then_on_success n (U t (Arg_value v))"
| "call_success U v (S_flatten n) = flatten_on_success n v"
| "call_success U v (S_forward n) = Complete_value n v"
| "call_success U v (S_discard n) = Complete_value n Void"
| "call_success U v (S_finally n t) = finally_on_success n v (U t Arg_none)"
| "call_success U v (S_set_value n w) = Complete_value n w"
| "call_success U v (S_set_exception n e) = Complete_exception n e"

fun call_fail :: "'v callbacks \<Rightarrow> exn \<Rightarrow> on_fail \<Rightarrow> 'v action" where
  "call_fail U e (F_forward n) = Complete_exception n e"
| "call_fail U e (F_catch n t) = catched_on_fail n (U t (Arg_exception e))"
| "call_fail U e (F_finally n t) = finally_on_fail n e (U t Arg_none)"

text \<open>A future that names no controller is treated as invalid.\<close>

fun run_action :: "'v action \<Rightarrow> 'v future_state \<Rightarrow> 'v future_state" where
  "run_action (Complete_value n v) st = set_value_state n v st"
| "run_action (Complete_exception n e) st = set_exception n e st"
| "run_action (Wait_for k s f) st =
     (if k < length (f_store st) then set_on_success_and_fail k s f st
      else set_exception (case f of F_forward n \<Rightarrow> n | F_catch n t \<Rightarrow> n | F_finally n t \<Rightarrow> n)
             invalid_future st)"

definition run_pool_task :: "'v callbacks \<Rightarrow> 'v pool_task \<Rightarrow> 'v future_state \<Rightarrow> 'v future_state" where
  "run_pool_task U t st =
     (case t of
        Process_success c \<Rightarrow> process_on_success c st
      | Process_fail c \<Rightarrow> process_on_fail c st
      | Call_success c s \<Rightarrow>
          (case fc_val (f_store st ! c) of
             Some v \<Rightarrow> run_action (call_success U v s) st
           | None \<Rightarrow> st)
      | Call_fail c f \<Rightarrow>
          (case fc_exception (f_store st ! c) of
             Some e \<Rightarrow> run_action (call_fail U e f) st
           | None \<Rightarrow> st))"


section \<open>The interface\<close>

text \<open>
  \<open>then\<close> with a callback that returns a future stores that future in an intermediate controller
  and flattens it; the last created controller is the one of the returned future.
\<close>

definition future_then :: "controller_id \<Rightarrow> task_id \<Rightarrow> bool \<Rightarrow> 'v future_state \<Rightarrow> 'v future_state" where
  "future_then c t returns_future st =
     (let n = length (f_store st);
          st = set_on_success_and_fail c (S_then n t) (F_forward n) (new_controller st)
      in if returns_future
         then set_on_success_and_fail n (S_flatten (Suc n)) (F_forward (Suc n)) (new_controller st)
         else st)"

text \<open>A \<open>catched\<close> callback that returns nothing gives a future without a value, in both cases.\<close>

definition catched_on_success :: "controller_id \<Rightarrow> bool \<Rightarrow> 'v on_success" where
  "catched_on_success n returns_void = (if returns_void then S_discard n else S_forward n)"

definition future_catched :: "controller_id \<Rightarrow> task_id \<Rightarrow> bool \<Rightarrow> 'v future_state \<Rightarrow> 'v future_state" where
  "future_catched c t returns_void st =
     (let n = length (f_store st)
      in set_on_success_and_fail c (catched_on_success n returns_void) (F_catch n t) (new_controller st))"

definition future_finally :: "controller_id \<Rightarrow> task_id \<Rightarrow> 'v future_state \<Rightarrow> 'v future_state" where
  "future_finally c t st =
     (let n = length (f_store st)
      in set_on_success_and_fail c (S_finally n t) (F_finally n t) (new_controller st))"

definition new_promise :: "'v future_state \<Rightarrow> 'v future_state" where
  "new_promise st =
     (new_controller st)\<lparr>f_promises := f_promises st @ [length (f_store st)]\<rparr>"

definition claim_completion :: "controller_id \<Rightarrow> 'v future_state \<Rightarrow> 'v future_state or_exn" where
  "claim_completion c st =
     (if c \<ge> length (f_store st) then Inl (Logic_error ''promise is invalid'')
      else if c \<notin> set (f_promises st) then Inl (Future_exception ''promise_already_satisfied'')
      else Inr (st\<lparr>f_promises := remove1 c (f_promises st)\<rparr>))"

text \<open>
  The second component is the exception that the call throws.  The value given to \<open>set_value\<close> is
  the exception when making the stored copy throws.
\<close>

definition promise_set_value ::
  "controller_id \<Rightarrow> 'v or_exn \<Rightarrow> 'v future_state \<Rightarrow> 'v future_state \<times> exn list"
where
  "promise_set_value c r st =
     (case claim_completion c st of
        Inl e \<Rightarrow> (st, [e])
      | Inr st' \<Rightarrow>
          (case r of
             Inr x \<Rightarrow> (set_value_state c (Plain x) st', [])
           | Inl e \<Rightarrow> (set_exception c e st', [e])))"

definition promise_set_void :: "controller_id \<Rightarrow> 'v future_state \<Rightarrow> 'v future_state \<times> exn list" where
  "promise_set_void c st =
     (case claim_completion c st of
        Inl e \<Rightarrow> (st, [e])
      | Inr st' \<Rightarrow> (set_value_state c Void st', []))"

definition promise_set_exception ::
  "controller_id \<Rightarrow> exn option \<Rightarrow> 'v future_state \<Rightarrow> 'v future_state \<times> exn list"
where
  "promise_set_exception c ep st =
     (case ep of
        None \<Rightarrow> (st, [Invalid_argument ''exception must not be null''])
      | Some e \<Rightarrow>
          (case claim_completion c st of
             Inl x \<Rightarrow> (st, [x])
           | Inr st' \<Rightarrow> (set_exception c e st', [])))"

definition promise_abandon :: "controller_id \<Rightarrow> 'v future_state \<Rightarrow> 'v future_state" where
  "promise_abandon c st =
     (case claim_completion c st of
        Inl e \<Rightarrow> st
      | Inr st' \<Rightarrow> set_exception c (Future_exception ''broken_promise'') st')"

datatype 'v future_event =
    New_promise
  | Promise_set_value controller_id "'v or_exn"
  | Promise_set_void controller_id
  | Promise_set_exception controller_id "exn option"
  | Promise_destroyed controller_id
  | Then controller_id task_id bool
  | Catched controller_id task_id bool
  | Finally controller_id task_id
  | Run_task nat

text \<open>The output of a step is the exception that the call throws.\<close>

definition on_valid_future ::
  "controller_id \<Rightarrow> ('v future_state \<Rightarrow> 'v future_state) \<Rightarrow> 'v future_state \<Rightarrow> 'v future_state \<times> exn list"
where
  "on_valid_future c g st =
     (if c < length (f_store st) then (g st, []) else (st, [Logic_error ''future is invalid'']))"

fun future_step :: "'v callbacks \<Rightarrow> 'v future_state \<Rightarrow> 'v future_event \<Rightarrow> 'v future_state \<times> exn list" where
  "future_step U st New_promise = (new_promise st, [])"
| "future_step U st (Promise_set_value c v) = promise_set_value c v st"
| "future_step U st (Promise_set_void c) = promise_set_void c st"
| "future_step U st (Promise_set_exception c e) = promise_set_exception c e st"
| "future_step U st (Promise_destroyed c) = (promise_abandon c st, [])"
| "future_step U st (Then c t fut) = on_valid_future c (future_then c t fut) st"
| "future_step U st (Catched c t vd) = on_valid_future c (future_catched c t vd) st"
| "future_step U st (Finally c t) = on_valid_future c (future_finally c t) st"
| "future_step U st (Run_task i) =
     (if i < length (f_pool st)
      then (run_pool_task U (f_pool st ! i)
              (st\<lparr>f_pool := take i (f_pool st) @ drop (Suc i) (f_pool st)\<rparr>), [])
      else (st, []))"


section \<open>Every controller is completed once\<close>

fun s_target :: "'v on_success \<Rightarrow> controller_id" where
  "s_target (S_then n t) = n"
| "s_target (S_flatten n) = n"
| "s_target (S_forward n) = n"
| "s_target (S_discard n) = n"
| "s_target (S_finally n t) = n"
| "s_target (S_set_value n v) = n"
| "s_target (S_set_exception n e) = n"

fun f_target :: "on_fail \<Rightarrow> controller_id" where
  "f_target (F_forward n) = n"
| "f_target (F_catch n t) = n"
| "f_target (F_finally n t) = n"

fun a_target :: "'v action \<Rightarrow> controller_id" where
  "a_target (Complete_value n v) = n"
| "a_target (Complete_exception n e) = n"
| "a_target (Wait_for k s f) = f_target f"

text \<open>
  Who owes a completion to a controller: the continuations that wait at another controller (its
  failure continuations once it has an exception, the success ones otherwise), those already in
  the pool, and promises.
\<close>

definition owed_targets :: "'v future_controller \<Rightarrow> controller_id list" where
  "owed_targets fc =
     (if fc_exception fc = None then map s_target (fc_on_success_queue fc)
      else map f_target (fc_on_fail_queue fc))"

fun task_targets :: "'v pool_task \<Rightarrow> controller_id list" where
  "task_targets (Call_success c s) = [s_target s]"
| "task_targets (Call_fail c f) = [f_target f]"
| "task_targets t = []"

definition owed :: "'v future_state \<Rightarrow> controller_id \<Rightarrow> nat" where
  "owed st n =
     count_list (f_promises st) n + (\<Sum>fc\<leftarrow>f_store st. count_list (owed_targets fc) n) +
     (\<Sum>t\<leftarrow>f_pool st. count_list (task_targets t) n)"

definition completions :: "'v future_controller \<Rightarrow> nat" where
  "completions fc = (if fc_val fc = None then 0 else 1) + (if fc_exception fc = None then 0 else 1)"

text \<open>
  Exactly one completion is owed to, or has reached, every controller; \<open>missing\<close> is the one a
  step is about to complete.
\<close>

definition balanced :: "controller_id option \<Rightarrow> 'v future_state \<Rightarrow> bool" where
  "balanced missing st \<longleftrightarrow>
     (\<forall>n < length (f_store st).
        completions (f_store st ! n) + owed st n = (if missing = Some n then 0 else 1)) \<and>
     (\<forall>n. length (f_store st) \<le> n \<longrightarrow> owed st n = 0)"

text \<open>
  While a controller is open its two queues wait for the same children; once it is completed, work
  that empties them is in the pool.
\<close>

definition controller_ok :: "'v pool_task set \<Rightarrow> controller_id \<Rightarrow> 'v future_controller \<Rightarrow> bool" where
  "controller_ok pool c fc \<longleftrightarrow>
     (completions fc = 0 \<longrightarrow> map s_target (fc_on_success_queue fc) = map f_target (fc_on_fail_queue fc)) \<and>
     (completions fc > 0 \<longrightarrow>
        (fc_on_success_queue fc \<noteq> [] \<longrightarrow> Process_success c \<in> pool) \<and>
        (fc_on_fail_queue fc \<noteq> [] \<longrightarrow> Process_fail c \<in> pool))"

fun task_ok :: "'v future_controller list \<Rightarrow> 'v pool_task \<Rightarrow> bool" where
  "task_ok store (Process_success c) = (c < length store)"
| "task_ok store (Process_fail c) = (c < length store)"
| "task_ok store (Call_success c s) = (c < length store \<and> fc_val (store ! c) \<noteq> None)"
| "task_ok store (Call_fail c f) = (c < length store \<and> fc_exception (store ! c) \<noteq> None)"

definition wired :: "'v future_state \<Rightarrow> bool" where
  "wired st \<longleftrightarrow>
     (\<forall>c < length (f_store st). controller_ok (set (f_pool st)) c (f_store st ! c)) \<and>
     (\<forall>t \<in> set (f_pool st). task_ok (f_store st) t)"

definition future_inv :: "'v future_state \<Rightarrow> bool" where
  "future_inv st \<longleftrightarrow> balanced None st \<and> wired st"

lemma completions_queue [simp]:
  "completions (fc\<lparr>fc_on_success_queue := q\<rparr>) = completions fc"
  "completions (fc\<lparr>fc_on_fail_queue := r\<rparr>) = completions fc"
  by (simp_all add: completions_def)

lemma length_store [simp]:
  "length (f_store (future_post ts st)) = length (f_store st)"
  "length (f_store (update_controller c g st)) = length (f_store st)"
  "length (f_store (new_controller st)) = Suc (length (f_store st))"
  "length (f_store (set_on_success_and_fail c s f st)) = length (f_store st)"
  "length (f_store (set_value_state c v st)) = length (f_store st)"
  "length (f_store (set_exception c e st)) = length (f_store st)"
  by (simp_all add: future_post_def update_controller_def new_controller_def
      set_on_success_and_fail_def set_value_state_def set_exception_def)

lemma post_store [simp]: "f_store (future_post ts st) = f_store st"
  by (simp add: future_post_def)

lemma owed_update:
  assumes "c < length (f_store st)"
  shows "owed (update_controller c g st) n + count_list (owed_targets (f_store st ! c)) n =
    owed st n + count_list (owed_targets (g (f_store st ! c))) n"
proof -
  let ?f = "\<lambda>fc. count_list (owed_targets fc) n"
  have "?f (f_store st ! c) \<le> (\<Sum>fc\<leftarrow>f_store st. ?f fc)"
    using assms by (intro member_le_sum_list) auto
  moreover have "(\<Sum>fc\<leftarrow>(f_store st)[c := x]. ?f fc) = (\<Sum>fc\<leftarrow>f_store st. ?f fc) + ?f x - ?f (f_store st ! c)" for x
    using assms by (simp add: map_update sum_list_update)
  ultimately show ?thesis by (simp add: owed_def update_controller_def)
qed

lemma owed_post: "owed (future_post ts st) n = owed st n + (\<Sum>t\<leftarrow>ts. count_list (task_targets t) n)"
  by (simp add: owed_def future_post_def)

lemma owed_new [simp]: "owed (new_controller st) n = owed st n"
  by (simp add: owed_def new_controller_def owed_targets_def future_controller_init_def)

lemma store_update:
  "c < length (f_store st) \<Longrightarrow>
   f_store (update_controller c g st) ! i = (if i = c then g (f_store st ! c) else f_store st ! i)"
  by (simp add: update_controller_def)

lemma wired_monotone:
  assumes "wired st" "set (f_pool st) \<subseteq> set (f_pool st')" "f_store st' = f_store st"
    and "\<forall>t \<in> set (f_pool st') - set (f_pool st). task_ok (f_store st) t"
  shows "wired st'"
  using assms by (fastforce simp: wired_def controller_ok_def)

lemma balanced_cong:
  assumes "\<And>n. owed st' n = owed st n" "length (f_store st') = length (f_store st)"
    and "\<And>n. completions (f_store st' ! n) = completions (f_store st ! n)"
  shows "balanced m st' = balanced m st"
  using assms by (simp add: balanced_def)

text \<open>Completing the missing controller.\<close>

lemma complete_balanced:
  assumes "balanced (Some n) st" "n < length (f_store st)" "wired st"
    and g: "\<And>fc. completions fc = 0 \<Longrightarrow> completions (g fc) = 1"
      "\<And>fc. fc_on_success_queue (g fc) = fc_on_success_queue fc"
      "\<And>fc. fc_on_fail_queue (g fc) = fc_on_fail_queue fc"
  shows "balanced None (future_post [Process_success n, Process_fail n] (update_controller n g st))"
proof -
  have zero: "completions (f_store st ! n) = 0"
    using assms(1,2) by (auto simp: balanced_def dest!: spec [of _ n])
  then have "map s_target (fc_on_success_queue (f_store st ! n)) = map f_target (fc_on_fail_queue (f_store st ! n))"
    using assms(2,3) by (simp add: wired_def controller_ok_def)
  then have "owed_targets (g (f_store st ! n)) = owed_targets (f_store st ! n)"
    by (simp add: owed_targets_def g)
  then have "owed (update_controller n g st) m = owed st m" for m
    using owed_update [OF assms(2), of g m] by simp
  then show ?thesis
    using assms(1,2) zero by (auto simp: balanced_def owed_post store_update g)
qed

lemma complete_wired:
  assumes "wired st" "n < length (f_store st)"
    and g: "\<And>fc. fc_val fc \<noteq> None \<Longrightarrow> fc_val (g fc) \<noteq> None"
      "\<And>fc. fc_exception fc \<noteq> None \<Longrightarrow> fc_exception (g fc) \<noteq> None"
      "completions (g (f_store st ! n)) > 0"
  shows "wired (future_post [Process_success n, Process_fail n] (update_controller n g st))"
proof -
  let ?st = "future_post [Process_success n, Process_fail n] (update_controller n g st)"
  have "controller_ok (set (f_pool ?st)) c (f_store ?st ! c)" if "c < length (f_store st)" for c
    using assms that by (auto simp: wired_def controller_ok_def future_post_def update_controller_def nth_list_update)
  moreover have "task_ok (f_store ?st) t" if "t \<in> set (f_pool st)" for t
    using assms that by (cases t) (fastforce simp: wired_def future_post_def update_controller_def nth_list_update)+
  ultimately show ?thesis
    using assms(2) by (auto simp: wired_def) (auto simp: future_post_def update_controller_def)
qed

lemma set_value_inv:
  assumes "balanced (Some n) st" "n < length (f_store st)" "wired st"
  shows "future_inv (set_value_state n v st)"
  unfolding future_inv_def set_value_state_def
  using complete_balanced [OF assms, of "\<lambda>fc. fc\<lparr>fc_val := Some v\<rparr>"]
    complete_wired [OF assms(3,2), of "\<lambda>fc. fc\<lparr>fc_val := Some v\<rparr>"]
  by (simp add: completions_def split: if_splits)

lemma set_exception_inv:
  assumes "balanced (Some n) st" "n < length (f_store st)" "wired st"
  shows "future_inv (set_exception n e st)"
  unfolding future_inv_def set_exception_def
  using complete_balanced [OF assms, of "\<lambda>fc. fc\<lparr>fc_exception := Some e\<rparr>"]
    complete_wired [OF assms(3,2), of "\<lambda>fc. fc\<lparr>fc_exception := Some e\<rparr>"]
  by (simp add: completions_def split: if_splits)

text \<open>Registering a pair of continuations makes the other controller owe the completion.\<close>

lemma register_owed:
  assumes "c < length (f_store st)" "s_target s = n" "f_target f = n"
  shows "owed (set_on_success_and_fail c s f st) m = owed st m + (if m = n then 1 else 0)"
proof -
  let ?g = "\<lambda>fc. fc\<lparr>fc_on_success_queue := fc_on_success_queue fc @ [s],
                  fc_on_fail_queue := fc_on_fail_queue fc @ [f]\<rparr>"
  have "count_list (owed_targets (?g fc)) m = count_list (owed_targets fc) m + (if m = n then 1 else 0)" for fc
    using assms(2,3) by (simp add: owed_targets_def)
  then show ?thesis
    using owed_update [OF assms(1), of ?g m] by (simp add: set_on_success_and_fail_def owed_post)
qed

lemma register_wired:
  assumes "wired st" "c < length (f_store st)" "s_target s = f_target f"
  shows "wired (set_on_success_and_fail c s f st)"
proof -
  let ?st = "set_on_success_and_fail c s f st"
  have "controller_ok (set (f_pool ?st)) k (f_store ?st ! k)" if "k < length (f_store st)" for k
    using assms that
    by (auto simp: wired_def controller_ok_def set_on_success_and_fail_def future_post_def
        update_controller_def nth_list_update completions_def)
  moreover have "task_ok (f_store ?st) t" if "t \<in> set (f_pool st)" for t
    using assms that by (cases t) (fastforce simp: wired_def set_on_success_and_fail_def future_post_def
        update_controller_def nth_list_update)+
  ultimately show ?thesis
    using assms(2)
    by (auto simp: wired_def) (auto simp: set_on_success_and_fail_def future_post_def update_controller_def)
qed

lemma register_completions:
  "c < length (f_store st) \<Longrightarrow>
   completions (f_store (set_on_success_and_fail c s f st) ! k) = completions (f_store st ! k)"
  by (simp add: set_on_success_and_fail_def future_post_def update_controller_def nth_list_update completions_def)

lemma register_inv:
  assumes "balanced (Some n) st" "wired st" "c < length (f_store st)" "s_target s = n" "f_target f = n"
    "n < length (f_store st)"
  shows "future_inv (set_on_success_and_fail c s f st)"
  using assms register_wired [OF assms(2,3), of s f]
  by (auto simp: future_inv_def balanced_def register_owed [OF assms(3-5)] register_completions)

lemma run_action_inv:
  assumes "balanced (Some n) st" "wired st" "n < length (f_store st)" "a_target a = n"
    and "\<And>k s f. a = Wait_for k s f \<Longrightarrow> s_target s = n"
  shows "future_inv (run_action a st)"
proof (cases a)
  case (Wait_for k s f)
  have "(case f of F_forward n \<Rightarrow> n | F_catch n t \<Rightarrow> n | F_finally n t \<Rightarrow> n) = n"
    using assms(4) Wait_for by (cases f) simp_all
  then show ?thesis
    using assms Wait_for register_inv [OF assms(1,2) _ assms(5) [OF Wait_for] _ assms(3), of k f]
      set_exception_inv [OF assms(1,3,2)] by simp
qed (use assms set_value_inv set_exception_inv in auto)

lemma call_targets:
  "a_target (call_success U v s) = s_target s" "a_target (call_fail U e f) = f_target f"
  "call_success U v s = Wait_for k s' f' \<Longrightarrow> s_target s' = s_target s"
  "call_fail U e f = Wait_for k s' f' \<Longrightarrow> s_target s' = f_target f"
  by (cases s; cases f; auto simp: exec_then_on_success_def flatten_on_success_def finally_on_success_def
      catched_on_fail_def finally_on_fail_def split: fval.splits task_ret.splits option.splits)+

text \<open>Taking a task out of the pool.\<close>

lemma owed_take:
  "f_pool st = xs @ t # ys \<Longrightarrow>
   owed st n = owed (st\<lparr>f_pool := xs @ ys\<rparr>) n + count_list (task_targets t) n"
  by (simp add: owed_def)

lemma completions_le_1: "balanced None st \<Longrightarrow> c < length (f_store st) \<Longrightarrow> completions (f_store st ! c) \<le> 1"
  by (metis balanced_def le_add1 option.discI)

text \<open>Emptying a queue of one controller.\<close>

lemma wired_update:
  assumes "wired st" "c < length (f_store st)" "f_store st' = (f_store st)[c := fc']"
    and "fc_val fc' = fc_val (f_store st ! c)" "fc_exception fc' = fc_exception (f_store st ! c)"
    and "\<forall>t \<in> set (f_pool st'). task_ok (f_store st) t" "controller_ok (set (f_pool st')) c fc'"
    and "\<forall>k. k \<noteq> c \<longrightarrow> (Process_success k \<in> set (f_pool st) \<longrightarrow> Process_success k \<in> set (f_pool st')) \<and>
      (Process_fail k \<in> set (f_pool st) \<longrightarrow> Process_fail k \<in> set (f_pool st'))"
  shows "wired st'"
proof -
  have "task_ok (f_store st') t = task_ok (f_store st) t" for t
    unfolding assms(3) using assms(2,4,5) by (cases t) (auto simp: nth_list_update)
  moreover have "controller_ok (set (f_pool st')) k (f_store st' ! k)" if "k < length (f_store st')" for k
  proof (cases "k = c")
    case True
    then show ?thesis using assms(2,3,7) by simp
  next
    case False
    then have "controller_ok (set (f_pool st)) k (f_store st ! k)" "f_store st' ! k = f_store st ! k"
      using assms(1,3) that by (simp_all add: wired_def)
    then show ?thesis using assms(8) False by (auto simp: controller_ok_def)
  qed
  ultimately show ?thesis using assms(6) by (simp add: wired_def)
qed

lemma process_success_inv:
  assumes "future_inv st" "f_pool st = xs @ Process_success c # ys"
  shows "future_inv (process_on_success c (st\<lparr>f_pool := xs @ ys\<rparr>))"
proof -
  let ?st = "st\<lparr>f_pool := xs @ ys\<rparr>" and ?fc = "f_store st ! c"
  have bal: "balanced None st" and wir: "wired st" using assms(1) by (simp_all add: future_inv_def)
  have c: "c < length (f_store st)" using wir assms(2) by (simp add: wired_def)
  have le: "completions ?fc \<le> 1" using bal c by (rule completions_le_1)
  have owed: "owed ?st n = owed st n" for n using owed_take [OF assms(2), of n] by simp
  let ?clr = "update_controller c (\<lambda>fc. fc\<lparr>fc_on_success_queue := []\<rparr>) ?st"
  have clr: "owed ?clr n + count_list (owed_targets ?fc) n =
      owed st n + count_list (owed_targets (?fc\<lparr>fc_on_success_queue := []\<rparr>)) n" for n
    using owed_update [of c ?st "\<lambda>fc. fc\<lparr>fc_on_success_queue := []\<rparr>" n] c owed by simp
  have sum: "(\<Sum>t\<leftarrow>map (Call_success c) q. count_list (task_targets t) n) = count_list (map s_target q) n" for q n
    by (induction q) simp_all
  have "owed (process_on_success c ?st) n = owed st n" for n
  proof (cases "fc_val ?fc = None")
    case True
    then show ?thesis
      using clr [of n] owed
      by (cases "fc_exception ?fc") (simp_all add: process_on_success_def Let_def owed_targets_def)
  next
    case False
    then have "fc_exception ?fc = None" using le by (simp add: completions_def split: if_splits)
    then show ?thesis
      using False clr [of n]
      by (simp add: process_on_success_def Let_def owed_targets_def owed_post sum del: map_map)
  qed
  then have "balanced None (process_on_success c ?st)"
    by (subst balanced_cong [OF _ _ _, of _ st])
      (use bal c in \<open>simp_all add: process_on_success_def Let_def store_update\<close>)
  moreover have "wired (process_on_success c ?st)"
  proof (cases "completions ?fc = 0")
    case True
    then have same: "process_on_success c ?st = ?st"
      by (simp add: process_on_success_def completions_def split: if_splits)
    show ?thesis
      unfolding same using True wir c assms(2)
      by (intro wired_update [OF wir c, of ?st ?fc]) (auto simp: wired_def controller_ok_def)
  next
    case False
    have "controller_ok (set (f_pool st)) c ?fc" "\<forall>t \<in> set (f_pool st). task_ok (f_store st) t"
      using wir c by (simp_all add: wired_def)
    then show ?thesis
      using False assms(2) c
      by (intro wired_update [OF wir c, of _ "?fc\<lparr>fc_on_success_queue := []\<rparr>"])
        (auto simp: process_on_success_def Let_def future_post_def update_controller_def controller_ok_def
          completions_def split: if_splits)
  qed
  ultimately show ?thesis by (simp add: future_inv_def)
qed

lemma process_fail_inv:
  assumes "future_inv st" "f_pool st = xs @ Process_fail c # ys"
  shows "future_inv (process_on_fail c (st\<lparr>f_pool := xs @ ys\<rparr>))"
proof -
  let ?st = "st\<lparr>f_pool := xs @ ys\<rparr>" and ?fc = "f_store st ! c"
  have bal: "balanced None st" and wir: "wired st" using assms(1) by (simp_all add: future_inv_def)
  have c: "c < length (f_store st)" using wir assms(2) by (simp add: wired_def)
  have owed: "owed ?st n = owed st n" for n using owed_take [OF assms(2), of n] by simp
  let ?clr = "update_controller c (\<lambda>fc. fc\<lparr>fc_on_fail_queue := []\<rparr>) ?st"
  have clr: "owed ?clr n + count_list (owed_targets ?fc) n =
      owed st n + count_list (owed_targets (?fc\<lparr>fc_on_fail_queue := []\<rparr>)) n" for n
    using owed_update [of c ?st "\<lambda>fc. fc\<lparr>fc_on_fail_queue := []\<rparr>" n] c owed by simp
  have sum: "(\<Sum>t\<leftarrow>map (Call_fail c) q. count_list (task_targets t) n) = count_list (map f_target q) n" for q n
    by (induction q) simp_all
  have "owed (process_on_fail c ?st) n = owed st n" for n
    using clr [of n] owed
    by (cases "fc_exception ?fc")
      (simp_all add: process_on_fail_def Let_def owed_targets_def owed_post sum del: map_map)
  then have "balanced None (process_on_fail c ?st)"
    by (subst balanced_cong [OF _ _ _, of _ st])
      (use bal c in \<open>simp_all add: process_on_fail_def Let_def store_update\<close>)
  moreover have "wired (process_on_fail c ?st)"
  proof (cases "completions ?fc = 0")
    case True
    then have same: "process_on_fail c ?st = ?st"
      by (simp add: process_on_fail_def completions_def split: if_splits)
    show ?thesis
      unfolding same using True wir c assms(2)
      by (intro wired_update [OF wir c, of ?st ?fc]) (auto simp: wired_def controller_ok_def)
  next
    case False
    have "controller_ok (set (f_pool st)) c ?fc" "\<forall>t \<in> set (f_pool st). task_ok (f_store st) t"
      using wir c by (simp_all add: wired_def)
    then show ?thesis
      using False assms(2) c
      by (intro wired_update [OF wir c, of _ "?fc\<lparr>fc_on_fail_queue := []\<rparr>"])
        (auto simp: process_on_fail_def Let_def future_post_def update_controller_def controller_ok_def
          completions_def split: if_splits)
  qed
  ultimately show ?thesis by (simp add: future_inv_def)
qed

text \<open>Running a continuation.\<close>

lemma take_call:
  assumes "future_inv st" "f_pool st = xs @ t # ys" "task_targets t = [n]"
  shows "balanced (Some n) (st\<lparr>f_pool := xs @ ys\<rparr>)" "wired (st\<lparr>f_pool := xs @ ys\<rparr>)"
    "n < length (f_store st)"
proof -
  have bal: "balanced None st" and wir: "wired st" using assms(1) by (simp_all add: future_inv_def)
  have owed: "owed st m = owed (st\<lparr>f_pool := xs @ ys\<rparr>) m + (if m = n then 1 else 0)" for m
    using owed_take [OF assms(2), of m] assms(3) by simp
  show n: "n < length (f_store st)"
  proof (rule ccontr)
    assume "\<not> n < length (f_store st)"
    then have "owed st n = 0" using bal by (simp add: balanced_def)
    then show False using owed [of n] by simp
  qed
  have "completions (f_store st ! m) + owed (st\<lparr>f_pool := xs @ ys\<rparr>) m = (if n = m then 0 else 1)"
    if "m < length (f_store st)" for m
    using bal owed [of m] that by (cases "n = m") (auto simp: balanced_def)
  moreover have "owed (st\<lparr>f_pool := xs @ ys\<rparr>) m = 0" if "length (f_store st) \<le> m" for m
    using bal owed [of m] that by (simp add: balanced_def)
  ultimately show "balanced (Some n) (st\<lparr>f_pool := xs @ ys\<rparr>)" by (simp add: balanced_def)
  have "t \<noteq> Process_success c" "t \<noteq> Process_fail c" for c using assms(3) by auto
  then show "wired (st\<lparr>f_pool := xs @ ys\<rparr>)"
    using wir assms(2) by (auto simp: wired_def controller_ok_def)
qed

lemma run_pool_task_inv:
  assumes "future_inv st" "f_pool st = xs @ t # ys"
  shows "future_inv (run_pool_task U t (st\<lparr>f_pool := xs @ ys\<rparr>))"
proof (cases t)
  case (Process_success c)
  then show ?thesis using process_success_inv assms by (simp add: run_pool_task_def)
next
  case (Process_fail c)
  then show ?thesis using process_fail_inv assms by (simp add: run_pool_task_def)
next
  case (Call_success c s)
  then obtain v where v: "fc_val (f_store st ! c) = Some v"
    using assms by (auto simp: future_inv_def wired_def)
  have "task_targets t = [s_target s]" using Call_success by simp
  note take = take_call [OF assms this]
  have "future_inv (run_action (call_success U v s) (st\<lparr>f_pool := xs @ ys\<rparr>))"
    using take(3) by (intro run_action_inv [OF take(1,2)]) (simp_all add: call_targets)
  then show ?thesis using Call_success v by (simp add: run_pool_task_def)
next
  case (Call_fail c f)
  then obtain e where e: "fc_exception (f_store st ! c) = Some e"
    using assms by (auto simp: future_inv_def wired_def)
  have "task_targets t = [f_target f]" using Call_fail by simp
  note take = take_call [OF assms this]
  have "future_inv (run_action (call_fail U e f) (st\<lparr>f_pool := xs @ ys\<rparr>))"
    using take(3) by (intro run_action_inv [OF take(1,2)]) (simp_all add: call_targets)
  then show ?thesis using Call_fail e by (simp add: run_pool_task_def)
qed

text \<open>A new controller is missing its completion until somebody owes it one.\<close>

lemma new_controller_balanced:
  assumes "future_inv st"
  shows "balanced (Some (length (f_store st))) (new_controller st)" "wired (new_controller st)"
proof -
  have bal: "balanced None st" and wir: "wired st" using assms by (simp_all add: future_inv_def)
  show "balanced (Some (length (f_store st))) (new_controller st)"
    using bal by (auto simp: balanced_def less_Suc_eq) (auto simp: new_controller_def nth_append completions_def
        future_controller_init_def)
  have "task_ok (f_store st @ [future_controller_init]) t" if "task_ok (f_store st) t" for t
    using that by (cases t) (auto simp: nth_append)
  then show "wired (new_controller st)"
    using wir by (auto simp: wired_def new_controller_def nth_append less_Suc_eq controller_ok_def
        completions_def future_controller_init_def)
qed

lemma attach_inv:
  assumes "future_inv st" "c < length (f_store st)" "s_target s = length (f_store st)"
    "f_target f = length (f_store st)"
  shows "future_inv (set_on_success_and_fail c s f (new_controller st))"
  using register_inv [OF new_controller_balanced [OF assms(1)], of c s f] assms(2-4) by simp

lemma future_then_inv:
  assumes "future_inv st" "c < length (f_store st)"
  shows "future_inv (future_then c t fut st)"
proof -
  let ?n = "length (f_store st)"
  let ?st = "set_on_success_and_fail c (S_then ?n t) (F_forward ?n) (new_controller st)"
  have one: "future_inv ?st" using assms by (intro attach_inv) simp_all
  have "future_inv (set_on_success_and_fail ?n (S_flatten (Suc ?n)) (F_forward (Suc ?n)) (new_controller ?st))"
    by (rule attach_inv [OF one]) simp_all
  then show ?thesis using one by (simp add: future_then_def Let_def)
qed

text \<open>The calls on a promise leave the state alone or complete the controller they have claimed.\<close>

fun promise_of :: "'v future_event \<Rightarrow> controller_id option" where
  "promise_of (Promise_set_value c r) = Some c"
| "promise_of (Promise_set_void c) = Some c"
| "promise_of (Promise_set_exception c ep) = Some c"
| "promise_of (Promise_destroyed c) = Some c"
| "promise_of _ = None"

lemma promise_event_state:
  "promise_of e = Some c \<Longrightarrow> fst (future_step U st e) = st \<or>
   (\<exists>st'. claim_completion c st = Inr st' \<and>
      ((\<exists>v. fst (future_step U st e) = set_value_state c v st') \<or>
       (\<exists>x. fst (future_step U st e) = set_exception c x st')))"
  by (cases e) (auto simp: promise_set_value_def promise_set_void_def promise_set_exception_def
      promise_abandon_def split: sum.splits option.splits)

lemma promise_event_cases:
  assumes "promise_of e = Some c"
  obtains (same) "fst (future_step U st e) = st"
    | (val) st' v where "claim_completion c st = Inr st'" "fst (future_step U st e) = set_value_state c v st'"
    | (exc) st' x where "claim_completion c st = Inr st'" "fst (future_step U st e) = set_exception c x st'"
  using promise_event_state [OF assms, of U st] by blast

lemma claim_balanced:
  assumes "future_inv st" "claim_completion c st = Inr st'"
  shows "balanced (Some c) st'" "wired st'" "c < length (f_store st')"
proof -
  have bal: "balanced None st" and wir: "wired st" using assms(1) by (simp_all add: future_inv_def)
  have c: "c \<in> set (f_promises st)" and st': "st' = st\<lparr>f_promises := remove1 c (f_promises st)\<rparr>"
    using assms(2) by (auto simp: claim_completion_def split: if_splits)
  have "count_list xs n = count_list (remove1 c xs) n + (if n = c then 1 else 0)" if "c \<in> set xs" for xs and n :: nat
    using that by (induction xs) auto
  from this [OF c] have owed: "owed st n = owed st' n + (if n = c then 1 else 0)" for n
    by (simp add: owed_def st')
  have len: "length (f_store st') = length (f_store st)" "f_store st' = f_store st" by (simp_all add: st')
  show "c < length (f_store st')"
    using bal owed [of c] len by (force simp: balanced_def not_less [symmetric])
  show "balanced (Some c) st'"
    using bal owed len by (fastforce simp: balanced_def split: if_splits)
  show "wired st'" using wir by (simp add: wired_def st')
qed

lemma new_promise_inv:
  assumes "future_inv st"
  shows "future_inv (new_promise st)"
proof -
  let ?n = "length (f_store st)"
  have owed: "owed (new_promise st) m = owed (new_controller st) m + (if m = ?n then 1 else 0)" for m
    by (simp add: owed_def new_promise_def new_controller_def)
  have "f_store (new_promise st) = f_store (new_controller st)" by (simp add: new_promise_def)
  then show ?thesis
    using new_controller_balanced [OF assms] owed
    by (auto simp: future_inv_def balanced_def wired_def) (auto simp: new_promise_def new_controller_def)
qed

lemma future_inv_step:
  assumes "future_inv st"
  shows "future_inv (fst (future_step U st e))"
proof (cases "promise_of e")
  case (Some c)
  then show ?thesis
    by (cases rule: promise_event_cases [where U = U and st = st])
      (use assms set_value_inv [OF claim_balanced(1,3,2) [OF assms]]
        set_exception_inv [OF claim_balanced(1,3,2) [OF assms]] in auto)
next
  case None
  then show ?thesis
  proof (cases e)
    case (Run_task i)
    then show ?thesis
      using run_pool_task_inv [OF assms, of "take i (f_pool st)" "f_pool st ! i" "drop (Suc i) (f_pool st)" U]
        assms id_take_nth_drop [of i "f_pool st"] by auto
  next
    case (Catched c t vd)
    then show ?thesis
      using assms by (simp add: on_valid_future_def future_catched_def catched_on_success_def Let_def attach_inv)
  next
    case (Finally c t)
    then show ?thesis
      using assms by (simp add: on_valid_future_def future_finally_def Let_def attach_inv)
  qed (use assms in \<open>simp_all add: on_valid_future_def new_promise_inv future_then_inv\<close>)
qed

interpretation fut: event_system "future_step U" future_inv
  by unfold_locales (rule future_inv_step)

lemma future_inv_init: "future_inv future_state_init"
  by (simp add: future_inv_def balanced_def wired_def owed_def future_state_init_def)


section \<open>Outcomes are final\<close>

text \<open>A controller that has a value or an exception keeps it.\<close>

definition same_outcome :: "'v future_controller \<Rightarrow> 'v future_controller \<Rightarrow> bool" where
  "same_outcome fc fc' \<longleftrightarrow> fc_val fc' = fc_val fc \<and> fc_exception fc' = fc_exception fc"

definition keeps_outcomes :: "'v future_state \<Rightarrow> 'v future_state \<Rightarrow> bool" where
  "keeps_outcomes st st' \<longleftrightarrow>
     length (f_store st) \<le> length (f_store st') \<and>
     (\<forall>c < length (f_store st). completions (f_store st ! c) > 0 \<longrightarrow>
        same_outcome (f_store st ! c) (f_store st' ! c))"

lemma keeps_trans: "keeps_outcomes a b \<Longrightarrow> keeps_outcomes b c \<Longrightarrow> keeps_outcomes a c"
  by (fastforce simp: keeps_outcomes_def same_outcome_def completions_def)

lemma keeps_store: "f_store st' = f_store st \<Longrightarrow> keeps_outcomes st st'"
  by (simp add: keeps_outcomes_def same_outcome_def)

lemma keeps_update:
  assumes "c < length (f_store st)"
    and "completions (f_store st ! c) > 0 \<Longrightarrow> same_outcome (f_store st ! c) (g (f_store st ! c))"
  shows "keeps_outcomes st (future_post ts (update_controller c g st))"
  using assms by (auto simp: keeps_outcomes_def store_update same_outcome_def)

lemma keeps_new: "keeps_outcomes st (new_controller st)"
  by (simp add: keeps_outcomes_def new_controller_def nth_append same_outcome_def)

lemma keeps_register: "c < length (f_store st) \<Longrightarrow> keeps_outcomes st (set_on_success_and_fail c s f st)"
  unfolding set_on_success_and_fail_def by (rule keeps_update) (simp_all add: same_outcome_def)

lemma missing_open:
  "balanced (Some n) st \<Longrightarrow> n < length (f_store st) \<Longrightarrow> completions (f_store st ! n) = 0"
  by (auto simp: balanced_def dest!: spec [of _ n])

lemma keeps_complete:
  assumes "balanced (Some n) st" "n < length (f_store st)"
  shows "keeps_outcomes st (set_value_state n v st)" "keeps_outcomes st (set_exception n e st)"
proof -
  have "keeps_outcomes st (future_post ts (update_controller n g st))" for ts g
    using assms missing_open [OF assms] by (intro keeps_update) simp_all
  then show "keeps_outcomes st (set_value_state n v st)" "keeps_outcomes st (set_exception n e st)"
    by (simp_all add: set_value_state_def set_exception_def)
qed

lemma keeps_action:
  assumes "balanced (Some n) st" "n < length (f_store st)" "a_target a = n"
  shows "keeps_outcomes st (run_action a st)"
proof (cases a)
  case (Wait_for k s f)
  have "(case f of F_forward n \<Rightarrow> n | F_catch n t \<Rightarrow> n | F_finally n t \<Rightarrow> n) = n"
    using assms(3) Wait_for by (cases f) simp_all
  then show ?thesis using keeps_complete [OF assms(1,2)] Wait_for by (simp add: keeps_register)
qed (use assms keeps_complete [OF assms(1,2)] in auto)

lemma keeps_process:
  "c < length (f_store st) \<Longrightarrow> keeps_outcomes st (process_on_success c st)"
  "c < length (f_store st) \<Longrightarrow> keeps_outcomes st (process_on_fail c st)"
proof -
  assume c: "c < length (f_store st)"
  have "keeps_outcomes st (future_post ts (update_controller c g st))"
    if "\<And>fc. same_outcome fc (g fc)" for ts and g :: "'a future_controller \<Rightarrow> 'a future_controller"
    using c that by (rule keeps_update)
  note k = this this [of _ "[]", unfolded future_post_def, simplified]
  show "keeps_outcomes st (process_on_success c st)" "keeps_outcomes st (process_on_fail c st)"
    using k keeps_store [of st st]
    by (simp_all add: process_on_success_def process_on_fail_def Let_def same_outcome_def)
qed

lemma keeps_pool_task:
  assumes "future_inv st" "f_pool st = xs @ t # ys"
  shows "keeps_outcomes st (run_pool_task U t (st\<lparr>f_pool := xs @ ys\<rparr>))"
proof (rule keeps_trans)
  let ?st = "st\<lparr>f_pool := xs @ ys\<rparr>"
  show "keeps_outcomes st ?st" by (rule keeps_store) simp
  have ok: "task_ok (f_store st) t" using assms by (simp add: future_inv_def wired_def)
  show "keeps_outcomes ?st (run_pool_task U t ?st)"
  proof (cases t)
    case (Call_success c s)
    then have "task_targets t = [s_target s]" by simp
    note take = take_call [OF assms this]
    show ?thesis
      using Call_success keeps_store [of ?st ?st] keeps_action [OF take(1)] take(3)
      by (simp add: run_pool_task_def call_targets split: option.split)
  next
    case (Call_fail c f)
    then have "task_targets t = [f_target f]" by simp
    note take = take_call [OF assms this]
    show ?thesis
      using Call_fail keeps_store [of ?st ?st] keeps_action [OF take(1)] take(3)
      by (simp add: run_pool_task_def call_targets split: option.split)
  qed (use ok keeps_process [of _ ?st] in \<open>simp_all add: run_pool_task_def\<close>)
qed

lemma keeps_attach: "c < length (f_store st) \<Longrightarrow> keeps_outcomes st (set_on_success_and_fail c s f (new_controller st))"
  by (rule keeps_trans [OF keeps_new keeps_register]) simp

lemma keeps_claim:
  assumes "future_inv st" "claim_completion c st = Inr st'"
  shows "keeps_outcomes st (set_value_state c v st')" "keeps_outcomes st (set_exception c e st')"
proof -
  have "keeps_outcomes st st'"
    using assms(2) by (intro keeps_store) (auto simp: claim_completion_def split: if_splits)
  then show "keeps_outcomes st (set_value_state c v st')" "keeps_outcomes st (set_exception c e st')"
    using keeps_complete [OF claim_balanced(1,3) [OF assms]] keeps_trans by blast+
qed

lemma keeps_step:
  assumes "future_inv st"
  shows "keeps_outcomes st (fst (future_step U st e))"
proof (cases "promise_of e")
  case (Some c)
  then show ?thesis
    by (cases rule: promise_event_cases [where U = U and st = st])
      (use keeps_claim [OF assms] keeps_store [of st st] in auto)
next
  case None
  then show ?thesis
  proof (cases e)
    case (Run_task i)
    then show ?thesis
      using keeps_pool_task [OF assms, of "take i (f_pool st)" "f_pool st ! i" "drop (Suc i) (f_pool st)" U]
        keeps_store [of st st] id_take_nth_drop [of i "f_pool st"] by auto
  next
    case (Then c t fut)
    have "c < length (f_store st) \<Longrightarrow> keeps_outcomes st (future_then c t fut st)"
      using keeps_trans [OF keeps_attach keeps_attach, of c st "length (f_store st)"]
      by (simp add: future_then_def Let_def keeps_attach)
    then show ?thesis using Then keeps_store [of st st] by (simp add: on_valid_future_def)
  next
    case New_promise
    then show ?thesis using keeps_new [of st] by (simp add: new_promise_def keeps_outcomes_def)
  qed (use keeps_store [of st st] in
      \<open>simp_all add: on_valid_future_def future_catched_def future_finally_def Let_def keeps_attach\<close>)
qed

lemma keeps_run: "future_inv st \<Longrightarrow> keeps_outcomes st (run_state (future_step U) st es)"
proof (induction es arbitrary: st)
  case Nil
  then show ?case by (simp add: keeps_store)
next
  case (Cons e es)
  then show ?case
    using keeps_trans [OF keeps_step [OF Cons.prems] Cons.IH [OF future_inv_step [OF Cons.prems]]] by simp
qed

end
