(* ===== verification/Future_Chain.thy ===== *)
theory Future_Chain
  imports Promise_Future
begin

text \<open>
  What a chain of futures computes: the future returned by \<open>then\<close>, \<open>catched\<close> or \<open>finally\<close> gets
  the outcome that the user's callback makes of the outcome of its parent, under every schedule,
  and gets it as soon as the pool has no work left.
\<close>

section \<open>Waiting continuations\<close>

type_synonym 'v continuation = "'v on_success + on_fail"

fun tgt :: "'v continuation \<Rightarrow> controller_id" where
  "tgt (Inl s) = s_target s"
| "tgt (Inr f) = f_target f"

text \<open>The continuations that wait at a controller or have been taken from it into the pool.\<close>

definition waits :: "'v future_state \<Rightarrow> (controller_id \<times> 'v continuation) set" where
  "waits st =
     {(k, x). k < length (f_store st) \<and>
        (case x of
           Inl s \<Rightarrow> s \<in> set (fc_on_success_queue (f_store st ! k)) \<or> Call_success k s \<in> set (f_pool st)
         | Inr f \<Rightarrow> f \<in> set (fc_on_fail_queue (f_store st ! k)) \<or> Call_fail k f \<in> set (f_pool st))}"

text \<open>What a continuation does when its controller has an outcome.\<close>

fun cont :: "'v callbacks \<Rightarrow> 'v on_success \<Rightarrow> on_fail \<Rightarrow> 'v outcome \<Rightarrow> 'v action" where
  "cont U s f (Value v) = call_success U v s"
| "cont U s f (Exception e) = call_fail U e f"

fun action_outcome :: "'v action \<Rightarrow> 'v outcome option" where
  "action_outcome (Complete_value n v) = Some (Value v)"
| "action_outcome (Complete_exception n e) = Some (Exception e)"
| "action_outcome (Wait_for k s f) = None"

lemma waits_complete:
  "n < length (f_store st) \<Longrightarrow> waits (set_value_state n v st) = waits st"
  "n < length (f_store st) \<Longrightarrow> waits (set_exception n e st) = waits st"
  by (auto simp: waits_def set_value_state_def set_exception_def update_controller_def future_post_def
      nth_list_update split: sum.splits if_splits)

lemma waits_register:
  "k < length (f_store st) \<Longrightarrow>
   waits (set_on_success_and_fail k s f st) = waits st \<union> {(k, Inl s), (k, Inr f)}"
  by (auto simp: waits_def set_on_success_and_fail_def update_controller_def future_post_def
      nth_list_update split: sum.splits if_splits)

lemma waits_new: "wired st \<Longrightarrow> waits (new_controller st) = waits st"
  by (fastforce simp: waits_def new_controller_def nth_append wired_def future_controller_init_def less_Suc_eq
      split: sum.splits)

lemma waits_process:
  assumes "c < length (f_store st)"
  shows "waits (process_on_success c st) \<subseteq> waits st" "waits (process_on_fail c st) \<subseteq> waits st"
  using assms
  by (auto simp: waits_def process_on_success_def process_on_fail_def Let_def update_controller_def
      future_post_def nth_list_update split: sum.splits if_splits)

lemma waits_take: "set pool \<subseteq> set (f_pool st) \<Longrightarrow> waits (st\<lparr>f_pool := pool\<rparr>) \<subseteq> waits st"
  by (auto simp: waits_def split: sum.splits)

lemma waits_promises [simp]: "waits (st\<lparr>f_promises := ps\<rparr>) = waits st"
  by (auto simp: waits_def split: sum.splits)

lemma promise_in_store:
  assumes "future_inv st" "c \<in> set (f_promises st)"
  shows "c < length (f_store st)"
proof -
  have "owed st c \<noteq> 0" using assms(2) by (simp add: owed_def count_list_0_iff)
  then show ?thesis
    using assms(1) by (force simp: future_inv_def balanced_def not_less [symmetric])
qed

lemma claimed:
  assumes "claim_completion c st = Inr st'"
  shows "c \<in> set (f_promises st)" "c < length (f_store st)" "f_store st' = f_store st" "waits st' = waits st"
    "f_promises st' = remove1 c (f_promises st)"
  using assms by (auto simp: claim_completion_def split: if_splits)

text \<open>The continuations that an action leaves at another controller.\<close>

definition new_waits :: "nat \<Rightarrow> 'v action \<Rightarrow> (controller_id \<times> 'v continuation) set" where
  "new_waits m a = (case a of Wait_for k s f \<Rightarrow> if k < m then {(k, Inl s), (k, Inr f)} else {} | _ \<Rightarrow> {})"

lemma waits_action:
  assumes "a_target a < length (f_store st)"
  shows "waits (run_action a st) \<subseteq> waits st \<union> new_waits (length (f_store st)) a"
proof (cases a)
  case (Wait_for k s f)
  have "(case f of F_forward n \<Rightarrow> n | F_catch n t \<Rightarrow> n | F_finally n t \<Rightarrow> n) = f_target f"
    by (cases f) simp_all
  then show ?thesis using assms Wait_for by (auto simp: waits_register waits_complete new_waits_def)
qed (use assms in \<open>simp_all add: waits_complete new_waits_def\<close>)

text \<open>
  A step adds a waiting continuation only for a new controller, or for a controller whose own
  continuation has just been run and decided to wait.
\<close>

definition act :: "'v callbacks \<Rightarrow> 'v future_state \<Rightarrow> controller_id \<times> 'v continuation \<Rightarrow> 'v action option" where
  "act U st y =
     (case snd y of
        Inl s \<Rightarrow> map_option (\<lambda>v. call_success U v s) (fc_val (f_store st ! fst y))
      | Inr f \<Rightarrow> map_option (\<lambda>e. call_fail U e f) (fc_exception (f_store st ! fst y)))"

lemma act_target: "act U st y = Some a \<Longrightarrow> a_target a = tgt (snd y)"
  by (cases y; cases "snd y") (auto simp: act_def call_targets)

lemma new_waits_target:
  assumes "act U st y = Some a" "(k, x) \<in> new_waits m a"
  shows "tgt x = tgt (snd y)"
proof -
  obtain s f where a: "a = Wait_for k s f" "x = Inl s \<or> x = Inr f"
    using assms(2) by (auto simp: new_waits_def split: action.splits if_splits)
  have "s_target s = tgt (snd y)"
    using assms(1) call_targets(3) call_targets(4) unfolding a(1) by (cases "snd y") (force simp: act_def)+
  then show ?thesis using act_target [OF assms(1)] a by auto
qed

text \<open>A task that calls a continuation is that continuation's action.\<close>

fun called :: "'v pool_task \<Rightarrow> (controller_id \<times> 'v continuation) option" where
  "called (Call_success c s) = Some (c, Inl s)"
| "called (Call_fail c f) = Some (c, Inr f)"
| "called t = None"

lemma call_in_waits:
  "wired st \<Longrightarrow> Call_success k s \<in> set (f_pool st) \<Longrightarrow> (k, Inl s) \<in> waits st"
  "wired st \<Longrightarrow> Call_fail k f \<in> set (f_pool st) \<Longrightarrow> (k, Inr f) \<in> waits st"
  by (auto simp: waits_def wired_def)

lemma called_task:
  assumes "future_inv st" "f_pool st = xs @ t # ys" "called t = Some y"
  obtains a where "act U st y = Some a" "y \<in> waits st" "a_target a < length (f_store st)"
    "run_pool_task U t (st\<lparr>f_pool := xs @ ys\<rparr>) = run_action a (st\<lparr>f_pool := xs @ ys\<rparr>)"
proof -
  have wir: "wired st" using assms(1) by (simp add: future_inv_def)
  have ok: "task_ok (f_store st) t" using wir assms(2) by (simp add: wired_def)
  show ?thesis
  proof (cases t)
    case (Call_success c s)
    then obtain v where v: "fc_val (f_store st ! c) = Some v" using ok by auto
    then show ?thesis
      using that [of "call_success U v s"] Call_success assms call_in_waits(1) [OF wir, of c s] take_call(3) [OF assms(1,2)]
      by (auto simp: act_def run_pool_task_def call_targets)
  next
    case (Call_fail c f)
    then obtain e where e: "fc_exception (f_store st ! c) = Some e" using ok by auto
    then show ?thesis
      using that [of "call_fail U e f"] Call_fail assms call_in_waits(2) [OF wir, of c f] take_call(3) [OF assms(1,2)]
      by (auto simp: act_def run_pool_task_def call_targets)
  qed (use assms(3) in simp_all)
qed

lemma waits_pool_task:
  assumes "future_inv st" "f_pool st = xs @ t # ys"
    and "(k, x) \<in> waits (run_pool_task U t (st\<lparr>f_pool := xs @ ys\<rparr>))"
  shows "(k, x) \<in> waits st \<or> (\<exists>y \<in> waits st. \<exists>a. act U st y = Some a \<and> (k, x) \<in> new_waits (length (f_store st)) a)"
proof -
  let ?st = "st\<lparr>f_pool := xs @ ys\<rparr>"
  have ok: "task_ok (f_store st) t" using assms(1,2) by (simp add: wired_def future_inv_def)
  have sub: "waits ?st \<subseteq> waits st" using assms(2) by (intro waits_take) auto
  show ?thesis
  proof (cases "called t")
    case None
    then show ?thesis
      using assms(3) ok sub waits_process(1) [of _ ?st] waits_process(2) [of _ ?st] by (cases t) (fastforce simp: run_pool_task_def)+
  next
    case (Some y)
    obtain a where a: "act U st y = Some a" "y \<in> waits st" "a_target a < length (f_store st)"
      "run_pool_task U t ?st = run_action a ?st" using called_task [OF assms(1,2) Some] .
    then show ?thesis using waits_action [of a ?st] assms(3) sub by auto
  qed
qed

lemma waits_attach:
  "wired st \<Longrightarrow> c < length (f_store st) \<Longrightarrow>
   waits (set_on_success_and_fail c s f (new_controller st)) = waits st \<union> {(c, Inl s), (c, Inr f)}"
  by (simp add: waits_register waits_new)

lemma waits_step:
  assumes "future_inv st" "(k, x) \<in> waits (fst (future_step U st e))"
  shows "(k, x) \<in> waits st \<or>
    length (f_store st) \<le> tgt x \<and> tgt x < length (f_store (fst (future_step U st e))) \<or>
    (\<exists>y \<in> waits st. \<exists>a. act U st y = Some a \<and> (k, x) \<in> new_waits (length (f_store st)) a)"
proof (cases "promise_of e")
  case (Some c)
  then show ?thesis
    by (cases rule: promise_event_cases [where U = U and st = st])
      (use assms(2) in \<open>auto simp: claimed waits_complete\<close>)
next
  case None
  then show ?thesis
  proof (cases e)
    case (Run_task i)
    then show ?thesis
      using waits_pool_task [OF assms(1), of "take i (f_pool st)" "f_pool st ! i" "drop (Suc i) (f_pool st)"]
        assms(2) id_take_nth_drop [of i "f_pool st"] by (auto split: if_splits)
  next
    case (Then c t fut)
    have wir: "wired st" using assms(1) by (simp add: future_inv_def)
    have "c < length (f_store st) \<Longrightarrow> (k, x) \<in> waits (future_then c t fut st) \<Longrightarrow>
        (k, x) \<in> waits st \<or> length (f_store st) \<le> tgt x \<and> tgt x < length (f_store (future_then c t fut st))"
      using waits_attach [OF wir] waits_attach [OF future_then_inv [OF assms(1), of c t False,
        unfolded future_inv_def, THEN conjunct2]]
      by (auto simp: future_then_def Let_def split: if_splits)
    then show ?thesis using Then assms(2) by (auto simp: on_valid_future_def split: if_splits)
  next
    case New_promise
    then show ?thesis using assms waits_new by (auto simp: new_promise_def future_inv_def)
  qed (use assms waits_attach [of st] in
      \<open>auto simp: future_inv_def on_valid_future_def future_catched_def catched_on_success_def
        future_finally_def Let_def split: if_splits\<close>)
qed


section \<open>Who completes a controller\<close>

lemma get_outcome_completions: "get_outcome st n = None \<longleftrightarrow> completions (f_store st ! n) = 0"
  by (auto simp: get_outcome_def completions_def split: option.splits if_splits)

lemma f_target_case: "(case f of F_forward n \<Rightarrow> n | F_catch n t \<Rightarrow> n | F_finally n t \<Rightarrow> n) = f_target f"
  by (cases f) simp_all

lemma action_other:
  "a_target a < length (f_store st) \<Longrightarrow> m \<noteq> a_target a \<Longrightarrow>
   completions (f_store (run_action a st) ! m) = completions (f_store st ! m)"
  by (cases a) (auto simp: set_value_state_def set_exception_def store_update f_target_case
      register_completions)

lemma action_outcome_run:
  assumes "completions (f_store st ! n) = 0" "n < length (f_store st)" "a_target a = n"
    and "action_outcome a = Some out"
  shows "get_outcome (run_action a st) n = Some out"
  using assms by (cases a) (auto simp: set_value_state_def set_exception_def store_update get_outcome_def
      completions_def split: if_splits)

lemma process_completions:
  "c < length (f_store st) \<Longrightarrow> completions (f_store (process_on_success c st) ! m) = completions (f_store st ! m)"
  "c < length (f_store st) \<Longrightarrow> completions (f_store (process_on_fail c st) ! m) = completions (f_store st ! m)"
  by (auto simp: process_on_success_def process_on_fail_def Let_def store_update)

text \<open>The outcome that the target of an action has right after it; a future that names none of the \<open>m\<close> controllers is invalid.\<close>

definition outcome_after :: "nat \<Rightarrow> 'v action \<Rightarrow> 'v outcome option" where
  "outcome_after m a =
     (case a of Wait_for k s f \<Rightarrow> if k < m then None else Some (Exception invalid_future) | _ \<Rightarrow> action_outcome a)"

lemma outcome_after_run:
  assumes "completions (f_store st ! n) = 0" "n < length (f_store st)" "a_target a = n"
  shows "get_outcome (run_action a st) n = outcome_after (length (f_store st)) a"
proof (cases a)
  case (Wait_for k s f)
  then show ?thesis
    using assms register_completions [of k st s f n] get_outcome_completions [of "set_on_success_and_fail k s f st" n]
    by (auto simp: outcome_after_def f_target_case set_exception_def store_update get_outcome_def)
qed (use assms action_outcome_run [of st n a] in \<open>simp_all add: outcome_after_def\<close>)

lemma completed_by_task:
  assumes "future_inv st" "f_pool st = xs @ t # ys" "completions (f_store st ! n) = 0"
    and st'_def: "st' = run_pool_task U t (st\<lparr>f_pool := xs @ ys\<rparr>)"
    and "completions (f_store st' ! n) > 0"
  shows "\<exists>y \<in> waits st. tgt (snd y) = n \<and> (\<exists>a. act U st y = Some a \<and> get_outcome st' n = outcome_after (length (f_store st)) a)"
proof -
  have ok: "task_ok (f_store st) t" using assms(1,2) by (simp add: wired_def future_inv_def)
  let ?st = "st\<lparr>f_pool := xs @ ys\<rparr>"
  show ?thesis
  proof (cases "called t")
    case None
    then show ?thesis
      using assms(3,5) ok process_completions [of _ ?st n] by (cases t) (auto simp: st'_def run_pool_task_def)
  next
    case (Some y)
    obtain a where a: "act U st y = Some a" "y \<in> waits st" "a_target a < length (f_store st)" "st' = run_action a ?st"
      using called_task [OF assms(1,2) Some] unfolding st'_def .
    then have n: "a_target a = n" using assms(3,5) action_other [of a ?st n] by auto
    then have "get_outcome st' n = outcome_after (length (f_store st)) a"
      using outcome_after_run [of ?st n a] assms(3) a(3,4) by simp
    then show ?thesis using a(1,2) n act_target [OF a(1)] by auto
  qed
qed

lemma completions_attach:
  "c < length (f_store st) \<Longrightarrow> n < length (f_store st) \<Longrightarrow>
   completions (f_store (set_on_success_and_fail c s f (new_controller st)) ! n) = completions (f_store st ! n)"
  by (simp add: register_completions) (simp add: new_controller_def nth_append)

lemma completed_by_step:
  assumes "future_inv st" "n < length (f_store st)" "completions (f_store st ! n) = 0"
    and "completions (f_store (fst (future_step U st e)) ! n) > 0"
  shows "n \<in> set (f_promises st) \<or>
    (\<exists>y \<in> waits st. tgt (snd y) = n \<and>
       (\<exists>a. act U st y = Some a \<and> get_outcome (fst (future_step U st e)) n = outcome_after (length (f_store st)) a))"
proof (cases "promise_of e")
  case (Some c)
  then show ?thesis
    by (cases rule: promise_event_cases [where U = U and st = st]; cases "c = n")
      (use assms(2-4) in \<open>auto simp: claimed set_value_state_def set_exception_def store_update\<close>)
next
  case None
  then show ?thesis
  proof (cases e)
    case (Run_task i)
    then show ?thesis
      using completed_by_task [OF assms(1), of "take i (f_pool st)" "f_pool st ! i" "drop (Suc i) (f_pool st)" n _ U, OF _ _ refl]
        assms(3,4) id_take_nth_drop [of i "f_pool st"] by (auto split: if_splits)
  next
    case (Then c t fut)
    have "c < length (f_store st) \<Longrightarrow> completions (f_store (future_then c t fut st) ! n) = completions (f_store st ! n)"
      using assms(2) completions_attach [of c st n]
        completions_attach [of "length (f_store st)" "set_on_success_and_fail c (S_then (length (f_store st)) t)
          (F_forward (length (f_store st))) (new_controller st)" n]
      by (simp add: future_then_def Let_def)
    then show ?thesis using Then assms(3,4) by (auto simp: on_valid_future_def split: if_splits)
  next
    case New_promise
    then show ?thesis using assms(2-4) by (simp add: new_promise_def) (simp add: new_controller_def nth_append)
  qed (use assms completions_attach [of _ st n] in
      \<open>auto simp: on_valid_future_def future_catched_def future_finally_def Let_def split: if_splits\<close>)
qed

lemma promises_step:
  "n < length (f_store st) \<Longrightarrow> n \<notin> set (f_promises st) \<Longrightarrow> n \<notin> set (f_promises (fst (future_step U st e)))"
  (is "_ \<Longrightarrow> _ \<Longrightarrow> ?thesis")
proof -
  assume n: "n < length (f_store st)" "n \<notin> set (f_promises st)"
  have [simp]: "f_promises (future_post ts a) = f_promises a" "f_promises (update_controller c g a) = f_promises a"
    "f_promises (new_controller a) = f_promises a" for ts c g and a :: "'a future_state"
    by (simp_all add: future_post_def update_controller_def new_controller_def)
  have [simp]: "f_promises (set_on_success_and_fail c s f a) = f_promises a"
    "f_promises (set_value_state c v a) = f_promises a" "f_promises (set_exception c x a) = f_promises a"
    for c s f v x and a :: "'a future_state"
    by (simp_all add: set_on_success_and_fail_def set_value_state_def set_exception_def)
  have [simp]: "f_promises (run_action a b) = f_promises b" for a and b :: "'a future_state"
    by (cases a) simp_all
  have [simp]: "f_promises (run_pool_task U t a) = f_promises a" for t and a :: "'a future_state"
    by (simp add: run_pool_task_def process_on_success_def process_on_fail_def Let_def
        split: pool_task.split option.split)
  have rm: "n \<notin> set (remove1 c (f_promises st))" for c using n(2) by (meson notin_set_remove1)
  show ?thesis
  proof (cases "promise_of e")
    case (Some c)
    then show ?thesis
      by (cases rule: promise_event_cases [where U = U and st = st]) (use n rm in \<open>auto simp: claimed\<close>)
  next
    case None
    then show ?thesis
      using n by (cases e) (auto simp: on_valid_future_def future_then_def future_catched_def
          future_finally_def new_promise_def Let_def)
  qed
qed


section \<open>A child follows its parent\<close>

definition never_waits :: "'v callbacks \<Rightarrow> 'v on_success \<Rightarrow> on_fail \<Rightarrow> bool" where
  "never_waits U s f \<longleftrightarrow> (\<forall>oc. action_outcome (cont U s f oc) \<noteq> None)"

text \<open>What a continuation leaves at a returned future waits for nothing else.\<close>

lemma follower_never_waits:
  "cont U s f oc = Wait_for j s2 f2 \<Longrightarrow> never_waits U s2 f2"
proof -
  have "never_waits U (S_forward n) (F_forward n)" "never_waits U (S_set_value n v) (F_forward n)"
    "never_waits U (S_set_exception n e) (F_forward n)" for n v e
    unfolding never_waits_def by (intro allI; case_tac oc; simp)+
  then show "cont U s f oc = Wait_for j s2 f2 \<Longrightarrow> never_waits U s2 f2"
    by (cases oc; cases s; cases f)
      (auto simp: exec_then_on_success_def flatten_on_success_def finally_on_success_def catched_on_fail_def
        finally_on_fail_def split: task_ret.splits fval.splits option.splits)
qed

text \<open>
  The outcome of the target of an action in a later state: that of the action, or what its follower makes of the outcome of the
  returned future; a future that is none of the \<open>m\<close> first controllers may have been invalid.
\<close>

definition resolved :: "'v callbacks \<Rightarrow> nat \<Rightarrow> 'v future_state \<Rightarrow> 'v action \<Rightarrow> 'v outcome \<Rightarrow> bool" where
  "resolved U m st a out \<longleftrightarrow>
     (case a of
        Wait_for j s f \<Rightarrow>
          j < length (f_store st) \<and> (\<exists>oj. get_outcome st j = Some oj \<and> action_outcome (cont U s f oj) = Some out) \<or>
          m \<le> j \<and> out = Exception invalid_future
      | _ \<Rightarrow> action_outcome a = Some out)"

text \<open>
  \<open>n\<close> was created with the continuations \<open>s\<close> and \<open>f\<close> attached to \<open>c\<close>: only these can complete it, or what they have left at a future that
  the callback returned.
\<close>

definition follower ::
  "'v callbacks \<Rightarrow> controller_id \<Rightarrow> 'v on_success \<Rightarrow> on_fail \<Rightarrow> 'v future_state \<Rightarrow> controller_id \<times> 'v continuation \<Rightarrow> bool"
where
  "follower U c s f st y \<longleftrightarrow>
     (\<exists>oc. get_outcome st c = Some oc \<and> y \<in> new_waits (length (f_store st)) (cont U s f oc))"

definition link ::
  "'v callbacks \<Rightarrow> nat \<Rightarrow> controller_id \<Rightarrow> controller_id \<Rightarrow> 'v on_success \<Rightarrow> on_fail \<Rightarrow> 'v future_state \<Rightarrow> bool"
where
  "link U m n c s f st \<longleftrightarrow>
     n < length (f_store st) \<and> c < length (f_store st) \<and> m \<le> length (f_store st) \<and> n \<notin> set (f_promises st) \<and>
     (\<forall>y \<in> waits st. tgt (snd y) = n \<longrightarrow> y = (c, Inl s) \<or> y = (c, Inr f) \<or> follower U c s f st y) \<and>
     (\<forall>out. get_outcome st n = Some out \<longrightarrow>
        (\<exists>oc. get_outcome st c = Some oc \<and> resolved U m st (cont U s f oc) out))"

lemma outcome_kept:
  "keeps_outcomes st st' \<Longrightarrow> n < length (f_store st) \<Longrightarrow> get_outcome st n = Some out \<Longrightarrow>
   get_outcome st' n = Some out"
  using get_outcome_completions [of st n]
  by (cases "fc_exception (f_store st ! n)") (auto simp: keeps_outcomes_def same_outcome_def get_outcome_def)

lemma act_outcome:
  assumes "balanced None st" "c < length (f_store st)" "y = (c, Inl s) \<or> y = (c, Inr f)" "act U st y = Some a"
  shows "\<exists>oc. get_outcome st c = Some oc \<and> cont U s f oc = a"
proof -
  have le: "completions (f_store st ! c) \<le> 1" using assms(1,2) by (rule completions_le_1)
  from assms(3) show ?thesis
  proof
    assume "y = (c, Inl s)"
    then obtain v where "fc_val (f_store st ! c) = Some v" "a = call_success U v s"
      using assms(4) by (auto simp: act_def)
    moreover from this le have "fc_exception (f_store st ! c) = None"
      by (simp add: completions_def split: if_splits)
    ultimately show ?thesis by (intro exI [of _ "Value v"]) (simp add: get_outcome_def)
  next
    assume "y = (c, Inr f)"
    then obtain e where "fc_exception (f_store st ! c) = Some e" "a = call_fail U e f"
      using assms(4) by (auto simp: act_def)
    then show ?thesis by (intro exI [of _ "Exception e"]) (simp add: get_outcome_def)
  qed
qed

lemma new_waitsE:
  assumes "y \<in> new_waits m a"
  obtains j s f where "a = Wait_for j s f" "j < m" "y = (j, Inl s) \<or> y = (j, Inr f)"
  using assms by (auto simp: new_waits_def split: action.splits if_splits)

lemma resolved_kept:
  assumes "keeps_outcomes st st'" "resolved U m st a out"
  shows "resolved U m st' a out"
proof (cases a)
  case (Wait_for j s f)
  then show ?thesis
    using assms(2) outcome_kept [OF assms(1), of j] assms(1) by (auto simp: resolved_def keeps_outcomes_def)
qed (use assms(2) in \<open>simp_all add: resolved_def\<close>)

lemma follower_kept:
  assumes "keeps_outcomes st st'" "c < length (f_store st)" "follower U c s f st y"
  shows "follower U c s f st' y"
proof -
  have "length (f_store st) \<le> length (f_store st')" using assms(1) by (simp add: keeps_outcomes_def)
  then have "y \<in> new_waits (length (f_store st)) a \<Longrightarrow> y \<in> new_waits (length (f_store st')) a" for a
    by (auto simp: new_waits_def split: action.splits if_splits)
  then show ?thesis using assms(3) outcome_kept [OF assms(1,2)] by (auto simp: follower_def)
qed

text \<open>A follower completes its target when it runs.\<close>

lemma follower_act:
  assumes "balanced None st" "follower U c s f st y" "act U st y = Some a"
  obtains oc j s2 f2 oj where "get_outcome st c = Some oc" "cont U s f oc = Wait_for j s2 f2" "j < length (f_store st)"
    "get_outcome st j = Some oj" "cont U s2 f2 oj = a" "action_outcome a \<noteq> None"
proof -
  obtain oc where oc: "get_outcome st c = Some oc" "y \<in> new_waits (length (f_store st)) (cont U s f oc)"
    using assms(2) by (auto simp: follower_def)
  obtain j s2 f2 where w: "cont U s f oc = Wait_for j s2 f2" "j < length (f_store st)" "y = (j, Inl s2) \<or> y = (j, Inr f2)"
    using new_waitsE [OF oc(2)] .
  obtain oj where oj: "get_outcome st j = Some oj" "cont U s2 f2 oj = a" using act_outcome [OF assms(1) w(2,3) assms(3)] by blast
  have "action_outcome a \<noteq> None" using follower_never_waits [OF w(1)] oj(2) unfolding never_waits_def by blast
  then show ?thesis using that oc(1) w(1,2) oj by blast
qed

lemma outcome_after_resolved:
  "outcome_after (length (f_store st)) a = Some out \<Longrightarrow> m \<le> length (f_store st) \<Longrightarrow> resolved U m st a out"
  by (cases a) (auto simp: outcome_after_def resolved_def split: if_splits)

lemma outcome_after_act: "action_outcome a \<noteq> None \<Longrightarrow> outcome_after m a = action_outcome a"
  by (cases a) (simp_all add: outcome_after_def)

lemma link_waits_step:
  assumes inv: "future_inv st" and link: "link U m n c s f st" and y: "y \<in> waits (fst (future_step U st e))" "tgt (snd y) = n"
  shows "y = (c, Inl s) \<or> y = (c, Inr f) \<or> follower U c s f (fst (future_step U st e)) y"
proof -
  have n: "n < length (f_store st)" "c < length (f_store st)"
    and w: "\<And>y. y \<in> waits st \<Longrightarrow> tgt (snd y) = n \<Longrightarrow> y = (c, Inl s) \<or> y = (c, Inr f) \<or> follower U c s f st y"
    using link unfolding link_def by blast+
  have bal: "balanced None st" using inv by (simp add: future_inv_def)
  note keep = follower_kept [OF keeps_step [OF inv, of U e] n(2)]
  obtain k x where kx: "y = (k, x)" by fastforce
  consider "y \<in> waits st" | z a where "z \<in> waits st" "act U st z = Some a" "y \<in> new_waits (length (f_store st)) a"
    using waits_step [OF inv, of k x U e] y n kx by auto
  then show ?thesis
  proof cases
    case 1
    then show ?thesis using w y(2) keep by blast
  next
    case 2
    have "tgt (snd z) = n" using new_waits_target [OF 2(2)] 2(3) y(2) kx by auto
    then consider "z = (c, Inl s) \<or> z = (c, Inr f)" | "follower U c s f st z" using w 2(1) by blast
    then show ?thesis
    proof cases
      case 1
      then have "follower U c s f st y" using act_outcome [OF bal n(2) 1 2(2)] 2(3) by (auto simp: follower_def)
      then show ?thesis using keep by blast
    next
      case 3: 2
      then have "action_outcome a \<noteq> None" using follower_act [OF bal 3 2(2)] by blast
      then show ?thesis using new_waitsE [OF 2(3)] by (metis action_outcome.simps(3))
    qed
  qed
qed

lemma link_outcome_step:
  assumes inv: "future_inv st" and link: "link U m n c s f st" and o': "get_outcome (fst (future_step U st e)) n = Some out"
  shows "\<exists>oc. get_outcome (fst (future_step U st e)) c = Some oc \<and> resolved U m (fst (future_step U st e)) (cont U s f oc) out"
proof -
  let ?st = "fst (future_step U st e)"
  have n: "n < length (f_store st)" "c < length (f_store st)" "m \<le> length (f_store st)" "n \<notin> set (f_promises st)"
    and w: "\<And>y. y \<in> waits st \<Longrightarrow> tgt (snd y) = n \<Longrightarrow> y = (c, Inl s) \<or> y = (c, Inr f) \<or> follower U c s f st y"
    and out: "\<And>out. get_outcome st n = Some out \<Longrightarrow> \<exists>oc. get_outcome st c = Some oc \<and> resolved U m st (cont U s f oc) out"
    using link unfolding link_def by blast+
  have bal: "balanced None st" using inv by (simp add: future_inv_def)
  note keep = keeps_step [OF inv, of U e]
  have "\<exists>oc. get_outcome st c = Some oc \<and> resolved U m st (cont U s f oc) out"
  proof (cases "get_outcome st n")
    case (Some out')
    then show ?thesis using outcome_kept [OF keep n(1)] o' out by auto
  next
    case None
    then have open_n: "completions (f_store st ! n) = 0" by (simp add: get_outcome_completions)
    have "completions (f_store ?st ! n) > 0" using o' get_outcome_completions [of ?st n] by simp
    then obtain y a where y: "y \<in> waits st" "tgt (snd y) = n" "act U st y = Some a" "outcome_after (length (f_store st)) a = Some out"
      using completed_by_step [OF inv n(1) open_n, of U e] n(4) o' by force
    consider "y = (c, Inl s) \<or> y = (c, Inr f)" | "follower U c s f st y" using w y(1,2) by blast
    then show ?thesis
    proof cases
      case 1
      then show ?thesis using act_outcome [OF bal n(2) 1 y(3)] outcome_after_resolved [OF y(4) n(3)] by blast
    next
      case 2
      obtain oc j s2 f2 oj where f: "get_outcome st c = Some oc" "cont U s f oc = Wait_for j s2 f2" "j < length (f_store st)"
        "get_outcome st j = Some oj" "cont U s2 f2 oj = a" "action_outcome a \<noteq> None" using follower_act [OF bal 2 y(3)] .
      then show ?thesis using outcome_after_act [OF f(6)] y(4) by (auto simp: resolved_def)
    qed
  qed
  then show ?thesis using outcome_kept [OF keep n(2)] resolved_kept [OF keep] by blast
qed

lemma link_step:
  assumes "future_inv st" "link U m n c s f st"
  shows "link U m n c s f (fst (future_step U st e))"
proof -
  have "n < length (f_store st)" "c < length (f_store st)" "m \<le> length (f_store st)" "n \<notin> set (f_promises st)"
    using assms(2) by (simp_all add: link_def)
  then show ?thesis
    using link_waits_step [OF assms, of _ e] link_outcome_step [OF assms, of e] keeps_step [OF assms(1), of U e] promises_step [of n st U e]
    unfolding link_def by (auto simp: keeps_outcomes_def)
qed

lemma link_run:
  "future_inv st \<Longrightarrow> link U m n c s f st \<Longrightarrow> link U m n c s f (run_state (future_step U) st es)"
proof (induction es arbitrary: st)
  case Nil
  then show ?case by simp
next
  case (Cons e es)
  then show ?case using link_step [OF Cons.prems] future_inv_step [OF Cons.prems(1)] by simp
qed

text \<open>Continuations only wait for controllers that exist.\<close>

definition targets_ok :: "'v future_state \<Rightarrow> bool" where
  "targets_ok st \<longleftrightarrow> (\<forall>y \<in> waits st. tgt (snd y) < length (f_store st))"

lemma targets_ok_step:
  assumes "future_inv st" "targets_ok st"
  shows "targets_ok (fst (future_step U st e))"
  unfolding targets_ok_def
proof
  fix y
  assume "y \<in> waits (fst (future_step U st e))"
  moreover obtain k x where "y = (k, x)" by fastforce
  ultimately show "tgt (snd y) < length (f_store (fst (future_step U st e)))"
    using waits_step [OF assms(1), of k x U e] assms(2) keeps_step [OF assms(1), of U e] new_waits_target [of U st _ _ k x]
    by (fastforce simp: targets_ok_def keeps_outcomes_def)
qed

lemma targets_ok_run: "future_inv st \<Longrightarrow> targets_ok st \<Longrightarrow> targets_ok (run_state (future_step U) st es)"
proof (induction es arbitrary: st)
  case Nil
  then show ?case by simp
next
  case (Cons e es)
  then show ?case using targets_ok_step [OF Cons.prems] future_inv_step [OF Cons.prems(1)] by simp
qed

lemma attach_outcome:
  "c < length (f_store st) \<Longrightarrow> n \<le> length (f_store st) \<Longrightarrow>
   get_outcome (set_on_success_and_fail c s f (new_controller st)) n =
     (if n < length (f_store st) then get_outcome st n else None)"
  by (auto simp: set_on_success_and_fail_def get_outcome_def store_update new_controller_def nth_append future_controller_init_def
      split: option.split)

lemma attach_promises: "f_promises (set_on_success_and_fail c s f (new_controller st)) = f_promises st"
  by (simp add: set_on_success_and_fail_def future_post_def update_controller_def new_controller_def)

lemma targets_fresh: "targets_ok st \<Longrightarrow> y \<in> waits st \<Longrightarrow> length (f_store st) \<le> n \<Longrightarrow> tgt (snd y) \<noteq> n"
  by (auto simp: targets_ok_def)

lemma link_attach:
  assumes "future_inv st" "c < length (f_store st)" "s_target s = length (f_store st)"
    "f_target f = length (f_store st)" "targets_ok st" "m \<le> length (f_store st)"
  shows "link U m (length (f_store st)) c s f (set_on_success_and_fail c s f (new_controller st))"
proof -
  let ?n = "length (f_store st)"
  have wir: "wired st" using assms(1) by (simp add: future_inv_def)
  have "?n \<notin> set (f_promises st)" using promise_in_store [OF assms(1), of ?n] by auto
  then show ?thesis
    using waits_attach [OF wir assms(2), of s f] targets_fresh [OF assms(5), of _ ?n] assms(2,6) attach_outcome [OF assms(2), of ?n s f]
    by (auto simp: link_def attach_promises)
qed

text \<open>The two controllers of a \<open>then\<close> whose callback returns a future.\<close>

lemma link_then_future:
  fixes st c t
  assumes inv: "future_inv st" and c: "c < length (f_store st)" and tgts: "targets_ok st"
  defines "n \<equiv> length (f_store st)" and "st1 \<equiv> future_then c t True st"
  shows "link U n n c (S_then n t) (F_forward n) st1 \<and> link U n (Suc n) n (S_flatten (Suc n)) (F_forward (Suc n)) st1"
proof -
  let ?st = "future_then c t False st"
  have st: "?st = set_on_success_and_fail c (S_then n t) (F_forward n) (new_controller st)"
    by (simp add: future_then_def n_def Let_def)
  have st1: "st1 = set_on_success_and_fail n (S_flatten (Suc n)) (F_forward (Suc n)) (new_controller ?st)"
    by (simp add: st1_def future_then_def n_def Let_def)
  have step: "?st = fst (future_step (\<lambda>_ _. Ret_void) st (Then c t False))" using c by (simp add: on_valid_future_def)
  have inv1: "future_inv ?st" and tgts1: "targets_ok ?st"
    unfolding step by (rule future_inv_step [OF inv], rule targets_ok_step [OF inv tgts])
  have len: "length (f_store ?st) = Suc n" by (simp add: st n_def)
  have a: "link U n n c (S_then n t) (F_forward n) ?st"
    unfolding st unfolding n_def by (rule link_attach [OF inv c]) (simp_all add: tgts)
  have b: "link U n (Suc n) n (S_flatten (Suc n)) (F_forward (Suc n)) st1"
    unfolding st1 len [symmetric] by (rule link_attach [OF inv1]) (simp_all add: tgts1 len)
  have wir: "wired ?st" using inv1 by (simp add: future_inv_def)
  have "waits st1 = waits ?st \<union> {(n, Inl (S_flatten (Suc n))), (n, Inr (F_forward (Suc n)))}"
    unfolding st1 by (rule waits_attach [OF wir]) (simp add: len)
  moreover have "get_outcome st1 x = get_outcome ?st x" if "x < Suc n" for x
    unfolding st1 using that attach_outcome [of n ?st x] by (simp add: len)
  moreover have "get_outcome ?st n = None" unfolding st using attach_outcome [OF c, of n] by (simp add: n_def)
  moreover have "\<not> follower U c (S_then n t) (F_forward n) ?st y" for y
  proof
    assume "follower U c (S_then n t) (F_forward n) ?st y"
    then obtain oc where "y \<in> new_waits (length (f_store ?st)) (cont U (S_then n t) (F_forward n) oc)" by (auto simp: follower_def)
    then show False by (cases oc) (auto simp: new_waits_def exec_then_on_success_def split: task_ret.splits)
  qed
  ultimately have "link U n n c (S_then n t) (F_forward n) st1"
    using a c by (auto simp: link_def st1 attach_promises len n_def)
  then show ?thesis using b by blast
qed


section \<open>Properties\<close>

lemma reachable_future:
  "future_inv (run_state (future_step U) future_state_init es)"
  "targets_ok (run_state (future_step U) future_state_init es)"
proof -
  have "targets_ok future_state_init" by (simp add: targets_ok_def waits_def future_state_init_def)
  then show "future_inv (run_state (future_step U) future_state_init es)"
    "targets_ok (run_state (future_step U) future_state_init es)"
    using fut.inv_run [OF future_inv_init] targets_ok_run [OF future_inv_init] by blast+
qed

text \<open>
  C15: A future is completed exactly once and for good.  In every reachable state each controller has
  a value, or an exception, or neither, never both; it is completed or there is exactly one
  promise or continuation that still owes it its completion; and an outcome once visible never
  changes.
\<close>

theorem future_completed_once:
  fixes U :: "'v callbacks" and es es' :: "'v future_event list"
  defines "st \<equiv> run_state (future_step U) future_state_init es"
  assumes "c < length (f_store st)"
  shows "\<not> (has_value st c \<and> has_exception st c) \<and>
    (if has_value st c \<or> has_exception st c then owed st c = 0 else owed st c = 1) \<and>
    (get_outcome st c \<noteq> None \<longrightarrow>
       get_outcome (run_state (future_step U) st es') c = get_outcome st c)"
proof -
  have inv: "future_inv st" unfolding st_def by (rule reachable_future)
  then have "completions (f_store st ! c) + owed st c = 1"
    using assms(2) by (simp add: future_inv_def balanced_def)
  then have "\<not> (has_value st c \<and> has_exception st c)"
    "if has_value st c \<or> has_exception st c then owed st c = 0 else owed st c = 1"
    by (auto simp: completions_def has_value_def has_exception_def split: if_splits)
  then show ?thesis using outcome_kept [OF keeps_run [OF inv] assms(2)] by fastforce
qed

definition example_callbacks :: "nat callbacks" where
  "example_callbacks t a =
     (case a of
        Arg_value (Plain v) \<Rightarrow> if t = 0 then Ret (v + 1) else Throws (Runtime_error ''bad'')
      | Arg_exception e \<Rightarrow> Ret 42
      | _ \<Rightarrow> Ret 0)"

definition future_example :: "nat future_event list" where
  "future_example =
     [New_promise, Then 0 0 False, Then 1 1 False, Catched 2 2 False, Promise_set_value 0 (Inr 5),
      Run_task 4, Run_task 6, Run_task 7, Run_task 9]"

theorem future_completed_once_witness:
  "\<not> (has_value (run_state (future_step example_callbacks) future_state_init future_example) 1 \<and>
      has_exception (run_state (future_step example_callbacks) future_state_init future_example) 1)"
proof -
  have "1 < length (f_store (run_state (future_step example_callbacks) future_state_init future_example))"
    by code_simp
  then show ?thesis using future_completed_once [of 1 example_callbacks future_example "[]"] by blast
qed

text \<open>
  C16: No continuation is lost.  When the pool has no work, nothing waits at a completed controller,
  so every controller without an outcome waits for a promise that has not been set or for
  another controller without an outcome.
\<close>

theorem idle_pool_nothing_lost:
  fixes U :: "'v callbacks" and es :: "'v future_event list"
  defines "st \<equiv> run_state (future_step U) future_state_init es"
  assumes "f_pool st = []" "n < length (f_store st)"
  shows "(get_outcome st n \<noteq> None \<longrightarrow>
      fc_on_success_queue (f_store st ! n) = [] \<and> fc_on_fail_queue (f_store st ! n) = []) \<and>
    (get_outcome st n = None \<longrightarrow>
       n \<in> set (f_promises st) \<or>
       (\<exists>c < length (f_store st). get_outcome st c = None \<and>
          n \<in> s_target ` set (fc_on_success_queue (f_store st ! c))))"
proof -
  have inv: "future_inv st" unfolding st_def by (rule reachable_future)
  have empty: "fc_on_success_queue (f_store st ! c) = [] \<and> fc_on_fail_queue (f_store st ! c) = []"
    if "get_outcome st c \<noteq> None" "c < length (f_store st)" for c
    using inv assms(2) that get_outcome_completions [of st c]
    by (auto simp: future_inv_def wired_def controller_ok_def)
  have "n \<in> set (f_promises st) \<or> (\<exists>c < length (f_store st). get_outcome st c = None \<and>
      n \<in> s_target ` set (fc_on_success_queue (f_store st ! c)))" if none: "get_outcome st n = None"
  proof (rule disjCI)
    assume "\<not> (\<exists>c < length (f_store st). get_outcome st c = None \<and>
      n \<in> s_target ` set (fc_on_success_queue (f_store st ! c)))"
    then have "count_list (owed_targets (f_store st ! c)) n = 0" if "c < length (f_store st)" for c
      using empty [OF _ that] that
      by (cases "get_outcome st c") (auto simp: owed_targets_def get_outcome_def count_list_0_iff split: option.splits)
    then have zero: "(\<Sum>fc\<leftarrow>f_store st. count_list (owed_targets fc) n) = 0"
      by (auto simp: sum_list_eq_0_iff in_set_conv_nth)
    have "owed st n = 1"
      using inv assms(3) none get_outcome_completions [of st n]
      by (auto simp: future_inv_def balanced_def dest!: spec [of _ n])
    then have "count_list (f_promises st) n = 1" using assms(2) by (simp add: owed_def zero)
    then show "n \<in> set (f_promises st)" by (metis count_list_0_iff zero_neq_one)
  qed
  then show ?thesis using empty [OF _ assms(3)] by blast
qed

definition idle_example :: "nat future_event list" where
  "idle_example = [New_promise, Then 0 0 False, Run_task 0, Run_task 0]"

theorem idle_pool_nothing_lost_witness:
  "1 \<in> set (f_promises (run_state (future_step example_callbacks) future_state_init idle_example)) \<or>
   (\<exists>c < length (f_store (run_state (future_step example_callbacks) future_state_init idle_example)).
      get_outcome (run_state (future_step example_callbacks) future_state_init idle_example) c = None \<and>
      1 \<in> s_target ` set (fc_on_success_queue
        (f_store (run_state (future_step example_callbacks) future_state_init idle_example) ! c)))"
proof -
  let ?st = "run_state (future_step example_callbacks) future_state_init idle_example"
  have "f_pool ?st = []" "1 < length (f_store ?st)" "get_outcome ?st 1 = None" by code_simp+
  then show ?thesis using idle_pool_nothing_lost [of example_callbacks idle_example 1] by simp
qed

text \<open>
  The specification of the ways to chain a callback: from the outcome of the parent, the outcome of the child, or that the child gets
  what a function makes of the outcome of the future that the callback has returned.
\<close>

datatype chain = Chain_then | Chain_then_future | Chain_catched | Chain_catched_void | Chain_finally

fun chain_event :: "chain \<Rightarrow> controller_id \<Rightarrow> task_id \<Rightarrow> 'v future_event" where
  "chain_event Chain_then c t = Then c t False"
| "chain_event Chain_then_future c t = Then c t True"
| "chain_event Chain_catched c t = Catched c t False"
| "chain_event Chain_catched_void c t = Catched c t True"
| "chain_event Chain_finally c t = Finally c t"

text \<open>The returned future; a callback that returns a future has one more controller in between.\<close>

definition chain_child :: "chain \<Rightarrow> nat \<Rightarrow> controller_id" where
  "chain_child k n = (if k = Chain_then_future then Suc n else n)"

datatype 'v expected = Outcome "'v outcome" | Follow controller_id "'v outcome \<Rightarrow> 'v outcome"

fun ret_outcome :: "'v task_ret \<Rightarrow> 'v outcome" where
  "ret_outcome (Ret x) = Value (Plain x)"
| "ret_outcome Ret_void = Value Void"
| "ret_outcome (Ret_future j) = Value (Fut j)"
| "ret_outcome (Throws e) = Exception e"

fun flat_outcome :: "'v task_ret \<Rightarrow> 'v expected" where
  "flat_outcome (Ret_future None) = Outcome (Exception invalid_future)"
| "flat_outcome (Ret_future (Some j)) = Follow j (\<lambda>out. out)"
| "flat_outcome r = Outcome (ret_outcome r)"

fun after :: "'v outcome \<Rightarrow> 'v outcome \<Rightarrow> 'v outcome" where
  "after out (Value v) = out"
| "after out (Exception e) = Exception e"

fun finally_outcome :: "'v outcome \<Rightarrow> 'v task_ret \<Rightarrow> 'v expected" where
  "finally_outcome out (Throws e) = Outcome (Exception e)"
| "finally_outcome out (Ret_future None) = Outcome (Exception invalid_future)"
| "finally_outcome out (Ret_future (Some j)) = Follow j (after out)"
| "finally_outcome out r = Outcome out"

fun chain_spec :: "'v callbacks \<Rightarrow> chain \<Rightarrow> task_id \<Rightarrow> 'v outcome \<Rightarrow> 'v expected" where
  "chain_spec U Chain_then t (Value v) = Outcome (ret_outcome (U t (Arg_value v)))"
| "chain_spec U Chain_then t (Exception e) = Outcome (Exception e)"
| "chain_spec U Chain_then_future t (Value v) = flat_outcome (U t (Arg_value v))"
| "chain_spec U Chain_then_future t (Exception e) = Outcome (Exception e)"
| "chain_spec U Chain_catched t (Value v) = Outcome (Value v)"
| "chain_spec U Chain_catched t (Exception e) = flat_outcome (U t (Arg_exception e))"
| "chain_spec U Chain_catched_void t (Value v) = Outcome (Value Void)"
| "chain_spec U Chain_catched_void t (Exception e) = flat_outcome (U t (Arg_exception e))"
| "chain_spec U Chain_finally t out = finally_outcome out (U t Arg_none)"

text \<open>
  An outcome is the expected one in a state.  A future that is none of the \<open>m\<close> first controllers may have named none when it was
  returned, and then counts as invalid.
\<close>

fun fulfils :: "nat \<Rightarrow> 'v future_state \<Rightarrow> 'v expected \<Rightarrow> 'v outcome \<Rightarrow> bool" where
  "fulfils m st (Outcome x) out \<longleftrightarrow> out = x"
| "fulfils m st (Follow j g) out \<longleftrightarrow>
     j < length (f_store st) \<and> (\<exists>oj. get_outcome st j = Some oj \<and> out = g oj) \<or> m \<le> j \<and> out = Exception invalid_future"

fun awaited :: "'v future_state \<Rightarrow> 'v expected \<Rightarrow> bool" where
  "awaited st (Outcome x) \<longleftrightarrow> True"
| "awaited st (Follow j g) \<longleftrightarrow> (j < length (f_store st) \<longrightarrow> get_outcome st j \<noteq> None)"

fun chain_success :: "chain \<Rightarrow> controller_id \<Rightarrow> task_id \<Rightarrow> 'v on_success" where
  "chain_success Chain_catched n t = S_forward n"
| "chain_success Chain_catched_void n t = S_discard n"
| "chain_success Chain_finally n t = S_finally n t"
| "chain_success k n t = S_then n t"

fun chain_fail :: "chain \<Rightarrow> controller_id \<Rightarrow> task_id \<Rightarrow> on_fail" where
  "chain_fail Chain_catched n t = F_catch n t"
| "chain_fail Chain_catched_void n t = F_catch n t"
| "chain_fail Chain_finally n t = F_finally n t"
| "chain_fail k n t = F_forward n"

lemma chain_targets [simp]: "s_target (chain_success k n t) = n" "f_target (chain_fail k n t) = n"
  by (cases k; simp)+

lemma chain_step:
  "c < length (f_store st) \<Longrightarrow> k \<noteq> Chain_then_future \<Longrightarrow>
   fst (future_step U st (chain_event k c t)) =
     set_on_success_and_fail c (chain_success k (length (f_store st)) t) (chain_fail k (length (f_store st)) t)
       (new_controller st)"
  by (cases k) (simp_all add: on_valid_future_def future_then_def future_catched_def catched_on_success_def
      future_finally_def Let_def)

text \<open>What an action promises, as the specification says it.\<close>

fun expected_of :: "'v callbacks \<Rightarrow> 'v action \<Rightarrow> 'v expected" where
  "expected_of U (Complete_value n v) = Outcome (Value v)"
| "expected_of U (Complete_exception n e) = Outcome (Exception e)"
| "expected_of U (Wait_for j s f) = Follow j (\<lambda>oj. the (action_outcome (cont U s f oj)))"

lemma follow_outcomes:
  "(\<lambda>oj. the (action_outcome (cont U (S_forward n) (F_forward n) oj))) = (\<lambda>oj. oj)"
  "(\<lambda>oj. the (action_outcome (cont U (S_set_value n v) (F_forward n) oj))) = after (Value v)"
  "(\<lambda>oj. the (action_outcome (cont U (S_set_exception n e) (F_forward n) oj))) = after (Exception e)"
  by (rule ext, case_tac oj; simp)+

lemma chain_cont:
  "k \<noteq> Chain_then_future \<Longrightarrow> expected_of U (cont U (chain_success k n t) (chain_fail k n t) oc) = chain_spec U k t oc"
  by (cases k; cases oc) (auto simp: exec_then_on_success_def finally_on_success_def catched_on_fail_def finally_on_fail_def
      follow_outcomes split: task_ret.splits option.splits)

lemma flatten_cont:
  assumes "cont U (S_then n t) (F_forward n) oc = a" "action_outcome a = Some x"
  shows "expected_of U (cont U (S_flatten i) (F_forward i) x) = chain_spec U Chain_then_future t oc"
  using assms by (cases oc) (auto simp: exec_then_on_success_def flatten_on_success_def follow_outcomes
      split: task_ret.splits option.splits)

lemma resolved_fulfils:
  assumes "resolved U m st (cont U s f oc) out"
  shows "fulfils m st (expected_of U (cont U s f oc)) out"
proof (cases "cont U s f oc")
  case (Wait_for j s2 f2)
  then show ?thesis using assms by (auto simp: resolved_def)
qed (use assms in \<open>simp_all add: resolved_def\<close>)

lemma link_idle_completed:
  assumes "future_inv st" "link U m n c s f st" "f_pool st = []" "get_outcome st c = Some oc"
    and "awaited st (expected_of U (cont U s f oc))"
  shows "get_outcome st n \<noteq> None"
proof
  assume none: "get_outcome st n = None"
  have n: "n < length (f_store st)" "c < length (f_store st)" "n \<notin> set (f_promises st)"
    using assms(2) by (simp_all add: link_def)
  have "owed st n = 1"
    using assms(1) n(1) none get_outcome_completions [of st n]
    by (auto simp: future_inv_def balanced_def dest!: spec [of _ n])
  then have "(\<Sum>fc\<leftarrow>f_store st. count_list (owed_targets fc) n) \<noteq> 0"
    using assms(3) n(3) by (simp add: owed_def count_list_0_iff)
  then obtain fc where "fc \<in> set (f_store st)" "n \<in> set (owed_targets fc)"
    by (auto simp: sum_list_eq_0_iff count_list_0_iff)
  then obtain k where k: "k < length (f_store st)" "n \<in> set (owed_targets (f_store st ! k))"
    by (metis in_set_conv_nth)
  obtain x where x: "(k, x) \<in> waits st" "tgt x = n"
  proof (cases "fc_exception (f_store st ! k)")
    case None
    then obtain s' where "s' \<in> set (fc_on_success_queue (f_store st ! k))" "s_target s' = n"
      using k(2) by (auto simp: owed_targets_def)
    then show ?thesis using that [of "Inl s'"] k(1) by (simp add: waits_def)
  next
    case (Some e)
    then obtain f' where "f' \<in> set (fc_on_fail_queue (f_store st ! k))" "f_target f' = n"
      using k(2) by (auto simp: owed_targets_def)
    then show ?thesis using that [of "Inr f'"] k(1) by (simp add: waits_def)
  qed
  then have "k = c \<or> follower U c s f st (k, x)" using assms(2) by (auto simp: link_def)
  then have "get_outcome st k \<noteq> None"
  proof
    assume "follower U c s f st (k, x)"
    then have "(k, x) \<in> new_waits (length (f_store st)) (cont U s f oc)" using assms(4) by (auto simp: follower_def)
    then obtain j s2 f2 where "cont U s f oc = Wait_for j s2 f2" "j < length (f_store st)" "k = j" by (rule new_waitsE) auto
    then show ?thesis using assms(5) by simp
  qed (use assms(4) in simp)
  then have "fc_on_success_queue (f_store st ! k) = []" "fc_on_fail_queue (f_store st ! k) = []"
    using assms(1,3) k(1) get_outcome_completions [of st k] by (auto simp: future_inv_def wired_def controller_ok_def)
  then show False using x(1) assms(3) by (auto simp: waits_def split: sum.splits)
qed

text \<open>The theorem for one link, and for the two of a \<open>then\<close> with a returned future.\<close>

lemma link_semantics:
  assumes "future_inv st" "link U m n c s f st" "\<And>oc. expected_of U (cont U s f oc) = spec oc"
  shows "get_outcome st n = Some out \<Longrightarrow> \<exists>oc. get_outcome st c = Some oc \<and> fulfils m st (spec oc) out"
    "f_pool st = [] \<Longrightarrow> get_outcome st c = Some oc \<Longrightarrow> awaited st (spec oc) \<Longrightarrow> get_outcome st n \<noteq> None"
proof -
  show "\<exists>oc. get_outcome st c = Some oc \<and> fulfils m st (spec oc) out" if "get_outcome st n = Some out"
    using that assms(2) resolved_fulfils [of U m st s f _ out] assms(3) unfolding link_def by metis
  show "get_outcome st n \<noteq> None" if "f_pool st = []" "get_outcome st c = Some oc" "awaited st (spec oc)"
    using link_idle_completed [OF assms(1,2) that(1,2)] that(3) assms(3) by simp
qed

lemma two_links_semantics:
  fixes n
  assumes inv: "future_inv st" and a: "link U m n c (S_then n t) (F_forward n) st"
    and b: "link U m i n (S_flatten i) (F_forward i) st"
  shows "get_outcome st i = Some out \<Longrightarrow> \<exists>oc. get_outcome st c = Some oc \<and> fulfils m st (chain_spec U Chain_then_future t oc) out"
    "f_pool st = [] \<Longrightarrow> get_outcome st c = Some oc \<Longrightarrow> awaited st (chain_spec U Chain_then_future t oc) \<Longrightarrow>
     get_outcome st i \<noteq> None"
proof -
  have nw: "action_outcome (cont U (S_then n t) (F_forward n) oc) \<noteq> None" for oc
    by (cases oc) (auto simp: exec_then_on_success_def split: task_ret.split)
  have mid: "\<exists>oc. get_outcome st c = Some oc \<and> action_outcome (cont U (S_then n t) (F_forward n) oc) = Some x"
    if x: "get_outcome st n = Some x" for x
  proof -
    obtain oc where oc: "get_outcome st c = Some oc" "resolved U m st (cont U (S_then n t) (F_forward n) oc) x"
      using a x unfolding link_def by blast
    then show ?thesis using nw [of oc] by (cases "cont U (S_then n t) (F_forward n) oc") (auto simp: resolved_def)
  qed
  show "\<exists>oc. get_outcome st c = Some oc \<and> fulfils m st (chain_spec U Chain_then_future t oc) out" if out: "get_outcome st i = Some out"
  proof -
    obtain x where x: "get_outcome st n = Some x" "resolved U m st (cont U (S_flatten i) (F_forward i) x) out"
      using b out unfolding link_def by blast
    then show ?thesis using mid [OF x(1)] flatten_cont [OF refl, where i = i] resolved_fulfils [OF x(2)] by metis
  qed
  show "get_outcome st i \<noteq> None"
    if p: "f_pool st = []" and oc: "get_outcome st c = Some oc" and aw: "awaited st (chain_spec U Chain_then_future t oc)"
  proof -
    have "expected_of U (cont U (S_then n t) (F_forward n) oc) = Outcome (the (action_outcome (cont U (S_then n t) (F_forward n) oc)))"
      using nw [of oc] by (cases "cont U (S_then n t) (F_forward n) oc") auto
    then obtain x where x: "get_outcome st n = Some x" using link_idle_completed [OF inv a p oc] by auto
    then have "action_outcome (cont U (S_then n t) (F_forward n) oc) = Some x" using mid oc by auto
    then show ?thesis using link_idle_completed [OF inv b p x] flatten_cont [OF refl] aw by metis
  qed
qed

text \<open>
  C17: Chaining computes what it should.  The future that \<open>then\<close>, \<open>catched\<close> or \<open>finally\<close>
  returns for a callback attached to any future of any reachable state never has an outcome other
  than the one specified from the outcome of that future: \<open>then\<close> applies the callback to the
  value and passes an exception through, \<open>catched\<close> the other way round (and drops the value
  when its callback returns nothing), \<open>finally\<close> keeps
  the outcome unless the callback throws.  When the callback returns a future, the child gets the outcome
  of that future, or with \<open>finally\<close> its exception or else the outcome of the parent; an
  invalid future is an exception.  And the child has its outcome whenever its parent and the
  future that its callback has returned have one and the pool has run out of work.
\<close>

theorem future_chain_semantics:
  fixes U :: "'v callbacks" and es es' :: "'v future_event list" and k :: chain and c t :: nat
  defines "st \<equiv> run_state (future_step U) future_state_init es"
  assumes "c < length (f_store st)"
  defines "st' \<equiv> run_state (future_step U) (fst (future_step U st (chain_event k c t))) es'"
    and "n \<equiv> chain_child k (length (f_store st))"
  shows "(\<forall>out. get_outcome st' n = Some out \<longrightarrow>
      (\<exists>oc. get_outcome st' c = Some oc \<and> fulfils (length (f_store st)) st' (chain_spec U k t oc) out)) \<and>
    (\<forall>oc. f_pool st' = [] \<and> get_outcome st' c = Some oc \<and> awaited st' (chain_spec U k t oc) \<longrightarrow> get_outcome st' n \<noteq> None)"
proof -
  let ?n = "length (f_store st)" and ?st1 = "fst (future_step U st (chain_event k c t))"
  have inv: "future_inv st" and tgts: "targets_ok st" unfolding st_def by (rule reachable_future)+
  have inv1: "future_inv ?st1" by (rule future_inv_step [OF inv])
  have inv': "future_inv st'" unfolding st'_def by (rule fut.inv_run [OF inv1])
  show ?thesis
  proof (cases "k = Chain_then_future")
    case True
    then have "future_then c t True st = ?st1" using assms(2) by (simp add: on_valid_future_def)
    note two = link_then_future [OF inv assms(2) tgts, of U t, unfolded this]
    have "link U ?n ?n c (S_then ?n t) (F_forward ?n) st'" "link U ?n (Suc ?n) ?n (S_flatten (Suc ?n)) (F_forward (Suc ?n)) st'"
      unfolding st'_def using two link_run [OF inv1] by blast+
    from two_links_semantics [OF inv' this] show ?thesis using True by (auto simp: n_def chain_child_def)
  next
    case False
    let ?s = "chain_success k ?n t" and ?f = "chain_fail k ?n t"
    have "link U ?n ?n c ?s ?f ?st1"
      unfolding chain_step [OF assms(2) False] by (rule link_attach [OF inv assms(2)]) (simp_all add: tgts)
    then have "link U ?n ?n c ?s ?f st'" unfolding st'_def by (intro link_run [OF inv1])
    from link_semantics [OF inv' this chain_cont [OF False]] False show ?thesis by (auto simp: n_def chain_child_def)
  qed
qed

text \<open>
  The callback 3 returns the future 1.  It is attached to the future 0, and both are set afterwards: the child is the future 3, with the
  outcome of the future 1.
\<close>

definition chain_callbacks :: "nat callbacks" where
  "chain_callbacks t a = Ret_future (Some 1)"

definition chain_example :: "nat future_event list" where
  "chain_example = [Promise_set_value 0 (Inr 5), Promise_set_value 1 (Inr 9)] @ replicate 20 (Run_task 0)"

theorem future_chain_semantics_witness:
  "get_outcome (run_state (future_step chain_callbacks)
     (fst (future_step chain_callbacks (run_state (future_step chain_callbacks) future_state_init [New_promise, New_promise])
        (chain_event Chain_then_future 0 3))) chain_example) 3 = Some (Value (Plain 9))"
proof -
  let ?start = "run_state (future_step chain_callbacks) future_state_init [New_promise, New_promise]"
  let ?st = "run_state (future_step chain_callbacks)
     (fst (future_step chain_callbacks ?start (chain_event Chain_then_future 0 3))) chain_example"
  have "length (f_store ?start) = 2" "chain_child Chain_then_future 2 = 3"
    by (simp_all add: new_promise_def new_controller_def future_state_init_def chain_child_def)
  moreover have "f_pool ?st = []" "get_outcome ?st 0 = Some (Value (Plain 5))" "get_outcome ?st 1 = Some (Value (Plain 9))" by code_simp+
  moreover have "chain_spec chain_callbacks Chain_then_future 3 (Value (Plain 5)) = Follow 1 (\<lambda>out. out)"
    by (simp add: chain_callbacks_def)
  ultimately show ?thesis
    using future_chain_semantics [of 0 chain_callbacks "[New_promise, New_promise]" Chain_then_future 3 chain_example] by auto
qed

end
