(* ===== verification/Channel_Service.thy ===== *)
theory Channel_Service
  imports Transfer_Message
begin

text \<open>
  The two ends of a remote call: \<open>rpc-lib/internal/channel\<close> on the side of the caller,
  \<open>rpc-lib/internal/service\<close> on the side of the implementation, the controllers that report
  their results, and the guard that runs a closure (\<open>rpc-lib/closure-guard\<close>).

  The generated service is third-party code and a parameter: its messages, its number of methods
  and what a method does with a request.  What the connection delivers for a request is an
  argument of the channel's continuation.
\<close>

section \<open>The closure guard\<close>

text \<open>The guards of a program, each with the closure it holds.\<close>

type_synonym guards = "promise_id option list"

definition closure_guard_reset :: "nat \<Rightarrow> guards \<Rightarrow> guards \<times> unit completion list" where
  "closure_guard_reset i gs =
     (case gs ! i of
        None \<Rightarrow> (gs, [])
      | Some c \<Rightarrow> (gs[i := None], [(c, ())]))"

definition closure_guard_construct :: "promise_id option \<Rightarrow> guards \<Rightarrow> guards" where
  "closure_guard_construct c gs = gs @ [c]"

definition closure_guard_move_construct :: "nat \<Rightarrow> guards \<Rightarrow> guards" where
  "closure_guard_move_construct i gs = gs[i := None] @ [gs ! i]"

definition closure_guard_move_assign :: "nat \<Rightarrow> nat \<Rightarrow> guards \<Rightarrow> guards \<times> unit completion list" where
  "closure_guard_move_assign i j gs =
     (if i = j then (gs, [])
      else let (gs', os) = closure_guard_reset i gs
           in (gs'[i := gs' ! j, j := gs' ! i], os))"

datatype guard_event =
    Guard_construct "promise_id option"
  | Guard_move_construct nat
  | Guard_move_assign nat nat
  | Guard_destroy nat

fun guard_step :: "guards \<Rightarrow> guard_event \<Rightarrow> guards \<times> unit completion list" where
  "guard_step gs (Guard_construct c) = (closure_guard_construct c gs, [])"
| "guard_step gs (Guard_move_construct i) =
     (if i < length gs then (closure_guard_move_construct i gs, []) else (gs, []))"
| "guard_step gs (Guard_move_assign i j) =
     (if i < length gs \<and> j < length gs then closure_guard_move_assign i j gs else (gs, []))"
| "guard_step gs (Guard_destroy i) =
     (if i < length gs then closure_guard_reset i gs else (gs, []))"


section \<open>The controllers\<close>

text \<open>
  \<open>unwinding\<close> says whether \<open>std::uncaught_exceptions()\<close> has grown since the controller was made.
  The result of a run is what the promise of the controller gets.
\<close>

record request_controller =
  m_request_result :: request_result

definition request_controller_init :: request_controller where
  "request_controller_init = \<lparr>m_request_result = Rq_unknown_error\<rparr>"

definition set_result :: "request_result \<Rightarrow> request_controller \<Rightarrow> request_controller" where
  "set_result r rc = rc\<lparr>m_request_result := r\<rparr>"

definition request_controller_Run ::
  "bool \<Rightarrow> 'r \<Rightarrow> request_controller \<Rightarrow> request_result \<times> 'r"
where
  "request_controller_Run unwinding response rc =
     (if unwinding then Rq_unknown_error else m_request_result rc, response)"

definition broken_promise :: exn where
  "broken_promise = Future_exception ''broken_promise''"

text \<open>An exception of the callback is swallowed, and the promise it owns is destroyed unset.\<close>

definition response_controller_Run ::
  "bool \<Rightarrow> (response_result \<Rightarrow> bytes or_exn) \<Rightarrow> bytes or_exn"
where
  "response_controller_Run unwinding callback =
     (case callback (if unwinding then Rs_unknown_error else Rs_ok) of
        Inl e \<Rightarrow> Inl broken_promise
      | Inr b \<Rightarrow> Inr b)"


section \<open>The service\<close>

text \<open>
  \<open>gs_call_method\<close> gets the index, the id of the connection and the request.  It returns the
  response as it is when the closure runs and whether it runs during unwinding, or
  \<^term>\<open>None\<close> when the method never runs its closure.
\<close>

record ('q, 'r) gservice =
  gs_method_count :: nat
  gs_input :: "nat \<Rightarrow> 'q proto"
  gs_output :: "nat \<Rightarrow> 'r proto"
  gs_empty_response :: "nat \<Rightarrow> 'r"
  gs_call_method :: "nat \<Rightarrow> uint64 \<Rightarrow> 'q \<Rightarrow> ('r \<times> bool) option"

definition service_callback ::
  "'r proto \<Rightarrow> (nat \<Rightarrow> bytes) \<Rightarrow> uint64 \<Rightarrow> 'r \<Rightarrow> 'r \<Rightarrow> response_result \<Rightarrow> bytes or_exn"
where
  "service_callback P mem message_number blank res rc =
     (let too_big = is_response_proto_too_big P res;
          res = (if too_big then blank else res);
          rc = (if too_big then Rs_response_too_big else rc)
      in create_transfer_msg_res P mem message_number rc (Some res))"

text \<open>A response without a message, which is what a null pointer stands for.\<close>

definition no_proto :: "unit proto" where
  "no_proto = \<lparr>ByteSizeLong = (\<lambda>m. 0), SerializeToArray = (\<lambda>m cap. None), ParseFromArray = (\<lambda>bs. None)\<rparr>"

text \<open>
  The task that \<open>process_request_async\<close> posts: the outcome of its future, \<^term>\<open>None\<close> when
  it never gets one.  An exception leaves the task and destroys the promise.
\<close>

definition answer :: "bytes or_exn \<Rightarrow> bytes or_exn option" where
  "answer r = Some (case r of Inl e \<Rightarrow> Inl broken_promise | Inr b \<Rightarrow> Inr b)"

definition process_request_async ::
  "('q, 'r) gservice option \<Rightarrow> (nat \<Rightarrow> bytes) \<Rightarrow> uint64 \<Rightarrow> cbuffer_view \<Rightarrow> bytes or_exn option"
where
  "process_request_async gservice mem connection_id req_msg =
     (if \<not> is_request_buffer_valid req_msg
      then answer (create_transfer_msg_res no_proto mem (-1) Rs_invalid_request None)
      else
        case (get_msg_number_req req_msg, get_msg_method_idx_req req_msg, get_serialized_proto_message req_msg) of
          (Inr message_number, Inr method_idx, Inr serialized) \<Rightarrow>
            (case gservice of
               None \<Rightarrow> answer (create_transfer_msg_res no_proto mem message_number Rs_not_implemented None)
             | Some G \<Rightarrow>
                 let i = unat method_idx; P = gs_output G i; res = gs_empty_response G i in
                 if i \<ge> gs_method_count G
                 then answer (create_transfer_msg_res no_proto mem message_number Rs_not_implemented None)
                 else
                   case ParseFromArray (gs_input G i) serialized of
                     None \<Rightarrow> answer (create_transfer_msg_res P mem message_number Rs_request_parse_error (Some res))
                   | Some req \<Rightarrow>
                       (case gs_call_method G i connection_id req of
                          None \<Rightarrow> None
                        | Some (res', unwinding) \<Rightarrow>
                            Some (response_controller_Run unwinding
                                    (service_callback P mem message_number res res'))))
        | _ \<Rightarrow> Some (Inl broken_promise))"


section \<open>The channel\<close>

record channel =
  m_next_req_id :: uint64

definition channel_init :: channel where
  "channel_init = \<lparr>m_next_req_id = 0\<rparr>"

text \<open>
  What \<open>CallMethod\<close> does at once: it runs the closure with a result, or throws after the guard has
  run the closure during unwinding, or hands a request to the connection.
\<close>

datatype call_started =
    Call_done request_result
  | Call_throws exn request_result
  | Call_sent uint64 bytes

definition CallMethod ::
  "'q proto \<Rightarrow> (nat \<Rightarrow> bytes) \<Rightarrow> uint32 \<Rightarrow> 'q \<Rightarrow> channel \<Rightarrow> channel \<times> call_started"
where
  "CallMethod P mem method_idx request ch =
     (if is_request_proto_too_big P request
      then (ch, Call_done (fst (request_controller_Run False ()
                                  (set_result Rq_request_too_big request_controller_init))))
      else
        let req_id = m_next_req_id ch;
            ch = ch\<lparr>m_next_req_id := req_id + 1\<rparr>
        in case create_transfer_msg_req P mem req_id method_idx (Some request) of
             Inl e \<Rightarrow> (ch, Call_throws e (fst (request_controller_Run True () request_controller_init)))
           | Inr frame \<Rightarrow> (ch, Call_sent req_id frame))"

text \<open>
  The continuation of the request.  The message that a failed parse leaves behind is up to the
  library: \<open>partial\<close>.  Every \<open>Inl\<close> is an exception that the handler turns into an unknown error.
\<close>

definition handle_response ::
  "'r proto \<Rightarrow> 'r \<Rightarrow> (bytes \<Rightarrow> 'r) \<Rightarrow> uint64 \<Rightarrow> request_result \<Rightarrow> cbuffer_view \<Rightarrow> 'r
     \<Rightarrow> request_result \<times> 'r"
where
  "handle_response P blank partial req_id rc buffer response =
     (if \<not> is_success_request rc then (rc, response)
      else if \<not> is_response_buffer_valid buffer then (Rq_invalid_response, response)
      else if get_transfer_msg_type buffer \<noteq> Inr Msg_res then (Rq_unknown_error, response)
      else if get_msg_number_res buffer \<noteq> Inr req_id then (Rq_unknown_error, response)
      else
        case get_msg_response_code_res buffer of
          Inl e \<Rightarrow> (Rq_unknown_error, blank)
        | Inr res_code \<Rightarrow>
            if is_fail_response res_code then (Rq_request_not_processed, blank)
            else
              case get_serialized_proto_message buffer of
                Inl e \<Rightarrow> (Rq_unknown_error, blank)
              | Inr serialized \<Rightarrow>
                  (case ParseFromArray P serialized of
                     None \<Rightarrow> (Rq_response_parse_error, partial serialized)
                   | Some r \<Rightarrow> (Rq_ok, r)))"

text \<open>
  What the future of \<open>make_request\<close> gets once the connection has a result.  An exceptional result
  drops the continuation, and the guard in it runs the closure with the initial result.
\<close>

definition call_finished ::
  "'r proto \<Rightarrow> 'r \<Rightarrow> (bytes \<Rightarrow> 'r) \<Rightarrow> uint64 \<Rightarrow> (request_result \<times> cbuffer_view) or_exn \<Rightarrow> request_result \<times> 'r"
where
  "call_finished P blank partial req_id outcome =
     (case outcome of
        Inl e \<Rightarrow> request_controller_Run False blank request_controller_init
      | Inr (rc, buffer) \<Rightarrow>
          let (r, response) = handle_response P blank partial req_id rc buffer blank
          in request_controller_Run False response (set_result r request_controller_init))"


section \<open>Closures are run once\<close>

definition guard_pending :: "guards \<Rightarrow> promise_id multiset" where
  "guard_pending gs = mset (List.map_filter id gs)"

fun guard_opened :: "guards \<Rightarrow> guard_event \<Rightarrow> promise_id multiset" where
  "guard_opened gs (Guard_construct (Some c)) = {#c#}"
| "guard_opened gs _ = {#}"

lemma guard_pending_simps [simp]:
  "guard_pending [] = {#}"
  "guard_pending (None # gs) = guard_pending gs"
  "guard_pending (Some c # gs) = add_mset c (guard_pending gs)"
  "guard_pending (gs @ hs) = guard_pending gs + guard_pending hs"
  by (simp_all add: guard_pending_def map_filter_def)

lemma guard_pending_update:
  "i < length gs \<Longrightarrow> guard_pending (gs[i := x]) + guard_pending [gs ! i] = guard_pending gs + guard_pending [x]"
proof (induction gs arbitrary: i)
  case Nil
  then show ?case by simp
next
  case (Cons g gs)
  then show ?case
    by (cases i; cases g) (auto simp: guard_pending_def map_filter_def split: option.splits)
qed

lemma guard_reset:
  assumes "i < length gs" "closure_guard_reset i gs = (gs', os)"
  shows "guard_pending gs' + mset (map fst os) = guard_pending gs" "gs' ! i = None" "length gs' = length gs"
  using assms guard_pending_update [of i gs None]
  by (auto simp: closure_guard_reset_def split: option.splits)

lemma guard_pending_swap:
  assumes "i < length gs" "j < length gs" "i \<noteq> j"
  shows "guard_pending (gs[i := gs ! j, j := gs ! i]) = guard_pending gs"
  using guard_pending_update [of i gs "gs ! j"] guard_pending_update [of j "gs[i := gs ! j]" "gs ! i"] assms
  by simp

lemma guard_conserve:
  "guard_pending (fst (guard_step gs e)) + mset (map fst (snd (guard_step gs e))) =
   guard_pending gs + guard_opened gs e"
proof (cases e)
  case (Guard_construct c)
  then show ?thesis by (cases c) (simp_all add: closure_guard_construct_def)
next
  case (Guard_move_construct i)
  then show ?thesis
    using guard_pending_update [of i gs None] by (simp add: closure_guard_move_construct_def)
next
  case (Guard_move_assign i j)
  obtain gs' os where r: "closure_guard_reset i gs = (gs', os)" by fastforce
  show ?thesis
    using Guard_move_assign guard_reset [OF _ r] guard_pending_swap [of i gs' j]
    by (auto simp: closure_guard_move_assign_def r)
next
  case (Guard_destroy i)
  obtain gs' os where r: "closure_guard_reset i gs = (gs', os)" by fastforce
  show ?thesis using Guard_destroy guard_reset(1) [OF _ r] by (auto simp: r)
qed

interpretation cg: completion_system guard_step "\<lambda>gs. True" guard_pending guard_opened
  by (unfold_locales, simp, rule guard_conserve)

text \<open>
  Guards neither lose nor repeat a closure.  However guards are made, moved, assigned and
  destroyed, a closure given to one guard is run at most once, and once no guard holds a closure
  every closure that was handed over has been run.
\<close>

theorem closure_guard_exactly_once:
  assumes "\<And>c. count (run_opened guard_step guard_opened [] es) c \<le> 1"
  shows "distinct (map fst (run_output guard_step [] es)) \<and>
    (guard_pending (run_state guard_step [] es) = {#} \<longrightarrow>
       mset (map fst (run_output guard_step [] es)) = run_opened guard_step guard_opened [] es)"
  using cg.completed_at_most_once [of "[]" es] cg.all_completed_when_idle [of "[]" es] assms by simp

definition guard_example :: "guard_event list" where
  "guard_example = [Guard_construct (Some 7), Guard_construct (Some 8), Guard_move_construct 0,
     Guard_move_assign 1 2, Guard_destroy 0, Guard_destroy 2, Guard_destroy 1]"

theorem closure_guard_exactly_once_witness:
  "mset (map fst (run_output guard_step [] guard_example)) = {#7, 8#}"
proof -
  have opened: "run_opened guard_step guard_opened [] guard_example = {#7, 8#}"
    by (simp add: guard_example_def)
  have "guard_pending (run_state guard_step [] guard_example) = {#}" by code_simp
  then show ?thesis using closure_guard_exactly_once [of guard_example] by (simp add: opened)
qed


section \<open>A call is what the method does\<close>

text \<open>The serialiser accepts a message whenever the array is large enough.\<close>

definition serializes :: "'m proto \<Rightarrow> 'm \<Rightarrow> bool" where
  "serializes P m \<longleftrightarrow> (\<forall>cap \<ge> ByteSizeLong P m. SerializeToArray P m cap \<noteq> None)"

definition proto_ok :: "'m proto \<Rightarrow> bool" where
  "proto_ok P \<longleftrightarrow> proto_sizes_ok P \<and> proto_parses_back P"

lemma serializesD: "serializes P m \<Longrightarrow> \<exists>bs. SerializeToArray P m (ByteSizeLong P m + k) = Some bs"
  by (metis le_add1 not_Some_eq serializes_def)

lemma create_req_frame:
  assumes "proto_ok P" "allocator_ok mem" "\<not> is_request_proto_too_big P m" "serializes P m"
  obtains bs where "create_transfer_msg_req P mem n idx (Some m) = Inr (req_frame n idx bs)"
    "ParseFromArray P bs = Some m" "length bs < 2 ^ 32"
proof -
  have ok: "proto_sizes_ok P" "proto_parses_back P" using assms(1) by (simp_all add: proto_ok_def)
  obtain bs where bs: "SerializeToArray P m (ByteSizeLong P m + 12) = Some bs"
    using serializesD [OF assms(4)] by blast
  have len: "length bs = ByteSizeLong P m" "ByteSizeLong P m \<le> unat MaxRequestProtoSize"
    using ok(1) assms(3) bs by (auto simp: proto_sizes_ok_def is_request_proto_too_big_def)
  have "create_transfer_msg_req P mem n idx (Some m) = Inr (req_frame n idx bs)"
    using ok(1) assms(2) bs len by (simp add: frame_simps serialized_size_def payload_of_def)
  moreover have "ParseFromArray P bs = Some m" using ok(2) bs unfolding proto_parses_back_def by blast
  ultimately show thesis using that len by simp
qed

lemma create_res_frame:
  assumes "proto_ok P" "allocator_ok mem" "\<not> is_response_proto_too_big P m" "serializes P m"
  obtains bs where "create_transfer_msg_res P mem n rc (Some m) = Inr (res_frame n rc bs)"
    "ParseFromArray P bs = Some m" "length bs < 2 ^ 32"
proof -
  have ok: "proto_sizes_ok P" "proto_parses_back P" using assms(1) by (simp_all add: proto_ok_def)
  obtain bs where bs: "SerializeToArray P m (ByteSizeLong P m + 9) = Some bs"
    using serializesD [OF assms(4)] by blast
  have len: "length bs = ByteSizeLong P m" "ByteSizeLong P m \<le> unat MaxResponseProtoSize"
    using ok(1) assms(3) bs by (auto simp: proto_sizes_ok_def is_response_proto_too_big_def)
  have "create_transfer_msg_res P mem n rc (Some m) = Inr (res_frame n rc bs)"
    using ok(1) assms(2) bs len by (simp add: frame_simps serialized_size_def payload_of_def)
  moreover have "ParseFromArray P bs = Some m" using ok(2) bs unfolding proto_parses_back_def by blast
  ultimately show thesis using that len by simp
qed

lemma create_res_null:
  "allocator_ok mem \<Longrightarrow> create_transfer_msg_res no_proto mem n rc None = Inr (res_frame n rc [])"
  by (subst create_res_closed) (simp_all add: proto_sizes_ok_def no_proto_def serialized_size_def payload_of_def)

lemma handle_res_frame:
  "length bs < 2 ^ 32 \<Longrightarrow> proper_response_result rc \<Longrightarrow>
   handle_response P blank partial n Rq_ok (Some (res_frame n rc bs)) response =
     (if rc \<noteq> Rs_ok then (Rq_request_not_processed, blank)
      else case ParseFromArray P bs of
             None \<Rightarrow> (Rq_response_parse_error, partial bs)
           | Some r \<Rightarrow> (Rq_ok, r))"
  by (simp add: handle_response_def res_frame_parse is_success_request_def is_fail_response_def
      is_success_response_def)

text \<open>
  A call over a connection that delivers both messages; \<^term>\<open>None\<close> when no answer is sent.
\<close>

definition rpc_call ::
  "('q, 'r) gservice option \<Rightarrow> 'q proto \<Rightarrow> 'r proto \<Rightarrow> 'r \<Rightarrow> (bytes \<Rightarrow> 'r) \<Rightarrow> (nat \<Rightarrow> bytes) \<Rightarrow> (nat \<Rightarrow> bytes)
     \<Rightarrow> uint64 \<Rightarrow> uint32 \<Rightarrow> 'q \<Rightarrow> channel \<Rightarrow> (request_result \<times> 'r) option"
where
  "rpc_call gservice P Q blank partial cmem smem connection_id idx request ch =
     (case snd (CallMethod P cmem idx request ch) of
        Call_done r \<Rightarrow> Some (r, blank)
      | Call_throws e r \<Rightarrow> Some (r, blank)
      | Call_sent req_id frame \<Rightarrow>
          (case process_request_async gservice smem connection_id (Some frame) of
             Some (Inr b) \<Rightarrow> Some (call_finished Q blank partial req_id (Inr (Rq_ok, Some b)))
           | _ \<Rightarrow> None))"

text \<open>What the caller should see, with no frames, numbers or serialisation in it.\<close>

definition rpc_spec ::
  "('q, 'r) gservice option \<Rightarrow> 'q proto \<Rightarrow> 'r proto \<Rightarrow> 'r \<Rightarrow> uint64 \<Rightarrow> nat \<Rightarrow> 'q \<Rightarrow> (request_result \<times> 'r) option"
where
  "rpc_spec gservice P Q blank connection_id i request =
     (if is_request_proto_too_big P request then Some (Rq_request_too_big, blank)
      else case gservice of
             None \<Rightarrow> Some (Rq_request_not_processed, blank)
           | Some G \<Rightarrow>
               if i \<ge> gs_method_count G then Some (Rq_request_not_processed, blank)
               else map_option
                      (\<lambda>(r, unwinding). if unwinding \<or> is_response_proto_too_big Q r
                                       then (Rq_request_not_processed, blank) else (Rq_ok, r))
                      (gs_call_method G i connection_id request))"


lemma answer_Inr [simp]: "answer (Inr b) = Some (Inr b)"
  by (simp add: answer_def)

lemma process_req_frame:
  assumes "length bs < 2 ^ 32" "allocator_ok mem"
  shows "process_request_async gservice mem cid (Some (req_frame n idx bs)) =
    (case gservice of
       None \<Rightarrow> Some (Inr (res_frame n Rs_not_implemented []))
     | Some G \<Rightarrow>
         let i = unat idx; P = gs_output G i; res = gs_empty_response G i in
         if i \<ge> gs_method_count G then Some (Inr (res_frame n Rs_not_implemented []))
         else case ParseFromArray (gs_input G i) bs of
                None \<Rightarrow> answer (create_transfer_msg_res P mem n Rs_request_parse_error (Some res))
              | Some req \<Rightarrow>
                  map_option (\<lambda>(res', u). response_controller_Run u (service_callback P mem n res res'))
                    (gs_call_method G i cid req))"
  by (simp add: process_request_async_def req_frame_parse [OF assms(1)] create_res_null [OF assms(2)] Let_def
      split: option.split)

text \<open>A frame that answers the request with the given number.\<close>

definition response_to :: "uint64 \<Rightarrow> bytes \<Rightarrow> bool" where
  "response_to n b \<longleftrightarrow> get_transfer_msg_type (Some b) = Inr Msg_res \<and> get_msg_number_res (Some b) = Inr n"

lemma res_frame_response [simp]:
  "length bs < 2 ^ 32 \<Longrightarrow> proper_response_result rc \<Longrightarrow> response_to n (res_frame n rc bs)"
  by (simp add: response_to_def res_frame_parse)

lemma callback_frame:
  assumes "proto_ok Q" "allocator_ok mem" "serializes Q blank" "\<not> is_response_proto_too_big Q blank"
    and "\<not> is_response_proto_too_big Q res \<Longrightarrow> serializes Q res"
  shows "\<exists>b. response_controller_Run u (service_callback Q mem n blank res) = Inr b \<and> response_to n b \<and>
     call_finished Q blank partial n (Inr (Rq_ok, Some b)) =
       (if u \<or> is_response_proto_too_big Q res then (Rq_request_not_processed, blank) else (Rq_ok, res))"
proof -
  let ?big = "is_response_proto_too_big Q res"
  let ?m = "if ?big then blank else res"
  let ?rc = "if ?big then Rs_response_too_big else if u then Rs_unknown_error else Rs_ok"
  have "\<not> is_response_proto_too_big Q ?m" "serializes Q ?m" using assms(3-5) by auto
  then obtain bs where bs: "create_transfer_msg_res Q mem n ?rc (Some ?m) = Inr (res_frame n ?rc bs)"
    "ParseFromArray Q bs = Some ?m" "length bs < 2 ^ 32"
    using create_res_frame [OF assms(1,2)] by metis
  have run: "response_controller_Run u (service_callback Q mem n blank res) = Inr (res_frame n ?rc bs)"
    using bs(1) by (cases ?big; cases u) (simp_all add: response_controller_Run_def service_callback_def)
  have "proper_response_result ?rc" by simp
  then show ?thesis
    using run bs(2,3)
    by (cases ?big; cases u)
      (simp_all add: call_finished_def handle_res_frame request_controller_Run_def set_result_def)
qed

lemma finished_not_implemented:
  "call_finished Q blank partial n (Inr (Rq_ok, Some (res_frame n Rs_not_implemented []))) =
     (Rq_request_not_processed, blank)"
  by (simp add: call_finished_def handle_res_frame request_controller_Run_def set_result_def)

text \<open>
  C18: A remote call gives the caller what the method of the service does.  When the messages can be
  serialised, the result of a call through the channel, the frames, the service and the two
  controllers is the specified one: the response of the method, or \<open>request_too_big\<close>, or
  \<open>request_not_processed\<close> with an empty response when there is no such method, when the response is
  too big, or when the closure runs while an exception propagates.  There is no result only when the
  method never runs its closure.
\<close>

theorem rpc_end_to_end:
  assumes "proto_ok P" "proto_ok Q" "allocator_ok cmem" "allocator_ok smem"
    and "serializes P request" "serializes Q blank" "\<not> is_response_proto_too_big Q blank"
    and "\<And>G. gservice = Some G \<Longrightarrow> gs_input G (unat idx) = P \<and> gs_output G (unat idx) = Q \<and>
           gs_empty_response G (unat idx) = blank"
    and "\<And>G r u. gservice = Some G \<Longrightarrow> gs_call_method G (unat idx) cid request = Some (r, u) \<Longrightarrow>
           \<not> is_response_proto_too_big Q r \<Longrightarrow> serializes Q r"
  shows "rpc_call gservice P Q blank partial cmem smem cid idx request ch =
    rpc_spec gservice P Q blank cid (unat idx) request"
proof (cases "is_request_proto_too_big P request")
  case True
  then show ?thesis
    by (simp add: rpc_call_def rpc_spec_def CallMethod_def request_controller_Run_def set_result_def)
next
  case False
  let ?n = "m_next_req_id ch"
  obtain bs where bs: "create_transfer_msg_req P cmem ?n idx (Some request) = Inr (req_frame ?n idx bs)"
    "ParseFromArray P bs = Some request" "length bs < 2 ^ 32"
    using create_req_frame [OF assms(1,3) False assms(5)] by metis
  have sent: "snd (CallMethod P cmem idx request ch) = Call_sent ?n (req_frame ?n idx bs)"
    using False bs(1) by (simp add: CallMethod_def Let_def)
  note served = process_req_frame [OF bs(3) assms(4)]
  show ?thesis
  proof (cases gservice)
    case None
    then show ?thesis using False by (simp add: rpc_call_def rpc_spec_def sent served finished_not_implemented)
  next
    case (Some G)
    then show ?thesis
    proof (cases "gs_call_method G (unat idx) cid request")
      case None
      then show ?thesis
        using Some assms(8) [OF Some] False bs(2)
        by (simp add: rpc_call_def rpc_spec_def sent served finished_not_implemented Let_def)
    next
      case (Some ru)
      obtain r u where ru: "ru = (r, u)" by fastforce
      obtain b where "response_controller_Run u (service_callback Q smem ?n blank r) = Inr b"
        "call_finished Q blank partial ?n (Inr (Rq_ok, Some b)) =
           (if u \<or> is_response_proto_too_big Q r then (Rq_request_not_processed, blank) else (Rq_ok, r))"
        using callback_frame [OF assms(2,4,6,7), of r u ?n partial] assms(9) \<open>gservice = Some G\<close> Some ru by blast
      then show ?thesis
        using \<open>gservice = Some G\<close> Some ru assms(8) [OF \<open>gservice = Some G\<close>] False bs(2)
        by (simp add: rpc_call_def rpc_spec_def sent served finished_not_implemented Let_def)
    qed
  qed
qed

text \<open>A service with one method that reverses a string of bytes.\<close>

definition reverse_service :: "(bytes, bytes) gservice" where
  "reverse_service =
     \<lparr>gs_method_count = 1, gs_input = (\<lambda>i. raw_proto), gs_output = (\<lambda>i. raw_proto),
      gs_empty_response = (\<lambda>i. []), gs_call_method = (\<lambda>i cid m. Some (rev m, False))\<rparr>"

lemma raw_serializes [simp]: "serializes raw_proto m" "proto_ok raw_proto"
  by (simp_all add: serializes_def proto_ok_def) (simp add: raw_proto_def)

theorem rpc_end_to_end_witness:
  "rpc_call (Some reverse_service) raw_proto raw_proto [] id dirty_memory dirty_memory 5 0 [1, 2, 3] channel_init
     = Some (Rq_ok, [3, 2, 1])"
proof -
  have "rpc_call (Some reverse_service) raw_proto raw_proto [] id dirty_memory dirty_memory 5 0 [1, 2, 3] channel_init
     = rpc_spec (Some reverse_service) raw_proto raw_proto [] 5 (unat (0 :: uint32)) [1, 2, 3]"
    by (rule rpc_end_to_end)
      (auto simp: is_response_proto_too_big_def reverse_service_def, simp_all add: raw_proto_def)
  also have "\<dots> = Some (Rq_ok, [3, 2, 1])"
    by (simp add: rpc_spec_def is_request_proto_too_big_def is_response_proto_too_big_def reverse_service_def
        raw_proto_def)
  finally show ?thesis .
qed

text \<open>
  C19: The caller is told \<open>ok\<close> exactly when the connection delivered a valid response frame with
  the number of the request, the code \<open>ok\<close> and a message that parses, and then the response is
  that message.  A failure of the connection is passed on with the response empty, and a
  request whose future fails ends with an unknown error.
\<close>

theorem channel_result_classified:
  "(call_finished P blank partial n outcome = (Rq_ok, r) \<longleftrightarrow>
      (\<exists>buffer bs. outcome = Inr (Rq_ok, buffer) \<and> is_response_buffer_valid buffer \<and>
         get_msg_number_res buffer = Inr n \<and> get_msg_response_code_res buffer = Inr Rs_ok \<and>
         get_serialized_proto_message buffer = Inr bs \<and> ParseFromArray P bs = Some r)) \<and>
   (rc \<noteq> Rq_ok \<longrightarrow> call_finished P blank partial n (Inr (rc, buffer')) = (rc, blank)) \<and>
   call_finished P blank partial n (Inl e) = (Rq_unknown_error, blank)"
proof -
  have res_type: "is_response_buffer_valid b \<Longrightarrow> get_transfer_msg_type b = Inr Msg_res" for b
    by (auto simp: is_response_buffer_valid_def get_transfer_msg_type_def split: option.splits)
  show ?thesis
    by (auto simp: call_finished_def handle_response_def request_controller_Run_def set_result_def
        request_controller_init_def is_success_request_def is_fail_response_def is_success_response_def res_type
        split: sum.splits prod.splits option.splits if_splits)
qed

theorem channel_result_classified_witness:
  "call_finished raw_proto [] id 4 (Inr (Rq_timeout, None)) = (Rq_timeout, [])"
  using channel_result_classified [of raw_proto "[]" id 4 "Inl Unknown_exception" "[]" Rq_timeout None
      Unknown_exception] by simp

definition channel_step ::
  "'q proto \<Rightarrow> (nat \<Rightarrow> bytes) \<Rightarrow> channel \<Rightarrow> uint32 \<times> 'q \<Rightarrow> channel \<times> uint64 list"
where
  "channel_step P mem ch call =
     (let (ch', started) = CallMethod P mem (fst call) (snd call) ch
      in (ch', case started of Call_sent req_id frame \<Rightarrow> [req_id] | _ \<Rightarrow> []))"

lemma channel_step_cases:
  "channel_step P mem ch call = (ch, []) \<or>
   m_next_req_id (fst (channel_step P mem ch call)) = m_next_req_id ch + 1 \<and>
   snd (channel_step P mem ch call) \<in> {[], [m_next_req_id ch]}"
  by (auto simp: channel_step_def CallMethod_def Let_def split: sum.splits)

lemma channel_ids:
  "set (run_output (channel_step P mem) ch calls) \<subseteq> (\<lambda>k. m_next_req_id ch + of_nat k) ` {..<length calls} \<and>
   (length calls \<le> 2 ^ 64 \<longrightarrow> distinct (run_output (channel_step P mem) ch calls))"
proof (induction calls arbitrary: ch)
  case Nil
  then show ?case by simp
next
  case (Cons call calls)
  let ?ch = "fst (channel_step P mem ch call)" and ?out = "run_output (channel_step P mem)"
  let ?ids = "\<lambda>c m. (\<lambda>k. m_next_req_id c + of_nat k) ` {..<m}"
  note IH = Cons.IH [of ?ch]
  from channel_step_cases [of P mem ch call] show ?case
  proof (elim disjE conjE)
    assume "channel_step P mem ch call = (ch, [])"
    moreover have "?ids ch (length calls) \<subseteq> ?ids ch (length (call # calls))" by (intro image_mono) auto
    ultimately show ?thesis using IH by auto
  next
    assume nxt: "m_next_req_id ?ch = m_next_req_id ch + 1"
      and out: "snd (channel_step P mem ch call) \<in> {[], [m_next_req_id ch]}"
    have later: "\<exists>k < length calls. i = m_next_req_id ch + of_nat (Suc k)" if "i \<in> set (?out ?ch calls)" for i
      using IH that nxt by (fastforce simp: add.assoc)
    have fresh: "m_next_req_id ch \<notin> set (?out ?ch calls)" if "length (call # calls) \<le> 2 ^ 64"
    proof
      assume "m_next_req_id ch \<in> set (?out ?ch calls)"
      then obtain k where k: "k < length calls" "(of_nat (Suc k) :: uint64) = 0" using later by force
      then have "2 ^ 64 dvd Suc k" by (simp only: word_of_nat_eq_0_iff) simp
      then show False using k(1) that by (auto dest: dvd_imp_le)
    qed
    have "set (?out ch (call # calls)) \<subseteq> ?ids ch (length (call # calls))"
      using out later by (fastforce intro: image_eqI [where x = 0])
    then show ?thesis using out fresh IH by auto
  qed
qed

text \<open>
  The numbers of the requests that a channel sends are distinct as long as it is used for at
  most \<open>2\<^sup>6\<^sup>4\<close> calls; the counter wraps around after that.
\<close>

theorem channel_ids_distinct:
  "length calls \<le> 2 ^ 64 \<Longrightarrow> distinct (run_output (channel_step P mem) ch calls)"
  using channel_ids by blast

theorem channel_ids_distinct_witness:
  "distinct (run_output (channel_step raw_proto dirty_memory) \<lparr>m_next_req_id = -1\<rparr> [(0, [1]), (3, []), (0, [2])])"
  by (rule channel_ids_distinct) simp

end
