(* ===== verification/Ordered_Lock.thy ===== *)
theory Ordered_Lock
  imports Common_Prelude
begin

text \<open>
  The ordered lock of \<open>common-lib/synchronization\<close> and the tuple sort that it rests on
  (\<open>common-lib/mpl\<close> and \<open>common-lib/utils/internal/tuple-utils\<close>).

  A tuple is the list of its elements.  The sources sort three times: the types of a tuple, the
  values through references, and the values through indices.  A lockable is its order number,
  a property of its type, and a number that tells objects of the same type apart.  The threads are
  a list; a step is one call of \<open>lock()\<close> on one lockable, or a release.
\<close>

section \<open>Sorting tuples\<close>

text \<open>\<open>mpl\<close>: the largest element rises to the end, and the rest is sorted.\<close>

fun do_bubble_rise :: "('a \<Rightarrow> 'a \<Rightarrow> bool) \<Rightarrow> 'a list \<Rightarrow> 'a list" where
  "do_bubble_rise compare [] = []"
| "do_bubble_rise compare [x] = [x]"
| "do_bubble_rise compare (x # y # zs) =
     (if compare x y then x # do_bubble_rise compare (y # zs)
      else y # do_bubble_rise compare (x # zs))"

lemma mset_bubble [simp]: "mset (do_bubble_rise compare xs) = mset xs"
  by (induction compare xs rule: do_bubble_rise.induct) simp_all

lemma length_bubble [simp]: "length (do_bubble_rise compare xs) = length xs"
  by (metis mset_bubble size_mset)

lemma bubble_Nil [simp]: "do_bubble_rise compare xs = [] \<longleftrightarrow> xs = []"
  by (metis length_0_conv length_bubble)

function sort_tuple :: "('a \<Rightarrow> 'a \<Rightarrow> bool) \<Rightarrow> 'a list \<Rightarrow> 'a list" where
  "sort_tuple compare xs =
     (if xs = [] then []
      else let bubbled = do_bubble_rise compare xs
           in sort_tuple compare (butlast bubbled) @ [last bubbled])"
  by pat_completeness auto

termination
  by (relation "measure (length \<circ> snd)") auto

declare sort_tuple.simps [simp del]

text \<open>\<open>tuple-utils\<close>: the same on values, in terms of operations on tuples.\<close>

fun do_swap_first_two_tuple_elements :: "'a list \<Rightarrow> 'a list" where
  "do_swap_first_two_tuple_elements (x # y # zs) = y # x # zs"
| "do_swap_first_two_tuple_elements xs = xs"

definition do_extract_first_tuple_element :: "'a list \<Rightarrow> 'a list \<times> 'a list" where
  "do_extract_first_tuple_element xs = ([hd xs], tl xs)"

definition do_extract_last_tuple_element :: "'a list \<Rightarrow> 'a list \<times> 'a list" where
  "do_extract_last_tuple_element xs = ([last xs], butlast xs)"

definition do_merge_tuples :: "'a list \<Rightarrow> 'a list \<Rightarrow> 'a list" where
  "do_merge_tuples xs ys = xs @ ys"

lemma length_swap [simp]: "length (do_swap_first_two_tuple_elements xs) = length xs"
  by (cases xs rule: do_swap_first_two_tuple_elements.cases) simp_all

function do_bubble_rise_ref :: "('a \<Rightarrow> 'a \<Rightarrow> bool) \<Rightarrow> 'a list \<Rightarrow> 'a list" where
  "do_bubble_rise_ref compare xs =
     (if length xs \<le> 1 then xs
      else let xs = (if \<not> compare (xs ! 0) (xs ! 1) then do_swap_first_two_tuple_elements xs else xs);
               split = do_extract_first_tuple_element xs
           in do_merge_tuples (fst split) (do_bubble_rise_ref compare (snd split)))"
  by pat_completeness auto

termination
  by (relation "measure (length \<circ> snd)") (auto simp: do_extract_first_tuple_element_def)

declare do_bubble_rise_ref.simps [simp del]

lemma bubble_rise_ref: "do_bubble_rise_ref compare xs = do_bubble_rise compare xs"
proof (induction compare xs rule: do_bubble_rise.induct)
  case (3 compare x y zs)
  then show ?case
    by (subst do_bubble_rise_ref.simps)
      (simp add: Let_def do_extract_first_tuple_element_def do_merge_tuples_def)
qed (simp_all add: do_bubble_rise_ref.simps)

function sort_ref_tuple :: "('a \<Rightarrow> 'a \<Rightarrow> bool) \<Rightarrow> 'a list \<Rightarrow> 'a list" where
  "sort_ref_tuple compare xs =
     (if length xs \<le> 1 then xs
      else let split = do_extract_last_tuple_element (do_bubble_rise_ref compare xs)
           in do_merge_tuples (sort_ref_tuple compare (snd split)) (fst split))"
  by pat_completeness auto

termination
  by (relation "measure (length \<circ> snd)") (auto simp: do_extract_last_tuple_element_def bubble_rise_ref)

declare sort_ref_tuple.simps [simp del]

definition do_sort_tuple :: "('a \<Rightarrow> 'a \<Rightarrow> bool) \<Rightarrow> 'a list \<Rightarrow> 'a list" where
  "do_sort_tuple compare xs =
     (if length xs = 0 \<or> length xs = 1 then xs else sort_ref_tuple compare xs)"

text \<open>\<open>sort_tuple2\<close>: the types are sorted with their indices, and the indices select the values.\<close>

definition make_indexed_tuple :: "'a list \<Rightarrow> ('a \<times> nat) list" where
  "make_indexed_tuple xs = zip xs [0..<length xs]"

definition do_sort_tuple2 :: "('a \<Rightarrow> 'a \<Rightarrow> bool) \<Rightarrow> 'a list \<Rightarrow> 'a list" where
  "do_sort_tuple2 compare xs =
     map (\<lambda>t. xs ! snd t) (sort_tuple (\<lambda>t u. compare (fst t) (fst u)) (make_indexed_tuple xs))"


section \<open>The lock\<close>

type_synonym lockable = "int \<times> nat"

abbreviation lock_order :: "lockable \<Rightarrow> int" where
  "lock_order \<equiv> fst"

definition order_comparator :: "lockable \<Rightarrow> lockable \<Rightarrow> bool" where
  "order_comparator t u \<longleftrightarrow> lock_order t < lock_order u"

text \<open>Checked at compile time: neighbours in the sorted tuple have different orders.\<close>

definition is_there_repeating_order_number :: "lockable list \<Rightarrow> bool" where
  "is_there_repeating_order_number ls =
     (let sorted_ls = sort_tuple order_comparator ls
      in \<exists>i < length ls - 1. lock_order (sorted_ls ! i) = lock_order (sorted_ls ! Suc i))"

definition is_ordered_lockable_types_valid :: "lockable list \<Rightarrow> bool" where
  "is_ordered_lockable_types_valid ls \<longleftrightarrow> length ls > 0 \<and> \<not> is_there_repeating_order_number ls"

definition compare_ordered_lockable_tuples :: "lockable list \<Rightarrow> lockable list \<Rightarrow> bool" where
  "compare_ordered_lockable_tuples ls ms =
     order_comparator (last (sort_tuple order_comparator ls)) (hd (sort_tuple order_comparator ms))"

text \<open>
  A thread and its ordered locks, which nest like scopes: what the outer ones have locked, what the innermost one has locked, in
  this order, how much of that was locked before the call of \<open>lock\<close> it is in, and what this call
  still has to lock.
\<close>

record lock_thread =
  lt_outer :: "lockable list list"
  lt_held :: "lockable list"
  lt_base :: nat
  lt_wanted :: "lockable list"

definition all_held :: "lock_thread \<Rightarrow> lockable list" where
  "all_held th = concat (lt_outer th) @ lt_held th"

text \<open>The scope of a new ordered lock begins, and one that holds nothing any more ends.\<close>

definition enter_scope :: "lock_thread \<Rightarrow> lock_thread" where
  "enter_scope th = (if lt_held th = [] then th else th\<lparr>lt_outer := lt_outer th @ [lt_held th], lt_held := []\<rparr>)"

definition leave_scope :: "lock_thread \<Rightarrow> lock_thread" where
  "leave_scope th =
     (if lt_held th = [] \<and> lt_outer th \<noteq> []
      then th\<lparr>lt_outer := butlast (lt_outer th), lt_held := last (lt_outer th)\<rparr> else th)"

definition lock_thread_init :: lock_thread where
  "lock_thread_init = \<lparr>lt_outer = [], lt_held = [], lt_base = 0, lt_wanted = []\<rparr>"

text \<open>The constructor and \<open>do_push_back\<close> on a locked object start to lock a sorted tuple.\<close>

definition ordered_lock_construct :: "lockable list \<Rightarrow> lock_thread \<Rightarrow> lock_thread" where
  "ordered_lock_construct ls th = th\<lparr>lt_base := 0, lt_wanted := do_sort_tuple2 order_comparator ls\<rparr>"

definition ordered_lock_push_back :: "lockable list \<Rightarrow> lock_thread \<Rightarrow> lock_thread" where
  "ordered_lock_push_back ls th =
     th\<lparr>lt_base := length (lt_held th), lt_wanted := do_sort_tuple2 order_comparator ls\<rparr>"

text \<open>
  \<open>do_safe_lock\<close>: one element is locked, or its \<open>lock()\<close> throws and what this call has locked is
  unlocked again in reverse.  The output is the lockables that are unlocked, in this order.
\<close>

definition do_safe_lock_next :: "lock_thread \<Rightarrow> lock_thread" where
  "do_safe_lock_next th = th\<lparr>lt_held := lt_held th @ [hd (lt_wanted th)], lt_wanted := tl (lt_wanted th)\<rparr>"

definition do_safe_lock_throws :: "lock_thread \<Rightarrow> lock_thread \<times> lockable list" where
  "do_safe_lock_throws th =
     (th\<lparr>lt_held := take (lt_base th) (lt_held th), lt_wanted := []\<rparr>, rev (drop (lt_base th) (lt_held th)))"

definition ordered_lock_unlock :: "lock_thread \<Rightarrow> lock_thread \<times> lockable list" where
  "ordered_lock_unlock th = (th\<lparr>lt_held := [], lt_base := 0\<rparr>, rev (lt_held th))"

definition is_free :: "lock_thread list \<Rightarrow> lockable \<Rightarrow> bool" where
  "is_free ths l \<longleftrightarrow> (\<forall>th \<in> set ths. l \<notin> set (all_held th))"

text \<open>
  The events of a thread.  A lock is taken only when it is free.  An ordered lock can be constructed by a thread that has others,
  about which nothing is checked; \<open>push_back\<close> is for one that is locked and is not locking.
\<close>

datatype lock_event =
    Lock_construct nat "lockable list"
  | Lock_push_back nat "lockable list"
  | Lock_next nat
  | Lock_throws nat
  | Lock_unlock nat

fun lock_step :: "lock_thread list \<Rightarrow> lock_event \<Rightarrow> lock_thread list \<times> lockable list" where
  "lock_step ths (Lock_construct t ls) =
     (if t < length ths \<and> lt_wanted (ths ! t) = [] \<and> is_ordered_lockable_types_valid ls
      then (ths[t := ordered_lock_construct ls (enter_scope (ths ! t))], []) else (ths, []))"
| "lock_step ths (Lock_push_back t ls) =
     (if t < length ths \<and> lt_held (ths ! t) \<noteq> [] \<and> lt_wanted (ths ! t) = [] \<and>
         is_ordered_lockable_types_valid ls \<and> compare_ordered_lockable_tuples (lt_held (ths ! t)) ls
      then (ths[t := ordered_lock_push_back ls (ths ! t)], []) else (ths, []))"
| "lock_step ths (Lock_next t) =
     (if t < length ths \<and> lt_wanted (ths ! t) \<noteq> [] \<and> is_free ths (hd (lt_wanted (ths ! t)))
      then (ths[t := do_safe_lock_next (ths ! t)], []) else (ths, []))"
| "lock_step ths (Lock_throws t) =
     (if t < length ths \<and> lt_wanted (ths ! t) \<noteq> []
      then let (th, unlocked) = do_safe_lock_throws (ths ! t) in (ths[t := leave_scope th], unlocked) else (ths, []))"
| "lock_step ths (Lock_unlock t) =
     (if t < length ths \<and> lt_wanted (ths ! t) = []
      then let (th, unlocked) = ordered_lock_unlock (ths ! t) in (ths[t := leave_scope th], unlocked) else (ths, []))"


section \<open>The sorts are one sort\<close>

lemma mset_sort_tuple [simp]: "mset (sort_tuple compare xs) = mset xs"
proof (induction compare xs rule: sort_tuple.induct)
  case (1 compare xs)
  show ?case
  proof (cases "xs = []")
    case False
    let ?b = "do_bubble_rise compare xs"
    have "butlast ?b @ [last ?b] = ?b" using False by simp
    then have "mset (butlast ?b) + mset [last ?b] = mset xs" by (metis mset_append mset_bubble)
    then show ?thesis using 1 [OF False refl] False by (simp add: sort_tuple.simps [of compare xs] Let_def)
  qed (simp add: sort_tuple.simps)
qed

lemma set_sort_tuple [simp]: "set (sort_tuple compare xs) = set xs"
  by (metis mset_sort_tuple set_mset_mset)

lemma length_sort_tuple [simp]: "length (sort_tuple compare xs) = length xs"
  by (metis mset_sort_tuple size_mset)

lemma sort_tuple_Nil [simp]: "sort_tuple compare [] = []" "sort_tuple compare [x] = [x]"
  by (simp add: sort_tuple.simps) (subst sort_tuple.simps, simp add: sort_tuple.simps)

lemma sort_ref_tuple: "sort_ref_tuple compare xs = sort_tuple compare xs"
proof (induction compare xs rule: sort_ref_tuple.induct)
  case (1 compare xs)
  show ?case
  proof (cases "length xs \<le> 1")
    case True
    then show ?thesis by (cases xs) (simp_all add: sort_ref_tuple.simps)
  next
    case False
    then have "xs \<noteq> []" by auto
    then show ?thesis
      using 1 [OF False refl] False
      by (simp add: sort_ref_tuple.simps [of compare xs] sort_tuple.simps [of compare xs] Let_def
          do_extract_last_tuple_element_def do_merge_tuples_def bubble_rise_ref)
  qed
qed

lemma map_bubble:
  "map g (do_bubble_rise (\<lambda>t u. compare (g t) (g u)) ts) = do_bubble_rise compare (map g ts)"
  by (induction "\<lambda>t u. compare (g t) (g u)" ts rule: do_bubble_rise.induct) simp_all

lemma map_sort_tuple:
  "map g (sort_tuple (\<lambda>t u. compare (g t) (g u)) ts) = sort_tuple compare (map g ts)"
proof (induction "length ts" arbitrary: ts)
  case 0
  then show ?case by simp
next
  case (Suc n)
  let ?b = "do_bubble_rise (\<lambda>t u. compare (g t) (g u)) ts"
  have ne: "ts \<noteq> []" using Suc.hyps(2) by auto
  have "map g (sort_tuple (\<lambda>t u. compare (g t) (g u)) (butlast ?b)) = sort_tuple compare (map g (butlast ?b))"
    using Suc.hyps by simp
  moreover have "map g (butlast ?b) = butlast (do_bubble_rise compare (map g ts))"
    "g (last ?b) = last (do_bubble_rise compare (map g ts))"
    unfolding map_bubble [symmetric] using ne by (simp_all add: map_butlast last_map)
  ultimately show ?case
    using ne sort_tuple.simps [of "\<lambda>t u. compare (g t) (g u)" ts] sort_tuple.simps [of compare "map g ts"]
    by (simp add: Let_def)
qed

lemma sort_tuple2: "do_sort_tuple2 compare xs = sort_tuple compare xs"
proof -
  let ?ts = "sort_tuple (\<lambda>t u. compare (fst t) (fst u)) (make_indexed_tuple xs)"
  have "do_sort_tuple2 compare xs = map fst ?ts"
    unfolding do_sort_tuple2_def
    by (rule map_cong) (auto simp: make_indexed_tuple_def set_zip)
  also have "\<dots> = sort_tuple compare (map fst (make_indexed_tuple xs))" by (rule map_sort_tuple)
  finally show ?thesis by (simp add: make_indexed_tuple_def)
qed

lemma bubble_last:
  "z \<in> set xs \<Longrightarrow> (f z :: 'b :: linorder) \<le> f (last (do_bubble_rise (\<lambda>x y. f x < f y) xs))"
proof (induction "\<lambda>x y. f x < f y" xs arbitrary: z rule: do_bubble_rise.induct)
  case (3 x y zs)
  show ?case
  proof (cases "f x < f y")
    case True
    then show ?thesis using 3(1) [OF True, of y] 3(1) [OF True, of z] 3(3) by auto
  next
    case False
    then show ?thesis using 3(2) [OF False, of x] 3(2) [OF False, of z] 3(3) by auto
  qed
qed simp_all

lemma sorted_sort_tuple:
  fixes f :: "'a \<Rightarrow> 'b :: linorder"
  shows "sorted (map f (sort_tuple (\<lambda>x y. f x < f y) xs))"
proof (induction "length xs" arbitrary: xs)
  case 0
  then show ?case by simp
next
  case (Suc n)
  let ?b = "do_bubble_rise (\<lambda>x y. f x < f y) xs"
  have ne: "xs \<noteq> []" using Suc.hyps(2) by auto
  have "sorted (map f (sort_tuple (\<lambda>x y. f x < f y) (butlast ?b)))" using Suc.hyps by simp
  moreover have "f z \<le> f (last ?b)" if "z \<in> set (butlast ?b)" for z
    using bubble_last [of z xs f] in_set_butlastD [OF that] by (metis mset_bubble set_mset_mset)
  ultimately show ?case
    using ne sort_tuple.simps [of "\<lambda>x y. f x < f y" xs] by (auto simp: Let_def sorted_append)
qed

lemma order_comparator_fun: "order_comparator = (\<lambda>t u. lock_order t < lock_order u)"
  by (intro ext) (simp add: order_comparator_def)

lemma sorted_lockables: "sorted (map lock_order (sort_tuple order_comparator ls))"
  unfolding order_comparator_fun by (rule sorted_sort_tuple)

lemma repeating_order: "is_there_repeating_order_number ls \<longleftrightarrow> \<not> distinct (map lock_order ls)"
proof -
  let ?s = "map lock_order (sort_tuple order_comparator ls)"
  have "mset ?s = mset (map lock_order ls)" by (simp only: mset_map mset_sort_tuple)
  then have "distinct ?s \<longleftrightarrow> distinct (map lock_order ls)" by (metis mset_eq_imp_distinct_iff)
  moreover have "distinct ?s \<longleftrightarrow> sorted_wrt (<) ?s" using sorted_lockables [of ls] by (simp add: strict_sorted_iff)
  moreover have "sorted_wrt (<) ?s \<longleftrightarrow> (\<forall>i. Suc i < length ls \<longrightarrow> ?s ! i < ?s ! Suc i)"
    by (subst sorted_wrt_iff_nth_Suc_transp) simp_all
  moreover have "?s ! i \<le> ?s ! Suc i" if "Suc i < length ls" for i
    using sorted_lockables [of ls] that by (intro sorted_nth_mono) simp_all
  ultimately have "distinct (map lock_order ls) \<longleftrightarrow> (\<forall>i. Suc i < length ls \<longrightarrow> ?s ! i \<noteq> ?s ! Suc i)"
    by (auto simp: order.strict_iff_order)
  then show ?thesis
    by (auto simp: is_there_repeating_order_number_def Let_def less_diff_conv)
qed

lemma valid_sorted:
  "is_ordered_lockable_types_valid ls \<Longrightarrow> sorted_wrt (<) (map lock_order (sort_tuple order_comparator ls))"
  using sorted_lockables [of ls] repeating_order [of ls]
  by (simp add: is_ordered_lockable_types_valid_def strict_sorted_iff)
    (metis mset_eq_imp_distinct_iff mset_map mset_sort_tuple)


section \<open>Threads that lock in order\<close>

text \<open>
  The order numbers of one ordered lock and of its \<open>push_back\<close> are checked at compile time; those of nested ordered locks are up to
  the caller: a lock is constructed for lockables above all that the thread holds.
\<close>

fun nests_in_order :: "lock_thread list \<Rightarrow> lock_event \<Rightarrow> bool" where
  "nests_in_order ths (Lock_construct t ls) \<longleftrightarrow>
     (t < length ths \<longrightarrow> (\<forall>x \<in> set (all_held (ths ! t)). \<forall>y \<in> set ls. lock_order x < lock_order y))"
| "nests_in_order ths e \<longleftrightarrow> True"

fun all_nest_in_order :: "lock_thread list \<Rightarrow> lock_event list \<Rightarrow> bool" where
  "all_nest_in_order ths [] \<longleftrightarrow> True"
| "all_nest_in_order ths (e # es) \<longleftrightarrow> nests_in_order ths e \<and> all_nest_in_order (fst (lock_step ths e)) es"

definition thread_inv :: "lock_thread \<Rightarrow> bool" where
  "thread_inv th \<longleftrightarrow>
     sorted_wrt (<) (map lock_order (all_held th @ lt_wanted th)) \<and> lt_base th \<le> length (lt_held th) \<and>
     [] \<notin> set (lt_outer th) \<and> (lt_held th = [] \<and> lt_wanted th = [] \<longrightarrow> lt_outer th = [])"

definition lock_inv :: "lock_thread list \<Rightarrow> bool" where
  "lock_inv ths \<longleftrightarrow>
     (\<forall>th \<in> set ths. thread_inv th) \<and>
     (\<forall>t < length ths. \<forall>u < length ths. t \<noteq> u \<longrightarrow> set (all_held (ths ! t)) \<inter> set (all_held (ths ! u)) = {})"

lemma lock_inv_update:
  assumes "lock_inv ths" "t < length ths" "thread_inv th"
    and "\<And>u. u < length ths \<Longrightarrow> u \<noteq> t \<Longrightarrow> set (all_held th) \<inter> set (all_held (ths ! u)) = {}"
  shows "lock_inv (ths[t := th])"
  using assms by (auto simp: lock_inv_def nth_list_update dest!: subsetD [OF set_update_subset_insert])

lemma lock_inv_thread:
  assumes "lock_inv ths" "t < length ths"
  shows "thread_inv (ths ! t)"
    "u < length ths \<Longrightarrow> u \<noteq> t \<Longrightarrow> set (all_held (ths ! t)) \<inter> set (all_held (ths ! u)) = {}"
  using assms by (auto simp: lock_inv_def)

text \<open>A thread that has no more than before.\<close>

lemma lock_inv_less:
  assumes "lock_inv ths" "t < length ths" "thread_inv th" "set (all_held th) \<subseteq> set (all_held (ths ! t))"
  shows "lock_inv (ths[t := th])"
  by (rule lock_inv_update [OF assms(1-3)]) (use lock_inv_thread(2) [OF assms(1,2)] assms(4) in blast)

lemma enter_scope_held [simp]: "all_held (enter_scope th) = all_held th" "lt_wanted (enter_scope th) = lt_wanted th"
  "lt_held (enter_scope th) = []"
  by (simp_all add: enter_scope_def all_held_def)

lemma concat_outer: "xss \<noteq> [] \<Longrightarrow> concat (butlast xss) @ last xss = concat xss"
  by (induction xss) auto

lemma leave_scope_held [simp]: "all_held (leave_scope th) = all_held th" "lt_wanted (leave_scope th) = lt_wanted th"
  by (simp_all add: leave_scope_def all_held_def concat_outer)

lemma leave_scope_inv:
  assumes "sorted_wrt (<) (map lock_order (all_held th @ lt_wanted th))" "lt_base th \<le> length (lt_held th)" "[] \<notin> set (lt_outer th)"
  shows "thread_inv (leave_scope th)"
proof -
  have "[] \<notin> set (lt_outer (leave_scope th))"
    using assms(3) by (auto simp: leave_scope_def dest: in_set_butlastD)
  moreover have "lt_outer (leave_scope th) = []" if "lt_held (leave_scope th) = []"
    using that assms(3) by (auto simp: leave_scope_def split: if_splits) (metis last_in_set)
  moreover have "lt_base (leave_scope th) \<le> length (lt_held (leave_scope th))"
    using assms(2) by (auto simp: leave_scope_def)
  ultimately show ?thesis using assms(1) by (simp add: thread_inv_def)
qed

lemma sorted_last: "sorted (map f xs) \<Longrightarrow> x \<in> set xs \<Longrightarrow> f x \<le> f (last xs)"
  by (induction xs) auto

lemma sorted_hd: "sorted (map f xs) \<Longrightarrow> x \<in> set xs \<Longrightarrow> f (hd xs) \<le> f x"
  by (cases xs) auto

lemma push_back_sorted:
  assumes "sorted_wrt (<) (map lock_order hs)" "hs \<noteq> []" "is_ordered_lockable_types_valid ls"
    and "compare_ordered_lockable_tuples hs ls"
  shows "sorted_wrt (<) (map lock_order (hs @ sort_tuple order_comparator ls))"
proof -
  let ?h = "sort_tuple order_comparator hs" and ?l = "sort_tuple order_comparator ls"
  have ne: "?h \<noteq> []" "?l \<noteq> []"
    using assms(2,3) length_sort_tuple [of order_comparator hs] length_sort_tuple [of order_comparator ls]
    by (auto simp: is_ordered_lockable_types_valid_def simp del: length_sort_tuple)
  have "lock_order x \<le> lock_order (last ?h)" if "x \<in> set hs" for x
    using sorted_last [OF sorted_lockables, of x hs] that by simp
  moreover have "lock_order (hd ?l) \<le> lock_order y" if "y \<in> set ls" for y
    using sorted_hd [OF sorted_lockables, of y ls] that by simp
  moreover have "lock_order (last ?h) < lock_order (hd ?l)"
    using assms(4) by (simp add: compare_ordered_lockable_tuples_def order_comparator_def)
  ultimately have "lock_order x < lock_order y" if "x \<in> set hs" "y \<in> set ls" for x y
    using that by fastforce
  then show ?thesis using assms(1) valid_sorted [OF assms(3)] by (auto simp: sorted_wrt_append)
qed

lemma construct_inv:
  assumes inv: "thread_inv th" "lt_wanted th = []" and valid: "is_ordered_lockable_types_valid ls"
    and above: "\<forall>x \<in> set (all_held th). \<forall>y \<in> set ls. lock_order x < lock_order y"
  shows "thread_inv (ordered_lock_construct ls (enter_scope th))"
proof -
  let ?th = "ordered_lock_construct ls (enter_scope th)"
  have held: "all_held ?th = all_held th" "lt_held ?th = []" "lt_wanted ?th = sort_tuple order_comparator ls"
    using enter_scope_held [of th] by (simp_all add: ordered_lock_construct_def all_held_def sort_tuple2)
  have "[] \<notin> set (lt_outer ?th)" using inv by (auto simp: ordered_lock_construct_def enter_scope_def thread_inv_def)
  moreover have "sort_tuple order_comparator ls \<noteq> []"
    using valid length_sort_tuple [of order_comparator ls]
    by (auto simp: is_ordered_lockable_types_valid_def simp del: length_sort_tuple)
  moreover have "sorted_wrt (<) (map lock_order (all_held th @ sort_tuple order_comparator ls))"
    using inv valid_sorted [OF valid] above by (auto simp: thread_inv_def sorted_wrt_append)
  ultimately show ?thesis using held by (simp add: thread_inv_def ordered_lock_construct_def sort_tuple2)
qed

lemma push_back_inv:
  assumes inv: "thread_inv th" "lt_wanted th = []" "lt_held th \<noteq> []" and valid: "is_ordered_lockable_types_valid ls"
    and above: "compare_ordered_lockable_tuples (lt_held th) ls"
  shows "thread_inv (ordered_lock_push_back ls th)"
proof -
  have s: "sorted_wrt (<) (map lock_order (concat (lt_outer th) @ lt_held th))" using inv by (simp add: thread_inv_def all_held_def)
  then have h: "sorted_wrt (<) (map lock_order (lt_held th))" by (simp add: sorted_wrt_append)
  note p = push_back_sorted [OF h inv(3) valid above]
  obtain z where z: "z \<in> set (lt_held th)" using inv(3) by (cases "lt_held th") auto
  have low: "lock_order x < lock_order y" if "x \<in> set (concat (lt_outer th))" "y \<in> set (sort_tuple order_comparator ls)" for x y
  proof -
    have "lock_order x < lock_order z" using s that(1) z by (auto simp: sorted_wrt_append)
    also have "lock_order z < lock_order y" using p that(2) z by (auto simp: sorted_wrt_append)
    finally show ?thesis .
  qed
  have "sorted_wrt (<) (map lock_order (concat (lt_outer th) @ lt_held th @ sort_tuple order_comparator ls))"
    unfolding map_append sorted_wrt_append
  proof (intro conjI ballI)
    fix a b
    assume "a \<in> set (map lock_order (concat (lt_outer th)))"
      and b: "b \<in> set (map lock_order (lt_held th) @ map lock_order (sort_tuple order_comparator ls))"
    then obtain x where x: "x \<in> set (concat (lt_outer th))" "a = lock_order x" by (metis image_iff set_map)
    show "a < b" using b x(2) low [OF x(1)] s x(1) unfolding map_append sorted_wrt_append set_append set_map by blast
  qed (use s p in \<open>fastforce simp: sorted_wrt_append\<close>)+
  then show ?thesis using inv by (simp add: thread_inv_def ordered_lock_push_back_def all_held_def sort_tuple2)
qed

lemma lock_inv_step:
  assumes inv: "lock_inv ths" and ord: "nests_in_order ths e"
  shows "lock_inv (fst (lock_step ths e))"
proof (cases e)
  case (Lock_construct t ls)
  have "all_held (ordered_lock_construct ls (enter_scope (ths ! t))) = all_held (ths ! t)"
    using enter_scope_held [of "ths ! t"] by (simp add: ordered_lock_construct_def all_held_def)
  then show ?thesis
    using Lock_construct inv ord construct_inv [of "ths ! t" ls] lock_inv_thread(1) [OF inv] by (auto intro!: lock_inv_less)
next
  case (Lock_push_back t ls)
  have "all_held (ordered_lock_push_back ls (ths ! t)) = all_held (ths ! t)" by (simp add: ordered_lock_push_back_def all_held_def)
  then show ?thesis
    using Lock_push_back inv push_back_inv [of "ths ! t" ls] lock_inv_thread(1) [OF inv] by (auto intro!: lock_inv_less)
next
  case (Lock_next t)
  show ?thesis
  proof (cases "t < length ths \<and> lt_wanted (ths ! t) \<noteq> [] \<and> is_free ths (hd (lt_wanted (ths ! t)))")
    case True
    then obtain l ls where w: "lt_wanted (ths ! t) = l # ls" by (cases "lt_wanted (ths ! t)") auto
    let ?th = "do_safe_lock_next (ths ! t)"
    have held: "all_held ?th = all_held (ths ! t) @ [l]" using w by (simp add: do_safe_lock_next_def all_held_def)
    have "thread_inv ?th"
      using lock_inv_thread(1) [OF inv, of t] True w held by (auto simp: thread_inv_def do_safe_lock_next_def)
    moreover have "set (all_held ?th) \<inter> set (all_held (ths ! u)) = {}" if "u < length ths" "u \<noteq> t" for u
      using lock_inv_thread(2) [OF inv _ that] True that w held by (auto simp: is_free_def)
    ultimately show ?thesis using Lock_next True lock_inv_update [OF inv, of t ?th] by simp
  qed (use Lock_next inv in auto)
next
  case (Lock_throws t)
  let ?th = "fst (do_safe_lock_throws (ths ! t))"
  have sub: "all_held ?th = concat (lt_outer (ths ! t)) @ take (lt_base (ths ! t)) (lt_held (ths ! t))" "lt_wanted ?th = []"
    by (simp_all add: do_safe_lock_throws_def all_held_def)
  have "sorted_wrt (<) (map lock_order (all_held ?th @ lt_wanted ?th))" if "t < length ths"
  proof -
    let ?k = "length (concat (lt_outer (ths ! t))) + lt_base (ths ! t)"
    have "all_held ?th @ lt_wanted ?th = take ?k (all_held (ths ! t) @ lt_wanted (ths ! t))"
      using lock_inv_thread(1) [OF inv that] unfolding sub by (simp add: thread_inv_def all_held_def)
    then have "map lock_order (all_held ?th @ lt_wanted ?th) = take ?k (map lock_order (all_held (ths ! t) @ lt_wanted (ths ! t)))"
      by (simp only: take_map)
    then show ?thesis using lock_inv_thread(1) [OF inv that] by (simp only: thread_inv_def sorted_wrt_take)
  qed
  then have "thread_inv (leave_scope ?th)" if "t < length ths"
    using lock_inv_thread(1) [OF inv that] that by (intro leave_scope_inv) (auto simp: thread_inv_def do_safe_lock_throws_def)
  moreover have "set (all_held ?th) \<subseteq> set (all_held (ths ! t))" unfolding sub by (auto simp: all_held_def dest: in_set_takeD)
  ultimately show ?thesis
    using Lock_throws inv lock_inv_less [OF inv, of t "leave_scope ?th"] by (auto simp: case_prod_beta)
next
  case (Lock_unlock t)
  let ?th = "fst (ordered_lock_unlock (ths ! t))"
  have sub: "all_held ?th = concat (lt_outer (ths ! t))" "lt_wanted ?th = lt_wanted (ths ! t)"
    by (simp_all add: ordered_lock_unlock_def all_held_def)
  have "thread_inv (leave_scope ?th)" if "t < length ths" "lt_wanted (ths ! t) = []"
    using lock_inv_thread(1) [OF inv that(1)] that(2) sub
    by (intro leave_scope_inv) (auto simp: thread_inv_def ordered_lock_unlock_def all_held_def sorted_wrt_append)
  moreover have "set (all_held ?th) \<subseteq> set (all_held (ths ! t))" unfolding sub by (auto simp: all_held_def)
  ultimately show ?thesis
    using Lock_unlock inv lock_inv_less [OF inv, of t "leave_scope ?th"] by (auto simp: case_prod_beta)
qed

text \<open>The threads with the events that nest in order.\<close>

definition ordered_step :: "lock_thread list \<Rightarrow> lock_event \<Rightarrow> lock_thread list \<times> lockable list" where
  "ordered_step ths e = (if nests_in_order ths e then lock_step ths e else (ths, []))"

interpretation ol: event_system ordered_step lock_inv
  by unfold_locales (simp add: ordered_step_def lock_inv_step)

lemma ordered_run: "all_nest_in_order ths es \<Longrightarrow> run_state lock_step ths es = run_state ordered_step ths es"
  by (induction es arbitrary: ths) (simp_all add: ordered_step_def)

lemma lock_inv_init: "lock_inv (replicate n lock_thread_init)"
  by (auto simp: lock_inv_def thread_inv_def all_held_def lock_thread_init_def)

definition thread_work :: "lock_thread \<Rightarrow> nat" where
  "thread_work th = length (lt_wanted th) + length (lt_outer th) + (if lt_held th = [] \<and> lt_wanted th = [] then 0 else 1)"

definition lock_work :: "lock_thread list \<Rightarrow> nat" where
  "lock_work ths = sum_list (map thread_work ths)"

text \<open>Of the threads that wait, the one that waits for the highest order waits for no other.\<close>

lemma some_thread_moves:
  assumes "lock_inv ths" "t < length ths" "lt_wanted (ths ! t) \<noteq> []"
  shows "\<exists>u < length ths. lt_wanted (ths ! u) \<noteq> [] \<and> is_free ths (hd (lt_wanted (ths ! u))) \<or>
     lt_wanted (ths ! u) = [] \<and> lt_held (ths ! u) \<noteq> []"
proof (rule ccontr)
  assume stuck: "\<not> ?thesis"
  let ?W = "{u. u < length ths \<and> lt_wanted (ths ! u) \<noteq> []}" and ?o = "\<lambda>u. lock_order (hd (lt_wanted (ths ! u)))"
  have fin: "finite ?W" "?W \<noteq> {}" using assms(2,3) by auto
  have "Max (?o ` ?W) \<in> ?o ` ?W" using fin by (intro Max_in) auto
  then obtain u where u: "u \<in> ?W" "Max (?o ` ?W) = ?o u" by (rule imageE)
  have top: "?o v \<le> ?o u" if "v \<in> ?W" for v
    unfolding u(2) [symmetric] using fin(1) that by (intro Max_ge) auto
  have "\<not> is_free ths (hd (lt_wanted (ths ! u)))" using u(1) stuck by auto
  then obtain v where v: "v < length ths" "hd (lt_wanted (ths ! u)) \<in> set (all_held (ths ! v))"
    unfolding is_free_def by (metis in_set_conv_nth)
  then have "lt_held (ths ! v) \<noteq> [] \<or> lt_wanted (ths ! v) \<noteq> []"
    using lock_inv_thread(1) [OF assms(1) v(1)] by (auto simp: thread_inv_def all_held_def)
  then have "v \<in> ?W" using stuck v(1) by auto
  moreover have "?o u < ?o v"
    using lock_inv_thread(1) [OF assms(1) v(1)] v(2) \<open>v \<in> ?W\<close> by (auto simp: thread_inv_def sorted_wrt_append)
  ultimately show False using top by force
qed

lemma work_left: "lock_work ths \<noteq> 0 \<Longrightarrow> lock_inv ths \<Longrightarrow> \<exists>th \<in> set ths. lt_held th \<noteq> [] \<or> lt_wanted th \<noteq> []"
  by (rule ccontr) (auto simp: lock_work_def thread_work_def lock_inv_def thread_inv_def)

lemma unlock_work:
  assumes "thread_inv th" "lt_wanted th = []" "lt_held th \<noteq> []"
  shows "thread_work (leave_scope (fst (ordered_lock_unlock th))) < thread_work th"
  using assms by (auto simp: ordered_lock_unlock_def leave_scope_def thread_work_def)

lemma work_update:
  "t < length ths \<Longrightarrow> thread_work th < thread_work (ths ! t) \<Longrightarrow> lock_work (ths[t := th]) < lock_work ths"
proof (induction ths arbitrary: t)
  case Nil
  then show ?case by simp
next
  case (Cons a ths)
  then show ?case by (cases t) (auto simp: lock_work_def)
qed


text \<open>Thread 1 holds two nested locks and wants a third; thread 0 waits for the first of them.\<close>

definition lock_example :: "lock_event list" where
  "lock_example =
     [Lock_construct 0 [(2, 0), (1, 0)], Lock_construct 1 [(2, 0), (1, 0)], Lock_next 1, Lock_next 1, Lock_construct 1 [(4, 0), (3, 0)],
      Lock_next 1]"


text \<open>
  The order of nested ordered locks is not checked by the library, and it matters: two threads that nest them in opposite order
  wait for each other for ever.
\<close>

definition nested_example :: "lock_event list" where
  "nested_example =
     [Lock_construct 0 [(1, 0)], Lock_construct 1 [(2, 0)], Lock_next 0, Lock_next 1, Lock_construct 0 [(2, 0)],
      Lock_construct 1 [(1, 0)]]"

theorem nested_locks_can_deadlock:
  defines "ths \<equiv> run_state lock_step (replicate 2 lock_thread_init) nested_example"
  shows "lock_work ths \<noteq> 0" "fst (lock_step ths (Lock_next u)) = ths" "fst (lock_step ths (Lock_unlock u)) = ths"
proof -
  have ths: "ths = [\<lparr>lt_outer = [[(1, 0)]], lt_held = [], lt_base = 0, lt_wanted = [(2, 0)]\<rparr>,
      \<lparr>lt_outer = [[(2, 0)]], lt_held = [], lt_base = 0, lt_wanted = [(1, 0)]\<rparr>]"
    unfolding ths_def by code_simp
  have u: "u = 0 \<or> u = 1 \<or> \<not> u < 2" by arith
  show "lock_work ths \<noteq> 0" by (simp add: ths lock_work_def thread_work_def)
  show "fst (lock_step ths (Lock_next u)) = ths"
    using u by (elim disjE) (simp_all add: ths is_free_def all_held_def)
  show "fst (lock_step ths (Lock_unlock u)) = ths"
    using u by (elim disjE) (simp_all add: ths)
qed

text \<open>
  C21: The three tuple sorts of the library agree for every comparator, and with the comparator
  of the locks and distinct order numbers each is the sort by order number.  The compile-time check
  for repeated order numbers, which looks at neighbours in the sorted tuple only, finds every
  repetition.
\<close>

theorem tuple_sorts_agree:
  "do_sort_tuple compare xs = sort_tuple compare xs \<and> do_sort_tuple2 compare xs = sort_tuple compare xs \<and>
   is_there_repeating_order_number ls = (\<not> distinct (map lock_order ls)) \<and>
   (distinct (map lock_order ls) \<longrightarrow> do_sort_tuple2 order_comparator ls = sort_key lock_order ls)"
proof -
  have "do_sort_tuple compare xs = sort_tuple compare xs"
    by (cases xs) (auto simp: do_sort_tuple_def sort_ref_tuple)
  moreover have "sort_key lock_order ls = sort_tuple order_comparator ls" if "distinct (map lock_order ls)"
    using that sorted_lockables [of ls] by (intro sort_key_inj_key_eq) (simp_all add: distinct_map)
  ultimately show ?thesis by (simp add: sort_tuple2 repeating_order)
qed

theorem tuple_sorts_agree_witness:
  "do_sort_tuple2 order_comparator [(3, 0), (1, 5), (2, 0)] = [(1, 5), (2, 0), (3, 0)]"
proof -
  have "do_sort_tuple2 order_comparator [(3, 0), (1, 5), (2, 0)] = sort_key lock_order [(3, 0), (1, 5), (2, 0)]"
    using tuple_sorts_agree [of order_comparator "[]" "[(3, 0), (1, 5), (2, 0)]"] by simp
  then show ?thesis by simp
qed

lemma lock_nexts:
  "k \<le> length (lt_wanted th) \<Longrightarrow>
   (do_safe_lock_next ^^ k) th =
     th\<lparr>lt_held := lt_held th @ take k (lt_wanted th), lt_wanted := drop k (lt_wanted th)\<rparr>"
proof (induction k)
  case (Suc k)
  then have "lt_wanted th ! k = hd (drop k (lt_wanted th))" by (simp add: hd_drop_conv_nth)
  then show ?case
    using Suc by (simp add: do_safe_lock_next_def take_Suc_conv_app_nth drop_Suc tl_drop)
qed simp

text \<open>
  A lock that throws leaves nothing behind.  When \<open>push_back\<close> has locked some of the new
  lockables and the next \<open>lock()\<close> throws, exactly those are unlocked, the last one first, and the
  thread holds what it held before.
\<close>

theorem ordered_lock_rollback:
  assumes "k \<le> length ls"
  shows "do_safe_lock_throws ((do_safe_lock_next ^^ k) (ordered_lock_push_back ls th)) =
    (th\<lparr>lt_base := length (lt_held th), lt_wanted := []\<rparr>, rev (take k (do_sort_tuple2 order_comparator ls)))"
  using assms lock_nexts [of k "ordered_lock_push_back ls th"]
  by (simp add: ordered_lock_push_back_def sort_tuple2 do_safe_lock_throws_def)

theorem ordered_lock_rollback_witness:
  "snd (do_safe_lock_throws ((do_safe_lock_next ^^ 2) (ordered_lock_push_back [(5, 0), (4, 0), (6, 0)]
     \<lparr>lt_outer = [], lt_held = [(1, 0)], lt_base = 0, lt_wanted = []\<rparr>))) = [(5, 0), (4, 0)]"
proof -
  have "do_sort_tuple2 order_comparator [(5, 0), (4, 0), (6, 0)] = [(4, 0), (5, 0), (6, 0)]" by code_simp
  then show ?thesis by (subst ordered_lock_rollback) simp_all
qed

end
