(* ===== verification/Connector.thy ===== *)
theory Connector
  imports Rpc_Types
begin

text \<open>
  Establishing connections: \<open>rpc-lib/internal/connector\<close> and the authenticator.

  The authenticator is a record of its operations.  The futures that the connectors chain are
  events: a pipe is created or not, the read and the write of the handshake end with a result.
  The flag that a run of the server connector shares with its callbacks is named by its index in
  \<open>sc_flags\<close>.  The output of a step is the notifications it posts to the strand, which keeps
  their order.
\<close>

section \<open>Authentication\<close>

record authenticator =
  create_request :: bytes
  create_response :: "bytes option \<Rightarrow> bytes"
  check_request :: "bytes option \<Rightarrow> bool"
  check_response :: "bytes option \<Rightarrow> bool"

text \<open>The authenticator of the library, with one byte of uninitialised memory for a message.\<close>

definition simple_authenticator :: "(nat \<Rightarrow> bytes) \<Rightarrow> authenticator" where
  "simple_authenticator mem =
     \<lparr>create_request = mem 1, create_response = (\<lambda>req. mem 1),
      check_request = (\<lambda>req. True), check_response = (\<lambda>res. True)\<rparr>"


section \<open>The client\<close>

text \<open>
  The chain of \<open>create_connection_async\<close>, given what its three futures deliver: what is written to
  the pipe, and the connection or the exception of the returned future.
\<close>

definition create_connection_async ::
  "authenticator \<Rightarrow> pipe_wait_res \<Rightarrow> pipe_op_res \<Rightarrow> pipe_op_res \<times> bytes option \<Rightarrow> bytes list \<times> unit or_exn"
where
  "create_connection_async A opened written answer =
     (if \<not> is_success_wait opened then ([], Inl (Runtime_error ''pipe waiting failed''))
      else ([create_request A],
        if \<not> is_success_op written
        then Inl (Runtime_error (''write operation failed: '' @ to_string_pipe_op_res written))
        else if \<not> is_success_op (fst answer)
        then Inl (Runtime_error (''read operation failed: '' @ to_string_pipe_op_res (fst answer)))
        else if \<not> check_response A (snd answer) then Inl (Runtime_error ''server forbid connection'')
        else Inr ()))"


section \<open>The server\<close>

datatype notification = Note_started | Note_stopped | Note_connection nat

datatype handshake_phase = Reading_request | Writing_response

record handshake =
  hs_id :: nat
  hs_flag :: nat
  hs_phase :: handshake_phase

record server_connector =
  sc_next_connection_id :: nat
  sc_is_running :: "nat option"
  sc_flags :: "bool list"
  sc_pipes :: "(nat \<times> nat) list"
  sc_handshakes :: "handshake list"
  sc_future_map :: "nat list"
  sc_written :: "bytes list"

definition server_connector_init :: server_connector where
  "server_connector_init =
     \<lparr>sc_next_connection_id = 0, sc_is_running = None, sc_flags = [], sc_pipes = [],
      sc_handshakes = [], sc_future_map = [], sc_written = []\<rparr>"

definition flag_set :: "nat \<Rightarrow> server_connector \<Rightarrow> bool" where
  "flag_set f s \<longleftrightarrow> f < length (sc_flags s) \<and> sc_flags s ! f"

definition is_active :: "server_connector \<Rightarrow> bool" where
  "is_active s = (case sc_is_running s of None \<Rightarrow> False | Some f \<Rightarrow> flag_set f s)"

text \<open>\<open>create_pipe\<close> is pending with the id of the connection and the flag.\<close>

definition await_pipe :: "nat \<Rightarrow> server_connector \<Rightarrow> server_connector" where
  "await_pipe f s =
     (let i = sc_next_connection_id s
      in s\<lparr>sc_next_connection_id := i + 1, sc_pipes := sc_pipes s @ [(i, f)],
           sc_future_map := sc_future_map s @ [i]\<rparr>)"

definition start_pipe_connect ::
  "bool \<Rightarrow> nat \<Rightarrow> server_connector \<Rightarrow> (server_connector \<times> notification list) or_exn"
where
  "start_pipe_connect first_time f s =
     (if first_time
      then if is_active s then Inl (Logic_error ''server connector already running'')
           else Inr (await_pipe f (s\<lparr>sc_is_running := Some f\<rparr>), [Note_started])
      else if \<not> flag_set f s then Inr (s, [])
      else Inr (await_pipe f s, []))"

definition connector_start :: "server_connector \<Rightarrow> (server_connector \<times> notification list) or_exn" where
  "connector_start s =
     start_pipe_connect True (length (sc_flags s)) (s\<lparr>sc_flags := sc_flags s @ [True]\<rparr>)"

definition stop_impl :: "nat option \<Rightarrow> server_connector \<Rightarrow> server_connector \<times> notification list" where
  "stop_impl fo s =
     (case fo of
        None \<Rightarrow> (s, [])
      | Some f \<Rightarrow>
          if \<not> flag_set f s then (s, [])
          else (s\<lparr>sc_flags := (sc_flags s)[f := False], sc_is_running := None, sc_future_map := []\<rparr>,
                [Note_stopped]))"

definition connector_stop :: "server_connector \<Rightarrow> server_connector \<times> notification list" where
  "connector_stop s = stop_impl (sc_is_running s) s"

definition erase_connection_future_from_map :: "nat \<Rightarrow> server_connector \<Rightarrow> server_connector" where
  "erase_connection_future_from_map i s = s\<lparr>sc_future_map := filter (\<lambda>j. j \<noteq> i) (sc_future_map s)\<rparr>"

definition notify_on_new_connection :: "nat \<Rightarrow> nat \<Rightarrow> server_connector \<Rightarrow> notification list" where
  "notify_on_new_connection i f s = (if flag_set f s then [Note_connection i] else [])"

text \<open>
  The continuations: of the pipe, of the read and of the write of a handshake, each with the position
  of the pending operation.  A handshake that fails or ends is erased from the map of futures.
\<close>

definition on_pipe_created ::
  "nat \<Rightarrow> pipe_wait_res \<Rightarrow> server_connector \<Rightarrow> server_connector \<times> notification list"
where
  "on_pipe_created k r s =
     (let (i, f) = sc_pipes s ! k;
          s = s\<lparr>sc_pipes := drop_nth k (sc_pipes s)\<rparr>
      in if \<not> is_success_wait r then stop_impl (Some f) s
         else case start_pipe_connect False f s of
                Inl e \<Rightarrow> stop_impl (Some f) s
              | Inr (s, os) \<Rightarrow>
                  (s\<lparr>sc_handshakes := sc_handshakes s @ [\<lparr>hs_id = i, hs_flag = f, hs_phase = Reading_request\<rparr>]\<rparr>, os))"

definition end_handshake :: "nat \<Rightarrow> server_connector \<Rightarrow> server_connector" where
  "end_handshake k s =
     erase_connection_future_from_map (hs_id (sc_handshakes s ! k))
       (s\<lparr>sc_handshakes := drop_nth k (sc_handshakes s)\<rparr>)"

definition on_request_read ::
  "authenticator \<Rightarrow> nat \<Rightarrow> pipe_op_res \<Rightarrow> bytes option \<Rightarrow> server_connector \<Rightarrow> server_connector"
where
  "on_request_read A k r b s =
     (if \<not> is_success_op r \<or> \<not> check_request A b then end_handshake k s
      else s\<lparr>sc_handshakes := (sc_handshakes s)[k := (sc_handshakes s ! k)\<lparr>hs_phase := Writing_response\<rparr>],
             sc_written := sc_written s @ [create_response A b]\<rparr>)"

definition on_response_written ::
  "nat \<Rightarrow> pipe_op_res \<Rightarrow> server_connector \<Rightarrow> server_connector \<times> notification list"
where
  "on_response_written k r s =
     (let h = sc_handshakes s ! k
      in (end_handshake k s,
          if \<not> is_success_op r then [] else notify_on_new_connection (hs_id h) (hs_flag h) s))"

datatype connector_event =
    Connector_start
  | Connector_stop
  | Pipe_created nat pipe_wait_res
  | Request_read nat pipe_op_res "bytes option"
  | Response_written nat pipe_op_res

text \<open>A start that throws changes nothing but the unused flag.\<close>

fun connector_step ::
  "authenticator \<Rightarrow> server_connector \<Rightarrow> connector_event \<Rightarrow> server_connector \<times> notification list"
where
  "connector_step A s Connector_start =
     (case connector_start s of Inl e \<Rightarrow> (s, []) | Inr r \<Rightarrow> r)"
| "connector_step A s Connector_stop = connector_stop s"
| "connector_step A s (Pipe_created k r) =
     (if k < length (sc_pipes s) then on_pipe_created k r s else (s, []))"
| "connector_step A s (Request_read k r b) =
     (if k < length (sc_handshakes s) \<and> hs_phase (sc_handshakes s ! k) = Reading_request
      then (on_request_read A k r b s, []) else (s, []))"
| "connector_step A s (Response_written k r) =
     (if k < length (sc_handshakes s) \<and> hs_phase (sc_handshakes s ! k) = Writing_response
      then on_response_written k r s else (s, []))"


section \<open>Invariants\<close>

definition ids_ok :: "server_connector \<Rightarrow> bool" where
  "ids_ok s \<longleftrightarrow>
     distinct (map fst (sc_pipes s)) \<and> distinct (map hs_id (sc_handshakes s)) \<and>
     (\<forall>p \<in> set (sc_pipes s). fst p < sc_next_connection_id s \<and> (\<forall>h \<in> set (sc_handshakes s). fst p \<noteq> hs_id h)) \<and>
     (\<forall>h \<in> set (sc_handshakes s). hs_id h < sc_next_connection_id s)"

definition connector_inv :: "server_connector \<Rightarrow> bool" where
  "connector_inv s \<longleftrightarrow> (\<forall>f. flag_set f s \<longleftrightarrow> sc_is_running s = Some f) \<and> ids_ok s"

lemma connector_inv_init: "connector_inv server_connector_init"
  by (simp add: connector_inv_def ids_ok_def server_connector_init_def flag_set_def)

lemma active_running: "connector_inv s \<Longrightarrow> is_active s \<longleftrightarrow> sc_is_running s \<noteq> None"
  by (auto simp: connector_inv_def is_active_def split: option.split)

text \<open>Only the flag of the current run is set, so stopping it leaves none.\<close>

lemma stop_inv:
  assumes "connector_inv s"
  shows "connector_inv (fst (stop_impl fo s))"
proof (cases "\<exists>f. fo = Some f \<and> flag_set f s")
  case True
  then obtain f where f: "fo = Some f" "flag_set f s" by blast
  let ?s = "s\<lparr>sc_flags := (sc_flags s)[f := False], sc_is_running := None, sc_future_map := []\<rparr>"
  have "flag_set g s \<longrightarrow> g = f" for g using assms f(2) by (simp add: connector_inv_def)
  then have "\<not> flag_set g ?s" for g by (cases "g = f") (auto simp: flag_set_def)
  then show ?thesis using assms f by (simp add: stop_impl_def connector_inv_def ids_ok_def)
qed (use assms in \<open>auto simp: stop_impl_def split: option.split\<close>)

lemma end_handshake_inv:
  assumes "connector_inv s" "k < length (sc_handshakes s)"
  shows "connector_inv (end_handshake k s)"
  using assms distinct_drop_nth(1) [of hs_id "sc_handshakes s" k]
  by (simp add: connector_inv_def ids_ok_def flag_set_def end_handshake_def
      erase_connection_future_from_map_def) (metis in_drop_nth)

lemma await_inv: "connector_inv s \<Longrightarrow> connector_inv (await_pipe f s)"
  by (fastforce simp: connector_inv_def ids_ok_def await_pipe_def flag_set_def Let_def)

lemma start_cases:
  assumes "connector_inv s" "connector_start s = Inr (s', os)"
  shows "connector_inv s'" "sc_is_running s = None" "sc_is_running s' \<noteq> None" "os = [Note_started]"
    "s' = await_pipe (length (sc_flags s))
       (s\<lparr>sc_flags := sc_flags s @ [True], sc_is_running := Some (length (sc_flags s))\<rparr>)"
proof -
  let ?s = "s\<lparr>sc_flags := sc_flags s @ [True], sc_is_running := Some (length (sc_flags s))\<rparr>"
  have idle: "\<not> is_active (s\<lparr>sc_flags := sc_flags s @ [True]\<rparr>)"
    and s': "s' = await_pipe (length (sc_flags s)) ?s" and os: "os = [Note_started]"
    using assms(2) by (auto simp: connector_start_def start_pipe_connect_def split: if_splits)
  show none: "sc_is_running s = None"
  proof (rule ccontr)
    assume "sc_is_running s \<noteq> None"
    then obtain f where f: "sc_is_running s = Some f" by blast
    then have "flag_set f s" using assms(1) by (simp add: connector_inv_def)
    then show False using idle f by (simp add: is_active_def flag_set_def nth_append)
  qed
  have "\<not> flag_set f s" for f using assms(1) none by (simp add: connector_inv_def)
  then have "flag_set f ?s \<longleftrightarrow> f = length (sc_flags s)" for f
    by (auto simp: flag_set_def nth_append less_Suc_eq)
  then have "connector_inv ?s" using assms(1) by (auto simp: connector_inv_def ids_ok_def)
  then show "connector_inv s'" unfolding s' by (rule await_inv)
  show "sc_is_running s' \<noteq> None" "os = [Note_started]" "s' = await_pipe (length (sc_flags s)) ?s"
    using s' os by (simp_all add: await_pipe_def Let_def)
qed

lemma pipe_created_inv:
  assumes "connector_inv s" "k < length (sc_pipes s)"
  shows "connector_inv (fst (on_pipe_created k r s))"
proof -
  obtain i f where k: "sc_pipes s ! k = (i, f)" by fastforce
  let ?s = "s\<lparr>sc_pipes := drop_nth k (sc_pipes s)\<rparr>"
  let ?h = "\<lparr>hs_id = i, hs_flag = f, hs_phase = Reading_request\<rparr>"
  have ids: "ids_ok s" using assms(1) by (simp add: connector_inv_def)
  have mem: "(i, f) \<in> set (sc_pipes s)" using assms(2) k by (metis nth_mem)
  have ps: "distinct (map fst (drop_nth k (sc_pipes s)))" "\<And>p. p \<in> set (drop_nth k (sc_pipes s)) \<Longrightarrow> fst p \<noteq> i"
    using distinct_drop_nth [of fst "sc_pipes s" k] ids assms(2) k by (simp_all add: ids_ok_def)
  have inv: "connector_inv ?s"
    using assms(1) ps(1) by (auto simp: connector_inv_def ids_ok_def flag_set_def dest: in_drop_nth)
  have fresh: "i < sc_next_connection_id s" "\<And>h. h \<in> set (sc_handshakes s) \<Longrightarrow> hs_id h \<noteq> i"
    using ids mem by (force simp: ids_ok_def)+
  have add: "connector_inv (t\<lparr>sc_handshakes := sc_handshakes t @ [?h]\<rparr>)"
    if "connector_inv t" "i < sc_next_connection_id t" "\<And>p. p \<in> set (sc_pipes t) \<Longrightarrow> fst p \<noteq> i"
      "\<And>h. h \<in> set (sc_handshakes t) \<Longrightarrow> hs_id h \<noteq> i" for t
    using that by (auto simp: connector_inv_def ids_ok_def flag_set_def)
  have "connector_inv (?s\<lparr>sc_handshakes := sc_handshakes ?s @ [?h]\<rparr>)"
    by (rule add [OF inv]) (use fresh ps(2) in auto)
  moreover have "connector_inv ((await_pipe f ?s)\<lparr>sc_handshakes := sc_handshakes (await_pipe f ?s) @ [?h]\<rparr>)"
    by (rule add [OF await_inv [OF inv]]) (use fresh ps(2) in \<open>auto simp: await_pipe_def Let_def\<close>)
  ultimately show ?thesis
    using stop_inv [OF inv] by (simp add: on_pipe_created_def k start_pipe_connect_def Let_def)
qed

lemma connector_inv_step:
  assumes "connector_inv s"
  shows "connector_inv (fst (connector_step A s e))"
proof (cases e)
  case Connector_start
  then show ?thesis
    using assms start_cases(1) [OF assms] by (cases "connector_start s") auto
next
  case Connector_stop
  then show ?thesis using stop_inv [OF assms] by (simp add: connector_stop_def)
next
  case (Pipe_created k r)
  then show ?thesis using assms pipe_created_inv by simp
next
  case (Request_read k r b)
  let ?hs = "(sc_handshakes s)[k := (sc_handshakes s ! k)\<lparr>hs_phase := Writing_response\<rparr>]"
  have "map hs_id ?hs = map hs_id (sc_handshakes s)" if "k < length (sc_handshakes s)"
    using that by (simp add: map_update list_update_same_conv)
  moreover have "\<exists>h' \<in> set (sc_handshakes s). hs_id h' = hs_id h" if "h \<in> set ?hs" "k < length (sc_handshakes s)" for h
    using that nth_mem [OF that(2)] by (auto dest!: subsetD [OF set_update_subset_insert])
  ultimately show ?thesis
    using Request_read assms end_handshake_inv [OF assms]
    by (simp add: on_request_read_def connector_inv_def ids_ok_def flag_set_def) (metis (no_types, lifting))
next
  case (Response_written k r)
  then show ?thesis using assms end_handshake_inv [OF assms] by (simp add: on_response_written_def Let_def)
qed

interpretation sc: event_system "connector_step A" connector_inv
  by unfold_locales (rule connector_inv_step)


section \<open>What the server reports\<close>

text \<open>
  The notifications that a listener may see: runs of start, connections, stop.  The result is
  whether a run is under way at the end, \<^term>\<open>None\<close> for a sequence that is not allowed.
\<close>

fun lifecycle :: "bool \<Rightarrow> notification list \<Rightarrow> bool option" where
  "lifecycle r [] = Some r"
| "lifecycle r (Note_started # ns) = (if r then None else lifecycle True ns)"
| "lifecycle r (Note_stopped # ns) = (if r then lifecycle False ns else None)"
| "lifecycle r (Note_connection i # ns) = (if r then lifecycle r ns else None)"

lemma lifecycle_append: "lifecycle r (ns @ ms) = Option.bind (lifecycle r ns) (\<lambda>r'. lifecycle r' ms)"
  by (induction r ns rule: lifecycle.induct) simp_all

fun connections :: "notification list \<Rightarrow> nat list" where
  "connections [] = []"
| "connections (Note_connection i # ns) = i # connections ns"
| "connections (n # ns) = connections ns"

lemma connections_append [simp]: "connections (ns @ ms) = connections ns @ connections ms"
  by (induction ns rule: connections.induct) simp_all

lemma stop_notes:
  "connector_inv s \<Longrightarrow>
   lifecycle (sc_is_running s \<noteq> None) (snd (stop_impl fo s)) = Some (sc_is_running (fst (stop_impl fo s)) \<noteq> None)"
  by (auto simp: stop_impl_def connector_inv_def split: option.split)

lemma pipe_removed_inv: "connector_inv s \<Longrightarrow> k < length (sc_pipes s) \<Longrightarrow> connector_inv (s\<lparr>sc_pipes := drop_nth k (sc_pipes s)\<rparr>)"
  using distinct_drop_nth(1) [of fst "sc_pipes s" k]
  by (simp add: connector_inv_def ids_ok_def flag_set_def) (metis in_drop_nth)

lemma step_notes:
  assumes "connector_inv s"
  shows "lifecycle (is_active s) (snd (connector_step A s e)) = Some (is_active (fst (connector_step A s e)))"
  unfolding active_running [OF assms] active_running [OF connector_inv_step [OF assms]]
proof (cases e)
  case Connector_start
  show "lifecycle (sc_is_running s \<noteq> None) (snd (connector_step A s e)) = Some (sc_is_running (fst (connector_step A s e)) \<noteq> None)"
  proof (cases "connector_start s")
    case (Inr r)
    then show ?thesis
      using Connector_start start_cases(2-4) [OF assms, of "fst r" "snd r"] by (cases r) simp
  qed (simp add: Connector_start)
next
  case Connector_stop
  then show "lifecycle (sc_is_running s \<noteq> None) (snd (connector_step A s e)) = Some (sc_is_running (fst (connector_step A s e)) \<noteq> None)"
    using stop_notes [OF assms] by (simp add: connector_stop_def)
next
  case (Pipe_created k r)
  obtain i f where k: "sc_pipes s ! k = (i, f)" by fastforce
  show "lifecycle (sc_is_running s \<noteq> None) (snd (connector_step A s e)) = Some (sc_is_running (fst (connector_step A s e)) \<noteq> None)"
    using Pipe_created stop_notes [OF pipe_removed_inv [OF assms], of k "Some f"]
    by (simp add: on_pipe_created_def k start_pipe_connect_def await_pipe_def Let_def)
next
  case (Request_read k r b)
  then show "lifecycle (sc_is_running s \<noteq> None) (snd (connector_step A s e)) = Some (sc_is_running (fst (connector_step A s e)) \<noteq> None)"
    by (simp add: on_request_read_def end_handshake_def erase_connection_future_from_map_def)
next
  case (Response_written k r)
  then show "lifecycle (sc_is_running s \<noteq> None) (snd (connector_step A s e)) = Some (sc_is_running (fst (connector_step A s e)) \<noteq> None)"
    using assms by (simp add: on_response_written_def end_handshake_def erase_connection_future_from_map_def
        notify_on_new_connection_def connector_inv_def Let_def)
qed

lemma run_notes:
  "connector_inv s \<Longrightarrow>
   lifecycle (is_active s) (run_output (connector_step A) s es) = Some (is_active (run_state (connector_step A) s es))"
proof (induction es arbitrary: s)
  case (Cons e es)
  then show ?case using step_notes [OF Cons.prems] connector_inv_step by (simp add: lifecycle_append)
qed simp

text \<open>The ids of connections that are still being established.\<close>

definition live_ids :: "server_connector \<Rightarrow> nat set" where
  "live_ids s = fst ` set (sc_pipes s) \<union> hs_id ` set (sc_handshakes s)"

definition writing_ids :: "server_connector \<Rightarrow> nat set" where
  "writing_ids s = hs_id ` {h \<in> set (sc_handshakes s). hs_phase h = Writing_response}"

text \<open>The ids whose request the authenticator accepts in a step.\<close>

fun accepted :: "authenticator \<Rightarrow> server_connector \<Rightarrow> connector_event \<Rightarrow> nat list" where
  "accepted A s (Request_read k r b) =
     (if k < length (sc_handshakes s) \<and> r = Op_success \<and> check_request A b
      then [hs_id (sc_handshakes s ! k)] else [])"
| "accepted A s e = []"

lemma stop_same [simp]:
  "connections (snd (stop_impl fo s)) = []" "sc_pipes (fst (stop_impl fo s)) = sc_pipes s"
  "sc_handshakes (fst (stop_impl fo s)) = sc_handshakes s"
  "sc_next_connection_id (fst (stop_impl fo s)) = sc_next_connection_id s"
  by (simp_all add: stop_impl_def split: option.split)

lemma await_same [simp]:
  "sc_pipes (await_pipe f s) = sc_pipes s @ [(sc_next_connection_id s, f)]"
  "sc_handshakes (await_pipe f s) = sc_handshakes s"
  "sc_next_connection_id (await_pipe f s) = Suc (sc_next_connection_id s)"
  by (simp_all add: await_pipe_def Let_def)

lemma end_handshake_same [simp]:
  "sc_pipes (end_handshake k s) = sc_pipes s" "sc_handshakes (end_handshake k s) = drop_nth k (sc_handshakes s)"
  "sc_next_connection_id (end_handshake k s) = sc_next_connection_id s"
  by (simp_all add: end_handshake_def erase_connection_future_from_map_def)

lemma ended_id:
  assumes "connector_inv s" "k < length (sc_handshakes s)"
  shows "hs_id (sc_handshakes s ! k) \<notin> live_ids (end_handshake k s)"
  using assms distinct_drop_nth(2) [of hs_id "sc_handshakes s" k] nth_mem [OF assms(2)]
  by (fastforce simp: live_ids_def connector_inv_def ids_ok_def)

lemma step_published:
  assumes "connector_inv s" "connections (snd (connector_step A s e)) \<noteq> []"
  obtains i where "connections (snd (connector_step A s e)) = [i]" "i \<in> writing_ids s"
    "i \<notin> live_ids (fst (connector_step A s e))"
proof (cases e)
  case Connector_start
  then show ?thesis
    using assms start_cases(4) [OF assms(1)] by (cases "connector_start s") auto
next
  case (Pipe_created k r)
  then show ?thesis
    using assms(2) by (auto simp: on_pipe_created_def start_pipe_connect_def Let_def split: prod.splits if_splits)
next
  case (Response_written k r)
  then have k: "k < length (sc_handshakes s)" "hs_phase (sc_handshakes s ! k) = Writing_response"
    and pub: "connections (snd (connector_step A s e)) = [hs_id (sc_handshakes s ! k)]"
    and st: "fst (connector_step A s e) = end_handshake k s"
    using assms(2) by (auto simp: on_response_written_def notify_on_new_connection_def Let_def split: if_splits)
  then show ?thesis
    using that [OF pub] ended_id [OF assms(1) k(1)] nth_mem [OF k(1)] by (auto simp: writing_ids_def)
qed (use assms(2) in \<open>auto simp: connector_stop_def split: if_splits\<close>)

lemma step_live:
  assumes "connector_inv s"
  shows "live_ids (fst (connector_step A s e)) \<subseteq> live_ids s \<union> {sc_next_connection_id s}"
    "sc_next_connection_id s \<le> sc_next_connection_id (fst (connector_step A s e))"
proof -
  have upd: "hs_id h \<in> hs_id ` set (sc_handshakes s)"
    if "h \<in> set ((sc_handshakes s)[k := (sc_handshakes s ! k)\<lparr>hs_phase := p\<rparr>])" "k < length (sc_handshakes s)" for h k p
    using that nth_mem [OF that(2)] by (auto dest!: subsetD [OF set_update_subset_insert])
  have pipe: "i \<in> fst ` set (sc_pipes s)" if "k < length (sc_pipes s)" "sc_pipes s ! k = (i, f)" for k i f
    using nth_mem [OF that(1)] that(2) by force
  show "live_ids (fst (connector_step A s e)) \<subseteq> live_ids s \<union> {sc_next_connection_id s}"
  proof (cases e)
    case Connector_start
    then show ?thesis
      using start_cases(5) [OF assms] by (cases "connector_start s") (auto simp: live_ids_def)
  next
    case (Pipe_created k r)
    then show ?thesis
      by (auto simp: live_ids_def on_pipe_created_def start_pipe_connect_def Let_def split: prod.splits
          dest!: in_drop_nth dest: pipe)
  next
    case (Request_read k r b)
    then show ?thesis using upd [of _ k] by (auto simp: live_ids_def on_request_read_def dest!: in_drop_nth)
  qed (auto simp: live_ids_def connector_stop_def on_response_written_def Let_def dest!: in_drop_nth)
  show "sc_next_connection_id s \<le> sc_next_connection_id (fst (connector_step A s e))"
  proof (cases e)
    case Connector_start
    then show ?thesis using start_cases(5) [OF assms] by (cases "connector_start s") auto
  qed (auto simp: connector_stop_def on_response_written_def on_request_read_def on_pipe_created_def
      start_pipe_connect_def Let_def split: prod.splits)
qed

lemma step_writing:
  assumes "connector_inv s"
  shows "writing_ids (fst (connector_step A s e)) \<subseteq> writing_ids s \<union> set (accepted A s e)"
proof (cases e)
  case Connector_start
  then show ?thesis
    using start_cases(5) [OF assms] by (cases "connector_start s") (auto simp: writing_ids_def)
next
  case (Request_read k r b)
  then show ?thesis
    by (auto simp: writing_ids_def on_request_read_def is_success_op_def dest!: in_drop_nth
        subsetD [OF set_update_subset_insert])
qed (auto simp: writing_ids_def connector_stop_def on_response_written_def on_pipe_created_def
    start_pipe_connect_def Let_def split: prod.splits dest!: in_drop_nth)

lemma run_published:
  assumes "connector_inv s"
  shows "distinct (connections (run_output (connector_step A) s es)) \<and>
    set (connections (run_output (connector_step A) s es)) \<subseteq> live_ids s \<union> {sc_next_connection_id s..} \<and>
    set (connections (run_output (connector_step A) s es)) \<subseteq>
      writing_ids s \<union> set (run_collect (connector_step A) (accepted A) s es)"
  using assms
proof (induction es arbitrary: s)
  case Nil
  then show ?case by simp
next
  case (Cons e es)
  let ?s = "fst (connector_step A s e)"
  note IH = Cons.IH [OF connector_inv_step [OF Cons.prems]]
  note live = step_live [OF Cons.prems, of A e] and writ = step_writing [OF Cons.prems, of A e]
  show ?case
  proof (cases "connections (snd (connector_step A s e)) = []")
    case True
    then show ?thesis using IH [of A e] live writ by fastforce
  next
    case False
    then obtain i where i: "connections (snd (connector_step A s e)) = [i]" "i \<in> writing_ids s" "i \<notin> live_ids ?s"
      using step_published [OF Cons.prems] by blast
    have "i \<in> live_ids s" using i(2) by (auto simp: writing_ids_def live_ids_def)
    moreover have "i < sc_next_connection_id s"
      using i(2) Cons.prems by (auto simp: writing_ids_def connector_inv_def ids_ok_def)
    ultimately show ?thesis using i IH [of A e] live writ by fastforce
  qed
qed

text \<open>
  C22: A listener of the server connector sees runs only: a start, then connections, then a stop,
  and the connector says it is active exactly when a run is under way.  So no connection is
  reported after a stop, even one whose handshake was under way, and no connection is reported twice.
\<close>

theorem server_connector_lifecycle:
  "lifecycle False (run_output (connector_step A) server_connector_init es) =
     Some (is_active (run_state (connector_step A) server_connector_init es)) \<and>
   distinct (connections (run_output (connector_step A) server_connector_init es))"
proof -
  have "\<not> is_active server_connector_init" by (simp add: is_active_def server_connector_init_def)
  then show ?thesis
    using run_notes [OF connector_inv_init, of A es] run_published [OF connector_inv_init, of A es] by simp
qed

text \<open>
  C23: Nobody connects without authentication.  Every connection that the server reports belongs to
  a handshake in which the authenticator accepted the request that was read.  The client gets
  a connection exactly when the pipe opens, its request is written, and the authenticator
  accepts the response that was read.
\<close>

theorem connection_authenticated:
  "set (connections (run_output (connector_step A) server_connector_init es)) \<subseteq>
     set (run_collect (connector_step A) (accepted A) server_connector_init es) \<and>
   (snd (create_connection_async A opened written answer) = Inr ()) =
     (opened = Wait_success \<and> written = Op_success \<and> fst answer = Op_success \<and> check_response A (snd answer))"
proof -
  have "writing_ids server_connector_init = {}" by (simp add: writing_ids_def server_connector_init_def)
  then show ?thesis
    using run_published [OF connector_inv_init, of A es]
    by (auto simp: create_connection_async_def is_success_wait_def is_success_op_def split: if_splits)
qed

text \<open>A client that is accepted while a second one, whose handshake outlives the run, is not reported.\<close>

lemma connector_example:
  "run_output (connector_step (simple_authenticator (\<lambda>n. replicate n 0))) server_connector_init
     [Connector_start, Pipe_created 0 Wait_success, Request_read 0 Op_success (Some [0]), Response_written 0 Op_success,
      Pipe_created 0 Wait_success, Request_read 0 Op_success (Some [0]), Connector_stop, Response_written 0 Op_success]
   = [Note_started, Note_connection 0, Note_stopped]"
  by code_simp

end
