(* ===== verification/Pipe_Env.thy ===== *)
theory Pipe_Env
  imports Rpc_Types Timers
begin

text \<open>
  What a connector relies on in a pipe environment (\<open>rpc-lib/pipe/iserver-pipe-env.h\<close> and
  \<open>iclient-pipe-env.h\<close>): every call that waits for a pipe gets one result, and a call that is
  cancelled before its pipe is established does not get a pipe.
\<close>

text \<open>The result of a call: the code, and the socket of the endpoint for a success.\<close>

type_synonym pipe_wait_result = "pipe_wait_res \<times> nat option"

abbreviation no_pipe :: "pipe_wait_res \<Rightarrow> pipe_wait_result" where
  "no_pipe r \<equiv> (r, None)"

definition successful :: "pipe_wait_result completion \<Rightarrow> bool" where
  "successful c = is_success_wait (fst (snd c))"

text \<open>The result of a cancelled operation, by the timer or by a call.\<close>

definition canceled_result :: "bool \<Rightarrow> pipe_wait_res" where
  "canceled_result by_timer = (if by_timer then Wait_timeout else Wait_canceled)"

lemma canceled_not_success [simp]:
  "is_success_wait (canceled_result b) = False" "canceled_result b \<noteq> Wait_success"
  by (simp_all add: canceled_result_def is_success_wait_def)

text \<open>A result carries a socket exactly if it is a success.\<close>

definition carries_socket :: "pipe_wait_result completion \<Rightarrow> bool" where
  "carries_socket c \<longleftrightarrow> (successful c \<longleftrightarrow> snd (snd c) \<noteq> None)"

text \<open>
  \<open>calls\<close> counts the calls so far; a \<open>doomed\<close> call was cancelled before its pipe was established, and
  never gets a result that is \<open>granted\<close>.
\<close>

locale cancellable_env = completion_system step inv pend opn
  for step :: "'s \<Rightarrow> 'e \<Rightarrow> 's \<times> 'r completion list"
    and inv :: "'s \<Rightarrow> bool"
    and pend :: "'s \<Rightarrow> promise_id multiset"
    and opn :: "'s \<Rightarrow> 'e \<Rightarrow> promise_id multiset" +
  fixes calls :: "'s \<Rightarrow> nat"
    and doomed :: "'s \<Rightarrow> promise_id \<Rightarrow> bool"
    and granted :: "'r completion \<Rightarrow> bool"
  assumes opened_calls: "inv s \<Longrightarrow> mset [0..<calls s] + opn s e = mset [0..<calls (fst (step s e))]"
    and doomed_step: "inv s \<Longrightarrow> doomed s p \<Longrightarrow> doomed (fst (step s e)) p"
    and doomed_output: "inv s \<Longrightarrow> doomed s p \<Longrightarrow> (p, r) \<in> set (snd (step s e)) \<Longrightarrow> \<not> granted (p, r)"
begin

lemma opened_run: "inv s \<Longrightarrow> mset [0..<calls s] + run_opened step opn s es = mset [0..<calls (run_state step s es)]"
proof (induction es arbitrary: s)
  case (Cons e es)
  then show ?case
    using Cons.IH [OF inv_step [OF Cons.prems]] opened_calls [OF Cons.prems, of e] by (simp add: union_assoc [symmetric])
qed simp

text \<open>The calls are numbered, so a fresh environment answers each of them once.\<close>

lemma answered_once:
  fixes es
  assumes "inv s" "calls s = 0" "pend s = {#}"
  defines "s' \<equiv> run_state step s es" and "out \<equiv> run_output step s es"
  shows "distinct (map fst out)" "set (map fst out) \<subseteq> {..<calls s'}"
    "pend s' = {#} \<Longrightarrow> set (map fst out) = {..<calls s'}"
    "pend s' + mset (map fst out) = mset [0..<calls s']"
proof -
  have "run_opened step opn s es = mset [0..<calls s']" using opened_run [OF assms(1), of es] assms(2) by (simp add: s'_def)
  then show conserve: "pend s' + mset (map fst out) = mset [0..<calls s']"
    using conserve_run [OF assms(1), of es] assms(3) by (simp add: out_def s'_def)
  then have sub: "mset (map fst out) \<subseteq># mset [0..<calls s']" by (metis mset_subset_eq_add_right)
  show "distinct (map fst out)" using distinct_submset [OF sub] by simp
  show "set (map fst out) \<subseteq> {..<calls s'}" using set_mset_mono [OF sub] by (simp add: lessThan_atLeast0)
  show "set (map fst out) = {..<calls s'}" if "pend s' = {#}"
    using conserve that by (metis add_0 lessThan_atLeast0 set_mset_mset set_upt)
qed

lemma doomed_never_successful:
  assumes "inv s" "doomed s p" "(p, r) \<in> set (run_output step s es)"
  shows "\<not> granted (p, r)"
  using assms
proof (induction es arbitrary: s)
  case Nil
  then show ?case by simp
next
  case (Cons e es)
  have "(p, r) \<in> set (snd (step s e)) \<or> (p, r) \<in> set (run_output step (fst (step s e)) es)"
    using Cons.prems(3) by simp
  then show ?case
    using doomed_output [OF Cons.prems(1,2)]
      Cons.IH [OF inv_step [OF Cons.prems(1)] doomed_step [OF Cons.prems(1,2)]] by blast
qed

end

end
