(* ===== verification/Tcp_Server_Env.thy ===== *)
theory Tcp_Server_Env
  imports Pipe_Env
begin

text \<open>
  Accepting sockets, \<open>rpc-lib/pipe/tcp-pipe/tcp-pipe-server-env.cpp\<close>.

  The calls of \<open>create_pipe\<close> wait in a list, the newest in front; only the one at the back has an
  accept outstanding.  A step is one critical section, the handler of an accept, the completion
  of an operation outside the lock, or the continuation that follows it.  The operations are
  named by their id, which is also the promise of the call.
\<close>

section \<open>Operations\<close>

record create_operation =
  co_was_started :: bool
  co_was_canceled :: bool
  co_canceled_by_timer :: bool

record create_operation_data =
  cd_id :: nat
  cd_client_id :: nat
  cd_timer_id :: "timer_id option"

text \<open>
  \<open>ts_accepts\<close> are the operations with an accept whose handler has not run, \<open>ts_completing\<close> those
  taken out of the list that are yet to be completed, \<open>ts_finally\<close> the completed ones whose
  continuation has not run.  The next id is the number of operations so far.
\<close>

record tcp_server_env =
  ts_ops :: "create_operation list"
  ts_create_operations :: "create_operation_data list"
  ts_timer :: "nat multiple_timer"
  ts_accepts :: "nat list"
  ts_completing :: "pipe_wait_result completion list"
  ts_finally :: "pipe_wait_result completion list"

definition tcp_server_env_init :: tcp_server_env where
  "tcp_server_env_init =
     \<lparr>ts_ops = [], ts_create_operations = [], ts_timer = multiple_timer_init, ts_accepts = [],
      ts_completing = [], ts_finally = []\<rparr>"

text \<open>
  The constructor checks the port.  \<open>acceptor_error\<close> is the exception with which parsing the address or
  opening, binding and listening ends, if any.
\<close>

definition tcp_server_env_create :: "uint32 \<Rightarrow> exn option \<Rightarrow> tcp_server_env or_exn" where
  "tcp_server_env_create port acceptor_error =
     (if port > 65535 then Inl (Invalid_argument ''exceed max port value'')
      else case acceptor_error of Some e \<Rightarrow> Inl e | None \<Rightarrow> Inr tcp_server_env_init)"

definition create_operation_start :: "nat \<Rightarrow> tcp_server_env \<Rightarrow> tcp_server_env" where
  "create_operation_start i s =
     s\<lparr>ts_ops := (ts_ops s)[i := (ts_ops s ! i)\<lparr>co_was_started := True\<rparr>], ts_accepts := ts_accepts s @ [i]\<rparr>"

definition accept_result :: "create_operation \<Rightarrow> bool \<Rightarrow> bool \<Rightarrow> nat \<Rightarrow> pipe_wait_result" where
  "accept_result op ec option_ec socket =
     (if co_was_canceled op then no_pipe (canceled_result (co_canceled_by_timer op))
      else if ec then no_pipe Wait_failed
      else if option_ec then no_pipe Wait_failed
      else (Wait_success, Some socket))"

definition create_operation_cancel :: "bool \<Rightarrow> nat \<Rightarrow> tcp_server_env \<Rightarrow> tcp_server_env \<times> pipe_wait_res option" where
  "create_operation_cancel by_timer i s =
     (let op = ts_ops s ! i in
      if co_was_canceled op then (s, None)
      else (s\<lparr>ts_ops := (ts_ops s)[i := op\<lparr>co_was_canceled := True, co_canceled_by_timer := by_timer\<rparr>]\<rparr>,
            if co_was_started op then None else Some (canceled_result by_timer)))"

text \<open>\<open>complete\<close> sets the promise; the continuation of \<open>create_pipe\<close> is then due.\<close>

definition create_operation_complete :: "nat \<Rightarrow> pipe_wait_result \<Rightarrow> tcp_server_env \<Rightarrow> tcp_server_env" where
  "create_operation_complete i r s = s\<lparr>ts_finally := ts_finally s @ [(i, r)]\<rparr>"

definition accept_handler :: "nat \<Rightarrow> bool \<Rightarrow> bool \<Rightarrow> nat \<Rightarrow> tcp_server_env \<Rightarrow> tcp_server_env" where
  "accept_handler k ec option_ec socket s =
     (let i = ts_accepts s ! k
      in create_operation_complete i (accept_result (ts_ops s ! i) ec option_ec socket)
           (s\<lparr>ts_accepts := drop_nth k (ts_accepts s)\<rparr>))"


section \<open>The environment\<close>

definition create_pipe :: "time_point \<Rightarrow> nat \<Rightarrow> nat option \<Rightarrow> tcp_server_env \<Rightarrow> tcp_server_env" where
  "create_pipe now client_id timeout s =
     (let i = length (ts_ops s);
          (timer_id, timer) =
            (case timeout of
               None \<Rightarrow> (None, ts_timer s)
             | Some ms \<Rightarrow> map_prod Some id (multiple_timer_start now i ms (ts_timer s)));
          s = s\<lparr>ts_timer := timer,
                ts_ops := ts_ops s @ [\<lparr>co_was_started = False, co_was_canceled = False, co_canceled_by_timer = False\<rparr>],
                ts_create_operations :=
                  \<lparr>cd_id = i, cd_client_id = client_id, cd_timer_id = timer_id\<rparr> # ts_create_operations s\<rparr>
      in if length (ts_create_operations s) = 1
         then create_operation_start (cd_id (last (ts_create_operations s))) s else s)"

definition collect_result :: "nat \<Rightarrow> pipe_wait_res option \<Rightarrow> tcp_server_env \<Rightarrow> tcp_server_env" where
  "collect_result i r s =
     (case r of None \<Rightarrow> s | Some r \<Rightarrow> s\<lparr>ts_completing := ts_completing s @ [(i, no_pipe r)]\<rparr>)"

definition on_timeout :: "nat \<Rightarrow> tcp_server_env \<Rightarrow> tcp_server_env" where
  "on_timeout i s =
     (if i \<notin> cd_id ` set (ts_create_operations s) then s
      else
        let (s, r) = create_operation_cancel True i s;
            s = (if i \<noteq> cd_id (last (ts_create_operations s))
                 then s\<lparr>ts_create_operations := filter (\<lambda>d. cd_id d \<noteq> i) (ts_create_operations s)\<rparr> else s)
        in collect_result i r s)"

definition cancel_operation_timer :: "create_operation_data \<Rightarrow> tcp_server_env \<Rightarrow> tcp_server_env" where
  "cancel_operation_timer d s =
     (case cd_timer_id d of None \<Rightarrow> s | Some t \<Rightarrow> s\<lparr>ts_timer := multiple_timer_cancel t (ts_timer s)\<rparr>)"

definition on_completed :: "nat \<Rightarrow> tcp_server_env \<Rightarrow> tcp_server_env" where
  "on_completed i s =
     (if ts_create_operations s \<noteq> [] \<and> cd_id (last (ts_create_operations s)) = i
      then let s = cancel_operation_timer (last (ts_create_operations s)) s;
               s = s\<lparr>ts_create_operations := butlast (ts_create_operations s)\<rparr>
           in if ts_create_operations s \<noteq> []
              then create_operation_start (cd_id (last (ts_create_operations s))) s else s
      else s)"

definition matches :: "nat option \<Rightarrow> create_operation_data \<Rightarrow> bool" where
  "matches client_id d = (case client_id of None \<Rightarrow> True | Some c \<Rightarrow> cd_client_id d = c)"

definition cancel_one :: "create_operation_data \<Rightarrow> tcp_server_env \<Rightarrow> tcp_server_env" where
  "cancel_one d s =
     (let (s, r) = create_operation_cancel False (cd_id d) (cancel_operation_timer d s)
      in collect_result (cd_id d) r s)"

text \<open>The loop stops before the back of the list, which is kept and only marked.\<close>

definition cancel_pending_server_endpoints :: "nat option \<Rightarrow> tcp_server_env \<Rightarrow> tcp_server_env" where
  "cancel_pending_server_endpoints client_id s =
     (if ts_create_operations s = [] then s
      else
        let ds = butlast (ts_create_operations s); back = last (ts_create_operations s);
            s = fold cancel_one (filter (matches client_id) ds) s;
            s = s\<lparr>ts_create_operations := filter (\<lambda>d. \<not> matches client_id d) ds @ [back]\<rparr>
        in if matches client_id back then cancel_one back s else s)"

datatype server_env_event =
    Create_pipe time_point nat "nat option"
  | Accept_handler nat bool bool nat
  | Complete_collected nat
  | Run_finally nat
  | Cancel_pending_server "nat option"
  | Server_timer_expire time_point timer_id
  | Server_timer_handler timer_id

fun server_env_step ::
  "tcp_server_env \<Rightarrow> server_env_event \<Rightarrow> tcp_server_env \<times> pipe_wait_result completion list"
where
  "server_env_step s (Create_pipe now client_id timeout) = (create_pipe now client_id timeout s, [])"
| "server_env_step s (Accept_handler k ec option_ec socket) =
     (if k < length (ts_accepts s) then accept_handler k ec option_ec socket s else s, [])"
| "server_env_step s (Complete_collected k) =
     (if k < length (ts_completing s)
      then (let (i, r) = ts_completing s ! k
            in create_operation_complete i r (s\<lparr>ts_completing := drop_nth k (ts_completing s)\<rparr>))
      else s, [])"
| "server_env_step s (Run_finally k) =
     (if k < length (ts_finally s)
      then (on_completed (fst (ts_finally s ! k)) (s\<lparr>ts_finally := drop_nth k (ts_finally s)\<rparr>), [ts_finally s ! k])
      else (s, []))"
| "server_env_step s (Cancel_pending_server client_id) = (cancel_pending_server_endpoints client_id s, [])"
| "server_env_step s (Server_timer_expire now t) = (s\<lparr>ts_timer := multiple_timer_expire now t (ts_timer s)\<rparr>, [])"
| "server_env_step s (Server_timer_handler t) =
     (let (timer, cb) = multiple_timer_handler t (ts_timer s); s = s\<lparr>ts_timer := timer\<rparr>
      in (case cb of None \<Rightarrow> s | Some i \<Rightarrow> on_timeout i s, []))"


section \<open>What the operations leave alone\<close>

lemma start_fields [simp]:
  "ts_create_operations (create_operation_start i s) = ts_create_operations s"
  "ts_accepts (create_operation_start i s) = ts_accepts s @ [i]"
  "ts_completing (create_operation_start i s) = ts_completing s"
  "ts_finally (create_operation_start i s) = ts_finally s"
  "length (ts_ops (create_operation_start i s)) = length (ts_ops s)"
  "co_was_canceled (ts_ops (create_operation_start i s) ! j) = co_was_canceled (ts_ops s ! j)"
  "i < length (ts_ops s) \<Longrightarrow> co_was_started (ts_ops (create_operation_start i s) ! j) =
     (j = i \<or> co_was_started (ts_ops s ! j))"
  by (simp_all add: create_operation_start_def nth_list_update field_list_update)

lemma cancel_timer_fields [simp]:
  "ts_create_operations (cancel_operation_timer d s) = ts_create_operations s"
  "ts_accepts (cancel_operation_timer d s) = ts_accepts s"
  "ts_completing (cancel_operation_timer d s) = ts_completing s"
  "ts_finally (cancel_operation_timer d s) = ts_finally s"
  "ts_ops (cancel_operation_timer d s) = ts_ops s"
  by (simp_all add: cancel_operation_timer_def split: option.split)

lemma collect_fields [simp]:
  "ts_create_operations (collect_result i r s) = ts_create_operations s"
  "ts_accepts (collect_result i r s) = ts_accepts s"
  "ts_completing (collect_result i r s) =
     ts_completing s @ (case r of None \<Rightarrow> [] | Some r \<Rightarrow> [(i, no_pipe r)])"
  "ts_finally (collect_result i r s) = ts_finally s"
  "ts_ops (collect_result i r s) = ts_ops s"
  by (simp_all add: collect_result_def split: option.split)

lemma cancel_fields [simp]:
  "ts_create_operations (fst (create_operation_cancel b i s)) = ts_create_operations s"
  "ts_accepts (fst (create_operation_cancel b i s)) = ts_accepts s"
  "ts_completing (fst (create_operation_cancel b i s)) = ts_completing s"
  "ts_finally (fst (create_operation_cancel b i s)) = ts_finally s"
  "length (ts_ops (fst (create_operation_cancel b i s))) = length (ts_ops s)"
  "co_was_started (ts_ops (fst (create_operation_cancel b i s)) ! j) = co_was_started (ts_ops s ! j)"
  "i < length (ts_ops s) \<Longrightarrow> co_was_canceled (ts_ops (fst (create_operation_cancel b i s)) ! j) =
     (j = i \<or> co_was_canceled (ts_ops s ! j))"
  "snd (create_operation_cancel b i s) =
     (if co_was_canceled (ts_ops s ! i) \<or> co_was_started (ts_ops s ! i) then None else Some (canceled_result b))"
  by (auto simp: create_operation_cancel_def Let_def nth_list_update field_list_update)

lemma cancel_one_fields [simp]:
  "ts_create_operations (cancel_one d s) = ts_create_operations s"
  "ts_accepts (cancel_one d s) = ts_accepts s"
  "ts_completing (cancel_one d s) =
     ts_completing s @
     (if co_was_canceled (ts_ops s ! cd_id d) \<or> co_was_started (ts_ops s ! cd_id d) then []
      else [(cd_id d, no_pipe Wait_canceled)])"
  "ts_finally (cancel_one d s) = ts_finally s"
  "length (ts_ops (cancel_one d s)) = length (ts_ops s)"
  "co_was_started (ts_ops (cancel_one d s) ! j) = co_was_started (ts_ops s ! j)"
  "cd_id d < length (ts_ops s) \<Longrightarrow> co_was_canceled (ts_ops (cancel_one d s) ! j) =
     (j = cd_id d \<or> co_was_canceled (ts_ops s ! j))"
  by (simp_all add: cancel_one_def case_prod_beta canceled_result_def)

lemma fold_cancel_fields [simp]:
  "ts_create_operations (fold cancel_one ds s) = ts_create_operations s"
  "ts_accepts (fold cancel_one ds s) = ts_accepts s"
  "ts_finally (fold cancel_one ds s) = ts_finally s"
  "length (ts_ops (fold cancel_one ds s)) = length (ts_ops s)"
  "co_was_started (ts_ops (fold cancel_one ds s) ! j) = co_was_started (ts_ops s ! j)"
  by (induction ds arbitrary: s) simp_all

lemma fold_cancel_canceled:
  "\<forall>d \<in> set ds. cd_id d < length (ts_ops s) \<Longrightarrow>
   co_was_canceled (ts_ops (fold cancel_one ds s) ! j) = (j \<in> cd_id ` set ds \<or> co_was_canceled (ts_ops s ! j))"
  by (induction ds arbitrary: s) auto

lemma fold_cancel_completing:
  assumes "distinct (map cd_id ds)" "\<forall>d \<in> set ds. cd_id d < length (ts_ops s)"
    and "\<forall>d \<in> set ds. \<not> co_was_started (ts_ops s ! cd_id d) \<and> \<not> co_was_canceled (ts_ops s ! cd_id d)"
  shows "ts_completing (fold cancel_one ds s) = ts_completing s @ map (\<lambda>d. (cd_id d, no_pipe Wait_canceled)) ds"
  using assms
proof (induction ds arbitrary: s)
  case (Cons d ds)
  have "cd_id d' \<noteq> cd_id d" if "d' \<in> set ds" for d' using Cons.prems(1) that by (auto simp: image_iff)
  then show ?case using Cons.prems by (subst fold_Cons) (simp add: Cons.IH)
qed simp


section \<open>Invariant\<close>

definition op_ids :: "tcp_server_env \<Rightarrow> nat list" where
  "op_ids s = map cd_id (ts_create_operations s)"

lemma op_ids_other [simp]:
  "op_ids (s\<lparr>ts_finally := x\<rparr>) = op_ids s" "op_ids (s\<lparr>ts_completing := x\<rparr>) = op_ids s"
  "op_ids (s\<lparr>ts_accepts := y\<rparr>) = op_ids s" "op_ids (s\<lparr>ts_timer := t\<rparr>) = op_ids s"
  by (simp_all add: op_ids_def)

definition server_pending :: "tcp_server_env \<Rightarrow> promise_id multiset" where
  "server_pending s =
     mset (butlast (op_ids s)) + mset (ts_accepts s) + mset (map fst (ts_completing s)) + mset (map fst (ts_finally s))"

fun server_opened :: "tcp_server_env \<Rightarrow> server_env_event \<Rightarrow> promise_id multiset" where
  "server_opened s (Create_pipe now client_id timeout) = {#length (ts_ops s)#}"
| "server_opened s e = {#}"

text \<open>The operation at the back has its accept outstanding, or is completed and about to be removed.\<close>

definition back_ok :: "tcp_server_env \<Rightarrow> bool" where
  "back_ok s \<longleftrightarrow>
     (if op_ids s = [] then ts_accepts s = []
      else co_was_started (ts_ops s ! last (op_ids s)) \<and>
        (ts_accepts s = [last (op_ids s)] \<or> ts_accepts s = [] \<and> last (op_ids s) \<in> fst ` set (ts_finally s)))"

definition server_inv :: "tcp_server_env \<Rightarrow> bool" where
  "server_inv s \<longleftrightarrow>
     sorted_wrt (>) (op_ids s) \<and> (\<forall>i \<in> set (op_ids s). i < length (ts_ops s)) \<and>
     (\<forall>i \<in> set (butlast (op_ids s)). \<not> co_was_started (ts_ops s ! i) \<and> \<not> co_was_canceled (ts_ops s ! i)) \<and>
     back_ok s \<and>
     (\<forall>p. count (server_pending s) p \<le> 1) \<and> (\<forall>p \<in># server_pending s. p < length (ts_ops s)) \<and>
     (\<forall>c \<in> set (ts_completing s). \<not> successful c) \<and>
     (\<forall>c \<in> set (ts_finally s). successful c \<longrightarrow> op_ids s \<noteq> [] \<and> fst c = last (op_ids s))"

lemma server_inv_init: "server_inv tcp_server_env_init"
  by (simp add: server_inv_def op_ids_def back_ok_def server_pending_def tcp_server_env_init_def)

lemma descending_distinct: "sorted_wrt (>) (xs :: nat list) \<Longrightarrow> distinct xs"
  by (induction xs) auto

lemma server_invD:
  assumes "server_inv s"
  shows "sorted_wrt (>) (op_ids s)" "distinct (op_ids s)" "i \<in> set (op_ids s) \<Longrightarrow> i < length (ts_ops s)"
    "i \<in> set (butlast (op_ids s)) \<Longrightarrow> \<not> co_was_started (ts_ops s ! i)"
    "i \<in> set (butlast (op_ids s)) \<Longrightarrow> \<not> co_was_canceled (ts_ops s ! i)"
    "back_ok s" "count (server_pending s) p \<le> 1" "p \<in># server_pending s \<Longrightarrow> p < length (ts_ops s)"
    "c \<in> set (ts_completing s) \<Longrightarrow> \<not> successful c"
    "c \<in> set (ts_finally s) \<Longrightarrow> successful c \<Longrightarrow> op_ids s \<noteq> [] \<and> fst c = last (op_ids s)"
  using assms descending_distinct by (auto simp: server_inv_def)

lemma filter_keep_last:
  assumes "xs \<noteq> []" "P (last xs)"
  shows "filter P xs = filter P (butlast xs) @ [last xs]"
  using assms filter_append [of P "butlast xs" "[last xs]"] by simp

lemma create_pipe_fields:
  "op_ids (create_pipe now c t s) = length (ts_ops s) # op_ids s"
  "ts_accepts (create_pipe now c t s) = ts_accepts s @ (if op_ids s = [] then [length (ts_ops s)] else [])"
  "ts_completing (create_pipe now c t s) = ts_completing s"
  "ts_finally (create_pipe now c t s) = ts_finally s"
  "length (ts_ops (create_pipe now c t s)) = Suc (length (ts_ops s))"
  "j < length (ts_ops s) \<Longrightarrow> ts_ops (create_pipe now c t s) ! j = ts_ops s ! j"
  "co_was_started (ts_ops (create_pipe now c t s) ! length (ts_ops s)) = (op_ids s = [])"
  "\<not> co_was_canceled (ts_ops (create_pipe now c t s) ! length (ts_ops s))"
  by (simp_all add: create_pipe_def op_ids_def Let_def case_prod_beta)
    (simp_all add: create_operation_start_def nth_append)

lemma on_completed_fields:
  "op_ids (on_completed i s) = (if op_ids s \<noteq> [] \<and> last (op_ids s) = i then butlast (op_ids s) else op_ids s)"
  "ts_accepts (on_completed i s) =
     ts_accepts s @ (if butlast (op_ids s) \<noteq> [] \<and> last (op_ids s) = i then [last (butlast (op_ids s))] else [])"
  "ts_completing (on_completed i s) = ts_completing s"
  "ts_finally (on_completed i s) = ts_finally s"
  "length (ts_ops (on_completed i s)) = length (ts_ops s)"
  "co_was_canceled (ts_ops (on_completed i s) ! j) = co_was_canceled (ts_ops s ! j)"
  by (cases "ts_create_operations s = []";
      auto simp: on_completed_def op_ids_def Let_def last_map map_butlast [symmetric])+

lemma on_completed_started:
  "\<forall>i \<in> set (op_ids s). i < length (ts_ops s) \<Longrightarrow>
   co_was_started (ts_ops (on_completed i s) ! j) =
     (co_was_started (ts_ops s ! j) \<or> butlast (op_ids s) \<noteq> [] \<and> last (op_ids s) = i \<and> j = last (butlast (op_ids s)))"
  by (cases "ts_create_operations s = []"; cases "butlast (ts_create_operations s) = []")
    (auto simp: on_completed_def op_ids_def Let_def last_map map_butlast [symmetric]
      dest!: last_in_set dest: in_set_butlastD)

lemma on_timeout_fields:
  "op_ids (on_timeout i s) =
     (if i \<in> set (op_ids s) \<and> i \<noteq> last (op_ids s) then filter (\<lambda>j. j \<noteq> i) (op_ids s) else op_ids s)"
  "ts_accepts (on_timeout i s) = ts_accepts s"
  "ts_finally (on_timeout i s) = ts_finally s"
  "ts_completing (on_timeout i s) = ts_completing s @
     (if i \<in> set (op_ids s) \<and> \<not> co_was_canceled (ts_ops s ! i) \<and> \<not> co_was_started (ts_ops s ! i)
      then [(i, no_pipe Wait_timeout)] else [])"
  "length (ts_ops (on_timeout i s)) = length (ts_ops s)"
  "co_was_started (ts_ops (on_timeout i s) ! j) = co_was_started (ts_ops s ! j)"
  by (cases "ts_create_operations s = []";
      auto simp: on_timeout_def op_ids_def Let_def case_prod_beta last_map filter_map o_def canceled_result_def)+

lemma on_timeout_canceled:
  "\<forall>i \<in> set (op_ids s). i < length (ts_ops s) \<Longrightarrow>
   co_was_canceled (ts_ops (on_timeout i s) ! j) =
     (co_was_canceled (ts_ops s ! j) \<or> i \<in> set (op_ids s) \<and> j = i)"
  by (auto simp: on_timeout_def op_ids_def Let_def case_prod_beta)

abbreviation waiting_data :: "tcp_server_env \<Rightarrow> create_operation_data list" where
  "waiting_data s \<equiv> butlast (ts_create_operations s)"

lemma cancel_pending_fields:
  assumes "server_inv s" "ts_create_operations s \<noteq> []"
  shows "op_ids (cancel_pending_server_endpoints c s) =
      map cd_id (filter (\<lambda>d. \<not> matches c d) (waiting_data s)) @ [last (op_ids s)]"
    "ts_accepts (cancel_pending_server_endpoints c s) = ts_accepts s"
    "ts_finally (cancel_pending_server_endpoints c s) = ts_finally s"
    "ts_completing (cancel_pending_server_endpoints c s) =
      ts_completing s @ map (\<lambda>d. (cd_id d, no_pipe Wait_canceled)) (filter (matches c) (waiting_data s))"
    "length (ts_ops (cancel_pending_server_endpoints c s)) = length (ts_ops s)"
    "co_was_started (ts_ops (cancel_pending_server_endpoints c s) ! j) = co_was_started (ts_ops s ! j)"
    "co_was_canceled (ts_ops (cancel_pending_server_endpoints c s) ! j) =
      (co_was_canceled (ts_ops s ! j) \<or> j \<in> cd_id ` {d \<in> set (ts_create_operations s). matches c d})"
proof -
  let ?ds = "filter (matches c) (waiting_data s)" and ?b = "last (ts_create_operations s)"
  have L: "ts_create_operations s = waiting_data s @ [?b]" using assms(2) by simp
  have ids: "butlast (op_ids s) = map cd_id (waiting_data s)" "last (op_ids s) = cd_id ?b"
    using assms(2) by (simp_all add: op_ids_def map_butlast last_map)
  have small: "cd_id d < length (ts_ops s)" if "d \<in> set (ts_create_operations s)" for d
    using server_invD(3) [OF assms(1), of "cd_id d"] that by (simp add: op_ids_def)
  have dist: "distinct (map cd_id (waiting_data s))"
    using server_invD(2) [OF assms(1)] unfolding ids(1) [symmetric] by (rule distinct_butlast)
  then have ds: "distinct (map cd_id ?ds)" by (rule distinct_map_filter)
  have idle: "\<forall>d \<in> set ?ds. \<not> co_was_started (ts_ops s ! cd_id d) \<and> \<not> co_was_canceled (ts_ops s ! cd_id d)"
    using server_invD(4,5) [OF assms(1)] by (simp add: ids(1))
  have ds_small: "\<forall>d \<in> set ?ds. cd_id d < length (ts_ops s)" using small by (auto dest: in_set_butlastD)
  have "op_ids s \<noteq> []" using assms(2) by (simp add: op_ids_def)
  then have b: "co_was_started (ts_ops s ! cd_id ?b)" "cd_id ?b < length (ts_ops s)"
    using server_invD(6) [OF assms(1)] assms(2) small [of ?b] by (simp_all add: back_ok_def ids(2))
  note fold = fold_cancel_completing [OF ds ds_small idle] fold_cancel_canceled [OF ds_small]
  note cancel = cancel_pending_server_endpoints_def Let_def assms(2)
  show "ts_accepts (cancel_pending_server_endpoints c s) = ts_accepts s"
    "ts_finally (cancel_pending_server_endpoints c s) = ts_finally s"
    "length (ts_ops (cancel_pending_server_endpoints c s)) = length (ts_ops s)"
    "co_was_started (ts_ops (cancel_pending_server_endpoints c s) ! j) = co_was_started (ts_ops s ! j)"
    by (simp_all add: cancel)
  show "op_ids (cancel_pending_server_endpoints c s) =
      map cd_id (filter (\<lambda>d. \<not> matches c d) (waiting_data s)) @ [last (op_ids s)]"
    by (simp add: cancel op_ids_def last_map)
  show "ts_completing (cancel_pending_server_endpoints c s) =
      ts_completing s @ map (\<lambda>d. (cd_id d, no_pipe Wait_canceled)) ?ds"
    using b by (simp add: cancel fold)
  have "{d \<in> set (ts_create_operations s). matches c d} = set ?ds \<union> (if matches c ?b then {?b} else {})"
    by (subst L) auto
  then show "co_was_canceled (ts_ops (cancel_pending_server_endpoints c s) ! j) =
      (co_was_canceled (ts_ops s ! j) \<or> j \<in> cd_id ` {d \<in> set (ts_create_operations s). matches c d})"
    using b by (auto simp: cancel fold)
qed

lemma cancel_pending_empty: "ts_create_operations s = [] \<Longrightarrow> cancel_pending_server_endpoints c s = s"
  by (simp add: cancel_pending_server_endpoints_def)

lemma timeout_conserve:
  assumes "server_inv s"
  shows "server_pending (on_timeout i (s\<lparr>ts_timer := timer\<rparr>)) = server_pending s"
proof (cases "i \<in> set (butlast (op_ids s))")
  case True
  let ?xs = "op_ids s"
  have ne: "?xs \<noteq> []" using True by auto
  have i: "i \<in> set ?xs" "i \<noteq> last ?xs"
    using True in_set_butlastD [OF True] last_not_butlast [OF server_invD(2) [OF assms] ne] by auto
  have "filter (\<lambda>j. j \<noteq> i) ?xs = filter (\<lambda>j. j \<noteq> i) (butlast ?xs) @ [last ?xs]"
    using ne i(2) by (intro filter_keep_last) auto
  moreover have "distinct (butlast ?xs)" using server_invD(2) [OF assms] by (rule distinct_butlast)
  then have "mset (butlast ?xs) = add_mset i (mset (filter (\<lambda>j. j \<noteq> i) (butlast ?xs)))"
    using True by (rule mset_filter_neq)
  ultimately show ?thesis
    using i server_invD(4,5) [OF assms True] by (simp add: server_pending_def on_timeout_fields)
next
  case False
  have "i = last (op_ids s)" if "i \<in> set (op_ids s)"
    using False that by (metis append_butlast_last_id empty_iff empty_set in_set_conv_decomp insertE list.simps(15)
        set_append Un_iff)
  then show ?thesis
    using server_invD(6) [OF assms]
    by (auto simp: server_pending_def on_timeout_fields back_ok_def split: if_splits)
qed

lemma server_conserve:
  assumes "server_inv s"
  shows "server_pending (fst (server_env_step s e)) + mset (map fst (snd (server_env_step s e))) =
    server_pending s + server_opened s e"
proof (cases e)
  case (Create_pipe now c t)
  then show ?thesis
    using server_invD(6) [OF assms] by (auto simp: server_pending_def create_pipe_fields back_ok_def)
next
  case (Accept_handler k ec oe sock)
  then show ?thesis
    using mset_drop_nth [of k "ts_accepts s"]
    by (simp add: server_pending_def accept_handler_def create_operation_complete_def Let_def)
next
  case (Complete_collected k)
  then show ?thesis
    using mset_drop_nth [of k "ts_completing s"]
    by (simp add: server_pending_def create_operation_complete_def case_prod_beta)
next
  case (Run_finally k)
  have "mset xs = add_mset (last xs) (mset (butlast xs))" if "xs \<noteq> []" for xs :: "nat list"
    using that by (induction xs) auto
  from this [of "butlast (op_ids s)"] show ?thesis
    using Run_finally mset_drop_nth [of k "ts_finally s"]
    by (auto simp: server_pending_def on_completed_fields)
next
  case (Cancel_pending_server c)
  have "mset (map cd_id (filter (\<lambda>d. \<not> matches c d) (waiting_data s))) + mset (map cd_id (filter (matches c) (waiting_data s)))
      = mset (butlast (op_ids s))"
    using mset_map_filter_split [of cd_id "matches c" "waiting_data s"] by (simp add: op_ids_def map_butlast)
  then show ?thesis
    using Cancel_pending_server cancel_pending_empty [of s c] cancel_pending_fields [OF assms, of c]
    by (cases "ts_create_operations s = []") (simp_all add: server_pending_def o_def)
next
  case (Server_timer_expire now t)
  then show ?thesis by (simp add: server_pending_def)
next
  case (Server_timer_handler t)
  obtain timer cb where h: "multiple_timer_handler t (ts_timer s) = (timer, cb)" by fastforce
  have "server_pending (on_timeout i (s\<lparr>ts_timer := timer\<rparr>)) = server_pending s" for i
    using timeout_conserve [OF assms, of i timer] by simp
  then show ?thesis
    using Server_timer_handler by (cases cb) (simp_all add: h Let_def, simp add: server_pending_def)
qed

lemma pending_step:
  assumes "server_inv s"
  shows "count (server_pending (fst (server_env_step s e))) p \<le> 1"
    "p \<in># server_pending (fst (server_env_step s e)) \<Longrightarrow> p \<in># server_pending s + server_opened s e"
proof -
  let ?s = "fst (server_env_step s e)"
  have sub: "server_pending ?s \<subseteq># server_pending s + server_opened s e"
    using server_conserve [OF assms, of e] by (metis mset_subset_eq_add_left)
  have "length (ts_ops s) \<notin># server_pending s" using server_invD(8) [OF assms] by blast
  then have "count (server_pending s + server_opened s e) p \<le> 1"
    using server_invD(7) [OF assms, of p] by (cases e) (auto simp: not_in_iff)
  then show "count (server_pending ?s) p \<le> 1" using mset_subset_eq_count [OF sub, of p] by linarith
  show "p \<in># server_pending ?s \<Longrightarrow> p \<in># server_pending s + server_opened s e" using sub by (rule mset_subset_eqD)
qed

text \<open>A finished operation that is not at the back was collected, so it is not in the list.\<close>

lemma pending_elsewhere:
  assumes "server_inv s" "op_ids s \<noteq> []" "k < length (ts_completing s)"
  shows "fst (ts_completing s ! k) \<noteq> last (op_ids s)"
proof
  assume eq: "fst (ts_completing s ! k) = last (op_ids s)"
  have "count (mset (map fst (ts_completing s))) (last (op_ids s)) \<ge> 1"
    using assms(3) eq nth_mem [of k "map fst (ts_completing s)"] by (simp add: Suc_le_eq)
  moreover have "count (mset (ts_accepts s) + mset (map fst (ts_finally s))) (last (op_ids s)) \<ge> 1"
    using server_invD(6) [OF assms(1)] assms(2) by (auto simp: back_ok_def Suc_le_eq)
  ultimately have "count (server_pending s) (last (op_ids s)) \<ge> 2"
    unfolding server_pending_def count_union by linarith
  then show False using server_invD(7) [OF assms(1), of "last (op_ids s)"] by linarith
qed

lemma finally_once:
  assumes "server_inv s" "k < length (ts_finally s)"
  shows "fst (ts_finally s ! k) \<notin> fst ` set (drop_nth k (ts_finally s))"
    "fst (ts_finally s ! k) \<notin> set (ts_accepts s)"
    "fst (ts_finally s ! k) \<notin> set (butlast (op_ids s))"
proof -
  have "mset (map fst (ts_finally s)) = add_mset (fst (ts_finally s ! k)) (mset (map fst (drop_nth k (ts_finally s))))"
    using mset_drop_nth [OF assms(2)] by simp
  then have "count (mset (butlast (op_ids s)) + mset (ts_accepts s) + mset (map fst (drop_nth k (ts_finally s))))
      (fst (ts_finally s ! k)) = 0"
    using server_invD(7) [OF assms(1), of "fst (ts_finally s ! k)"] by (simp add: server_pending_def)
  then show "fst (ts_finally s ! k) \<notin> fst ` set (drop_nth k (ts_finally s))"
    "fst (ts_finally s ! k) \<notin> set (ts_accepts s)" "fst (ts_finally s ! k) \<notin> set (butlast (op_ids s))"
    by (simp_all add: count_eq_zero_iff)
qed

lemma server_inv_create:
  assumes "server_inv s"
  shows "server_inv (create_pipe now c t s)"
proof -
  note pend = pending_step [OF assms, where e = "Create_pipe now c t"]
  have "back_ok (create_pipe now c t s)"
    using server_invD(6) [OF assms] server_invD(3) [OF assms, of "last (op_ids s)"]
    by (auto simp: back_ok_def create_pipe_fields)
  moreover have "\<not> co_was_started (ts_ops (create_pipe now c t s) ! i) \<and> \<not> co_was_canceled (ts_ops (create_pipe now c t s) ! i)"
    if "i \<in> set (butlast (op_ids (create_pipe now c t s)))" for i
  proof (cases "i = length (ts_ops s)")
    case True
    then show ?thesis using that by (simp add: create_pipe_fields split: if_splits)
  next
    case False
    then have i: "i \<in> set (butlast (op_ids s))" using that by (simp add: create_pipe_fields split: if_splits)
    then show ?thesis
      using server_invD(3-5) [OF assms, of i] in_set_butlastD [OF i] by (simp add: create_pipe_fields)
  qed
  moreover have "p < Suc (length (ts_ops s))" if "p \<in># server_pending (create_pipe now c t s)" for p
    using pend(2) [where p = p] that server_invD(8) [OF assms, of p] by auto
  moreover have "count (server_pending (create_pipe now c t s)) p \<le> 1" for p using pend(1) [where p = p] by simp
  ultimately show ?thesis
    using server_invD(1,3,9,10) [OF assms] unfolding server_inv_def
    by (auto simp: create_pipe_fields less_Suc_eq)
qed

lemma server_inv_accept:
  assumes "server_inv s" "k < length (ts_accepts s)"
  shows "server_inv (accept_handler k ec oe sock s)"
proof -
  note pend = pending_step [OF assms(1), where e = "Accept_handler k ec oe sock"]
  have ne: "op_ids s \<noteq> []" and acc: "ts_accepts s = [last (op_ids s)]" "k = 0"
    and st: "co_was_started (ts_ops s ! last (op_ids s))"
    using server_invD(6) [OF assms(1)] assms(2) by (auto simp: back_ok_def split: if_splits)
  let ?s = "accept_handler k ec oe sock s"
  have f: "op_ids ?s = op_ids s" "ts_ops ?s = ts_ops s" "ts_completing ?s = ts_completing s" "ts_accepts ?s = []"
    "\<exists>r. ts_finally ?s = ts_finally s @ [(last (op_ids s), r)]"
    using acc by (simp_all add: accept_handler_def create_operation_complete_def drop_nth_def Let_def)
  have "count (server_pending ?s) p \<le> 1" "p \<in># server_pending ?s \<Longrightarrow> p < length (ts_ops s)" for p
    using pend(1) [where p = p] pend(2) [where p = p] assms(2) server_invD(8) [OF assms(1), of p] by auto
  then show ?thesis
    using f ne st server_invD(1,3,4,5,9,10) [OF assms(1)] unfolding server_inv_def back_ok_def by auto
qed

lemma set_drop_nth: "k < length xs \<Longrightarrow> set xs = insert (xs ! k) (set (drop_nth k xs))"
  using mset_drop_nth [of k xs] by (metis set_mset_add_mset_insert set_mset_mset)

lemma server_inv_finally:
  assumes "server_inv s" "k < length (ts_finally s)"
  shows "server_inv (on_completed (fst (ts_finally s ! k)) (s\<lparr>ts_finally := drop_nth k (ts_finally s)\<rparr>))"
    (is "server_inv ?s")
proof -
  let ?i = "fst (ts_finally s ! k)" and ?xs = "op_ids s"
  note pend = pending_step [OF assms(1), where e = "Run_finally k"] and once = finally_once [OF assms]
  have pend': "count (server_pending ?s) p \<le> 1" "p \<in># server_pending ?s \<Longrightarrow> p < length (ts_ops s)" for p
    using pend(1) [where p = p] pend(2) [where p = p] assms(2) server_invD(8) [OF assms(1), of p] by auto
  note started = on_completed_started [of "s\<lparr>ts_finally := drop_nth k (ts_finally s)\<rparr>" ?i]
  have fin: "set (ts_finally s) = insert (ts_finally s ! k) (set (drop_nth k (ts_finally s)))"
    using assms(2) by (rule set_drop_nth)
  show ?thesis
  proof (cases "?xs \<noteq> [] \<and> last ?xs = ?i")
    case True
    have "ts_accepts s = []" using server_invD(6) [OF assms(1)] True once(2) by (auto simp: back_ok_def)
    moreover have "\<not> successful c" if "c \<in> set (drop_nth k (ts_finally s))" for c
      using server_invD(10) [OF assms(1), of c] that fin True once(1) by (metis imageI insertI2)
    moreover have "j \<noteq> last (butlast ?xs)" if "j \<in> set (butlast (butlast ?xs))" for j
      using last_not_butlast [of "butlast ?xs"] distinct_butlast [OF server_invD(2) [OF assms(1)]] that
      by (cases "butlast ?xs = []") auto
    moreover have "sorted_wrt (>) (butlast ?xs)"
      using server_invD(1) [OF assms(1)] by (metis append_butlast_last_id True sorted_wrt_append)
    ultimately show ?thesis
      using pend' True server_invD(3,4,5,9) [OF assms(1)] unfolding server_inv_def back_ok_def
      by (auto simp: on_completed_fields started dest: in_set_butlastD)
  next
    case False
    have "back_ok ?s"
      using server_invD(3,6) [OF assms(1)] False fin
      by (auto simp: back_ok_def on_completed_fields started)
    moreover have "\<forall>c \<in> set (drop_nth k (ts_finally s)). successful c \<longrightarrow> ?xs \<noteq> [] \<and> fst c = last ?xs"
      using server_invD(10) [OF assms(1)] fin by blast
    ultimately show ?thesis
      using pend' False server_invD(1,3,4,5,9) [OF assms(1)] unfolding server_inv_def
      by (auto simp: on_completed_fields started)
  qed
qed

lemma server_inv_complete:
  assumes "server_inv s" "k < length (ts_completing s)"
  shows "server_inv (fst (server_env_step s (Complete_collected k)))" (is "server_inv ?s")
proof -
  note pend = pending_step [OF assms(1), where e = "Complete_collected k"]
  have "p \<in># server_pending ?s \<Longrightarrow> p < length (ts_ops s)" for p
    using pend(2) [where p = p] server_invD(8) [OF assms(1), of p] by auto
  moreover have "\<not> successful (ts_completing s ! k)"
    using server_invD(9) [OF assms(1)] assms(2) by simp
  moreover have f: "op_ids ?s = op_ids s" "ts_ops ?s = ts_ops s" "ts_accepts ?s = ts_accepts s"
    "ts_completing ?s = drop_nth k (ts_completing s)" "ts_finally ?s = ts_finally s @ [ts_completing s ! k]"
    using assms(2) by (simp_all add: create_operation_complete_def case_prod_beta)
  moreover have "back_ok ?s" using server_invD(6) [OF assms(1)] unfolding back_ok_def f by auto
  ultimately show ?thesis
    using pend(1) set_drop_nth [OF assms(2)] server_invD(1,3,4,5,9,10) [OF assms(1)] unfolding server_inv_def f by auto
qed

lemma server_inv_timeout:
  assumes "server_inv s"
  shows "server_inv (on_timeout i (s\<lparr>ts_timer := timer\<rparr>))" (is "server_inv ?s")
proof -
  let ?xs = "op_ids s" and ?rest = "filter (\<lambda>j. j \<noteq> i) (op_ids s)"
  have canceled: "co_was_canceled (ts_ops ?s ! j) = (co_was_canceled (ts_ops s ! j) \<or> i \<in> set ?xs \<and> j = i)" for j
    using on_timeout_canceled [of "s\<lparr>ts_timer := timer\<rparr>" i j] server_invD(3) [OF assms] by simp
  have keep: "?xs \<noteq> [] \<Longrightarrow> last ?xs \<noteq> i \<Longrightarrow> ?rest = filter (\<lambda>j. j \<noteq> i) (butlast ?xs) @ [last ?xs]"
    by (rule filter_keep_last)
  have waiting: "j \<in> set (butlast ?xs) \<and> (i \<in> set ?xs \<longrightarrow> j \<noteq> i)" if "j \<in> set (butlast (op_ids ?s))" for j
    using that keep last_not_butlast [OF server_invD(2) [OF assms]]
    by (cases "?xs = []") (auto simp: on_timeout_fields split: if_splits)
  have "back_ok ?s"
    using server_invD(6) [OF assms] keep
    by (cases "?xs = []") (auto simp: back_ok_def on_timeout_fields)
  moreover have "op_ids ?s \<noteq> [] \<and> last (op_ids ?s) = last ?xs" if "?xs \<noteq> []"
    using that keep by (auto simp: on_timeout_fields)
  moreover have "\<not> co_was_started (ts_ops ?s ! j) \<and> \<not> co_was_canceled (ts_ops ?s ! j)"
    if "j \<in> set (butlast (op_ids ?s))" for j
    using waiting [OF that] server_invD(4,5) [OF assms, of j] by (simp add: canceled on_timeout_fields)
  moreover have "sorted_wrt (>) (op_ids ?s)"
    using server_invD(1) [OF assms] by (simp add: on_timeout_fields sorted_wrt_filter)
  ultimately show ?thesis
    using server_invD(3,7,8,9,10) [OF assms] timeout_conserve [OF assms, of i timer] unfolding server_inv_def
    by (auto simp: on_timeout_fields successful_def is_success_wait_def)
qed


lemma server_inv_cancel:
  assumes "server_inv s"
  shows "server_inv (cancel_pending_server_endpoints c s)" (is "server_inv ?s")
proof (cases "ts_create_operations s = []")
  case True
  then show ?thesis using assms by (simp add: cancel_pending_empty)
next
  case False
  let ?ds = "filter (\<lambda>d. \<not> matches c d) (waiting_data s)"
  note f = cancel_pending_fields [OF assms False, of c]
    and pend = pending_step [OF assms, where e = "Cancel_pending_server c"]
  have ids: "butlast (op_ids s) = map cd_id (waiting_data s)" "op_ids s = map cd_id (waiting_data s) @ [last (op_ids s)]"
    using False append_butlast_last_id [of "op_ids s"] by (simp_all add: op_ids_def map_butlast)
  have "sorted_wrt (>) (map cd_id (waiting_data s) @ [last (op_ids s)])"
    using server_invD(1) [OF assms] ids(2) by simp
  then have sorted: "sorted_wrt (>) (map cd_id ?ds @ [last (op_ids s)])"
    by (auto simp: sorted_wrt_append sorted_wrt_map sorted_wrt_filter)
  have waiting: "j \<in> set (butlast (op_ids s))" "j \<notin> cd_id ` {d \<in> set (ts_create_operations s). matches c d}"
    if j: "j \<in> set (map cd_id ?ds)" for j
  proof -
    obtain d where d: "d \<in> set (waiting_data s)" "\<not> matches c d" "j = cd_id d" using j by auto
    show "j \<in> set (butlast (op_ids s))" using d by (simp add: ids(1))
    have "inj_on cd_id (set (ts_create_operations s))"
      using server_invD(2) [OF assms] by (simp add: op_ids_def distinct_map)
    then show "j \<notin> cd_id ` {d \<in> set (ts_create_operations s). matches c d}"
      using d in_set_butlastD [OF d(1)] by (auto simp: inj_on_def)
  qed
  have ne: "op_ids s \<noteq> []" using False by (simp add: op_ids_def)
  have "back_ok ?s" using server_invD(6) [OF assms] ne by (auto simp: back_ok_def f)
  moreover have "\<not> co_was_started (ts_ops ?s ! j) \<and> \<not> co_was_canceled (ts_ops ?s ! j)" if "j \<in> set (map cd_id ?ds)" for j
    using waiting [OF that] server_invD(4,5) [OF assms] unfolding f(6,7) by blast
  moreover have "i < length (ts_ops s)" if "i \<in> set (map cd_id ?ds @ [last (op_ids s)])" for i
    using that waiting(1) [of i] server_invD(3) [OF assms, of i] ne by (auto dest: in_set_butlastD)
  moreover have "p < length (ts_ops s)" if "p \<in># server_pending ?s" for p
    using pend(2) [where p = p] that server_invD(8) [OF assms, of p] by simp
  moreover have "\<not> successful d" if "d \<in> set (ts_completing ?s)" for d
    using that server_invD(9) [OF assms, of d] by (auto simp: f successful_def is_success_wait_def)
  moreover have "count (server_pending ?s) p \<le> 1" for p using pend(1) [where p = p] by simp
  ultimately show ?thesis
    using server_invD(10) [OF assms] sorted unfolding server_inv_def f butlast_snoc last_snoc by auto
qed

lemma server_inv_step: "server_inv s \<Longrightarrow> server_inv (fst (server_env_step s e))"
proof (cases e)
  case (Complete_collected k)
  assume "server_inv s"
  then show ?thesis
    using server_inv_complete [of s k] unfolding Complete_collected by (cases "k < length (ts_completing s)") auto
next
  case (Server_timer_expire now t)
  assume "server_inv s"
  then show ?thesis by (simp add: Server_timer_expire server_inv_def back_ok_def server_pending_def)
next
  case (Server_timer_handler t)
  assume inv: "server_inv s"
  then have "server_inv (s\<lparr>ts_timer := timer\<rparr>)" for timer
    by (simp add: server_inv_def back_ok_def server_pending_def)
  then show ?thesis
    using server_inv_timeout [OF inv] by (simp add: Server_timer_handler Let_def case_prod_beta split: option.split)
qed (simp_all add: server_inv_create server_inv_accept server_inv_finally server_inv_cancel)


section \<open>The contract\<close>

text \<open>A call that was cancelled when no socket had been accepted for it.\<close>

definition server_doomed :: "tcp_server_env \<Rightarrow> promise_id \<Rightarrow> bool" where
  "server_doomed s p \<longleftrightarrow>
     p < length (ts_ops s) \<and> co_was_canceled (ts_ops s ! p) \<and> (\<forall>c \<in> set (ts_finally s). fst c = p \<longrightarrow> \<not> successful c)"

lemma canceled_step:
  assumes "server_inv s" "p < length (ts_ops s)" "co_was_canceled (ts_ops s ! p)"
  shows "co_was_canceled (ts_ops (fst (server_env_step s e)) ! p) \<and> p < length (ts_ops (fst (server_env_step s e)))"
proof (cases e)
  case (Accept_handler k ec oe sock)
  then show ?thesis using assms by (simp add: accept_handler_def create_operation_complete_def Let_def)
next
  case (Complete_collected k)
  then show ?thesis using assms by (simp add: create_operation_complete_def case_prod_beta)
next
  case (Cancel_pending_server c)
  then show ?thesis
    using assms cancel_pending_fields [OF assms(1), of c] cancel_pending_empty [of s c]
    by (cases "ts_create_operations s = []") simp_all
next
  case (Server_timer_handler t)
  then show ?thesis
    using assms on_timeout_canceled [of "s\<lparr>ts_timer := timer\<rparr>" for timer] server_invD(3) [OF assms(1)]
    by (simp add: Let_def case_prod_beta on_timeout_fields split: option.split)
qed (use assms in \<open>simp_all add: create_pipe_fields on_completed_fields\<close>)

text \<open>What a step adds to the completed operations.\<close>

lemma finally_step:
  assumes "server_inv s" "c \<in> set (ts_finally (fst (server_env_step s e)))"
  shows "c \<in> set (ts_finally s) \<or> c \<in> set (ts_completing s) \<or>
    (\<exists>i ec oe sock. c = (i, accept_result (ts_ops s ! i) ec oe sock))"
proof (cases e)
  case (Accept_handler k ec oe sock)
  then show ?thesis
    using assms(2) by (auto simp: accept_handler_def create_operation_complete_def Let_def split: if_splits)
next
  case (Complete_collected k)
  then show ?thesis
    using assms(2) nth_mem [of k "ts_completing s"] by (auto simp: create_operation_complete_def case_prod_beta split: if_splits)
next
  case (Cancel_pending_server x)
  then show ?thesis
    using assms cancel_pending_fields [OF assms(1), of x] cancel_pending_empty [of s x]
    by (cases "ts_create_operations s = []") simp_all
next
  case (Server_timer_handler t)
  then show ?thesis
    using assms(2) by (auto simp: Let_def case_prod_beta on_timeout_fields split: option.splits)
qed (use assms(2) in \<open>auto simp: create_pipe_fields on_completed_fields dest: in_drop_nth split: if_splits\<close>)

lemma server_output: "c \<in> set (snd (server_env_step s e)) \<Longrightarrow> c \<in> set (ts_finally s)"
  by (cases e) (auto simp: Let_def case_prod_beta split: if_splits)

lemma server_opened_calls:
  assumes "server_inv s"
  shows "mset [0..<length (ts_ops s)] + server_opened s e = mset [0..<length (ts_ops (fst (server_env_step s e)))]"
proof (cases e)
  case (Cancel_pending_server c)
  then show ?thesis
    using cancel_pending_fields(5) [OF assms, of c] cancel_pending_empty [of s c]
    by (cases "ts_create_operations s = []") simp_all
qed (simp_all add: create_pipe_fields accept_handler_def create_operation_complete_def on_completed_fields
    on_timeout_fields Let_def case_prod_beta split: option.split)

interpretation tcp_env: cancellable_env server_env_step server_inv server_pending server_opened
  "\<lambda>s. length (ts_ops s)" server_doomed successful
proof
  fix s e p r
  assume inv: "server_inv s"
  show "server_inv (fst (server_env_step s e))" using inv by (rule server_inv_step)
  show "server_pending (fst (server_env_step s e)) + mset (map fst (snd (server_env_step s e))) =
    server_pending s + server_opened s e"
    using inv by (rule server_conserve)
  show "mset [0..<length (ts_ops s)] + server_opened s e = mset [0..<length (ts_ops (fst (server_env_step s e)))]"
    using inv by (rule server_opened_calls)
  assume doomed: "server_doomed s p"
  have "\<not> successful c" if "c \<in> set (ts_finally (fst (server_env_step s e)))" "fst c = p" for c
    using finally_step [OF inv that(1)] that(2) doomed server_invD(9) [OF inv, of c]
    by (auto simp: server_doomed_def accept_result_def successful_def)
  then show "server_doomed (fst (server_env_step s e)) p"
    using doomed canceled_step [OF inv, of p e] by (auto simp: server_doomed_def)
  show "(p, r) \<in> set (snd (server_env_step s e)) \<Longrightarrow> \<not> successful (p, r)"
    using doomed server_output [of "(p, r)" s e] by (auto simp: server_doomed_def)
qed


section \<open>Order\<close>

text \<open>No call before this one can still get a socket.\<close>

definition next_served :: "tcp_server_env \<Rightarrow> nat" where
  "next_served s = (if op_ids s = [] then length (ts_ops s) else last (op_ids s))"

lemma next_served_eq:
  "last (op_ids s') = last (op_ids s) \<Longrightarrow> (op_ids s' = [] \<longleftrightarrow> op_ids s = []) \<Longrightarrow> length (ts_ops s') = length (ts_ops s) \<Longrightarrow>
   next_served s' = next_served s"
  by (simp add: next_served_def)

lemma next_served_finally:
  assumes "server_inv s" "k < length (ts_finally s)"
  shows "next_served s \<le> next_served (fst (server_env_step s (Run_finally k)))"
    "successful (ts_finally s ! k) \<Longrightarrow> fst (ts_finally s ! k) = next_served s \<and>
      next_served s < next_served (fst (server_env_step s (Run_finally k)))"
proof -
  let ?xs = "op_ids s"
  have front: "last ?xs < last (butlast ?xs)" if "butlast ?xs \<noteq> []"
    using server_invD(1) [OF assms(1)] that last_in_set [OF that] append_butlast_last_id [of ?xs]
    by (metis butlast.simps(1) sorted_wrt_append list.set_intros(1))
  have bound: "last ?xs < length (ts_ops s)" if "?xs \<noteq> []" using server_invD(3) [OF assms(1)] that by simp
  show "next_served s \<le> next_served (fst (server_env_step s (Run_finally k)))"
    using front bound assms(2) by (auto simp: next_served_def on_completed_fields less_imp_le)
  assume "successful (ts_finally s ! k)"
  then have "?xs \<noteq> [] \<and> fst (ts_finally s ! k) = last ?xs"
    using server_invD(10) [OF assms(1), of "ts_finally s ! k"] assms(2) by simp
  then show "fst (ts_finally s ! k) = next_served s \<and> next_served s < next_served (fst (server_env_step s (Run_finally k)))"
    using front bound assms(2) by (auto simp: next_served_def on_completed_fields)
qed

lemma next_served_step:
  assumes "server_inv s"
  shows "next_served s \<le> next_served (fst (server_env_step s e))"
proof (cases e)
  case (Create_pipe now c t)
  then show ?thesis using server_invD(3) [OF assms] by (auto simp: next_served_def create_pipe_fields)
next
  case (Accept_handler k ec oe sock)
  then show ?thesis by (simp add: next_served_def accept_handler_def create_operation_complete_def Let_def)
next
  case (Complete_collected k)
  then show ?thesis by (simp add: next_served_def create_operation_complete_def case_prod_beta)
next
  case (Run_finally k)
  then show ?thesis using next_served_finally(1) [OF assms, of k] by (cases "k < length (ts_finally s)") simp_all
next
  case (Cancel_pending_server c)
  show ?thesis
  proof (cases "ts_create_operations s = []")
    case False
    then have "op_ids s \<noteq> []" by (simp add: op_ids_def)
    then show ?thesis
      using cancel_pending_fields [OF assms False, of c] by (simp add: Cancel_pending_server next_served_def)
  qed (simp add: Cancel_pending_server cancel_pending_empty)
next
  case (Server_timer_handler t)
  have "next_served (on_timeout i (s\<lparr>ts_timer := timer\<rparr>)) = next_served s" for i timer
    using filter_keep_last [of "op_ids s" "\<lambda>j. j \<noteq> i"] by (auto simp: next_served_def on_timeout_fields)
  then show ?thesis
    by (simp add: Server_timer_handler Let_def case_prod_beta next_served_def [of "s\<lparr>ts_timer := timer\<rparr>" for timer]
        next_served_def [of s] split: option.split)
qed (simp add: next_served_def)

lemma ascending_prefix:
  fixes b :: nat
  assumes "xs = [] \<or> xs = [b] \<and> b < b'" "b \<le> b'" "sorted_wrt (<) ys" "\<forall>y \<in> set ys. b' \<le> y"
  shows "sorted_wrt (<) (xs @ ys) \<and> (\<forall>y \<in> set (xs @ ys). b \<le> y)"
  using assms by fastforce

lemma served_in_order:
  "server_inv s \<Longrightarrow>
   sorted_wrt (<) (map fst (filter successful (run_output server_env_step s es))) \<and>
   (\<forall>i \<in> set (map fst (filter successful (run_output server_env_step s es))). next_served s \<le> i)"
proof (induction es arbitrary: s)
  case (Cons e es)
  let ?s = "fst (server_env_step s e)"
  have IH: "sorted_wrt (<) (map fst (filter successful (run_output server_env_step ?s es)))"
    "\<forall>i \<in> set (map fst (filter successful (run_output server_env_step ?s es))). next_served ?s \<le> i"
    using Cons.IH [OF server_inv_step [OF Cons.prems]] by blast+
  have "map fst (filter successful (snd (server_env_step s e))) = [] \<or>
    map fst (filter successful (snd (server_env_step s e))) = [next_served s] \<and> next_served s < next_served ?s"
  proof (cases e)
    case (Run_finally k)
    then show ?thesis
      using next_served_finally(2) [OF Cons.prems, of k]
      by (cases "k < length (ts_finally s)"; cases "successful (ts_finally s ! k)") simp_all
  qed (simp_all add: Let_def case_prod_beta)
  from ascending_prefix [OF this next_served_step [OF Cons.prems] IH]
  show ?case unfolding run_Cons_output filter_append map_append .
qed simp

lemma idle_nothing_pending:
  "server_inv s \<Longrightarrow> ts_accepts s = [] \<Longrightarrow> ts_completing s = [] \<Longrightarrow> ts_finally s = [] \<Longrightarrow> server_pending s = {#}"
  using server_invD(6) [of s] by (auto simp: server_pending_def back_ok_def split: if_splits)

lemma completing_step:
  assumes "server_inv s" "c \<in> set (ts_completing (fst (server_env_step s e)))"
  shows "c \<in> set (ts_completing s) \<or> snd (snd c) = None"
proof (cases e)
  case (Accept_handler k ec oe sock)
  then show ?thesis
    using assms(2) by (auto simp: accept_handler_def create_operation_complete_def Let_def split: if_splits)
next
  case (Complete_collected k)
  then show ?thesis
    using assms(2) by (auto simp: create_operation_complete_def case_prod_beta dest: in_drop_nth split: if_splits)
next
  case (Cancel_pending_server x)
  then show ?thesis
    using assms cancel_pending_fields(4) [OF assms(1), of x] cancel_pending_empty [of s x]
    by (cases "ts_create_operations s = []") auto
next
  case (Server_timer_handler t)
  then show ?thesis
    using assms(2) by (auto simp: Let_def case_prod_beta on_timeout_fields split: option.splits if_splits)
qed (use assms(2) in \<open>auto simp: create_pipe_fields on_completed_fields split: if_splits\<close>)

definition sockets_inv :: "tcp_server_env \<Rightarrow> bool" where
  "sockets_inv s \<longleftrightarrow> server_inv s \<and> (\<forall>c \<in> set (ts_completing s) \<union> set (ts_finally s). carries_socket c)"

lemma sockets_inv_step:
  assumes "sockets_inv s"
  shows "sockets_inv (fst (server_env_step s e))"
proof -
  let ?s = "fst (server_env_step s e)"
  have inv: "server_inv s" and old: "\<And>c. c \<in> set (ts_completing s) \<union> set (ts_finally s) \<Longrightarrow> carries_socket c"
    using assms by (auto simp: sockets_inv_def)
  have inv': "server_inv ?s" using inv by (rule server_inv_step)
  have "carries_socket c" if "c \<in> set (ts_completing ?s)" for c
    using completing_step [OF inv that] old [of c] server_invD(9) [OF inv' that] by (auto simp: carries_socket_def)
  moreover have "carries_socket (i, accept_result op ec oe sock)" for i op ec oe sock
    by (simp add: carries_socket_def accept_result_def successful_def is_success_wait_def canceled_result_def)
  then have "carries_socket c" if "c \<in> set (ts_finally ?s)" for c
    using finally_step [OF inv that] old [of c] by auto
  ultimately show ?thesis using inv' by (auto simp: sockets_inv_def)
qed

interpretation tcp_env_sockets: event_system server_env_step sockets_inv
  by unfold_locales (rule sockets_inv_step)

lemma output_carries_socket:
  assumes "c \<in> set (run_output server_env_step tcp_server_env_init es)"
  shows "carries_socket c"
proof (rule tcp_env_sockets.output_run [OF _ _ assms])
  show "sockets_inv tcp_server_env_init"
    using server_inv_init by (simp add: sockets_inv_def tcp_server_env_init_def)
  show "carries_socket c" if "sockets_inv s" "c \<in> set (snd (server_env_step s e))" for s e c
    using that server_output [of c s e] by (auto simp: sockets_inv_def)
qed


section \<open>Properties\<close>

text \<open>
  C24: Every call of \<open>create_pipe\<close> of the TCP server environment gets at most one result, and exactly one
  once no accept, no completion and no continuation is outstanding.  A result carries a socket exactly
  if it is a success, and the accepted sockets are handed out in the order of the calls.
\<close>

theorem tcp_server_env_exactly_once:
  fixes es
  defines "out \<equiv> run_output server_env_step tcp_server_env_init es"
    and "s \<equiv> run_state server_env_step tcp_server_env_init es"
  shows "distinct (map fst out) \<and> set (map fst out) \<subseteq> {..<length (ts_ops s)} \<and>
    (ts_accepts s = [] \<and> ts_completing s = [] \<and> ts_finally s = [] \<longrightarrow> set (map fst out) = {..<length (ts_ops s)}) \<and>
    (\<forall>c \<in> set out. successful c \<longleftrightarrow> snd (snd c) \<noteq> None) \<and>
    sorted_wrt (<) (map fst (filter successful out))"
proof -
  have "length (ts_ops tcp_server_env_init) = 0" "server_pending tcp_server_env_init = {#}"
    by (simp_all add: tcp_server_env_init_def server_pending_def op_ids_def)
  note once = tcp_env.answered_once [OF server_inv_init this, of es, folded out_def s_def]
  have "server_pending s = {#}" if "ts_accepts s = []" "ts_completing s = []" "ts_finally s = []"
    using idle_nothing_pending [OF tcp_env.inv_run [OF server_inv_init, of es, folded s_def] that] .
  then show ?thesis
    using once(1-3) served_in_order [OF server_inv_init, of es, folded out_def]
      output_carries_socket [of _ es, folded out_def]
    by (auto simp: carries_socket_def)
qed

text \<open>Two calls are served one after the other; a third is cancelled while the second waits for its socket.\<close>

definition two_sockets :: "server_env_event list" where
  "two_sockets =
     [Create_pipe 0 1 None, Create_pipe 0 1 None, Accept_handler 0 False False 7, Create_pipe 0 2 (Some 10),
      Run_finally 0, Cancel_pending_server (Some 2), Accept_handler 0 False False 8, Complete_collected 0, Run_finally 1,
      Run_finally 0]"

theorem tcp_server_env_exactly_once_witness:
  "run_output server_env_step tcp_server_env_init two_sockets =
     [(0, Wait_success, Some 7), (2, Wait_canceled, None), (1, Wait_success, Some 8)] \<and>
   set (map fst (run_output server_env_step tcp_server_env_init two_sockets)) = {..<3}"
proof -
  let ?s = "run_state server_env_step tcp_server_env_init two_sockets"
  have "ts_accepts ?s = [] \<and> ts_completing ?s = [] \<and> ts_finally ?s = [] \<and> length (ts_ops ?s) = 3"
    by code_simp
  then have "set (map fst (run_output server_env_step tcp_server_env_init two_sockets)) = {..<3}"
    using tcp_server_env_exactly_once [of two_sockets] by simp
  moreover have "run_output server_env_step tcp_server_env_init two_sockets =
     [(0, Wait_success, Some 7), (2, Wait_canceled, None), (1, Wait_success, Some 8)]" by code_simp
  ultimately show ?thesis by simp
qed

text \<open>
  \<open>cancel_pending_server_endpoints\<close> reaches every call it names.  A call of the given client that is in
  the list, and for which no socket was accepted before, never gets a socket, whatever happens
  afterwards.  If the call is not the one being accepted, its result is the canceled code.
\<close>

theorem tcp_server_env_cancel:
  fixes es
  defines "s \<equiv> run_state server_env_step tcp_server_env_init es"
  assumes "d \<in> set (ts_create_operations s)" "matches client_id d"
    and "\<forall>c \<in> set (ts_finally s). fst c = cd_id d \<longrightarrow> \<not> successful c"
  shows "(\<forall>r es'. (cd_id d, r) \<in> set (run_output server_env_step s (Cancel_pending_server client_id # es')) \<longrightarrow>
      \<not> is_success_wait (fst r)) \<and>
    (d \<noteq> last (ts_create_operations s) \<longrightarrow>
      (cd_id d, no_pipe Wait_canceled) \<in> set (ts_completing (cancel_pending_server_endpoints client_id s)))"
proof (intro conjI allI impI)
  have inv: "server_inv s" unfolding s_def by (rule tcp_env.inv_run [OF server_inv_init])
  let ?s = "cancel_pending_server_endpoints client_id s"
  have ne: "ts_create_operations s \<noteq> []" using assms(2) by auto
  note f = cancel_pending_fields [OF inv ne, of client_id]
  have "cd_id d < length (ts_ops s)" using server_invD(3) [OF inv, of "cd_id d"] assms(2) by (simp add: op_ids_def)
  then have doomed: "server_doomed ?s (cd_id d)" using assms(2-4) by (auto simp: server_doomed_def f)
  show "\<not> is_success_wait (fst r)"
    if "(cd_id d, r) \<in> set (run_output server_env_step s (Cancel_pending_server client_id # es'))" for r es'
    using that tcp_env.doomed_never_successful [OF server_inv_cancel [OF inv] doomed, of r es']
    by (simp add: successful_def)
  assume "d \<noteq> last (ts_create_operations s)"
  then have "d \<in> set (waiting_data s)"
    using assms(2) ne by (metis append_butlast_last_id in_set_conv_decomp set_ConsD Un_iff set_append empty_iff empty_set)
  then show "(cd_id d, no_pipe Wait_canceled) \<in> set (ts_completing ?s)" using assms(3) by (auto simp: f)
qed

theorem tcp_server_env_cancel_witness:
  "(2, no_pipe Wait_canceled) \<in> set (ts_completing (cancel_pending_server_endpoints (Some 2)
     (run_state server_env_step tcp_server_env_init (take 5 two_sockets))))"
proof -
  let ?s = "run_state server_env_step tcp_server_env_init (take 5 two_sockets)"
  let ?d = "\<lparr>cd_id = 2, cd_client_id = 2, cd_timer_id = Some 0\<rparr>"
  have "ts_create_operations ?s = [?d, \<lparr>cd_id = 1, cd_client_id = 1, cd_timer_id = None\<rparr>]" "ts_finally ?s = []"
    "matches (Some 2) ?d" by code_simp+
  then show ?thesis using tcp_server_env_cancel [of ?d "take 5 two_sockets" "Some 2"] by simp
qed

end
