(* ===== verification/Tcp_Client_Env.thy ===== *)
theory Tcp_Client_Env
  imports Pipe_Env
begin

text \<open>
  Connecting sockets, \<open>rpc-lib/pipe/tcp-pipe/tcp-pipe-client-env.cpp\<close>.

  Every call of \<open>open_pipe\<close> has its own socket, named by the id of the call, and connects
  independently of the others.  A step is a call, the handler of a connect, the continuation
  that removes the finished operation, a cancel or a timer.
\<close>

section \<open>Operations\<close>

text \<open>\<open>oo_socket_closed\<close> tells whether \<open>cancel\<close> closed the socket.\<close>

record open_operation =
  oo_client_id :: nat
  oo_is_socket_valid :: bool
  oo_was_canceled :: bool
  oo_canceled_by_timer :: bool
  oo_socket_closed :: bool

text \<open>
  \<open>tc_ops\<close> are all operations so far and \<open>tc_timer_ids\<close> the timers their continuations hold, by id;
  \<open>tc_open_operations\<close> are the ids in the map.  \<open>tc_connects\<close> are the connects whose handler has
  not run, \<open>tc_finally\<close> the completed operations whose continuation has not run.
\<close>

record tcp_client_env =
  tc_ops :: "open_operation list"
  tc_timer_ids :: "timer_id option list"
  tc_open_operations :: "nat list"
  tc_timer :: "nat multiple_timer"
  tc_connects :: "nat list"
  tc_finally :: "pipe_wait_result completion list"

definition tcp_client_env_init :: tcp_client_env where
  "tcp_client_env_init =
     \<lparr>tc_ops = [], tc_timer_ids = [], tc_open_operations = [], tc_timer = multiple_timer_init, tc_connects = [],
      tc_finally = []\<rparr>"

text \<open>The constructor checks its arguments; parsing an address is the library's.\<close>

definition tcp_client_env_create :: "(string \<Rightarrow> bool) \<Rightarrow> string \<Rightarrow> uint32 \<Rightarrow> tcp_client_env or_exn" where
  "tcp_client_env_create is_valid_ipv4 ip4_address port =
     (if \<not> is_valid_ipv4 ip4_address then Inl (Invalid_argument ''invalid ip4 address'')
      else if port > 65535 then Inl (Invalid_argument ''exceed max port value'')
      else Inr tcp_client_env_init)"

text \<open>A future that is ready, or one whose connect is under way.\<close>

definition open_operation_create :: "nat \<Rightarrow> open_operation" where
  "open_operation_create client_id =
     \<lparr>oo_client_id = client_id, oo_is_socket_valid = True, oo_was_canceled = False, oo_canceled_by_timer = False,
      oo_socket_closed = False\<rparr>"

definition set_ready :: "nat \<Rightarrow> pipe_wait_res \<Rightarrow> tcp_client_env \<Rightarrow> tcp_client_env" where
  "set_ready i r s = s\<lparr>tc_finally := tc_finally s @ [(i, no_pipe r)]\<rparr>"

text \<open>The flags say whether opening the socket and setting its two options failed.\<close>

definition open_operation_start :: "nat \<Rightarrow> bool \<Rightarrow> bool \<Rightarrow> bool \<Rightarrow> tcp_client_env \<Rightarrow> tcp_client_env" where
  "open_operation_start i open_ec no_delay_ec keep_alive_ec s =
     (let op = tc_ops s ! i in
      if oo_was_canceled op then set_ready i (canceled_result (oo_canceled_by_timer op)) s
      else if open_ec then set_ready i Wait_failed s
      else if no_delay_ec then set_ready i Wait_failed s
      else if keep_alive_ec then set_ready i Wait_failed s
      else s\<lparr>tc_connects := tc_connects s @ [i]\<rparr>)"

definition connect_handler :: "nat \<Rightarrow> bool \<Rightarrow> tcp_client_env \<Rightarrow> tcp_client_env" where
  "connect_handler k ec s =
     (let i = tc_connects s ! k; op = tc_ops s ! i; s = s\<lparr>tc_connects := drop_nth k (tc_connects s)\<rparr> in
      if oo_was_canceled op then set_ready i (canceled_result (oo_canceled_by_timer op)) s
      else if ec then set_ready i Wait_failed s
      else s\<lparr>tc_ops := (tc_ops s)[i := op\<lparr>oo_is_socket_valid := False\<rparr>],
             tc_finally := tc_finally s @ [(i, Wait_success, Some i)]\<rparr>)"

definition open_operation_cancel :: "bool \<Rightarrow> open_operation \<Rightarrow> open_operation" where
  "open_operation_cancel by_timer op =
     (if \<not> oo_was_canceled op
      then let op = op\<lparr>oo_was_canceled := True, oo_canceled_by_timer := by_timer\<rparr>
           in if oo_is_socket_valid op then op\<lparr>oo_socket_closed := True\<rparr> else op
      else op)"


section \<open>The environment\<close>

definition open_pipe ::
  "time_point \<Rightarrow> nat \<Rightarrow> nat option \<Rightarrow> bool \<Rightarrow> bool \<Rightarrow> bool \<Rightarrow> tcp_client_env \<Rightarrow> tcp_client_env"
where
  "open_pipe now client_id timeout open_ec no_delay_ec keep_alive_ec s =
     (let i = length (tc_ops s);
          (timer_id, timer) =
            (case timeout of
               None \<Rightarrow> (None, tc_timer s)
             | Some ms \<Rightarrow> map_prod Some id (multiple_timer_start now i ms (tc_timer s)));
          s = s\<lparr>tc_timer := timer, tc_timer_ids := tc_timer_ids s @ [timer_id],
                tc_ops := tc_ops s @ [open_operation_create client_id],
                tc_open_operations := tc_open_operations s @ [i]\<rparr>
      in open_operation_start i open_ec no_delay_ec keep_alive_ec s)"

definition on_open_timeout :: "nat \<Rightarrow> tcp_client_env \<Rightarrow> tcp_client_env" where
  "on_open_timeout i s =
     (if i \<in> set (tc_open_operations s)
      then s\<lparr>tc_ops := (tc_ops s)[i := open_operation_cancel True (tc_ops s ! i)]\<rparr> else s)"

definition on_open_finished :: "nat \<Rightarrow> tcp_client_env \<Rightarrow> tcp_client_env" where
  "on_open_finished i s =
     (let s = (case tc_timer_ids s ! i of None \<Rightarrow> s | Some t \<Rightarrow> s\<lparr>tc_timer := multiple_timer_cancel t (tc_timer s)\<rparr>)
      in s\<lparr>tc_open_operations := filter (\<lambda>j. j \<noteq> i) (tc_open_operations s)\<rparr>)"

definition belongs_to :: "nat option \<Rightarrow> open_operation \<Rightarrow> bool" where
  "belongs_to client_id op = (case client_id of None \<Rightarrow> True | Some c \<Rightarrow> oo_client_id op = c)"

definition cancel_open :: "nat option \<Rightarrow> nat \<Rightarrow> tcp_client_env \<Rightarrow> tcp_client_env" where
  "cancel_open client_id i s =
     (if belongs_to client_id (tc_ops s ! i)
      then s\<lparr>tc_ops := (tc_ops s)[i := open_operation_cancel False (tc_ops s ! i)]\<rparr> else s)"

definition cancel_pending_client_endpoints :: "nat option \<Rightarrow> tcp_client_env \<Rightarrow> tcp_client_env" where
  "cancel_pending_client_endpoints client_id s = fold (cancel_open client_id) (tc_open_operations s) s"

datatype client_env_event =
    Open_pipe time_point nat "nat option" bool bool bool
  | Connect_handler nat bool
  | Run_open_finally nat
  | Cancel_pending_client "nat option"
  | Client_timer_expire time_point timer_id
  | Client_timer_handler timer_id

fun client_env_step ::
  "tcp_client_env \<Rightarrow> client_env_event \<Rightarrow> tcp_client_env \<times> pipe_wait_result completion list"
where
  "client_env_step s (Open_pipe now client_id timeout e1 e2 e3) = (open_pipe now client_id timeout e1 e2 e3 s, [])"
| "client_env_step s (Connect_handler k ec) =
     (if k < length (tc_connects s) then connect_handler k ec s else s, [])"
| "client_env_step s (Run_open_finally k) =
     (if k < length (tc_finally s)
      then (on_open_finished (fst (tc_finally s ! k)) (s\<lparr>tc_finally := drop_nth k (tc_finally s)\<rparr>), [tc_finally s ! k])
      else (s, []))"
| "client_env_step s (Cancel_pending_client client_id) = (cancel_pending_client_endpoints client_id s, [])"
| "client_env_step s (Client_timer_expire now t) = (s\<lparr>tc_timer := multiple_timer_expire now t (tc_timer s)\<rparr>, [])"
| "client_env_step s (Client_timer_handler t) =
     (let (timer, cb) = multiple_timer_handler t (tc_timer s); s = s\<lparr>tc_timer := timer\<rparr>
      in (case cb of None \<Rightarrow> s | Some i \<Rightarrow> on_open_timeout i s, []))"


section \<open>What the operations leave alone\<close>

lemma open_cancel_fields [simp]:
  "oo_client_id (open_operation_cancel b op) = oo_client_id op"
  "oo_is_socket_valid (open_operation_cancel b op) = oo_is_socket_valid op"
  "oo_was_canceled (open_operation_cancel b op)"
  "oo_socket_closed (open_operation_cancel b op) \<longleftrightarrow>
     oo_socket_closed op \<or> \<not> oo_was_canceled op \<and> oo_is_socket_valid op"
  by (simp_all add: open_operation_cancel_def Let_def)

text \<open>A step only marks the operations: ids keep their meaning, and the two cancels touch nothing else.\<close>

definition only_cancels :: "tcp_client_env \<Rightarrow> tcp_client_env \<Rightarrow> bool" where
  "only_cancels s s' \<longleftrightarrow>
     length (tc_ops s') = length (tc_ops s) \<and> tc_open_operations s' = tc_open_operations s \<and>
     tc_connects s' = tc_connects s \<and> tc_finally s' = tc_finally s \<and>
     (\<forall>i. tc_ops s' ! i = tc_ops s ! i \<or> (\<exists>b. tc_ops s' ! i = open_operation_cancel b (tc_ops s ! i)))"

lemma cancel_cancel [simp]: "open_operation_cancel b (open_operation_cancel b' op) = open_operation_cancel b' op"
  by (simp add: open_operation_cancel_def Let_def)

lemma cancels_fields:
  assumes "only_cancels s s'"
  shows "oo_client_id (tc_ops s' ! i) = oo_client_id (tc_ops s ! i)"
    "oo_is_socket_valid (tc_ops s' ! i) = oo_is_socket_valid (tc_ops s ! i)"
    "oo_was_canceled (tc_ops s ! i) \<Longrightarrow> oo_was_canceled (tc_ops s' ! i)"
    "oo_socket_closed (tc_ops s' ! i) \<Longrightarrow>
       oo_socket_closed (tc_ops s ! i) \<or> oo_was_canceled (tc_ops s' ! i) \<and> oo_is_socket_valid (tc_ops s ! i)"
proof -
  have "tc_ops s' ! i = tc_ops s ! i \<or> (\<exists>b. tc_ops s' ! i = open_operation_cancel b (tc_ops s ! i))"
    using assms by (simp add: only_cancels_def)
  then show "oo_client_id (tc_ops s' ! i) = oo_client_id (tc_ops s ! i)"
    "oo_is_socket_valid (tc_ops s' ! i) = oo_is_socket_valid (tc_ops s ! i)"
    "oo_was_canceled (tc_ops s ! i) \<Longrightarrow> oo_was_canceled (tc_ops s' ! i)"
    "oo_socket_closed (tc_ops s' ! i) \<Longrightarrow>
       oo_socket_closed (tc_ops s ! i) \<or> oo_was_canceled (tc_ops s' ! i) \<and> oo_is_socket_valid (tc_ops s ! i)"
    by auto
qed

lemma only_cancels_trans:
  assumes "only_cancels s s'" "only_cancels s' s''"
  shows "only_cancels s s''"
proof -
  have "tc_ops s'' ! i = tc_ops s ! i \<or> (\<exists>b. tc_ops s'' ! i = open_operation_cancel b (tc_ops s ! i))" for i
    using assms unfolding only_cancels_def by (metis cancel_cancel)
  then show ?thesis using assms by (simp add: only_cancels_def)
qed

lemma update_cancels: "only_cancels s (s\<lparr>tc_ops := (tc_ops s)[i := open_operation_cancel b (tc_ops s ! i)]\<rparr>)"
proof -
  have "(tc_ops s)[i := x] ! j = tc_ops s ! j \<or> (tc_ops s)[i := x] ! j = x \<and> j = i" for j x
    by (cases "i < length (tc_ops s)") (auto simp: nth_list_update list_update_beyond)
  then show ?thesis unfolding only_cancels_def by auto
qed

lemma fold_cancel_open:
  "only_cancels s (fold (cancel_open c) is s) \<and>
   (\<forall>i \<in> set is. i < length (tc_ops s) \<and> belongs_to c (tc_ops s ! i) \<longrightarrow>
      oo_was_canceled (tc_ops (fold (cancel_open c) is s) ! i))"
proof (induction "is" arbitrary: s)
  case Nil
  then show ?case by (simp add: only_cancels_def)
next
  case (Cons i "is")
  let ?s = "cancel_open c i s"
  have one: "only_cancels s ?s" using update_cancels [of s] by (auto simp: cancel_open_def only_cancels_def)
  have rest: "only_cancels ?s (fold (cancel_open c) is ?s)" using Cons.IH by blast
  have same: "belongs_to c (tc_ops ?s ! j) = belongs_to c (tc_ops s ! j)" "length (tc_ops ?s) = length (tc_ops s)" for j
    using one cancels_fields(1) [OF one, of j] by (auto simp: belongs_to_def only_cancels_def split: option.split)
  have "oo_was_canceled (tc_ops (fold (cancel_open c) is ?s) ! i)" if "i < length (tc_ops s)" "belongs_to c (tc_ops s ! i)"
  proof -
    have "oo_was_canceled (tc_ops ?s ! i)" using that by (simp add: cancel_open_def)
    then show ?thesis by (rule cancels_fields(3) [OF rest])
  qed
  moreover have "oo_was_canceled (tc_ops (fold (cancel_open c) is ?s) ! j)"
    if "j \<in> set is" "j < length (tc_ops s)" "belongs_to c (tc_ops s ! j)" for j
    using Cons.IH [of ?s] that same by simp
  ultimately show ?case using only_cancels_trans [OF one rest] by simp
qed

lemma timeout_cancels: "only_cancels s (on_open_timeout i (s\<lparr>tc_timer := t\<rparr>))"
  using update_cancels [of s i True] by (auto simp: on_open_timeout_def only_cancels_def)

lemma handler_cancels: "only_cancels s (fst (client_env_step s (Client_timer_handler t)))"
  using timeout_cancels by (auto simp: Let_def case_prod_beta only_cancels_def split: option.split)

lemma step_cancels:
  "only_cancels s (fst (client_env_step s (Cancel_pending_client c)))"
  "only_cancels s (fst (client_env_step s (Client_timer_expire now t)))"
  using fold_cancel_open [of s c] by (simp_all add: cancel_pending_client_endpoints_def only_cancels_def)

lemma on_open_finished_fields [simp]:
  "tc_ops (on_open_finished i s) = tc_ops s" "tc_connects (on_open_finished i s) = tc_connects s"
  "tc_finally (on_open_finished i s) = tc_finally s"
  "tc_open_operations (on_open_finished i s) = filter (\<lambda>j. j \<noteq> i) (tc_open_operations s)"
  by (simp_all add: on_open_finished_def Let_def split: option.split)


section \<open>Invariant\<close>

definition client_pending :: "tcp_client_env \<Rightarrow> promise_id multiset" where
  "client_pending s = mset (tc_connects s) + mset (map fst (tc_finally s))"

fun client_opened :: "tcp_client_env \<Rightarrow> client_env_event \<Rightarrow> promise_id multiset" where
  "client_opened s (Open_pipe now client_id timeout e1 e2 e3) = {#length (tc_ops s)#}"
| "client_opened s e = {#}"

text \<open>A result fits its operation: a socket that is handed out has been moved out of the operation.\<close>

definition result_ok :: "open_operation list \<Rightarrow> pipe_wait_result completion \<Rightarrow> bool" where
  "result_ok ops c \<longleftrightarrow>
     (if successful c then snd (snd c) = Some (fst c) \<and> \<not> oo_is_socket_valid (ops ! fst c) else snd (snd c) = None)"

definition client_inv :: "tcp_client_env \<Rightarrow> bool" where
  "client_inv s \<longleftrightarrow>
     mset (tc_open_operations s) = client_pending s \<and> distinct (tc_open_operations s) \<and>
     (\<forall>i \<in> set (tc_open_operations s). i < length (tc_ops s)) \<and>
     (\<forall>c \<in> set (tc_finally s). result_ok (tc_ops s) c) \<and>
     (\<forall>i < length (tc_ops s). oo_socket_closed (tc_ops s ! i) \<longrightarrow> oo_is_socket_valid (tc_ops s ! i) \<and> oo_was_canceled (tc_ops s ! i))"

lemma client_inv_init: "client_inv tcp_client_env_init"
  by (simp add: client_inv_def client_pending_def tcp_client_env_init_def)

lemma client_inv_cancels:
  assumes "client_inv s" "only_cancels s s'"
  shows "client_inv s'"
proof -
  have "oo_is_socket_valid (tc_ops s' ! i) \<and> oo_was_canceled (tc_ops s' ! i)"
    if "oo_socket_closed (tc_ops s' ! i)" "i < length (tc_ops s)" for i
    using assms(1) that cancels_fields [OF assms(2), of i] by (auto simp: client_inv_def)
  then show ?thesis
    using assms cancels_fields(2) [OF assms(2)]
    by (auto simp: client_inv_def only_cancels_def client_pending_def result_ok_def)
qed

lemma open_pipe_fields:
  "tc_ops (open_pipe now c t e1 e2 e3 s) = tc_ops s @ [open_operation_create c]"
  "tc_open_operations (open_pipe now c t e1 e2 e3 s) = tc_open_operations s @ [length (tc_ops s)]"
  "tc_connects (open_pipe now c t e1 e2 e3 s) = tc_connects s @ (if e1 \<or> e2 \<or> e3 then [] else [length (tc_ops s)])"
  "tc_finally (open_pipe now c t e1 e2 e3 s) =
     tc_finally s @ (if e1 \<or> e2 \<or> e3 then [(length (tc_ops s), no_pipe Wait_failed)] else [])"
  by (simp_all add: open_pipe_def open_operation_start_def Let_def case_prod_beta set_ready_def open_operation_create_def)

lemma connect_handler_fields:
  "tc_open_operations (connect_handler k ec s) = tc_open_operations s"
  "tc_connects (connect_handler k ec s) = drop_nth k (tc_connects s)"
  "length (tc_ops (connect_handler k ec s)) = length (tc_ops s)"
  "oo_was_canceled (tc_ops (connect_handler k ec s) ! j) = oo_was_canceled (tc_ops s ! j)"
  "oo_socket_closed (tc_ops (connect_handler k ec s) ! j) = oo_socket_closed (tc_ops s ! j)"
  "\<exists>r. tc_finally (connect_handler k ec s) = tc_finally s @ [(tc_connects s ! k, r)]"
  by (auto simp: connect_handler_def Let_def set_ready_def field_list_update)

lemma result_ok_append: "fst c < length ops \<Longrightarrow> result_ok (ops @ ops') c = result_ok ops c"
  by (simp add: result_ok_def nth_append)

lemma pending_small: "client_inv s \<Longrightarrow> i \<in># client_pending s \<Longrightarrow> i < length (tc_ops s)"
  by (metis client_inv_def set_mset_mset)

lemma client_inv_open:
  assumes "client_inv s"
  shows "client_inv (open_pipe now c t e1 e2 e3 s)"
proof -
  have small: "fst x < length (tc_ops s)" if "x \<in> set (tc_finally s)" for x
    using pending_small [OF assms, of "fst x"] that by (simp add: client_pending_def)
  have "length (tc_ops s) \<notin> set (tc_open_operations s)" using assms by (auto simp: client_inv_def)
  then show ?thesis
    using assms small unfolding client_inv_def open_pipe_fields
    by (auto simp: client_pending_def open_pipe_fields result_ok_append nth_append less_Suc_eq open_operation_create_def
        result_ok_def [of _ "(i, r)" for i r] successful_def is_success_wait_def)
qed

text \<open>The operation of a connect is not finished, so the others' results are not concerned by it.\<close>

lemma connects_once:
  assumes "client_inv s" "k < length (tc_connects s)" "c \<in> set (tc_finally s)"
  shows "fst c \<noteq> tc_connects s ! k"
proof
  assume "fst c = tc_connects s ! k"
  moreover have "distinct (tc_connects s @ map fst (tc_finally s))"
    using assms(1) mset_eq_imp_distinct_iff [of "tc_open_operations s" "tc_connects s @ map fst (tc_finally s)"]
    by (simp add: client_inv_def client_pending_def)
  ultimately show False using assms(2,3) nth_mem [OF assms(2)] by (metis distinct_append disjoint_iff imageI set_map)
qed

lemma client_inv_connect:
  assumes "client_inv s" "k < length (tc_connects s)"
  shows "client_inv (connect_handler k ec s)"
proof -
  let ?i = "tc_connects s ! k" and ?s = "connect_handler k ec s"
  have i: "?i < length (tc_ops s)" using pending_small [OF assms(1), of ?i] assms(2) by (simp add: client_pending_def)
  have ok: "result_ok (tc_ops s) c" if "c \<in> set (tc_finally s)" for c using assms(1) that by (simp add: client_inv_def)
  have "result_ok (tc_ops ?s) c" if "c \<in> set (tc_finally ?s)" for c
    using that ok [of c] i connects_once [OF assms, of c]
    by (auto simp: connect_handler_def Let_def set_ready_def result_ok_def successful_def is_success_wait_def
        canceled_result_def split: if_splits)
  moreover have "oo_is_socket_valid (tc_ops ?s ! j)" if "oo_socket_closed (tc_ops s ! j)" "j < length (tc_ops s)" for j
    using assms(1) that i by (auto simp: connect_handler_def Let_def set_ready_def nth_list_update client_inv_def)
  moreover have "client_pending ?s = client_pending s"
    using connect_handler_fields(6) [of k ec s] mset_drop_nth [OF assms(2)]
    by (auto simp: client_pending_def connect_handler_fields(2))
  ultimately show ?thesis
    using assms(1) connect_handler_fields(1,3,4,5) [of k ec s] by (auto simp: client_inv_def)
qed

lemma client_inv_finally:
  assumes "client_inv s" "k < length (tc_finally s)"
  shows "client_inv (on_open_finished (fst (tc_finally s ! k)) (s\<lparr>tc_finally := drop_nth k (tc_finally s)\<rparr>))"
proof -
  let ?i = "fst (tc_finally s ! k)"
  have pend: "client_pending s = add_mset ?i (client_pending (s\<lparr>tc_finally := drop_nth k (tc_finally s)\<rparr>))"
    using mset_drop_nth [OF assms(2)] by (simp add: client_pending_def)
  have d: "distinct (tc_open_operations s)" and m: "mset (tc_open_operations s) = client_pending s"
    using assms(1) by (simp_all add: client_inv_def)
  then have "?i \<in> set (tc_open_operations s)" using pend by (metis set_mset_mset union_single_eq_member)
  then have "mset (tc_open_operations s) = add_mset ?i (mset (filter (\<lambda>j. j \<noteq> ?i) (tc_open_operations s)))"
    by (rule mset_filter_neq [OF d])
  then show ?thesis
    using assms(1) m pend unfolding client_inv_def by (auto simp: client_pending_def dest: in_drop_nth)
qed

lemma client_inv_step: "client_inv s \<Longrightarrow> client_inv (fst (client_env_step s e))"
proof (cases e)
  case (Client_timer_handler t)
  assume "client_inv s"
  then show ?thesis unfolding Client_timer_handler using handler_cancels by (rule client_inv_cancels)
next
  case (Cancel_pending_client c)
  assume "client_inv s"
  then show ?thesis unfolding Cancel_pending_client using step_cancels(1) by (rule client_inv_cancels)
next
  case (Client_timer_expire now t)
  assume "client_inv s"
  then show ?thesis unfolding Client_timer_expire using step_cancels(2) by (rule client_inv_cancels)
qed (simp_all add: client_inv_open client_inv_connect client_inv_finally)


section \<open>The contract\<close>

lemma client_conserve:
  "client_pending (fst (client_env_step s e)) + mset (map fst (snd (client_env_step s e))) =
   client_pending s + client_opened s e"
proof (cases e)
  case (Open_pipe now c t e1 e2 e3)
  then show ?thesis by (simp add: client_pending_def open_pipe_fields)
next
  case (Connect_handler k ec)
  then show ?thesis
    using connect_handler_fields(6) [of k ec s] mset_drop_nth [of k "tc_connects s"]
    by (auto simp: client_pending_def connect_handler_fields(2))
next
  case (Run_open_finally k)
  then show ?thesis using mset_drop_nth [of k "tc_finally s"] by (simp add: client_pending_def)
next
  case (Cancel_pending_client c)
  then show ?thesis using step_cancels(1) [of s c] by (simp add: client_pending_def only_cancels_def)
next
  case (Client_timer_expire now t)
  then show ?thesis by (simp add: client_pending_def)
next
  case (Client_timer_handler t)
  then show ?thesis
    using handler_cancels [of s t] by (simp add: client_pending_def only_cancels_def Let_def case_prod_beta)
qed

lemma client_calls:
  "length (tc_ops (fst (client_env_step s e))) = length (tc_ops s) + size (client_opened s e)"
  using step_cancels(1) [of s] handler_cancels [of s]
  by (cases e) (simp_all add: open_pipe_fields connect_handler_fields(3) only_cancels_def)

lemma client_canceled_step:
  "i < length (tc_ops s) \<Longrightarrow> oo_was_canceled (tc_ops s ! i) \<Longrightarrow> oo_was_canceled (tc_ops (fst (client_env_step s e)) ! i)"
  using cancels_fields(3) [OF step_cancels(1)] cancels_fields(3) [OF step_cancels(2)] cancels_fields(3) [OF handler_cancels]
  by (cases e) (simp_all add: open_pipe_fields connect_handler_fields(4) nth_append)

text \<open>A socket that has been moved out stays out.\<close>

lemma moved_out_step:
  assumes "i < length (tc_ops s)" "\<not> oo_is_socket_valid (tc_ops s ! i)"
  shows "\<not> oo_is_socket_valid (tc_ops (fst (client_env_step s e)) ! i)"
proof (cases e)
  case (Connect_handler k ec)
  then show ?thesis
    using assms by (cases "tc_connects s ! k < length (tc_ops s)")
      (auto simp: connect_handler_def set_ready_def Let_def nth_list_update)
qed (use assms cancels_fields(2) [OF step_cancels(1)] cancels_fields(2) [OF step_cancels(2)]
    cancels_fields(2) [OF handler_cancels] in \<open>simp_all add: open_pipe_fields nth_append\<close>)

lemma client_finally_step:
  assumes "c \<in> set (tc_finally (fst (client_env_step s e)))" "successful c"
  shows "c \<in> set (tc_finally s) \<or> \<not> oo_was_canceled (tc_ops s ! fst c)"
proof (cases e)
  case (Open_pipe now x t e1 e2 e3)
  then show ?thesis using assms by (auto simp: open_pipe_fields successful_def is_success_wait_def split: if_splits)
next
  case (Connect_handler k ec)
  then show ?thesis
    using assms by (auto simp: connect_handler_def set_ready_def Let_def successful_def split: if_splits)
next
  case (Run_open_finally k)
  then show ?thesis using assms in_drop_nth [of c k "tc_finally s"] by (auto split: if_splits)
qed (use assms step_cancels(1) [of s] handler_cancels [of s] in \<open>auto simp: only_cancels_def\<close>)

definition client_doomed :: "tcp_client_env \<Rightarrow> promise_id \<Rightarrow> bool" where
  "client_doomed s p \<longleftrightarrow>
     p < length (tc_ops s) \<and> oo_was_canceled (tc_ops s ! p) \<and> (\<forall>c \<in> set (tc_finally s). fst c = p \<longrightarrow> \<not> successful c)"

lemma client_output: "c \<in> set (snd (client_env_step s e)) \<Longrightarrow> c \<in> set (tc_finally s)"
  by (cases e) (auto simp: Let_def case_prod_beta split: if_splits)

interpretation tcp_client: cancellable_env client_env_step client_inv client_pending client_opened
  "\<lambda>s. length (tc_ops s)" client_doomed successful
proof
  fix s e p r
  assume inv: "client_inv s"
  show "client_inv (fst (client_env_step s e))" using inv by (rule client_inv_step)
  show "client_pending (fst (client_env_step s e)) + mset (map fst (snd (client_env_step s e))) =
    client_pending s + client_opened s e" by (rule client_conserve)
  show "mset [0..<length (tc_ops s)] + client_opened s e = mset [0..<length (tc_ops (fst (client_env_step s e)))]"
    unfolding client_calls by (cases e) simp_all
  assume doomed: "client_doomed s p"
  then have "\<not> successful c" if "c \<in> set (tc_finally (fst (client_env_step s e)))" "fst c = p" for c
    using client_finally_step [OF that(1)] that(2) by (auto simp: client_doomed_def)
  then show "client_doomed (fst (client_env_step s e)) p"
    using doomed client_canceled_step [of p s e] client_calls [of s e] by (auto simp: client_doomed_def)
  show "(p, r) \<in> set (snd (client_env_step s e)) \<Longrightarrow> \<not> successful (p, r)"
    using doomed client_output [of "(p, r)" s e] by (auto simp: client_doomed_def)
qed

lemma result_ok_run:
  "result_ok (tc_ops s) c \<Longrightarrow> fst c < length (tc_ops s) \<Longrightarrow>
   result_ok (tc_ops (run_state client_env_step s es)) c \<and> fst c < length (tc_ops (run_state client_env_step s es))"
proof (induction es arbitrary: s)
  case (Cons e es)
  have "result_ok (tc_ops (fst (client_env_step s e))) c"
    using Cons.prems moved_out_step [of "fst c" s e] by (auto simp: result_ok_def split: if_splits)
  then show ?case using Cons client_calls [of s e] by simp
qed simp

lemma delivered_ok:
  assumes "client_inv s" "c \<in> set (run_output client_env_step s es)"
  shows "result_ok (tc_ops (run_state client_env_step s es)) c \<and> fst c < length (tc_ops (run_state client_env_step s es))"
  using assms
proof (induction es arbitrary: s)
  case (Cons e es)
  let ?ok = "result_ok (tc_ops (run_state client_env_step s (e # es))) c \<and>
    fst c < length (tc_ops (run_state client_env_step s (e # es)))"
  have ?ok if out: "c \<in> set (snd (client_env_step s e))"
  proof (rule result_ok_run)
    have fin: "c \<in> set (tc_finally s)" using out by (rule client_output)
    then show "result_ok (tc_ops s) c" using Cons.prems(1) by (simp add: client_inv_def)
    show "fst c < length (tc_ops s)"
      using pending_small [OF Cons.prems(1), of "fst c"] fin by (simp add: client_pending_def)
  qed
  moreover have ?ok if "c \<in> set (run_output client_env_step (fst (client_env_step s e)) es)"
    using Cons.IH [OF client_inv_step [OF Cons.prems(1)] that] by simp
  ultimately show ?case using Cons.prems(2) by auto
qed simp


section \<open>Properties\<close>

text \<open>
  C25: Every call of \<open>open_pipe\<close> of the TCP client environment gets at most one result, the map of operations
  holds exactly the calls without a result, and it is empty once no connect and no continuation is
  outstanding.  A result is a success exactly if it carries the socket of its call, and a socket that was
  handed out is never closed by a cancel or a timeout that comes late.
\<close>

theorem tcp_client_env_exactly_once:
  fixes es
  defines "out \<equiv> run_output client_env_step tcp_client_env_init es"
    and "s \<equiv> run_state client_env_step tcp_client_env_init es"
  shows "distinct (map fst out @ tc_open_operations s) \<and>
    set (map fst out @ tc_open_operations s) = {..<length (tc_ops s)} \<and>
    (tc_connects s = [] \<and> tc_finally s = [] \<longrightarrow> tc_open_operations s = []) \<and>
    (\<forall>c \<in> set out. snd (snd c) = (if successful c then Some (fst c) else None) \<and>
       (successful c \<longrightarrow> \<not> oo_socket_closed (tc_ops s ! fst c)))"
proof -
  have inv: "client_inv s" unfolding s_def by (rule tcp_client.inv_run [OF client_inv_init])
  have "length (tc_ops tcp_client_env_init) = 0" "client_pending tcp_client_env_init = {#}"
    by (simp_all add: tcp_client_env_init_def client_pending_def)
  note once = tcp_client.answered_once [OF client_inv_init this, of es, folded out_def s_def]
  have "mset (map fst out @ tc_open_operations s) = mset [0..<length (tc_ops s)]"
    using once(4) inv by (simp add: client_inv_def add.commute)
  then have "distinct (map fst out @ tc_open_operations s)"
    "set (map fst out @ tc_open_operations s) = {..<length (tc_ops s)}"
    using mset_eq_imp_distinct_iff mset_eq_setD by (fastforce, metis atLeast0LessThan atLeast_upt set_upt)
  moreover have "tc_open_operations s = []" if "tc_connects s = []" "tc_finally s = []"
    using inv that by (simp add: client_inv_def client_pending_def)
  moreover have "snd (snd c) = (if successful c then Some (fst c) else None) \<and>
      (successful c \<longrightarrow> \<not> oo_socket_closed (tc_ops s ! fst c))" if "c \<in> set out" for c
    using delivered_ok [OF client_inv_init, of c es, folded out_def s_def, OF that] inv
    by (auto simp: result_ok_def client_inv_def split: if_splits)
  ultimately show ?thesis by blast
qed

text \<open>
  Three calls: the second fails to set an option, the first connects, the third is cancelled while it
  connects; the cancel comes too late for the first one.
\<close>

definition three_calls :: "client_env_event list" where
  "three_calls =
     [Open_pipe 0 5 None False False False, Open_pipe 0 5 None False True False, Open_pipe 0 5 (Some 10) False False False,
      Connect_handler 0 False, Cancel_pending_client (Some 5), Run_open_finally 1, Connect_handler 0 True,
      Run_open_finally 0, Run_open_finally 0]"

theorem tcp_client_env_exactly_once_witness:
  "run_output client_env_step tcp_client_env_init three_calls =
     [(0, Wait_success, Some 0), (1, Wait_failed, None), (2, Wait_canceled, None)] \<and>
   tc_open_operations (run_state client_env_step tcp_client_env_init three_calls) = []"
proof -
  let ?s = "run_state client_env_step tcp_client_env_init three_calls"
  have "tc_connects ?s = [] \<and> tc_finally ?s = []" by code_simp
  then have "tc_open_operations ?s = []" using tcp_client_env_exactly_once [of three_calls] by blast
  moreover have "run_output client_env_step tcp_client_env_init three_calls =
     [(0, Wait_success, Some 0), (1, Wait_failed, None), (2, Wait_canceled, None)]" by code_simp
  ultimately show ?thesis by blast
qed

lemma fold_cancel_others:
  "\<not> belongs_to c (tc_ops s ! j) \<Longrightarrow> tc_ops (fold (cancel_open c) is s) ! j = tc_ops s ! j"
proof (induction "is" arbitrary: s)
  case (Cons i "is")
  have "tc_ops (cancel_open c i s) ! j = tc_ops s ! j"
    using Cons.prems by (cases "i = j") (simp_all add: cancel_open_def)
  then show ?case using Cons by simp
qed simp

text \<open>
  \<open>cancel_pending_client_endpoints\<close> cancels the calls of the given client and no others.  A call of the
  client that is in the map and has not connected never gets a socket, whatever happens afterwards,
  and the operations of the other clients are left as they are.
\<close>

theorem tcp_client_env_cancel:
  fixes es
  defines "s \<equiv> run_state client_env_step tcp_client_env_init es"
  shows "(\<forall>i r es'. i \<in> set (tc_open_operations s) \<and> belongs_to client_id (tc_ops s ! i) \<and>
      (i, Wait_success, Some i) \<notin> set (tc_finally s) \<and>
      (i, r) \<in> set (run_output client_env_step s (Cancel_pending_client client_id # es')) \<longrightarrow> \<not> is_success_wait (fst r)) \<and>
    (\<forall>i. \<not> belongs_to client_id (tc_ops s ! i) \<longrightarrow>
      tc_ops (cancel_pending_client_endpoints client_id s) ! i = tc_ops s ! i)"
proof (intro conjI allI impI)
  have inv: "client_inv s" unfolding s_def by (rule tcp_client.inv_run [OF client_inv_init])
  let ?s = "cancel_pending_client_endpoints client_id s"
  fix i r es'
  assume a: "i \<in> set (tc_open_operations s) \<and> belongs_to client_id (tc_ops s ! i) \<and>
    (i, Wait_success, Some i) \<notin> set (tc_finally s) \<and>
    (i, r) \<in> set (run_output client_env_step s (Cancel_pending_client client_id # es'))"
  have "i < length (tc_ops s)" using inv a by (simp add: client_inv_def)
  moreover have "\<not> successful c" if "c \<in> set (tc_finally s)" "fst c = i" for c
    using inv a that by (cases c) (auto simp: client_inv_def result_ok_def successful_def is_success_wait_def split: if_splits)
  ultimately have "client_doomed ?s i"
    using a fold_cancel_open [of s client_id "tc_open_operations s"]
    by (auto simp: client_doomed_def cancel_pending_client_endpoints_def only_cancels_def)
  then show "\<not> is_success_wait (fst r)"
    using a tcp_client.doomed_never_successful [of ?s i r es'] client_inv_step [OF inv, of "Cancel_pending_client client_id"]
    by (simp add: successful_def)
next
  show "tc_ops (cancel_pending_client_endpoints client_id s) ! i = tc_ops s ! i" if "\<not> belongs_to client_id (tc_ops s ! i)" for i
    using that by (simp add: cancel_pending_client_endpoints_def fold_cancel_others)
qed

theorem tcp_client_env_cancel_witness:
  "(2, Wait_canceled, None) \<in> set (run_output client_env_step tcp_client_env_init three_calls) \<and>
   \<not> is_success_wait Wait_canceled"
proof -
  let ?s = "run_state client_env_step tcp_client_env_init (take 4 three_calls)"
  have "2 \<in> set (tc_open_operations ?s) \<and> belongs_to (Some 5) (tc_ops ?s ! 2) \<and>
    (2, Wait_success, Some 2) \<notin> set (tc_finally ?s) \<and>
    (2, Wait_canceled, None) \<in> set (run_output client_env_step ?s (Cancel_pending_client (Some 5) # drop 5 three_calls))"
    by code_simp
  then have "\<not> is_success_wait (fst (Wait_canceled, None :: nat option))"
    using tcp_client_env_cancel [of "take 4 three_calls" "Some 5"] by blast
  moreover have "(2, Wait_canceled, None) \<in> set (run_output client_env_step tcp_client_env_init three_calls)" by code_simp
  ultimately show ?thesis by simp
qed

end
