(* ===== verification/Rpc_Endpoint.thy ===== *)
theory Rpc_Endpoint
  imports Connection Channel_Service
begin

text \<open>
  \<open>internal/endpoint/endpoint.h\<close> and the parts of \<open>channel.cpp\<close> that reach the connection: a channel
  owns a connection, an endpoint owns a channel and calls the methods of the peer through it.
\<close>

section \<open>The channel and its connection\<close>

record endpoint =
  ep_channel :: channel
  ep_connection :: connection

definition channel_start :: "endpoint \<Rightarrow> endpoint or_exn" where
  "channel_start ep = map_sum id (\<lambda>c. ep\<lparr>ep_connection := c\<rparr>) (conn_start (ep_connection ep))"

definition channel_disconnect :: "endpoint \<Rightarrow> endpoint" where
  "channel_disconnect ep = ep\<lparr>ep_connection := conn_deactivate (ep_connection ep)\<rparr>"

definition channel_is_connected :: "endpoint \<Rightarrow> bool" where
  "channel_is_connected ep = conn_is_active (ep_connection ep)"

definition channel_set_disconnect_callback :: "nat \<Rightarrow> endpoint \<Rightarrow> endpoint" where
  "channel_set_disconnect_callback cb ep =
     ep\<lparr>ep_connection := (ep_connection ep)\<lparr>c_transport :=
       transport_set_stop_callback cb (c_transport (ep_connection ep))\<rparr>\<rparr>"


section \<open>The endpoint\<close>

definition endpoint_create :: "connection \<Rightarrow> endpoint" where
  "endpoint_create c = \<lparr>ep_channel = channel_init, ep_connection = c\<rparr>"

definition endpoint_start :: "endpoint \<Rightarrow> endpoint or_exn" where
  "endpoint_start ep = channel_start ep"

definition endpoint_disconnect :: "endpoint \<Rightarrow> endpoint" where
  "endpoint_disconnect ep = channel_disconnect ep"

definition endpoint_is_connected :: "endpoint \<Rightarrow> bool" where
  "endpoint_is_connected ep = channel_is_connected ep"

definition endpoint_set_disconnect_callback :: "nat \<Rightarrow> endpoint \<Rightarrow> endpoint" where
  "endpoint_set_disconnect_callback cb ep = channel_set_disconnect_callback cb ep"

text \<open>The destructor of the connection that the endpoint owns.\<close>

definition connection_destroy :: "endpoint \<Rightarrow> endpoint" where
  "connection_destroy ep = ep\<lparr>ep_connection := conn_deactivate (ep_connection ep)\<rparr>"

text \<open>
  \<open>make_request\<close>: the promise \<open>p\<close> is completed at once, or the connection has taken it over.  An
  exception of the channel leaves \<open>make_request\<close>.
\<close>

definition make_request ::
  "'q proto \<Rightarrow> (nat \<Rightarrow> bytes) \<Rightarrow> time_point \<Rightarrow> promise_id \<Rightarrow> uint32 \<Rightarrow> 'q \<Rightarrow> endpoint
     \<Rightarrow> endpoint \<times> conn_result completion list or_exn"
where
  "make_request P mem now p method_idx request ep =
     (let (ch, started) = CallMethod P mem method_idx request (ep_channel ep); ep = ep\<lparr>ep_channel := ch\<rparr>
      in case started of
           Call_done r \<Rightarrow> (ep, Inr [(p, Completed r None)])
         | Call_throws e r \<Rightarrow> (ep, Inl e)
         | Call_sent n frame \<Rightarrow>
             (case request_async now p frame (ep_connection ep) of
                Inl e \<Rightarrow> (ep, Inl e)
              | Inr (c, os) \<Rightarrow> (ep\<lparr>ep_connection := c\<rparr>, Inr os)))"

lemmas endpoint_defs =
  endpoint_start_def endpoint_disconnect_def endpoint_is_connected_def endpoint_set_disconnect_callback_def
  channel_start_def channel_disconnect_def channel_is_connected_def channel_set_disconnect_callback_def
  connection_destroy_def


section \<open>The disconnect callback\<close>

text \<open>What the disconnect callbacks depend on.\<close>

definition link :: "endpoint \<Rightarrow> bool \<times> nat list \<times> nat list" where
  "link ep = (let tr = c_transport (ep_connection ep) in (tr_running tr, tr_stop_callbacks tr, tr_executed tr))"

text \<open>The callbacks a step has put onto the thread pool.\<close>

definition posted :: "endpoint \<Rightarrow> endpoint \<Rightarrow> nat list" where
  "posted ep ep' = drop (length (tr_executed (c_transport (ep_connection ep)))) (tr_executed (c_transport (ep_connection ep')))"

text \<open>The events of a connection that are not calls of its owner.\<close>

fun env_event :: "conn_event \<Rightarrow> bool" where
  "env_event Conn_start = False"
| "env_event Conn_deactivate = False"
| "env_event (Conn_request now p msg) = False"
| "env_event (Conn_set_stop_callback cb) = False"
| "env_event e = True"

definition endpoint_event :: "conn_event \<Rightarrow> endpoint \<Rightarrow> endpoint \<times> conn_result completion list" where
  "endpoint_event e ep =
     (if env_event e then let (c, os) = conn_step (ep_connection ep) e in (ep\<lparr>ep_connection := c\<rparr>, os) else (ep, []))"

text \<open>A connection keeps its callbacks, or its pipe goes down and they are all posted.\<close>

definition link_step :: "endpoint \<Rightarrow> endpoint \<Rightarrow> bool" where
  "link_step ep ep' \<longleftrightarrow>
     link ep' = link ep \<or> (\<exists>r cbs ex. link ep = (r, cbs, ex) \<and> link ep' = (False, [], ex @ cbs))"

lemma link_stepI:
  "c_transport c' = c_transport (ep_connection ep) \<Longrightarrow> link_step ep (ep\<lparr>ep_connection := c'\<rparr>)"
  "c_transport c' = pipe_disconnect (c_transport (ep_connection ep)) \<Longrightarrow> link_step ep (ep\<lparr>ep_connection := c'\<rparr>)"
  by (simp_all add: link_step_def link_def pipe_disconnect_def Let_def)

lemma conn_recv_callbacks:
  "(\<lambda>tr. (tr_running tr, tr_stop_callbacks tr, tr_executed tr)) (c_transport (fst (conn_recv r msg c))) =
   (\<lambda>tr. (tr_running tr, tr_stop_callbacks tr, tr_executed tr)) (c_transport c)"
  using dispatch_link [of msg "c\<lparr>c_transport := (c_transport c)\<lparr>tr_reads := tr_reads (c_transport c) - 1\<rparr>\<rparr>"]
  by (auto simp: conn_recv_def recv_callback_def case_prod_beta do_receive_async_def
      transport_recv_async_def complete_receive_routine_def Let_def)

lemma endpoint_event_link: "link_step ep (fst (endpoint_event e ep))"
proof (cases "env_event e")
  case True
  let ?c = "ep_connection ep"
  have "link_step ep (ep\<lparr>ep_connection := fst (conn_step ?c e)\<rparr>)"
  proof (cases e)
    case (Conn_received r msg)
    then show ?thesis using conn_recv_callbacks [of r msg ?c] by (simp add: link_step_def link_def Let_def)
  next
    case (Conn_sent n r)
    then show ?thesis
      using same_link_ops(3) [of "?c\<lparr>c_sends := remove1 n (c_sends ?c)\<rparr>" n r]
      by (intro link_stepI) (simp add: same_link_def)
  next
    case (Conn_timer_handler i)
    then show ?thesis using same_link_ops(4) [of ?c i] by (intro link_stepI) (simp add: same_link_def)
  next
    case (Conn_watch_handler now)
    then show ?thesis
      by (auto simp: link_step_def link_def conn_watch_handler_def process_watch_event_def Let_def case_prod_beta
          conn_deactivate_def transport_stop_def pipe_disconnect_def send_message_def transport_send_async_def)
  next
    case (Conn_service_done req res)
    then show ?thesis by (simp add: link_step_def link_def send_message_def transport_send_async_def Let_def)
  next
    case Conn_lost
    then show ?thesis by (simp add: link_stepI(2))
  qed (use True in \<open>simp_all add: link_stepI(1)\<close>)
  then show ?thesis using True by (simp add: endpoint_event_def case_prod_beta)
qed (simp add: endpoint_event_def link_step_def)

lemma disconnect_link:
  "link ep = (r, cbs, ex) \<Longrightarrow> link (endpoint_disconnect ep) = (False, [], ex @ cbs)"
  "link ep = (r, cbs, ex) \<Longrightarrow> link (connection_destroy ep) = (False, [], ex @ cbs)"
  by (auto simp: link_def endpoint_defs conn_deactivate_def transport_stop_def pipe_disconnect_def Let_def)

lemma posted_link:
  "link ep = (r, cbs, ex) \<Longrightarrow> link ep' = (r', cbs', ex @ new) \<Longrightarrow> posted ep ep' = new"
  by (auto simp: link_def posted_def Let_def)

lemma create_link:
  "c_transport c = transport_init \<Longrightarrow> link (endpoint_set_disconnect_callback cb (endpoint_create c)) = (True, [cb], [])"
  "c_transport c = transport_init\<lparr>tr_running := False\<rparr> \<Longrightarrow>
     link (endpoint_set_disconnect_callback cb (endpoint_create c)) = (False, [], [cb])"
  by (simp_all add: link_def endpoint_defs endpoint_create_def transport_init_def transport_set_stop_callback_def)

lemma start_link: "endpoint_start ep = Inr ep' \<Longrightarrow> link ep' = link ep"
  by (auto simp: link_def endpoint_defs conn_start_def start_watching_def periodic_timer_start_def
      do_receive_async_def transport_recv_async_def Let_def split: if_splits)

text \<open>The connection that a connector makes; its pipe is up, or has gone down meanwhile.\<close>

definition new_connection :: "config \<Rightarrow> bool \<Rightarrow> connection" where
  "new_connection cfg up =
     (let c = connection_init True (recv_timeout cfg) (ping_timeout cfg)
      in c\<lparr>c_transport := (c_transport c)\<lparr>tr_running := up\<rparr>\<rparr>)"

lemma new_connection_link:
  obtains ep where "endpoint_start (endpoint_set_disconnect_callback i (endpoint_create (new_connection cfg up))) = Inr ep"
    "link ep = (if up then (True, [i], []) else (False, [], [i]))"
    "posted (endpoint_create (new_connection cfg up))
       (endpoint_set_disconnect_callback i (endpoint_create (new_connection cfg up))) = (if up then [] else [i])"
proof -
  let ?ep = "endpoint_set_disconnect_callback i (endpoint_create (new_connection cfg up))"
  have tr: "c_transport (new_connection cfg up) = (if up then transport_init else transport_init\<lparr>tr_running := False\<rparr>)"
    by (simp add: new_connection_def connection_init_def transport_init_def)
  then have l: "link ?ep = (if up then (True, [i], []) else (False, [], [i]))" using create_link [of "new_connection cfg up" i] by (cases up) simp_all
  have l0: "link (endpoint_create (new_connection cfg up)) = (up, [], [])"
    using tr by (simp add: link_def endpoint_create_def transport_init_def)
  obtain ep where ep: "endpoint_start ?ep = Inr ep"
    by (simp add: endpoint_defs endpoint_create_def new_connection_def connection_init_def conn_start_def
        start_watching_def periodic_timer_start_def periodic_timer_init_def)
  have "posted (endpoint_create (new_connection cfg up)) ?ep = (if up then [] else [i])"
    using posted_link [OF l0] l by (cases up) simp_all
  then show ?thesis using that [OF ep] l start_link [OF ep] by simp
qed

lemma request_link: "link (fst (make_request P mem now p i q ep)) = link ep"
  by (auto simp: link_def make_request_def request_async_def add_request_to_map_def send_message_def
      transport_send_async_def Let_def case_prod_beta split: call_started.splits sum.splits)


section \<open>A request and its answer\<close>

lemma service_answer:
  assumes "proto_ok Q" "allocator_ok smem" "serializes Q blank" "\<not> is_response_proto_too_big Q blank"
    and "\<And>G. gservice = Some G \<Longrightarrow> gs_input G (unat idx) = P \<and> gs_output G (unat idx) = Q \<and>
           gs_empty_response G (unat idx) = blank"
    and "\<And>G r u. gservice = Some G \<Longrightarrow> gs_call_method G (unat idx) cid request = Some (r, u) \<Longrightarrow>
           \<not> is_response_proto_too_big Q r \<Longrightarrow> serializes Q r"
    and "length bs < 2 ^ 32" "ParseFromArray P bs = Some request" "\<not> is_request_proto_too_big P request"
    and "process_request_async gservice smem cid (Some (req_frame n idx bs)) = Some (Inr b)"
  shows "response_to n b \<and>
    Some (call_finished Q blank partial n (Inr (Rq_ok, Some b))) = rpc_spec gservice P Q blank cid (unat idx) request"
proof (cases gservice)
  case None
  then show ?thesis
    using assms(9,10) by (auto simp: process_req_frame [OF assms(7,2)] rpc_spec_def finished_not_implemented)
next
  case (Some G)
  note G = assms(5) [OF Some]
  show ?thesis
  proof (cases "gs_method_count G \<le> unat idx")
    case True
    then show ?thesis
      using Some assms(9,10) by (auto simp: process_req_frame [OF assms(7,2)] rpc_spec_def finished_not_implemented Let_def)
  next
    case False
    then obtain r u where r: "gs_call_method G (unat idx) cid request = Some (r, u)"
      and run: "response_controller_Run u (service_callback Q smem n blank r) = Inr b"
      using Some G assms(8,10) by (auto simp: process_req_frame [OF assms(7,2)] Let_def)
    show ?thesis
      using callback_frame [OF assms(1-4), of r u n partial] assms(6) [OF Some r] run r False Some assms(9)
      by (simp add: rpc_spec_def)
  qed
qed

lemma make_request_sent:
  assumes "proto_ok P" "allocator_ok mem" "serializes P request" "\<not> is_request_proto_too_big P request"
    and "endpoint_is_connected ep" "m_next_req_id (ep_channel ep) \<notin> fst ` set (c_request_map (ep_connection ep))"
  obtains bs tid t where "ParseFromArray P bs = Some request" "length bs < 2 ^ 32"
    "make_request P mem now p idx request ep =
       (let n = m_next_req_id (ep_channel ep); c = ep_connection ep in
        (ep\<lparr>ep_channel := (ep_channel ep)\<lparr>m_next_req_id := n + 1\<rparr>,
            ep_connection := c\<lparr>c_multiple_timer := t,
              c_request_map := c_request_map c @
                [(n, \<lparr>rd_promise = p, rd_timer_id = tid, rd_is_req_sent = False, rd_fail_req_result = None\<rparr>)],
              c_transport := transport_send_async (req_frame n idx bs) (c_transport c),
              c_sends := c_sends c @ [n]\<rparr>\<rparr>, Inr []))"
proof -
  let ?n = "m_next_req_id (ep_channel ep)" and ?c = "ep_connection ep"
  obtain bs where bs: "create_transfer_msg_req P mem ?n idx (Some request) = Inr (req_frame ?n idx bs)"
    "ParseFromArray P bs = Some request" "length bs < 2 ^ 32"
    using create_req_frame [OF assms(1,2,4,3)] by metis
  obtain tid t where t: "multiple_timer_start now ?n (c_recv_timeout ?c) (c_multiple_timer ?c) = (tid, t)" by fastforce
  show thesis
    using assms(4,5,6) bs
    by (intro that [OF bs(2,3)])
      (simp add: make_request_def CallMethod_def request_async_def add_request_to_map_def t send_message_def
        endpoint_defs conn_is_active_def req_frame_parse Let_def)
qed

lemma mark_sent_new: "n \<notin> fst ` set m \<Longrightarrow> map_of (mark_sent n (m @ [(n, d)])) n = Some (d\<lparr>rd_is_req_sent := True\<rparr>)"
  by (induction m) (auto simp: mark_sent_def)

text \<open>
  C26: A request through an endpoint gives what the method of the peer's service does.  On an active
  connection with a free request number, \<open>make_request\<close> puts exactly one frame onto the transport.  Once
  the frame is sent and the answer of a service to this very frame is received, the connection
  completes the promise of the request and nothing else, and the channel turns the answer into
  the result that is specified for the call.
\<close>

theorem endpoint_request_answered:
  assumes "proto_ok P" "proto_ok Q" "allocator_ok cmem" "allocator_ok smem"
    and "serializes P request" "\<not> is_request_proto_too_big P request" "serializes Q blank" "\<not> is_response_proto_too_big Q blank"
    and "\<And>G. gservice = Some G \<Longrightarrow> gs_input G (unat idx) = P \<and> gs_output G (unat idx) = Q \<and>
           gs_empty_response G (unat idx) = blank"
    and "\<And>G r u. gservice = Some G \<Longrightarrow> gs_call_method G (unat idx) cid request = Some (r, u) \<Longrightarrow>
           \<not> is_response_proto_too_big Q r \<Longrightarrow> serializes Q r"
    and "endpoint_is_connected ep" "m_next_req_id (ep_channel ep) \<notin> fst ` set (c_request_map (ep_connection ep))"
    and "tr_reads (c_transport (ep_connection ep)) \<noteq> 0"
  shows "\<exists>frame ep'. make_request P cmem now p idx request ep = (ep', Inr []) \<and>
    tr_sent (c_transport (ep_connection ep')) = tr_sent (c_transport (ep_connection ep)) @ [frame] \<and>
    (\<forall>b. process_request_async gservice smem cid (Some frame) = Some (Inr b) \<longrightarrow>
       run_output conn_step (ep_connection ep')
         [Conn_sent (m_next_req_id (ep_channel ep)) Op_success, Conn_received Op_success (Some b)] =
         [(p, Completed Rq_ok (Some b))] \<and>
       Some (call_finished Q blank partial (m_next_req_id (ep_channel ep)) (Inr (Rq_ok, Some b))) =
         rpc_spec gservice P Q blank cid (unat idx) request)"
proof -
  let ?n = "m_next_req_id (ep_channel ep)" and ?c = "ep_connection ep"
  obtain bs tid t where bs: "ParseFromArray P bs = Some request" "length bs < 2 ^ 32"
    and made: "make_request P cmem now p idx request ep =
       (let n = ?n; c = ?c in
        (ep\<lparr>ep_channel := (ep_channel ep)\<lparr>m_next_req_id := n + 1\<rparr>,
            ep_connection := c\<lparr>c_multiple_timer := t,
              c_request_map := c_request_map c @
                [(n, \<lparr>rd_promise = p, rd_timer_id = tid, rd_is_req_sent = False, rd_fail_req_result = None\<rparr>)],
              c_transport := transport_send_async (req_frame n idx bs) (c_transport c),
              c_sends := c_sends c @ [n]\<rparr>\<rparr>, Inr []))"
    using make_request_sent [OF assms(1,3,5,6,11,12), of now p idx] by blast
  obtain ep' where ep': "make_request P cmem now p idx request ep = (ep', Inr [])"
    using made by (simp add: Let_def)
  have none: "map_of (c_request_map ?c) ?n = None" using assms(12) by (simp add: map_of_eq_None_iff)
  have sent: "tr_sent (c_transport (ep_connection ep')) = tr_sent (c_transport ?c) @ [req_frame ?n idx bs]"
    using made ep' by (auto simp: Let_def transport_send_async_def)
  have "run_output conn_step (ep_connection ep') [Conn_sent ?n Op_success, Conn_received Op_success (Some b)] =
      [(p, Completed Rq_ok (Some b))]" if "response_to ?n b" for b
    using made ep' that none assms(13) mark_sent_new [OF assms(12)]
    by (auto simp: Let_def transport_send_async_def send_callback_def process_request_sent_def conn_recv_def recv_callback_def
        dispatch_receive_event_def response_to_def handle_message_def handle_received_response_def complete_request_def
        map_add_def split: option.splits)
  moreover have "response_to ?n b \<and>
      Some (call_finished Q blank partial ?n (Inr (Rq_ok, Some b))) = rpc_spec gservice P Q blank cid (unat idx) request"
    if "process_request_async gservice smem cid (Some (req_frame ?n idx bs)) = Some (Inr b)" for b
    using service_answer [of Q smem blank gservice idx P cid request bs ?n b partial] assms bs that by blast
  ultimately show ?thesis using ep' sent by blast
qed

definition example_endpoint :: endpoint where
  "example_endpoint =
     endpoint_create ((connection_init True 1000 1000)\<lparr>c_state := Started, c_transport := transport_recv_async transport_init\<rparr>)"

theorem endpoint_request_answered_witness:
  "\<exists>frame. tr_sent (c_transport (ep_connection (fst (make_request raw_proto dirty_memory 0 9 0 [1, 2, 3] example_endpoint)))) =
     [frame]"
proof -
  let ?ep = example_endpoint
  have "\<exists>frame ep'. make_request raw_proto dirty_memory 0 9 0 [1, 2, 3] ?ep = (ep', Inr []) \<and>
    tr_sent (c_transport (ep_connection ep')) = tr_sent (c_transport (ep_connection ?ep)) @ [frame] \<and>
    (\<forall>b. process_request_async (Some reverse_service) dirty_memory 5 (Some frame) = Some (Inr b) \<longrightarrow>
       run_output conn_step (ep_connection ep')
         [Conn_sent (m_next_req_id (ep_channel ?ep)) Op_success, Conn_received Op_success (Some b)] =
         [(9, Completed Rq_ok (Some b))] \<and>
       Some (call_finished raw_proto [] id (m_next_req_id (ep_channel ?ep)) (Inr (Rq_ok, Some b))) =
         rpc_spec (Some reverse_service) raw_proto raw_proto [] 5 (unat (0 :: uint32)) [1, 2, 3])"
    by (rule endpoint_request_answered)
      (auto simp: is_request_proto_too_big_def is_response_proto_too_big_def reverse_service_def example_endpoint_def
        endpoint_create_def endpoint_defs conn_is_active_def connection_init_def transport_init_def transport_recv_async_def
        transport_is_running_def channel_init_def, simp_all add: raw_proto_def)
  moreover have "tr_sent (c_transport (ep_connection ?ep)) = []"
    by (simp add: example_endpoint_def endpoint_create_def transport_recv_async_def transport_init_def)
  ultimately show ?thesis by force
qed

end
