(* ===== verification/Client_Endpoint.thy ===== *)
theory Client_Endpoint
  imports Rpc_Endpoint Connector
begin

text \<open>
  The client, \<open>rpc-lib/client-endpoint.h\<close>: it connects, owns the endpoint of its connection, and gives
  the caller a future that is completed when the connection ends.  The connections of a client are
  numbered in the order in which they are established; the number names the disconnect future.
\<close>

section \<open>Operations\<close>

text \<open>\<open>ce_tasks\<close> are the disconnect callbacks on the thread pool.\<close>

record client_endpoint =
  ce_endpoint :: "(nat \<times> endpoint) option"
  ce_established :: nat
  ce_tasks :: "nat list"

definition client_endpoint_init :: client_endpoint where
  "client_endpoint_init = \<lparr>ce_endpoint = None, ce_established = 0, ce_tasks = []\<rparr>"

definition client_is_connected :: "client_endpoint \<Rightarrow> bool" where
  "client_is_connected s = (case ce_endpoint s of None \<Rightarrow> False | Some (i, ep) \<Rightarrow> endpoint_is_connected ep)"

text \<open>Destroying the endpoint deactivates its connection.\<close>

definition reset_endpoint :: "client_endpoint \<Rightarrow> client_endpoint" where
  "reset_endpoint s =
     (case ce_endpoint s of
        None \<Rightarrow> s
      | Some (i, ep) \<Rightarrow> s\<lparr>ce_endpoint := None, ce_tasks := ce_tasks s @ posted ep (connection_destroy ep)\<rparr>)"

definition client_disconnect :: "client_endpoint \<Rightarrow> client_endpoint" where
  "client_disconnect s =
     (case ce_endpoint s of
        None \<Rightarrow> s
      | Some (i, ep) \<Rightarrow>
          let ep' = endpoint_disconnect ep
          in reset_endpoint (s\<lparr>ce_endpoint := Some (i, ep'), ce_tasks := ce_tasks s @ posted ep ep'\<rparr>))"

text \<open>The new endpoint replaces the old one before its callback is set; \<open>start\<close> may throw.\<close>

definition establish_endpoint :: "connection \<Rightarrow> client_endpoint \<Rightarrow> client_endpoint \<times> nat or_exn" where
  "establish_endpoint c s =
     (let i = ce_established s; ep = endpoint_create c; s = reset_endpoint s;
          ep' = endpoint_set_disconnect_callback i ep;
          s = s\<lparr>ce_endpoint := Some (i, ep'), ce_established := Suc i, ce_tasks := ce_tasks s @ posted ep ep'\<rparr>
      in case endpoint_start ep' of
           Inl e \<Rightarrow> (s, Inl e)
         | Inr ep'' \<Rightarrow> (s\<lparr>ce_endpoint := Some (i, ep'')\<rparr>, Inr i))"

text \<open>
  \<open>connect_async\<close>, given what the futures of the handshake deliver.  \<open>c\<close> is the connection over the pipe;
  the pipe may have gone down meanwhile.
\<close>

definition connect_async ::
  "authenticator \<Rightarrow> pipe_wait_res \<Rightarrow> pipe_op_res \<Rightarrow> pipe_op_res \<times> bytes option \<Rightarrow> connection \<Rightarrow> client_endpoint
     \<Rightarrow> client_endpoint \<times> nat or_exn"
where
  "connect_async A opened written reply c s =
     (case snd (create_connection_async A opened written reply) of
        Inl e \<Rightarrow> (s, Inl e)
      | Inr u \<Rightarrow> establish_endpoint c s)"

definition client_make_request ::
  "'q proto \<Rightarrow> (nat \<Rightarrow> bytes) \<Rightarrow> time_point \<Rightarrow> promise_id \<Rightarrow> uint32 \<Rightarrow> 'q \<Rightarrow> client_endpoint
     \<Rightarrow> client_endpoint \<times> conn_result completion list or_exn"
where
  "client_make_request P mem now p method_idx request s =
     (case ce_endpoint s of
        None \<Rightarrow> (s, Inr [(p, Completed Rq_no_connection None)])
      | Some (i, ep) \<Rightarrow>
          if \<not> endpoint_is_connected ep then (s, Inr [(p, Completed Rq_no_connection None)])
          else let (ep', r) = make_request P mem now p method_idx request ep
               in (s\<lparr>ce_endpoint := Some (i, ep')\<rparr>, r))"

datatype client_note = Disconnect_done nat | Client_request_done "conn_result completion"

datatype 'q client_event =
    Client_connect bool pipe_wait_res pipe_op_res "pipe_op_res \<times> bytes option"
  | Client_disconnect
  | Client_event conn_event
  | Client_disconnect_task nat
  | Client_request time_point promise_id uint32 'q

fun client_step ::
  "authenticator \<Rightarrow> config \<Rightarrow> 'q proto \<Rightarrow> (nat \<Rightarrow> bytes) \<Rightarrow> client_endpoint \<Rightarrow> 'q client_event
     \<Rightarrow> client_endpoint \<times> client_note list"
where
  "client_step A cfg P mem s (Client_connect up opened written reply) =
     (fst (connect_async A opened written reply (new_connection cfg up) s), [])"
| "client_step A cfg P mem s Client_disconnect = (client_disconnect s, [])"
| "client_step A cfg P mem s (Client_event e) =
     (case ce_endpoint s of
        None \<Rightarrow> (s, [])
      | Some (i, ep) \<Rightarrow>
          let (ep', os) = endpoint_event e ep
          in (s\<lparr>ce_endpoint := Some (i, ep'), ce_tasks := ce_tasks s @ posted ep ep'\<rparr>, map Client_request_done os))"
| "client_step A cfg P mem s (Client_disconnect_task k) =
     (if k < length (ce_tasks s)
      then (s\<lparr>ce_tasks := drop_nth k (ce_tasks s)\<rparr>, [Disconnect_done (ce_tasks s ! k)]) else (s, []))"
| "client_step A cfg P mem s (Client_request now p idx q) =
     (let (s', r) = client_make_request P mem now p idx q s
      in (s', case r of Inl e \<Rightarrow> [] | Inr os \<Rightarrow> map Client_request_done os))"


section \<open>Invariant\<close>

text \<open>The connection whose pipe is up, if any; its disconnect callback has not been posted.\<close>

definition current :: "client_endpoint \<Rightarrow> nat list" where
  "current s =
     (case ce_endpoint s of
        None \<Rightarrow> []
      | Some (i, ep) \<Rightarrow> if transport_is_running (c_transport (ep_connection ep)) then [i] else [])"

definition ce_inv :: "client_endpoint \<Rightarrow> bool" where
  "ce_inv s \<longleftrightarrow>
     (case ce_endpoint s of
        None \<Rightarrow> True
      | Some (i, ep) \<Rightarrow> Suc i = ce_established s \<and> link ep \<in> {(True, [i], []), (False, [], [i])})"

fun disconnects :: "client_note list \<Rightarrow> nat list" where
  "disconnects [] = []"
| "disconnects (Disconnect_done i # os) = i # disconnects os"
| "disconnects (x # os) = disconnects os"

lemma disconnects_append [simp]: "disconnects (xs @ ys) = disconnects xs @ disconnects ys"
  by (induction xs rule: disconnects.induct) simp_all

lemma disconnects_requests [simp]: "disconnects (map Client_request_done os) = []"
  by (induction os) simp_all

text \<open>The futures that are not completed, and those that a step accounts for.\<close>

definition unfinished :: "client_endpoint \<Rightarrow> nat multiset" where
  "unfinished s = mset (current s) + mset (ce_tasks s)"

definition accounted :: "client_endpoint \<Rightarrow> client_note list \<Rightarrow> client_endpoint \<Rightarrow> bool" where
  "accounted s os s' \<longleftrightarrow> ce_inv s' \<and> ce_established s \<le> ce_established s' \<and>
     mset (disconnects os) + unfinished s' = unfinished s + mset [ce_established s..<ce_established s']"

lemma running_link: "transport_is_running (c_transport (ep_connection ep)) = fst (link ep)"
  by (simp add: link_def transport_is_running_def Let_def)

lemma current_Some [simp]:
  "ce_endpoint s = Some (i, ep) \<Longrightarrow> current s = (if fst (link ep) then [i] else [])"
  by (simp add: current_def running_link)

text \<open>An endpoint whose pipe goes down posts its callback, once.\<close>

lemma link_step_posted:
  assumes "link ep \<in> {(True, [i], []), (False, [], [i])}" "link_step ep ep'"
  shows "link ep' \<in> {(True, [i], []), (False, [], [i])}"
    "mset (if fst (link ep') then [i] else []) + mset (posted ep ep') = mset (if fst (link ep) then [i] else [])"
proof -
  consider (up) "link ep = (True, [i], [])" "link ep' = (True, [i], [] @ [])"
    | (down) "link ep = (True, [i], [])" "link ep' = (False, [], [] @ [i])"
    | (out) "link ep = (False, [], [i])" "link ep' = (False, [], [i] @ [])"
    using assms by (auto simp: link_step_def)
  then have "link ep' \<in> {(True, [i], []), (False, [], [i])} \<and>
    mset (if fst (link ep') then [i] else []) + mset (posted ep ep') = mset (if fst (link ep) then [i] else [])"
  proof cases
    case up
    then show ?thesis using posted_link [OF up] by simp
  next
    case down
    then show ?thesis using posted_link [OF down] by simp
  next
    case out
    then show ?thesis using posted_link [OF out] by simp
  qed
  then show "link ep' \<in> {(True, [i], []), (False, [], [i])}"
    "mset (if fst (link ep') then [i] else []) + mset (posted ep ep') = mset (if fst (link ep) then [i] else [])"
    by blast+
qed

lemma destroy_step: "link_step ep (connection_destroy ep)" "link_step ep (endpoint_disconnect ep)"
  using disconnect_link by (metis link_step_def prod_cases3)+

lemma reset_accounted:
  assumes "ce_inv s"
  shows "ce_endpoint (reset_endpoint s) = None" "ce_established (reset_endpoint s) = ce_established s"
    "unfinished (reset_endpoint s) = unfinished s"
proof -
  show "ce_endpoint (reset_endpoint s) = None" "ce_established (reset_endpoint s) = ce_established s"
    by (auto simp: reset_endpoint_def split: option.split)
  show "unfinished (reset_endpoint s) = unfinished s"
  proof (cases "ce_endpoint s")
    case (Some x)
    obtain i ep where x: "x = (i, ep)" by fastforce
    have "link ep \<in> {(True, [i], []), (False, [], [i])}" using assms by (simp add: ce_inv_def Some x)
    moreover have "\<not> fst (link (connection_destroy ep))" using disconnect_link(2) by (metis fst_conv prod_cases3)
    ultimately have "mset (posted ep (connection_destroy ep)) = mset (if fst (link ep) then [i] else [])"
      using link_step_posted(2) [OF _ destroy_step(1), of ep i] by simp
    then show ?thesis by (simp add: unfinished_def reset_endpoint_def Some x current_def running_link)
  qed (simp add: reset_endpoint_def)
qed

lemma replace_accounted:
  assumes "ce_inv s" "ce_endpoint s = Some (i, ep)" "link_step ep ep'"
  shows "accounted s (map Client_request_done os) (s\<lparr>ce_endpoint := Some (i, ep'), ce_tasks := ce_tasks s @ posted ep ep'\<rparr>)"
    "ce_inv (s\<lparr>ce_endpoint := Some (i, ep'), ce_tasks := ce_tasks s @ posted ep ep'\<rparr>)"
proof -
  have l: "link ep \<in> {(True, [i], []), (False, [], [i])}" using assms(1,2) by (simp add: ce_inv_def)
  show inv: "ce_inv (s\<lparr>ce_endpoint := Some (i, ep'), ce_tasks := ce_tasks s @ posted ep ep'\<rparr>)"
    using link_step_posted(1) [OF l assms(3)] assms(1,2) by (simp add: ce_inv_def)
  show "accounted s (map Client_request_done os) (s\<lparr>ce_endpoint := Some (i, ep'), ce_tasks := ce_tasks s @ posted ep ep'\<rparr>)"
    using inv link_step_posted(2) [OF l assms(3)] assms(2)
    by (simp add: accounted_def unfinished_def union_assoc [symmetric])
qed

lemma disconnect_accounted:
  assumes "ce_inv s"
  shows "accounted s [] (client_disconnect s)"
proof (cases "ce_endpoint s")
  case None
  then show ?thesis using assms by (simp add: client_disconnect_def accounted_def)
next
  case (Some x)
  obtain i ep where x: "x = (i, ep)" by fastforce
  let ?s = "s\<lparr>ce_endpoint := Some (i, endpoint_disconnect ep), ce_tasks := ce_tasks s @ posted ep (endpoint_disconnect ep)\<rparr>"
  have e: "ce_endpoint s = Some (i, ep)" using Some x by simp
  note one = replace_accounted(1) [OF assms e destroy_step(2), of "[]"] replace_accounted(2) [OF assms e destroy_step(2)]
  have "ce_inv (reset_endpoint ?s)" using reset_accounted(1) [of ?s] one(2) Some x by (simp add: ce_inv_def)
  then show ?thesis
    using one reset_accounted [of ?s] Some x by (simp add: client_disconnect_def accounted_def Let_def)
qed

lemma establish_accounted:
  assumes "ce_inv s"
  shows "accounted s [] (fst (establish_endpoint (new_connection cfg up) s))"
proof -
  let ?i = "ce_established s" and ?s = "reset_endpoint s"
  obtain ep where ep: "endpoint_start (endpoint_set_disconnect_callback ?i (endpoint_create (new_connection cfg up))) = Inr ep"
    "link ep = (if up then (True, [?i], []) else (False, [], [?i]))"
    "posted (endpoint_create (new_connection cfg up))
       (endpoint_set_disconnect_callback ?i (endpoint_create (new_connection cfg up))) = (if up then [] else [?i])"
    by (rule new_connection_link)
  have "fst (establish_endpoint (new_connection cfg up) s) =
      ?s\<lparr>ce_endpoint := Some (?i, ep), ce_established := Suc ?i, ce_tasks := ce_tasks ?s @ (if up then [] else [?i])\<rparr>"
    by (simp add: establish_endpoint_def ep(1,3) Let_def)
  then show ?thesis
    using reset_accounted [OF assms] ep(2)
    by (cases up) (simp_all add: accounted_def ce_inv_def unfinished_def current_def running_link)
qed

lemma client_step_accounted:
  assumes "ce_inv s"
  shows "accounted s (snd (client_step A cfg P mem s e)) (fst (client_step A cfg P mem s e))"
proof (cases e)
  case (Client_connect up opened written reply)
  then show ?thesis
    using assms establish_accounted [OF assms] by (simp add: connect_async_def accounted_def split: sum.split)
next
  case Client_disconnect
  then show ?thesis using disconnect_accounted [OF assms] by simp
next
  case (Client_event c)
  then show ?thesis
    using assms replace_accounted(1) [OF assms _ endpoint_event_link]
    by (auto simp: case_prod_beta Let_def accounted_def split: option.split)
next
  case (Client_disconnect_task k)
  then show ?thesis
    using assms mset_drop_nth [of k "ce_tasks s"]
    by (cases "k < length (ce_tasks s)")
      (auto simp: accounted_def unfinished_def current_def ce_inv_def split: option.splits)
next
  case (Client_request now p idx q)
  have "accounted s (map Client_request_done os) (s\<lparr>ce_endpoint := Some (i, ep')\<rparr>)"
    if "ce_endpoint s = Some (i, ep)" "link ep' = link ep" for i ep ep' os
    using assms that by (simp add: accounted_def ce_inv_def unfinished_def current_def running_link)
  then show ?thesis
    using assms request_link [of P mem now p idx q]
    by (auto simp: Client_request client_make_request_def case_prod_beta Let_def accounted_def split: option.split sum.split)
qed

lemma client_run_accounted:
  "ce_inv s \<Longrightarrow> accounted s (run_output (client_step A cfg P mem) s es) (run_state (client_step A cfg P mem) s es)"
proof (induction es arbitrary: s)
  case (Cons e es)
  let ?s = "fst (client_step A cfg P mem s e)" and ?s' = "run_state (client_step A cfg P mem) s (e # es)"
  have one: "accounted s (snd (client_step A cfg P mem s e)) ?s" using client_step_accounted [OF Cons.prems] .
  then have two: "accounted ?s (run_output (client_step A cfg P mem) ?s es) ?s'" using Cons.IH by (simp add: accounted_def)
  have le: "ce_established s \<le> ce_established ?s" "ce_established ?s \<le> ce_established ?s'"
    using one two by (simp_all add: accounted_def)
  let ?new = "\<lambda>a b. mset [ce_established a..<ce_established b]"
  have "?new s ?s' = ?new s ?s + ?new ?s ?s'"
    using le upt_add_eq_append [of "ce_established s" "ce_established ?s" "ce_established ?s' - ce_established ?s"] by simp
  moreover have "mset (disconnects (snd (client_step A cfg P mem s e))) + unfinished ?s = unfinished s + ?new s ?s"
    "mset (disconnects (run_output (client_step A cfg P mem) ?s es)) + unfinished ?s' = unfinished ?s + ?new ?s ?s'"
    using one two by (simp_all add: accounted_def)
  ultimately have "mset (disconnects (run_output (client_step A cfg P mem) s (e # es))) + unfinished ?s' =
      unfinished s + ?new s ?s'"
    unfolding run_Cons_output disconnects_append mset_append by (metis union_assoc)
  then show ?case using two le by (simp add: accounted_def)
qed (simp add: accounted_def)


section \<open>Properties\<close>

text \<open>
  C28: Every established connection of a client has its disconnect future completed once.  At any moment the
  connections so far are split into those whose future is completed, those whose callback is on the
  thread pool, and at most one whose pipe is up; a client that is connected is so through its newest
  connection, and the future of that one is not completed.
\<close>

theorem client_endpoint_disconnects:
  fixes es :: "'q client_event list" and A cfg P mem
  defines "out \<equiv> run_output (client_step A cfg P mem) client_endpoint_init es"
    and "s \<equiv> run_state (client_step A cfg P mem) client_endpoint_init es"
  shows "distinct (disconnects out @ ce_tasks s @ current s) \<and>
    set (disconnects out @ ce_tasks s @ current s) = {..<ce_established s} \<and>
    (client_is_connected s \<longrightarrow> 0 < ce_established s \<and> current s = [ce_established s - 1])"
proof -
  have init: "ce_inv client_endpoint_init" "unfinished client_endpoint_init = {#}" "ce_established client_endpoint_init = 0"
    by (simp_all add: ce_inv_def client_endpoint_init_def unfinished_def current_def)
  have acc: "accounted client_endpoint_init out s" unfolding out_def s_def by (rule client_run_accounted [OF init(1)])
  then have all: "mset (disconnects out @ ce_tasks s @ current s) = mset [0..<ce_established s]"
    using init by (simp add: accounted_def unfinished_def ac_simps)
  have "distinct (disconnects out @ ce_tasks s @ current s)"
    using mset_eq_imp_distinct_iff [OF all] by simp
  moreover have "set (disconnects out @ ce_tasks s @ current s) = {..<ce_established s}"
    using mset_eq_setD [OF all] by (simp add: lessThan_atLeast0)
  moreover have "0 < ce_established s \<and> current s = [ce_established s - 1]" if conn: "client_is_connected s"
  proof -
    obtain i ep where ep: "ce_endpoint s = Some (i, ep)" "endpoint_is_connected ep"
      using conn by (auto simp: client_is_connected_def split: option.splits)
    then have "fst (link ep)" by (simp add: endpoint_defs conn_is_active_def running_link)
    then show ?thesis using acc ep(1) by (auto simp: accounted_def ce_inv_def)
  qed
  ultimately show ?thesis by blast
qed

text \<open>A client that connects twice: the first connection ends when the second one replaces it.\<close>

definition reconnect :: "unit client_event list" where
  "reconnect =
     [Client_connect True Wait_success Op_success (Op_success, Some [0]),
      Client_connect True Wait_success Op_success (Op_success, Some [0]), Client_disconnect_task 0]"

theorem client_endpoint_disconnects_witness:
  "current (run_state (client_step (simple_authenticator (\<lambda>n. replicate n 0)) default_config no_proto (\<lambda>n. replicate n 0))
     client_endpoint_init reconnect) = [1]"
proof -
  let ?A = "simple_authenticator (\<lambda>n. replicate n 0)"
  let ?s = "run_state (client_step ?A default_config no_proto (\<lambda>n. replicate n 0)) client_endpoint_init reconnect"
  have "client_is_connected ?s \<and> ce_established ?s = 2"
    by (simp add: reconnect_def connect_async_def create_connection_async_def is_success_wait_def is_success_op_def
        simple_authenticator_def establish_endpoint_def client_endpoint_init_def reset_endpoint_def new_connection_def
        connection_init_def transport_init_def endpoint_defs endpoint_create_def transport_set_stop_callback_def
        conn_start_def start_watching_def periodic_timer_start_def periodic_timer_init_def start_period_def
        do_receive_async_def transport_recv_async_def posted_def conn_deactivate_def transport_stop_def pipe_disconnect_def
        client_is_connected_def conn_is_active_def transport_is_running_def drop_nth_def Let_def)
  then show ?thesis
    using client_endpoint_disconnects [of ?A default_config no_proto "\<lambda>n. replicate n 0" reconnect] by simp
qed

end
