(* ===== verification/Server_Endpoint.thy ===== *)
theory Server_Endpoint
  imports Rpc_Endpoint Connector
begin

text \<open>
  The server, \<open>rpc-lib/server-endpoint.h\<close>: a connector that hands over authenticated connections, and a
  map with an endpoint for each of them.

  The connector posts its notifications to one strand, every connection posts its changes to a strand
  of its own, and the disconnect callback of a connection is a task of the thread pool that
  completes a promise.  Each of these is an event, and so is whatever happens to a connection.
\<close>

section \<open>Operations\<close>

datatype connection_change = Connected | Disconnected

datatype server_endpoint_state = Start_listening | Stop_listening

text \<open>
  \<open>se_notify\<close> is the strand of the connector, \<open>se_tasks\<close> are the posted disconnect callbacks,
  \<open>se_promises\<close> the completed promises whose continuation has not run, and \<open>se_strands\<close> the changes in
  the strands of the connections.
\<close>

record server_endpoint =
  se_connector :: server_connector
  se_notify :: "notification list"
  se_endpoints_map :: "(nat \<times> endpoint) list"
  se_is_finalizing :: bool
  se_tasks :: "nat list"
  se_promises :: "nat list"
  se_strands :: "(nat \<times> connection_change) list"

definition server_endpoint_init :: server_endpoint where
  "server_endpoint_init =
     \<lparr>se_connector = server_connector_init, se_notify = [], se_endpoints_map = [], se_is_finalizing = False,
      se_tasks = [], se_promises = [], se_strands = []\<rparr>"

text \<open>What the user of the server sees.\<close>

datatype server_note =
    Connection_change nat connection_change
  | State_change server_endpoint_state
  | Request_done "conn_result completion"

definition get_active_connections_count :: "server_endpoint \<Rightarrow> nat" where
  "get_active_connections_count s = length (se_endpoints_map s)"

text \<open>\<open>insert\<close> keeps an entry that is already there, and the new endpoint is destroyed.\<close>

definition insert_endpoint :: "nat \<Rightarrow> endpoint \<Rightarrow> server_endpoint \<Rightarrow> server_endpoint" where
  "insert_endpoint i ep s =
     (if i \<in> fst ` set (se_endpoints_map s)
      then s\<lparr>se_tasks := se_tasks s @ posted ep (connection_destroy ep)\<rparr>
      else s\<lparr>se_endpoints_map := se_endpoints_map s @ [(i, ep)]\<rparr>)"

definition process_new_connection :: "nat \<Rightarrow> connection \<Rightarrow> server_endpoint \<Rightarrow> server_endpoint" where
  "process_new_connection i c s =
     (if se_is_finalizing s then s
      else
        let ep = endpoint_create c;
            ep' = endpoint_set_disconnect_callback i ep
        in case endpoint_start ep' of
             Inl e \<Rightarrow> s
           | Inr ep'' \<Rightarrow>
               let s = s\<lparr>se_tasks := se_tasks s @ posted ep ep'\<rparr>;
                   s = insert_endpoint i ep'' s
               in s\<lparr>se_strands := se_strands s @ [(i, Connected)]\<rparr>)"

definition finalize :: "server_endpoint \<Rightarrow> server_endpoint" where
  "finalize s =
     s\<lparr>se_is_finalizing := True,
       se_tasks := se_tasks s @ concat (map (\<lambda>(i, ep). posted ep (endpoint_disconnect ep)) (se_endpoints_map s)),
       se_endpoints_map := map (\<lambda>(i, ep). (i, endpoint_disconnect ep)) (se_endpoints_map s)\<rparr>"

definition remove_endpoint_from_map :: "nat \<Rightarrow> server_endpoint \<Rightarrow> server_endpoint" where
  "remove_endpoint_from_map i s =
     (case map_of (se_endpoints_map s) i of
        None \<Rightarrow> s
      | Some ep \<Rightarrow>
          s\<lparr>se_endpoints_map := filter (\<lambda>x. fst x \<noteq> i) (se_endpoints_map s),
            se_tasks := se_tasks s @ posted ep (connection_destroy ep)\<rparr>)"

text \<open>The continuation of the disconnect promise.\<close>

definition on_disconnected :: "nat \<Rightarrow> server_endpoint \<Rightarrow> server_endpoint" where
  "on_disconnected i s =
     (let s = remove_endpoint_from_map i s in s\<lparr>se_strands := se_strands s @ [(i, Disconnected)]\<rparr>)"

definition on_connector :: "authenticator \<Rightarrow> connector_event \<Rightarrow> server_endpoint \<Rightarrow> server_endpoint" where
  "on_connector A e s =
     (let (k, ns) = connector_step A (se_connector s) e
      in s\<lparr>se_connector := k, se_notify := se_notify s @ ns\<rparr>)"

definition start_listening :: "server_endpoint \<Rightarrow> server_endpoint or_exn" where
  "start_listening s =
     (case connector_start (se_connector s) of
        Inl e \<Rightarrow> Inl e
      | Inr (k, ns) \<Rightarrow> Inr (s\<lparr>se_connector := k, se_notify := se_notify s @ ns\<rparr>))"

definition stop_listening :: "server_endpoint \<Rightarrow> server_endpoint" where
  "stop_listening s =
     (let (k, ns) = connector_stop (se_connector s) in s\<lparr>se_connector := k, se_notify := se_notify s @ ns\<rparr>)"

definition is_listening :: "server_endpoint \<Rightarrow> bool" where
  "is_listening s = is_active (se_connector s)"

text \<open>
  The callbacks that the constructor gives to the connector.  \<open>c\<close> is the connection of the
  notification; it may have lost its pipe while it waited in the strand.
\<close>

definition on_notification :: "connection \<Rightarrow> notification \<Rightarrow> server_endpoint \<Rightarrow> server_endpoint \<times> server_note list" where
  "on_notification c n s =
     (case n of
        Note_started \<Rightarrow> (s, [State_change Start_listening])
      | Note_stopped \<Rightarrow> (s, [State_change Stop_listening])
      | Note_connection i \<Rightarrow> (process_new_connection i c s, []))"

definition update_endpoint :: "nat \<Rightarrow> endpoint \<Rightarrow> server_endpoint \<Rightarrow> server_endpoint" where
  "update_endpoint i ep s =
     s\<lparr>se_endpoints_map := map (\<lambda>x. if fst x = i then (i, ep) else x) (se_endpoints_map s)\<rparr>"

text \<open>\<open>make_request\<close> answers at once when there is no connection with this id, or it is not active.\<close>

definition server_make_request ::
  "'q proto \<Rightarrow> (nat \<Rightarrow> bytes) \<Rightarrow> time_point \<Rightarrow> promise_id \<Rightarrow> uint32 \<Rightarrow> 'q \<Rightarrow> nat \<Rightarrow> server_endpoint
     \<Rightarrow> server_endpoint \<times> conn_result completion list or_exn"
where
  "server_make_request P mem now p method_idx request connection_id s =
     (case map_of (se_endpoints_map s) connection_id of
        None \<Rightarrow> (s, Inr [(p, Completed Rq_no_connection None)])
      | Some ep \<Rightarrow>
          if \<not> endpoint_is_connected ep then (s, Inr [(p, Completed Rq_no_connection None)])
          else let (ep', r) = make_request P mem now p method_idx request ep
               in (update_endpoint connection_id ep' s, r))"

text \<open>
  \<open>make_request_all\<close> asks every endpoint; the promises are \<open>p\<close> and its successors.  The first exception
  ends the loop.
\<close>

fun make_request_loop ::
  "'q proto \<Rightarrow> (nat \<Rightarrow> bytes) \<Rightarrow> time_point \<Rightarrow> promise_id \<Rightarrow> uint32 \<Rightarrow> 'q \<Rightarrow> (nat \<times> endpoint) list
     \<Rightarrow> (nat \<times> endpoint) list \<times> ((nat \<times> promise_id) list \<times> conn_result completion list) or_exn"
where
  "make_request_loop P mem now p method_idx request [] = ([], Inr ([], []))"
| "make_request_loop P mem now p method_idx request ((i, ep) # xs) =
     (case make_request P mem now p method_idx request ep of
        (ep', Inl e) \<Rightarrow> ((i, ep') # xs, Inl e)
      | (ep', Inr os) \<Rightarrow>
          let (ys, r) = make_request_loop P mem now (Suc p) method_idx request xs
          in ((i, ep') # ys, map_sum id (\<lambda>(ans, os'). ((i, p) # ans, os @ os')) r))"

definition make_request_all ::
  "'q proto \<Rightarrow> (nat \<Rightarrow> bytes) \<Rightarrow> time_point \<Rightarrow> promise_id \<Rightarrow> uint32 \<Rightarrow> 'q \<Rightarrow> server_endpoint
     \<Rightarrow> server_endpoint \<times> ((nat \<times> promise_id) list \<times> conn_result completion list) or_exn"
where
  "make_request_all P mem now p method_idx request s =
     (let (ys, r) = make_request_loop P mem now p method_idx request (se_endpoints_map s)
      in (s\<lparr>se_endpoints_map := ys\<rparr>, r))"

definition on_endpoint :: "nat \<Rightarrow> conn_event \<Rightarrow> server_endpoint \<Rightarrow> server_endpoint \<times> server_note list" where
  "on_endpoint i e s =
     (case map_of (se_endpoints_map s) i of
        None \<Rightarrow> (s, [])
      | Some ep \<Rightarrow>
          let (ep', os) = endpoint_event e ep
          in ((update_endpoint i ep' s)\<lparr>se_tasks := se_tasks s @ posted ep ep'\<rparr>, map Request_done os))"

datatype 'q server_event =
    Connector_event connector_event
  | Deliver_notification bool
  | Endpoint_event nat conn_event
  | Run_disconnect_task nat
  | Run_disconnect_continuation nat
  | Run_strand nat
  | Finalize
  | Make_request time_point promise_id uint32 'q nat
  | Make_request_all time_point promise_id uint32 'q

fun server_step ::
  "authenticator \<Rightarrow> config \<Rightarrow> 'q proto \<Rightarrow> (nat \<Rightarrow> bytes) \<Rightarrow> server_endpoint \<Rightarrow> 'q server_event
     \<Rightarrow> server_endpoint \<times> server_note list"
where
  "server_step A cfg P mem s (Connector_event e) = (on_connector A e s, [])"
| "server_step A cfg P mem s (Deliver_notification up) =
     (case se_notify s of
        [] \<Rightarrow> (s, [])
      | n # ns \<Rightarrow> on_notification (new_connection cfg up) n (s\<lparr>se_notify := ns\<rparr>))"
| "server_step A cfg P mem s (Endpoint_event i e) = on_endpoint i e s"
| "server_step A cfg P mem s (Run_disconnect_task k) =
     (if k < length (se_tasks s)
      then s\<lparr>se_tasks := drop_nth k (se_tasks s), se_promises := se_promises s @ [se_tasks s ! k]\<rparr> else s, [])"
| "server_step A cfg P mem s (Run_disconnect_continuation k) =
     (if k < length (se_promises s)
      then on_disconnected (se_promises s ! k) (s\<lparr>se_promises := drop_nth k (se_promises s)\<rparr>) else s, [])"
| "server_step A cfg P mem s (Run_strand i) =
     (case List.extract (\<lambda>x. fst x = i) (se_strands s) of
        None \<Rightarrow> (s, [])
      | Some (xs, x, ys) \<Rightarrow> (s\<lparr>se_strands := xs @ ys\<rparr>, [Connection_change i (snd x)]))"
| "server_step A cfg P mem s Finalize = (finalize s, [])"
| "server_step A cfg P mem s (Make_request now p idx q i) =
     (let (s', r) = server_make_request P mem now p idx q i s
      in (s', case r of Inl e \<Rightarrow> [] | Inr os \<Rightarrow> map Request_done os))"
| "server_step A cfg P mem s (Make_request_all now p idx q) =
     (let (s', r) = make_request_all P mem now p idx q s
      in (s', case r of Inl e \<Rightarrow> [] | Inr (ans, os) \<Rightarrow> map Request_done os))"

text \<open>\<open>start_listening\<close> and \<open>stop_listening\<close> are events of the connector.\<close>

lemma listening_events:
  "(case start_listening s of Inl e \<Rightarrow> s | Inr s' \<Rightarrow> s') = on_connector A Connector_start s"
  "stop_listening s = on_connector A Connector_stop s"
  by (auto simp: start_listening_def stop_listening_def on_connector_def case_prod_beta split: sum.split)


section \<open>Invariant\<close>

abbreviation ids :: "server_endpoint \<Rightarrow> nat list" where
  "ids s \<equiv> map fst (se_endpoints_map s)"

text \<open>The connections whose disconnection is under way.\<close>

abbreviation going :: "server_endpoint \<Rightarrow> nat list" where
  "going s \<equiv> se_tasks s @ se_promises s"

definition unborn :: "server_endpoint \<Rightarrow> nat \<Rightarrow> bool" where
  "unborn s i \<longleftrightarrow> i \<in> set (connections (se_notify s)) \<or> i \<in> live_ids (se_connector s) \<or> sc_next_connection_id (se_connector s) \<le> i"

definition born_ok :: "server_endpoint \<Rightarrow> bool" where
  "born_ok s \<longleftrightarrow> (\<forall>i \<in> set (ids s) \<union> fst ` set (se_strands s). \<not> unborn s i) \<and>
     distinct (connections (se_notify s)) \<and>
     (\<forall>i \<in> set (connections (se_notify s)). i \<notin> live_ids (se_connector s) \<and> i < sc_next_connection_id (se_connector s))"

definition entry_link :: "server_endpoint \<Rightarrow> nat \<Rightarrow> bool \<times> nat list \<times> nat list" where
  "entry_link s i = (if i \<in> set (going s) then (False, [], [i]) else (True, [i], []))"

definition map_inv :: "server_endpoint \<Rightarrow> bool" where
  "map_inv s \<longleftrightarrow> distinct (ids s) \<and> distinct (going s) \<and> set (going s) \<subseteq> set (ids s) \<and>
     (\<forall>x \<in> set (se_endpoints_map s). link (snd x) = entry_link s (fst x)) \<and>
     (se_is_finalizing s \<longrightarrow> set (ids s) \<subseteq> set (going s))"

definition sv_inv :: "server_endpoint \<Rightarrow> bool" where
  "sv_inv s \<longleftrightarrow> connector_inv (se_connector s) \<and> born_ok s \<and> map_inv s"

lemma sv_inv_init: "sv_inv server_endpoint_init"
  by (simp add: sv_inv_def server_endpoint_init_def connector_inv_init born_ok_def map_inv_def)

definition strand_of :: "nat \<Rightarrow> server_endpoint \<Rightarrow> connection_change list" where
  "strand_of i s = map snd (filter (\<lambda>x. fst x = i) (se_strands s))"

text \<open>The changes of a connection that are still to be reported.\<close>

definition fate :: "nat \<Rightarrow> server_endpoint \<Rightarrow> connection_change list" where
  "fate i s =
     strand_of i s @ (if i \<in> set (ids s) then [Disconnected] else if unborn s i then [Connected, Disconnected] else [])"

fun changes :: "nat \<Rightarrow> server_note list \<Rightarrow> connection_change list" where
  "changes i [] = []"
| "changes i (Connection_change j c # os) = (if i = j then c # changes i os else changes i os)"
| "changes i (x # os) = changes i os"

lemma changes_append [simp]: "changes i (xs @ ys) = changes i xs @ changes i ys"
  by (induction i xs rule: changes.induct) simp_all

lemma changes_requests [simp]: "changes i (map Request_done os) = []"
  by (induction os) simp_all

text \<open>A step reports a part of the fate, or a connection that was never reported is given up.\<close>

definition fate_step :: "server_endpoint \<Rightarrow> server_note list \<Rightarrow> server_endpoint \<Rightarrow> nat \<Rightarrow> bool" where
  "fate_step s os s' i \<longleftrightarrow>
     changes i os @ fate i s' = fate i s \<or> changes i os = [] \<and> fate i s' = [] \<and> fate i s = [Connected, Disconnected]"

lemma born_facts:
  assumes "born_ok s"
  shows "i \<in> set (ids s) \<Longrightarrow> \<not> unborn s i" "unborn s i \<Longrightarrow> strand_of i s = []"
  using assms by (force simp: born_ok_def strand_of_def filter_empty_conv)+

section \<open>The connector\<close>

lemma on_connector_fields:
  "se_connector (on_connector A e s) = fst (connector_step A (se_connector s) e)"
  "se_notify (on_connector A e s) = se_notify s @ snd (connector_step A (se_connector s) e)"
  "se_endpoints_map (on_connector A e s) = se_endpoints_map s" "se_is_finalizing (on_connector A e s) = se_is_finalizing s"
  "se_tasks (on_connector A e s) = se_tasks s" "se_promises (on_connector A e s) = se_promises s"
  "se_strands (on_connector A e s) = se_strands s"
  by (simp_all add: on_connector_def case_prod_beta)

lemma connector_published:
  assumes "connector_inv k" "i \<in> set (connections (snd (connector_step A k e)))"
  shows "i \<in> live_ids k \<and> i < sc_next_connection_id k \<and> i \<notin> live_ids (fst (connector_step A k e)) \<and>
    connections (snd (connector_step A k e)) = [i]"
proof -
  have "connections (snd (connector_step A k e)) \<noteq> []" using assms(2) by auto
  then obtain j where j: "connections (snd (connector_step A k e)) = [j]" "j \<in> writing_ids k"
    "j \<notin> live_ids (fst (connector_step A k e))"
    using step_published [OF assms(1)] by blast
  have "j = i" using assms(2) j(1) by simp
  moreover have "j \<in> live_ids k" using j(2) by (auto simp: writing_ids_def live_ids_def)
  moreover have "j < sc_next_connection_id k"
    using j(2) assms(1) by (auto simp: writing_ids_def connector_inv_def ids_ok_def)
  ultimately show ?thesis using j by simp
qed

lemma connector_unborn:
  assumes "sv_inv s" "unborn (on_connector A e s) i"
  shows "unborn s i"
proof -
  have k: "connector_inv (se_connector s)" using assms(1) by (simp add: sv_inv_def)
  have "i \<in> live_ids (se_connector s)" if "i \<in> set (connections (snd (connector_step A (se_connector s) e)))"
    using connector_published [OF k that] by blast
  then show ?thesis
    using assms(2) step_live [OF k, of A e] unfolding unborn_def on_connector_fields connections_append set_append
    by fastforce
qed

lemma on_connector_ok:
  assumes "sv_inv s"
  shows "sv_inv (on_connector A e s)" "fate_step s [] (on_connector A e s) i"
proof -
  let ?s = "on_connector A e s" and ?k = "se_connector s"
  have k: "connector_inv ?k" and b: "born_ok s" using assms by (simp_all add: sv_inv_def)
  let ?new = "connections (snd (connector_step A ?k e))"
  have live: "live_ids (fst (connector_step A ?k e)) \<subseteq> live_ids ?k \<union> {sc_next_connection_id ?k}"
    "sc_next_connection_id ?k \<le> sc_next_connection_id (fst (connector_step A ?k e))" by (rule step_live [OF k])+
  have pub: "j \<in> live_ids ?k" "j < sc_next_connection_id ?k" "j \<notin> live_ids (fst (connector_step A ?k e))" "?new = [j]"
    if "j \<in> set ?new" for j using connector_published [OF k that] by blast+
  have old: "j \<notin> live_ids ?k" "j < sc_next_connection_id ?k" if "j \<in> set (connections (se_notify s))" for j
    using b that by (simp_all add: born_ok_def)
  have "distinct ?new" using pub(4) by (cases "?new = []") (simp, metis distinct_singleton list.set_sel(1))
  then have "distinct (connections (se_notify ?s))"
    using b pub(1) old(1) by (auto simp: born_ok_def on_connector_fields)
  moreover have "j \<notin> live_ids (se_connector ?s) \<and> j < sc_next_connection_id (se_connector ?s)"
    if "j \<in> set (connections (se_notify ?s))" for j
    using that pub(2,3) [of j] old [of j] live unfolding on_connector_fields by (auto dest: order_less_le_trans)
  moreover have "\<not> unborn ?s j" if "j \<in> set (ids ?s) \<union> fst ` set (se_strands ?s)" for j
    using that b connector_unborn [OF assms, of A e j] unfolding born_ok_def on_connector_fields by blast
  ultimately have "born_ok ?s" unfolding born_ok_def by blast
  then show "sv_inv ?s"
    using assms connector_inv_step [OF k] by (simp add: sv_inv_def map_inv_def entry_link_def on_connector_fields)
  have "strand_of i ?s = strand_of i s" by (simp add: strand_of_def on_connector_fields)
  then show "fate_step s [] ?s i"
    using connector_unborn [OF assms, of A e i] born_facts [OF b, of i]
    by (auto simp: fate_step_def fate_def on_connector_fields)
qed


section \<open>New connections\<close>

lemma unborn_same:
  "se_connector s' = se_connector s \<Longrightarrow> se_notify s' = se_notify s \<Longrightarrow> unborn s' i = unborn s i"
  by (simp add: unborn_def)

lemma notified_facts:
  assumes "sv_inv s" "se_notify s = Note_connection i # ns"
  shows "i \<notin> set (ids s)" "i \<notin> set (going s)" "i \<notin> fst ` set (se_strands s)" "\<not> unborn (s\<lparr>se_notify := ns\<rparr>) i" "unborn s i"
    "j \<noteq> i \<Longrightarrow> unborn (s\<lparr>se_notify := ns\<rparr>) j = unborn s j" "born_ok (s\<lparr>se_notify := ns\<rparr>)"
proof -
  have b: "born_ok s" "map_inv s" using assms(1) by (simp_all add: sv_inv_def)
  show u: "unborn s i" using assms(2) by (simp add: unborn_def)
  show new: "i \<notin> set (ids s)" "i \<notin> fst ` set (se_strands s)" using b(1) u unfolding born_ok_def by blast+
  then show "i \<notin> set (going s)" using b(2) unfolding map_inv_def by blast
  show gone: "\<not> unborn (s\<lparr>se_notify := ns\<rparr>) i" using b(1) assms(2) by (auto simp: born_ok_def unborn_def)
  show other: "j \<noteq> i \<Longrightarrow> unborn (s\<lparr>se_notify := ns\<rparr>) j = unborn s j" for j using assms(2) by (simp add: unborn_def)
  have "\<not> unborn (s\<lparr>se_notify := ns\<rparr>) j" if "\<not> unborn s j" for j
    using that gone other [of j] by (cases "j = i") simp_all
  then show "born_ok (s\<lparr>se_notify := ns\<rparr>)" using b(1) assms(2) by (auto simp: born_ok_def)
qed

lemma process_new_connection_ok:
  fixes cfg up
  assumes "sv_inv s" "se_notify s = Note_connection i # ns"
  defines "s' \<equiv> process_new_connection i (new_connection cfg up) (s\<lparr>se_notify := ns\<rparr>)"
  shows "sv_inv s'" "fate_step s [] s' j"
proof -
  note new = notified_facts [OF assms(1,2)]
  have inv: "connector_inv (se_connector s)" "map_inv s" "born_ok s" using assms(1) by (simp_all add: sv_inv_def)
  have empty: "strand_of i s = []" using new(3) by (force simp: strand_of_def filter_empty_conv)
  have "sv_inv s' \<and> fate_step s [] s' j"
  proof (cases "se_is_finalizing s")
    case True
    then have s': "s' = s\<lparr>se_notify := ns\<rparr>" by (simp add: s'_def process_new_connection_def)
    have "strand_of k s' = strand_of k s" for k by (simp add: s' strand_of_def)
    then have "fate_step s [] s' j" using new(1,4,5) new(6) [of j] empty by (cases "j = i") (auto simp: s' fate_step_def fate_def)
    then show ?thesis using inv new(7) by (simp add: s' sv_inv_def map_inv_def entry_link_def)
  next
    case False
    obtain ep where ep: "endpoint_start (endpoint_set_disconnect_callback i (endpoint_create (new_connection cfg up))) = Inr ep"
      "link ep = (if up then (True, [i], []) else (False, [], [i]))"
      "posted (endpoint_create (new_connection cfg up))
         (endpoint_set_disconnect_callback i (endpoint_create (new_connection cfg up))) = (if up then [] else [i])"
      by (rule new_connection_link)
    have s': "s' = s\<lparr>se_notify := ns, se_tasks := se_tasks s @ (if up then [] else [i]),
        se_endpoints_map := se_endpoints_map s @ [(i, ep)], se_strands := se_strands s @ [(i, Connected)]\<rparr>"
      using False new(1) by (simp add: s'_def process_new_connection_def ep(1,3) Let_def insert_endpoint_def)
    have un: "unborn s' k = unborn (s\<lparr>se_notify := ns\<rparr>) k" for k by (simp add: s' unborn_def)
    have "strand_of k s' = strand_of k s @ (if k = i then [Connected] else [])" for k by (simp add: s' strand_of_def)
    then have "fate_step s [] s' j"
      using new(1,4,5) new(6) [of j] un [of j] empty by (cases "j = i") (auto simp: s' fate_step_def fate_def)
    moreover have "born_ok s'" using new(4,7) un by (auto simp: born_ok_def s')
    moreover have "link (snd x) = entry_link s' (fst x)" if "x \<in> set (se_endpoints_map s')" for x
    proof (cases "x = (i, ep)")
      case True
      then show ?thesis using ep(2) new(2) by (simp add: s' entry_link_def)
    next
      case False
      then have "x \<in> set (se_endpoints_map s)" "fst x \<noteq> i" using that new(1) by (auto simp: s' image_iff)
      then show ?thesis using inv(2) by (auto simp: s' entry_link_def map_inv_def)
    qed
    then have "map_inv s'" using inv(2) new(1,2) False unfolding map_inv_def by (auto simp: s')
    ultimately show ?thesis using inv(1) by (simp add: sv_inv_def s')
  qed
  then show "sv_inv s'" "fate_step s [] s' j" by blast+
qed


section \<open>Connections in the map\<close>

lemma fate_same:
  assumes "se_connector s' = se_connector s" "se_notify s' = se_notify s" "se_strands s' = se_strands s" "ids s' = ids s"
    "changes i os = []"
  shows "fate_step s os s' i"
  using assms by (simp add: fate_step_def fate_def strand_of_def unborn_def)

lemma born_same:
  assumes "se_connector s' = se_connector s" "se_notify s' = se_notify s" "se_strands s' = se_strands s" "ids s' = ids s"
  shows "born_ok s' = born_ok s"
  using assms unfolding born_ok_def unborn_def by simp

text \<open>A step that keeps the ids and replaces some endpoints; \<open>new\<close> are the connections that go down in it.\<close>

lemma map_step:
  assumes "sv_inv s" "map fst m = ids s" "distinct new" "set new \<subseteq> set (ids s) - set (going s)"
    and "\<And>i ep. (i, ep) \<in> set m \<Longrightarrow> link ep = (if i \<in> set (going s) \<union> set new then (False, [], [i]) else (True, [i], []))"
    and "fin \<longrightarrow> set (ids s) \<subseteq> set (going s) \<union> set new"
  defines "s' \<equiv> s\<lparr>se_endpoints_map := m, se_tasks := se_tasks s @ new, se_is_finalizing := fin\<rparr>"
  shows "sv_inv s' \<and> (changes i os = [] \<longrightarrow> fate_step s os s' i)"
proof -
  have inv: "connector_inv (se_connector s)" "map_inv s" "born_ok s" using assms(1) by (simp_all add: sv_inv_def)
  have same: "se_connector s' = se_connector s" "se_notify s' = se_notify s" "se_strands s' = se_strands s" "ids s' = ids s"
    using assms(2) by (simp_all add: s'_def)
  have "link (snd x) = entry_link s' (fst x)" if "x \<in> set (se_endpoints_map s')" for x
    using that assms(5) [of "fst x" "snd x"] by (auto simp: s'_def entry_link_def)
  moreover have "distinct (going s')" "set (going s') = set (going s) \<union> set new"
    using inv(2) assms(3,4) by (auto simp: s'_def map_inv_def)
  ultimately have "map_inv s'" using inv(2) assms(4,6) same(4) unfolding map_inv_def by (auto simp: s'_def)
  then show ?thesis using inv(1,3) born_same [OF same] fate_same [OF same] same(1) by (simp add: sv_inv_def)
qed

lemma entry_found:
  assumes "sv_inv s" "map_of (se_endpoints_map s) i = Some ep"
  shows "link ep = (if i \<in> set (going s) then (False, [], [i]) else (True, [i], []))" "i \<in> set (ids s)"
proof -
  have "(i, ep) \<in> set (se_endpoints_map s)" using assms(2) by (rule map_of_SomeD)
  then show "link ep = (if i \<in> set (going s) then (False, [], [i]) else (True, [i], []))" "i \<in> set (ids s)"
    using assms(1) by (fastforce simp: sv_inv_def map_inv_def entry_link_def, force)
qed

lemma other_entry:
  "sv_inv s \<Longrightarrow> (j, ep) \<in> set (se_endpoints_map s) \<Longrightarrow>
   link ep = (if j \<in> set (going s) then (False, [], [j]) else (True, [j], []))"
  by (force simp: sv_inv_def map_inv_def entry_link_def)

lemma update_step:
  assumes "sv_inv s" "map_of (se_endpoints_map s) i = Some ep" "link_step ep ep'"
  defines "s' \<equiv> (update_endpoint i ep' s)\<lparr>se_tasks := se_tasks s @ posted ep ep'\<rparr>"
  shows "sv_inv s' \<and> (changes j os = [] \<longrightarrow> fate_step s os s' j)"
proof -
  note found = entry_found [OF assms(1,2)]
  let ?new = "posted ep ep'" and ?m = "map (\<lambda>x. if fst x = i then (i, ep') else x) (se_endpoints_map s)"
  have new: "?new = [] \<and> link ep' = link ep \<or> i \<notin> set (going s) \<and> ?new = [i] \<and> link ep' = (False, [], [i])"
  proof (cases "i \<in> set (going s)")
    case True
    then have "link ep = (False, [], [i])" "link ep' = (False, [], [i] @ [])"
      using found(1) assms(3) by (auto simp: link_step_def)
    then show ?thesis using posted_link [of ep False "[]" "[i]" ep' False "[]" "[]"] by simp
  next
    case False
    then have l: "link ep = (True, [i], [])" "link ep' = (True, [i], [] @ []) \<or> link ep' = (False, [], [] @ [i])"
      using found(1) assms(3) by (auto simp: link_step_def)
    show ?thesis
      using l(2) posted_link [OF l(1), of ep' True "[i]" "[]"] posted_link [OF l(1), of ep' False "[]" "[i]"] False l(1)
      by (elim disjE) simp_all
  qed
  have link: "link ep'' = (if k \<in> set (going s) \<union> set ?new then (False, [], [k]) else (True, [k], []))"
    if "(k, ep'') \<in> set ?m" for k ep''
  proof (cases "k = i")
    case True
    then have "ep'' = ep'" using that by auto
    then show ?thesis using True new found(1) by (elim disjE conjE) simp_all
  next
    case False
    then have "(k, ep'') \<in> set (se_endpoints_map s)" using that by (auto split: if_splits)
    moreover have "k \<notin> set ?new" using False new by (elim disjE conjE) simp_all
    ultimately show ?thesis using other_entry [OF assms(1)] by simp
  qed
  have s': "s' = s\<lparr>se_endpoints_map := ?m, se_tasks := se_tasks s @ ?new, se_is_finalizing := se_is_finalizing s\<rparr>"
    by (simp add: s'_def update_endpoint_def)
  have fin: "se_is_finalizing s \<longrightarrow> set (ids s) \<subseteq> set (going s) \<union> set ?new"
    using assms(1) by (auto simp: sv_inv_def map_inv_def)
  have m: "map fst ?m = ids s" by (simp add: o_def)
  have sub: "distinct ?new" "set ?new \<subseteq> set (ids s) - set (going s)"
    using new found(2) by (elim disjE conjE; simp)+
  show ?thesis unfolding s' by (rule map_step [OF assms(1) m sub link fin])
qed

lemma finalize_ok:
  assumes "sv_inv s"
  shows "sv_inv (finalize s) \<and> fate_step s [] (finalize s) i"
proof -
  let ?map = "se_endpoints_map s" and ?new = "filter (\<lambda>i. i \<notin> set (going s)) (ids s)"
  have entry: "posted ep (endpoint_disconnect ep) = (if k \<in> set (going s) then [] else [k]) \<and>
      link (endpoint_disconnect ep) = (False, [], [k])" if "(k, ep) \<in> set ?map" for k ep
  proof -
    have l: "link ep = (if k \<in> set (going s) then (False, [], [k]) else (True, [k], []))"
      using other_entry [OF assms that] .
    then show ?thesis
      using disconnect_link(1) [of ep] posted_link [of ep False "[]" "[k]" "endpoint_disconnect ep" False "[]" "[]"]
        posted_link [of ep True "[k]" "[]" "endpoint_disconnect ep" False "[]" "[k]"]
      by (cases "k \<in> set (going s)") auto
  qed
  have "concat (map (\<lambda>(i, ep). posted ep (endpoint_disconnect ep)) m) = filter (\<lambda>i. i \<notin> set (going s)) (map fst m)"
    if "set m \<subseteq> set ?map" for m
    using that by (induction m) (auto simp: entry)
  from this [of ?map] have new: "concat (map (\<lambda>(i, ep). posted ep (endpoint_disconnect ep)) ?map) = ?new" by simp
  let ?m = "map (\<lambda>(i, ep). (i, endpoint_disconnect ep)) ?map"
  have m: "map fst ?m = ids s" by (simp add: o_def case_prod_beta)
  have sub: "distinct ?new" "set ?new \<subseteq> set (ids s) - set (going s)"
    using assms by (auto simp: sv_inv_def map_inv_def)
  have link: "link ep = (if k \<in> set (going s) \<union> set ?new then (False, [], [k]) else (True, [k], []))"
    if "(k, ep) \<in> set ?m" for k ep
    using that entry by (force simp: image_iff)
  have fin: "True \<longrightarrow> set (ids s) \<subseteq> set (going s) \<union> set ?new" by auto
  have s': "finalize s = s\<lparr>se_endpoints_map := ?m, se_tasks := se_tasks s @ ?new, se_is_finalizing := True\<rparr>"
    using new by (simp add: finalize_def)
  show ?thesis using map_step [OF assms m sub link fin, of i "[]"] unfolding s' by simp
qed

lemma request_loop_link:
  "map (map_prod id link) (fst (make_request_loop P mem now p idx q m)) = map (map_prod id link) m"
proof (induction m arbitrary: p)
  case (Cons x m)
  obtain i ep where x: "x = (i, ep)" by fastforce
  show ?case
    using Cons request_link [of P mem now p idx q ep]
    by (auto simp: x case_prod_beta Let_def split: prod.split sum.split)
qed simp

lemma requests_ok:
  assumes "sv_inv s" "map (map_prod id link) m = map (map_prod id link) (se_endpoints_map s)" "changes i os = []"
  shows "sv_inv (s\<lparr>se_endpoints_map := m\<rparr>) \<and> fate_step s os (s\<lparr>se_endpoints_map := m\<rparr>) i"
proof -
  have m: "map fst m = ids s" using arg_cong [OF assms(2), of "map fst"] by (simp add: o_def)
  have "link ep = (if k \<in> set (going s) \<union> set [] then (False, [], [k]) else (True, [k], []))" if "(k, ep) \<in> set m" for k ep
  proof -
    have "(k, link ep) \<in> set (map (map_prod id link) m)" using that by force
    then have "(k, link ep) \<in> set (map (map_prod id link) (se_endpoints_map s))" using assms(2) by simp
    then obtain ep' where "(k, ep') \<in> set (se_endpoints_map s)" "link ep' = link ep" by auto
    then show ?thesis using other_entry [OF assms(1), of k ep'] by simp
  qed
  from map_step [OF assms(1) m _ _ this, of "se_is_finalizing s" i os] show ?thesis
    using assms(1,3) by (auto simp: sv_inv_def map_inv_def)
qed

lemma on_disconnected_ok:
  assumes "sv_inv s" "k < length (se_promises s)"
  defines "i \<equiv> se_promises s ! k"
  defines "s' \<equiv> on_disconnected i (s\<lparr>se_promises := drop_nth k (se_promises s)\<rparr>)"
  shows "sv_inv s' \<and> fate_step s [] s' j"
proof -
  have inv: "connector_inv (se_connector s)" "map_inv s" "born_ok s" using assms(1) by (simp_all add: sv_inv_def)
  have i: "i \<in> set (going s)" "i \<in> set (ids s)"
    using inv(2) assms(2) nth_mem [OF assms(2)] unfolding map_inv_def i_def by auto
  then obtain ep where ep: "map_of (se_endpoints_map s) i = Some ep" by (metis map_of_eq_None_iff not_None_eq set_map)
  have l: "link ep = (False, [], [i])" using entry_found [OF assms(1) ep] i(1) by simp
  have "posted ep (connection_destroy ep) = []"
    using posted_link [OF l, of "connection_destroy ep" False "[]" "[]"] disconnect_link(2) [OF l] by simp
  then have s': "s' = s\<lparr>se_promises := drop_nth k (se_promises s), se_endpoints_map := filter (\<lambda>x. fst x \<noteq> i) (se_endpoints_map s),
      se_strands := se_strands s @ [(i, Disconnected)]\<rparr>"
    using ep by (simp add: s'_def on_disconnected_def remove_endpoint_from_map_def Let_def)
  have born: "\<not> unborn s i" using born_facts(1) [OF inv(3) i(2)] .
  have un: "unborn s' j = unborn s j" for j by (simp add: s' unborn_def)
  have ids: "ids s' = filter (\<lambda>j. j \<noteq> i) (ids s)" by (simp add: s' filter_map o_def)
  have "strand_of j s' = strand_of j s @ (if j = i then [Disconnected] else [])" for j by (simp add: s' strand_of_def)
  then have fate: "fate_step s [] s' j" using i(2) born un ids by (cases "j = i") (simp_all add: fate_step_def fate_def)
  have "mset (se_promises s) = add_mset i (mset (drop_nth k (se_promises s)))"
    using mset_drop_nth [OF assms(2)] by (simp add: i_def)
  then have "mset (going s) = mset (i # going s')" by (simp add: s')
  then have g: "distinct (i # going s')" "set (going s) = set (i # going s')"
    using inv(2) mset_eq_imp_distinct_iff mset_eq_setD unfolding map_inv_def by blast+
  have "link (snd x) = entry_link s' (fst x)" if "x \<in> set (se_endpoints_map s')" for x
  proof -
    have "x \<in> set (se_endpoints_map s)" "fst x \<noteq> i" using that by (simp_all add: s')
    then have "link (snd x) = entry_link s (fst x)" using inv(2) by (simp add: map_inv_def)
    moreover have "fst x \<in> set (going s) \<longleftrightarrow> fst x \<in> set (going s')"
      unfolding g(2) using \<open>fst x \<noteq> i\<close> by simp
    ultimately show ?thesis unfolding entry_link_def by simp
  qed
  moreover have "set (going s') \<subseteq> set (ids s')" "se_is_finalizing s' \<longrightarrow> set (ids s') \<subseteq> set (going s')" "distinct (ids s')"
    using inv(2) g unfolding map_inv_def ids by (auto simp: s')
  ultimately have "map_inv s'" using g(1) unfolding map_inv_def by simp
  moreover have "born_ok s'"
    using inv(3) born unfolding born_ok_def un ids by (simp add: s') blast
  ultimately show ?thesis using inv(1) fate by (simp add: sv_inv_def s')
qed

lemma run_strand_ok:
  assumes "sv_inv s" "List.extract (\<lambda>x. fst x = i) (se_strands s) = Some (xs, x, ys)"
  shows "sv_inv (s\<lparr>se_strands := xs @ ys\<rparr>) \<and> fate_step s [Connection_change i (snd x)] (s\<lparr>se_strands := xs @ ys\<rparr>) j"
proof -
  have e: "se_strands s = xs @ x # ys" "fst x = i" "\<forall>y \<in> set xs. fst y \<noteq> i"
    using extract_SomeE [OF assms(2)] by auto
  have un: "unborn (s\<lparr>se_strands := xs @ ys\<rparr>) k = unborn s k" for k by (simp add: unborn_def)
  have "filter (\<lambda>y. fst y = i) xs = []" using e(3) by (simp add: filter_empty_conv)
  then have "strand_of j s = changes j [Connection_change i (snd x)] @ strand_of j (s\<lparr>se_strands := xs @ ys\<rparr>)"
    using e by (simp add: strand_of_def)
  then have "fate_step s [Connection_change i (snd x)] (s\<lparr>se_strands := xs @ ys\<rparr>) j" by (simp add: fate_step_def fate_def un)
  moreover have "born_ok (s\<lparr>se_strands := xs @ ys\<rparr>)"
    using assms(1) e(1) un by (auto simp: sv_inv_def born_ok_def)
  ultimately show ?thesis using assms(1) by (simp add: sv_inv_def map_inv_def entry_link_def)
qed

lemma on_endpoint_ok:
  assumes "sv_inv s"
  shows "sv_inv (fst (on_endpoint i e s)) \<and> fate_step s (snd (on_endpoint i e s)) (fst (on_endpoint i e s)) j"
proof (cases "map_of (se_endpoints_map s) i")
  case None
  then show ?thesis using assms by (simp add: on_endpoint_def fate_step_def)
next
  case (Some ep)
  show ?thesis
    using update_step [OF assms Some endpoint_event_link [of ep e], of j "map Request_done (snd (endpoint_event e ep))"]
    by (simp add: on_endpoint_def Some case_prod_beta Let_def)
qed

lemma make_request_ok:
  assumes "sv_inv s"
  shows "sv_inv (fst (server_make_request P mem now p idx q i s)) \<and>
    (changes j os = [] \<longrightarrow> fate_step s os (fst (server_make_request P mem now p idx q i s)) j)"
proof -
  have "sv_inv (update_endpoint i ep' s) \<and> (changes j os = [] \<longrightarrow> fate_step s os (update_endpoint i ep' s) j)"
    if m: "map_of (se_endpoints_map s) i = Some ep" and l: "link ep' = link ep" for ep ep'
  proof -
    obtain r cbs ex where "link ep = (r, cbs, ex @ [])" by (cases "link ep") auto
    then have "posted ep ep' = []" using posted_link [of ep r cbs ex ep' r cbs "[]"] l by simp
    then show ?thesis
      using update_step [OF assms m, of ep' j os] l by (simp add: link_step_def update_endpoint_def)
  qed
  then show ?thesis
    using assms request_link [of P mem now p idx q]
    by (auto simp: server_make_request_def case_prod_beta Let_def fate_step_def split: option.split)
qed

lemma server_step_ok:
  assumes "sv_inv s"
  shows "sv_inv (fst (server_step A cfg P mem s e)) \<and>
    fate_step s (snd (server_step A cfg P mem s e)) (fst (server_step A cfg P mem s e)) i"
proof (cases e)
  case (Connector_event c)
  then show ?thesis using on_connector_ok [OF assms, of A c] by simp
next
  case (Deliver_notification up)
  show ?thesis
  proof (cases "se_notify s")
    case Nil
    then show ?thesis using assms by (simp add: Deliver_notification fate_step_def)
  next
    case (Cons n ns)
    have quiet: "sv_inv (s\<lparr>se_notify := ns\<rparr>) \<and> fate i (s\<lparr>se_notify := ns\<rparr>) = fate i s" if "connections [n] = []"
    proof -
      have c: "connections (se_notify s) = connections ns" using that Cons connections_append [of "[n]" ns] by simp
      then have "unborn (s\<lparr>se_notify := ns\<rparr>) = unborn s" by (simp add: unborn_def fun_eq_iff)
      then show ?thesis
        using assms c by (simp add: sv_inv_def born_ok_def map_inv_def entry_link_def fate_def strand_of_def)
    qed
    show ?thesis
    proof (cases n)
      case (Note_connection k)
      then show ?thesis
        using process_new_connection_ok(1) [OF assms, where i = k and ns = ns]
          process_new_connection_ok(2) [OF assms, where i = k and ns = ns] by (simp add: Deliver_notification Cons on_notification_def)
    qed (use quiet in \<open>simp_all add: Deliver_notification Cons on_notification_def fate_step_def\<close>)
  qed
next
  case (Run_disconnect_task k)
  have "sv_inv (s\<lparr>se_tasks := drop_nth k (se_tasks s), se_promises := se_promises s @ [se_tasks s ! k]\<rparr>)"
    if "k < length (se_tasks s)"
  proof -
    let ?s = "s\<lparr>se_tasks := drop_nth k (se_tasks s), se_promises := se_promises s @ [se_tasks s ! k]\<rparr>"
    have "mset (going ?s) = mset (going s)" using mset_drop_nth [OF that] by simp
    then have "set (going ?s) = set (going s)" "distinct (going ?s) = distinct (going s)"
      using mset_eq_setD mset_eq_imp_distinct_iff by blast+
    then show ?thesis
      using assms born_same [of ?s s] unfolding sv_inv_def map_inv_def entry_link_def by simp
  qed
  then show ?thesis using assms by (auto simp: Run_disconnect_task fate_step_def fate_def strand_of_def unborn_def)
next
  case (Run_disconnect_continuation k)
  then show ?thesis using assms on_disconnected_ok [OF assms, of k i] by (auto simp: fate_step_def)
next
  case (Run_strand j)
  then show ?thesis
    using assms run_strand_ok [OF assms, of j] by (auto simp: fate_step_def split: option.split)
next
  case (Make_request now p idx q j)
  then show ?thesis
    using make_request_ok [OF assms, of P mem now p idx q j i] by (auto simp: case_prod_beta Let_def split: sum.split)
next
  case (Make_request_all now p idx q)
  then show ?thesis
    using requests_ok [OF assms request_loop_link [of P mem now p idx q], of i]
      requests_ok [OF assms request_loop_link [of P mem now p idx q], of i "[]"]
    by (auto simp: make_request_all_def case_prod_beta Let_def split: sum.split)
qed (use on_endpoint_ok [OF assms] finalize_ok [OF assms] in simp_all)

interpretation sv: event_system "server_step A cfg P mem" sv_inv
  by unfold_locales (use server_step_ok in blast)

lemma fate_run:
  assumes "sv_inv s" "length (fate i s) \<le> 2"
  shows "changes i (run_output (server_step A cfg P mem) s es) @ fate i (run_state (server_step A cfg P mem) s es) = fate i s \<or>
    changes i (run_output (server_step A cfg P mem) s es) = [] \<and>
    fate i (run_state (server_step A cfg P mem) s es) = [] \<and> fate i s = [Connected, Disconnected]"
  using assms
proof (induction es arbitrary: s)
  case (Cons e es)
  let ?s = "fst (server_step A cfg P mem s e)"
  have step: "fate_step s (snd (server_step A cfg P mem s e)) ?s i" "sv_inv ?s" using server_step_ok [OF Cons.prems(1)] by blast+
  have short: "length (fate i ?s) \<le> 2"
    using step(1) Cons.prems(2) unfolding fate_step_def by (metis length_append le_add2 le_trans list.size(3) zero_le)
  have "changes i (snd (server_step A cfg P mem s e)) = []" if "fate i ?s = [Connected, Disconnected]"
  proof -
    have "fate i s = changes i (snd (server_step A cfg P mem s e)) @ [Connected, Disconnected] \<or>
        changes i (snd (server_step A cfg P mem s e)) = []"
      using step(1) that by (auto simp: fate_step_def)
    then show ?thesis using Cons.prems(2) by (elim disjE) simp_all
  qed
  then show ?case using Cons.IH [OF step(2) short] step(1) by (auto simp: fate_step_def)
qed simp


section \<open>Properties\<close>

text \<open>
  C27: The user of the server hears of a connection in order and at most once: that it is connected, and
  later that it is disconnected, whatever the thread pool does first.  When the strands are empty and no
  disconnection is under way, the connections reported as connected and not as disconnected are exactly
  those in the map, their pipes are up, and after the server is finalized there are none.
\<close>

theorem server_endpoint_lifecycle:
  fixes es :: "'q server_event list" and A cfg P mem
  defines "out \<equiv> run_output (server_step A cfg P mem) server_endpoint_init es"
    and "s \<equiv> run_state (server_step A cfg P mem) server_endpoint_init es"
  shows "changes i out \<in> {[], [Connected], [Connected, Disconnected]} \<and>
    (se_strands s = [] \<and> se_tasks s = [] \<and> se_promises s = [] \<longrightarrow>
       (changes i out = [Connected] \<longleftrightarrow> i \<in> set (map fst (se_endpoints_map s))) \<and>
       (\<forall>(j, ep) \<in> set (se_endpoints_map s). transport_is_running (c_transport (ep_connection ep))) \<and>
       (se_is_finalizing s \<longrightarrow> get_active_connections_count s = 0))"
proof -
  have init: "fate i server_endpoint_init = [Connected, Disconnected]"
    by (simp add: fate_def strand_of_def server_endpoint_init_def unborn_def server_connector_init_def)
  have inv: "sv_inv s" unfolding s_def by (rule sv.inv_run [OF sv_inv_init])
  have run: "changes i out @ fate i s = [Connected, Disconnected] \<or> changes i out = [] \<and> fate i s = []"
    using fate_run [OF sv_inv_init, of i A cfg P mem es] unfolding init out_def s_def by auto
  then have "changes i out \<in> {[], [Connected], [Connected, Disconnected]}"
    by (auto simp: append_eq_Cons_conv)
  moreover have "(changes i out = [Connected] \<longleftrightarrow> i \<in> set (ids s)) \<and>
       (\<forall>(j, ep) \<in> set (se_endpoints_map s). transport_is_running (c_transport (ep_connection ep))) \<and>
       (se_is_finalizing s \<longrightarrow> get_active_connections_count s = 0)"
    if idle: "se_strands s = []" "se_tasks s = []" "se_promises s = []"
  proof -
    have "fate i s = (if i \<in> set (ids s) then [Disconnected] else if unborn s i then [Connected, Disconnected] else [])"
      using idle by (simp add: fate_def strand_of_def)
    then have "changes i out = [Connected] \<longleftrightarrow> i \<in> set (ids s)" using run by (auto split: if_splits)
    moreover have "transport_is_running (c_transport (ep_connection ep))" if "(j, ep) \<in> set (se_endpoints_map s)" for j ep
      using other_entry [OF inv that] idle by (simp add: link_def transport_is_running_def Let_def)
    moreover have "se_endpoints_map s = []" if "se_is_finalizing s"
      using inv that idle by (simp add: sv_inv_def map_inv_def)
    ultimately show ?thesis by (auto simp: get_active_connections_count_def)
  qed
  ultimately show ?thesis by auto
qed

text \<open>A client connects and its connection is lost.\<close>

definition visit :: "unit server_event list" where
  "visit =
     [Connector_event Connector_start, Deliver_notification True, Connector_event (Pipe_created 0 Wait_success),
      Connector_event (Request_read 0 Op_success (Some [0])), Connector_event (Response_written 0 Op_success),
      Deliver_notification True, Run_strand 0]"

lemmas visit_simps =
  visit_def server_endpoint_init_def server_connector_init_def on_connector_def connector_start_def start_pipe_connect_def
  is_active_def flag_set_def await_pipe_def on_notification_def on_pipe_created_def is_success_wait_def on_request_read_def
  is_success_op_def simple_authenticator_def on_response_written_def end_handshake_def erase_connection_future_from_map_def
  notify_on_new_connection_def process_new_connection_def new_connection_def connection_init_def transport_init_def
  endpoint_defs endpoint_create_def transport_set_stop_callback_def conn_start_def start_watching_def
  periodic_timer_start_def periodic_timer_init_def do_receive_async_def transport_recv_async_def posted_def
  insert_endpoint_def extract_Nil_code extract_Cons_code drop_nth_def Let_def

theorem server_endpoint_lifecycle_witness:
  "changes 0 (run_output (server_step (simple_authenticator (\<lambda>n. replicate n 0)) default_config no_proto (\<lambda>n. replicate n 0))
     server_endpoint_init visit) = [Connected]"
proof -
  let ?s = "run_state (server_step (simple_authenticator (\<lambda>n. replicate n 0)) default_config no_proto (\<lambda>n. replicate n 0))
     server_endpoint_init visit"
  have "se_strands ?s = [] \<and> se_tasks ?s = [] \<and> se_promises ?s = [] \<and> ids ?s = [0]"
    by (simp add: visit_simps)
  then show ?thesis
    using server_endpoint_lifecycle [of 0 "simple_authenticator (\<lambda>n. replicate n 0)" default_config no_proto
        "\<lambda>n. replicate n 0" visit] by simp
qed

end
