(* ===== verification/Win_Operations.thy ===== *)
theory Win_Operations
  imports Pipe_Endpoint
begin

text \<open>
  The read and write operations of the Windows pipe, \<open>rpc-lib/pipe/win-pipe/win-pipe-operations\<close>.

  The result of an operation is an atomic variable that the timer, the invalidation and the worker
  of the completion port compete to set.  A read collects a message in buffers of growing
  size: a buffer that was too small is kept and another one takes the rest.
\<close>

section \<open>Results\<close>

datatype win_pipe_operation_res = Win_unknown | Win_success | Win_canceled | Win_timeout | Win_failed

fun to_pipe_op_res :: "win_pipe_operation_res \<Rightarrow> pipe_op_res" where
  "to_pipe_op_res Win_canceled = Op_canceled"
| "to_pipe_op_res Win_success = Op_success"
| "to_pipe_op_res Win_timeout = Op_timeout"
| "to_pipe_op_res Win_failed = Op_failed"
| "to_pipe_op_res Win_unknown = Op_failed"

definition set_success :: "win_pipe_operation_res \<Rightarrow> win_pipe_operation_res" where
  "set_success r = Win_success"

definition set_canceled_if_possible :: "win_pipe_operation_res \<Rightarrow> win_pipe_operation_res" where
  "set_canceled_if_possible r = (if r = Win_unknown then Win_canceled else r)"

definition set_timeout_if_possible :: "win_pipe_operation_res \<Rightarrow> win_pipe_operation_res" where
  "set_timeout_if_possible r = (if r = Win_unknown then Win_timeout else r)"

definition set_failed_if_possible :: "win_pipe_operation_res \<Rightarrow> win_pipe_operation_res" where
  "set_failed_if_possible r = (if r = Win_unknown then Win_failed else if r = Win_timeout then Win_failed else r)"

lemma set_result_known [simp]:
  "set_success r \<noteq> Win_unknown" "set_canceled_if_possible r \<noteq> Win_unknown"
  "set_timeout_if_possible r \<noteq> Win_unknown" "set_failed_if_possible r \<noteq> Win_unknown"
  "set_success r \<noteq> Win_timeout" "set_failed_if_possible r \<noteq> Win_timeout"
  by (simp_all add: set_success_def set_canceled_if_possible_def set_timeout_if_possible_def
      set_failed_if_possible_def)


section \<open>Operations\<close>

text \<open>
  \<open>wo_promise\<close> is the promise of the caller's future.  A write has its message as the only buffer.
  \<open>wo_timer_id\<close> belongs to the entry of the endpoint's list.
\<close>

record win_op =
  wo_promise :: promise_id
  wo_timer_id :: "timer_id option"
  wo_buffers :: "bytes list"
  wo_read_bytes :: nat
  wo_res :: win_pipe_operation_res

definition write_op_create :: "promise_id \<Rightarrow> timer_id option \<Rightarrow> bytes \<Rightarrow> win_op" where
  "write_op_create p t msg =
     \<lparr>wo_promise = p, wo_timer_id = t, wo_buffers = [msg], wo_read_bytes = 0, wo_res = Win_unknown\<rparr>"

definition read_op_create :: "promise_id \<Rightarrow> timer_id option \<Rightarrow> win_op" where
  "read_op_create p t =
     \<lparr>wo_promise = p, wo_timer_id = t, wo_buffers = [replicate 8192 0], wo_read_bytes = 0, wo_res = Win_unknown\<rparr>"

definition op_set :: "(win_pipe_operation_res \<Rightarrow> win_pipe_operation_res) \<Rightarrow> win_op \<Rightarrow> win_op" where
  "op_set f op = op\<lparr>wo_res := f (wo_res op)\<rparr>"

definition max_size :: nat where
  "max_size = unat MaxTransferMessageSize"

lemma max_size_eq: "max_size = 1048676"
  by (simp add: max_size_def MaxTransferMessageSize_def)

definition total_size :: "win_op \<Rightarrow> nat" where
  "total_size op = sum_list (map length (wo_buffers op))"

definition add_read_bytes :: "nat \<Rightarrow> win_op \<Rightarrow> win_op" where
  "add_read_bytes n op = op\<lparr>wo_read_bytes := wo_read_bytes op + n\<rparr>"

definition add_buffer_chunk :: "win_op \<Rightarrow> win_op option" where
  "add_buffer_chunk op =
     (if total_size op \<ge> max_size then None
      else let prev_size = length (last (wo_buffers op));
               new_size = min (prev_size * 2) (max_size - total_size op)
           in Some (op\<lparr>wo_buffers := wo_buffers op @ [replicate new_size 0]\<rparr>))"

text \<open>The double loop copies one byte after the other until there are \<open>n\<close> of them, the parameter \<open>size\<close>.\<close>

fun merge_loop :: "bytes list \<Rightarrow> nat \<Rightarrow> bytes \<Rightarrow> bytes" where
  "merge_loop [] n ans = ans"
| "merge_loop ([] # bs) n ans = merge_loop bs n ans"
| "merge_loop ((x # b) # bs) n ans =
     (if length ans < n then merge_loop (b # bs) n (ans @ [x]) else ans)"

definition merge_buffers :: "bytes list \<Rightarrow> nat \<Rightarrow> bytes" where
  "merge_buffers buffers n =
     (let ans = merge_loop buffers n [] in ans @ replicate (n - length ans) 0)"

lemma merge_loop_eq: "length ans \<le> n \<Longrightarrow> merge_loop bs n ans = ans @ take (n - length ans) (concat bs)"
proof (induction bs n ans rule: merge_loop.induct)
  case (3 x b bs n ans)
  show ?case
  proof (cases "length ans < n")
    case True
    then have "n - length ans = Suc (n - Suc (length ans))" by simp
    then show ?thesis using 3 True by simp
  next
    case False
    then show ?thesis using 3 by simp
  qed
qed simp_all

lemma merge_buffers_eq: "n \<le> length (concat bs) \<Longrightarrow> merge_buffers bs n = take n (concat bs)"
  by (simp add: merge_buffers_def merge_loop_eq Let_def)


section \<open>Reading a message\<close>

text \<open>The operating system writes the data it has to the start of the last buffer.\<close>

definition fill_buffer :: "bytes \<Rightarrow> win_op \<Rightarrow> win_op" where
  "fill_buffer data op =
     op\<lparr>wo_buffers := butlast (wo_buffers op) @ [data @ drop (length data) (last (wo_buffers op))]\<rparr>"

text \<open>
  The loop of \<open>start\<close>.  \<open>chunks\<close> are the data of the calls of \<open>ReadFile\<close> that end at once with
  \<open>ERROR_MORE_DATA\<close> and have filled the buffer; \<open>err\<close> is whether the call after them fails.  The second
  component is whether \<open>ec\<close> is set.  Such a call is done for the code, which goes on with the
  next one; what it relies on, and what is assumed of the operating system here, is that the
  completion port gets no packet for it.
\<close>

fun read_start :: "bytes list \<Rightarrow> bool \<Rightarrow> win_op \<Rightarrow> win_op \<times> bool" where
  "read_start [] err op = (op, err)"
| "read_start (data # chunks) err op =
     (if length data \<noteq> length (last (wo_buffers op)) then (op, err)
      else let op = add_read_bytes (length (last (wo_buffers op))) (fill_buffer data op)
           in case add_buffer_chunk op of None \<Rightarrow> (op, True) | Some op \<Rightarrow> read_start chunks err op)"

definition read_result :: "win_op \<Rightarrow> bytes option" where
  "read_result op =
     (if wo_res op = Win_success then Some (merge_buffers (wo_buffers op) (wo_read_bytes op)) else None)"

text \<open>The worker takes a packet of the completion port for a read: what is left to do is the result.\<close>

datatype io_status = Io_success | Io_more_data | Io_aborted | Io_error

datatype read_next = Resolve_read win_op | Read_rest win_op

definition worker_read :: "io_status \<Rightarrow> bytes \<Rightarrow> win_op \<Rightarrow> read_next" where
  "worker_read status data op =
     (let op = add_read_bytes (length data) (fill_buffer data op)
      in case status of
           Io_success \<Rightarrow> Resolve_read (op_set set_success op)
         | Io_more_data \<Rightarrow>
             (case add_buffer_chunk op of
                None \<Rightarrow> Resolve_read (op_set set_failed_if_possible op)
              | Some op \<Rightarrow> Read_rest op)
         | Io_aborted \<Rightarrow> Resolve_read op
         | Io_error \<Rightarrow> Resolve_read (op_set set_failed_if_possible op))"

definition worker_write :: "io_status \<Rightarrow> win_op \<Rightarrow> win_op" where
  "worker_write status op =
     (case status of
        Io_success \<Rightarrow> op_set set_success op
      | Io_aborted \<Rightarrow> op
      | _ \<Rightarrow> op_set set_failed_if_possible op)"

text \<open>
  The operating system's side of the loop of \<open>start\<close>: at most \<open>k\<close> calls of \<open>ReadFile\<close> find at once more of the message \<open>left\<close> than the
  buffer takes; the next call comes with the next buffer.
\<close>

fun sync_chunks :: "nat \<Rightarrow> bytes \<Rightarrow> win_op \<Rightarrow> bytes list" where
  "sync_chunks 0 left op = []"
| "sync_chunks (Suc k) left op =
     (let n = length (last (wo_buffers op))
      in if length left \<le> n then []
         else take n left # (case add_buffer_chunk op of None \<Rightarrow> [] | Some op \<Rightarrow> sync_chunks k (drop n left) op))"

text \<open>What is in the buffers before the last one has been received, and all of them are full.\<close>

definition read_inv :: "bytes \<Rightarrow> win_op \<Rightarrow> bool" where
  "read_inv got op \<longleftrightarrow>
     wo_buffers op \<noteq> [] \<and> last (wo_buffers op) \<noteq> [] \<and> concat (butlast (wo_buffers op)) = got \<and>
     wo_read_bytes op = length got \<and> total_size op \<le> max_size"

lemma total_size_concat: "total_size op = length (concat (wo_buffers op))"
  by (simp add: total_size_def length_concat)

lemma concat_butlast_last: "bs \<noteq> [] \<Longrightarrow> concat bs = concat (butlast bs) @ last bs"
  by (metis append_butlast_last_id concat_append concat.simps append_Nil2)

lemma read_inv_create: "read_inv [] (read_op_create p t)"
  by (simp add: read_inv_def read_op_create_def total_size_def max_size_eq)

lemma read_inv_chunk:
  assumes "read_inv got op" "length data = length (last (wo_buffers op))"
  defines "op' \<equiv> add_read_bytes (length data) (fill_buffer data op)"
  shows "case add_buffer_chunk op' of
           None \<Rightarrow> length got + length data = max_size
         | Some op'' \<Rightarrow> read_inv (got @ data) op'' \<and> wo_res op'' = wo_res op"
proof -
  have b: "wo_buffers op' = butlast (wo_buffers op) @ [data]" "wo_read_bytes op' = length (got @ data)"
    "wo_res op' = wo_res op"
    using assms by (simp_all add: op'_def add_read_bytes_def fill_buffer_def read_inv_def)
  have t: "total_size op' = length got + length data" "total_size op' \<le> max_size" "data \<noteq> []"
    using assms(1,2) b concat_butlast_last [of "wo_buffers op"] by (auto simp: total_size_concat read_inv_def)
  show ?thesis
  proof (cases "max_size \<le> total_size op'")
    case True
    then show ?thesis using t by (simp add: add_buffer_chunk_def)
  next
    case False
    then show ?thesis using t b assms(1)
      by (auto simp: add_buffer_chunk_def Let_def read_inv_def total_size_concat butlast_append)
  qed
qed

lemma read_inv_last:
  assumes "read_inv got op" "length msg \<le> length (last (wo_buffers op))"
  defines "op' \<equiv> add_read_bytes (length msg) (fill_buffer msg op)"
  shows "merge_buffers (wo_buffers op') (wo_read_bytes op') = got @ msg" "length (got @ msg) \<le> max_size"
proof -
  have b: "concat (wo_buffers op') = got @ msg @ drop (length msg) (last (wo_buffers op))"
    "wo_read_bytes op' = length (got @ msg)"
    using assms by (simp_all add: op'_def add_read_bytes_def fill_buffer_def read_inv_def)
  then show "merge_buffers (wo_buffers op') (wo_read_bytes op') = got @ msg"
    by (simp add: merge_buffers_eq)
  show "length (got @ msg) \<le> max_size"
    using assms(1,2) concat_butlast_last [of "wo_buffers op"] by (auto simp: total_size_concat read_inv_def)
qed

text \<open>The buffers of \<open>start\<close> after a synchronous chunk, whatever is in them.\<close>

lemma add_chunk_sizes:
  assumes "map length (wo_buffers a) = map length (wo_buffers b)" "wo_buffers a \<noteq> []"
  shows "rel_option (\<lambda>x y. map length (wo_buffers x) = map length (wo_buffers y) \<and> wo_buffers x \<noteq> [])
    (add_buffer_chunk a) (add_buffer_chunk b)"
proof -
  have ne: "wo_buffers b \<noteq> []" using assms by auto
  have "length (last (wo_buffers a)) = length (last (wo_buffers b))"
    using assms(1) last_map [OF assms(2), of length] last_map [OF ne, of length] by simp
  then show ?thesis using assms by (simp add: add_buffer_chunk_def total_size_def Let_def)
qed

lemma sync_chunks_sizes:
  "map length (wo_buffers a) = map length (wo_buffers b) \<Longrightarrow> wo_buffers a \<noteq> [] \<Longrightarrow> sync_chunks k left a = sync_chunks k left b"
proof (induction k left a arbitrary: b rule: sync_chunks.induct)
  case (2 k left a)
  have ne: "wo_buffers b \<noteq> []" using "2.prems" by auto
  have l: "length (last (wo_buffers a)) = length (last (wo_buffers b))"
    using "2.prems"(1) last_map [OF "2.prems"(2), of length] last_map [OF ne, of length] by simp
  show ?case
  proof (cases "add_buffer_chunk a")
    case None
    then show ?thesis using add_chunk_sizes [OF "2.prems"] l by (simp add: Let_def)
  next
    case (Some a')
    then obtain b' where b': "add_buffer_chunk b = Some b'" "map length (wo_buffers a') = map length (wo_buffers b')" "wo_buffers a' \<noteq> []"
      using add_chunk_sizes [OF "2.prems"] by (auto simp: option_rel_Some1)
    then show ?thesis using Some l "2.IH" [OF refl _ Some, of b'] by (simp add: Let_def)
  qed
qed simp

text \<open>A call of \<open>start\<close> takes the synchronous chunks, or finds the message too long.\<close>

lemma read_start_sync:
  assumes "read_inv got op"
  shows "case read_start (sync_chunks k left op) False op of (op', ec) \<Rightarrow>
      wo_res op' = wo_res op \<and> wo_promise op' = wo_promise op \<and>
      (if ec then max_size < length (got @ left)
       else (\<exists>rest. left = concat (sync_chunks k left op) @ rest) \<and> read_inv (got @ concat (sync_chunks k left op)) op')"
  using assms
proof (induction k arbitrary: got left op)
  case 0
  then show ?case by simp
next
  case (Suc k)
  let ?n = "length (last (wo_buffers op))"
  show ?case
  proof (cases "length left \<le> ?n")
    case True
    then show ?thesis using Suc.prems by (simp add: Let_def)
  next
    case False
    let ?op = "add_read_bytes ?n (fill_buffer (take ?n left) op)"
    have d: "length (take ?n left) = ?n" using False by simp
    note chunk = read_inv_chunk [OF Suc.prems d, unfolded d]
    have ne: "wo_buffers op \<noteq> []" using Suc.prems by (simp add: read_inv_def)
    have sizes: "map length (wo_buffers op) = map length (wo_buffers ?op)"
      using ne d append_butlast_last_id [OF ne] map_append [of length "butlast (wo_buffers op)" "[last (wo_buffers op)]"]
      by (simp add: add_read_bytes_def fill_buffer_def)
    have fields: "wo_res ?op = wo_res op" "wo_promise ?op = wo_promise op" by (simp_all add: add_read_bytes_def fill_buffer_def)
    show ?thesis
    proof (cases "add_buffer_chunk ?op")
      case None
      then show ?thesis using chunk fields False d add_chunk_sizes [OF sizes ne] by (auto simp: Let_def)
    next
      case (Some op2)
      then obtain op1 where op1: "add_buffer_chunk op = Some op1" "map length (wo_buffers op1) = map length (wo_buffers op2)"
        "wo_buffers op1 \<noteq> []"
        using add_chunk_sizes [OF sizes ne] by (auto simp: option_rel_Some2)
      have f2: "wo_promise op2 = wo_promise op" using Some fields by (auto simp: add_buffer_chunk_def Let_def split: if_splits)
      have start: "read_start (sync_chunks (Suc k) left op) False op = read_start (sync_chunks k (drop ?n left) op2) False op2"
        using False d Some op1 sync_chunks_sizes [OF op1(2,3), of k "drop ?n left"] by (simp add: Let_def)
      have inv: "read_inv (got @ take ?n left) op2" "wo_res op2 = wo_res op" using chunk Some by simp_all
      have sync: "concat (sync_chunks (Suc k) left op) = take ?n left @ concat (sync_chunks k (drop ?n left) op2)"
        using False op1 sync_chunks_sizes [OF op1(2,3), of k "drop ?n left"] by (simp add: Let_def)
      show ?thesis using Suc.IH [OF inv(1), of "drop ?n left"] unfolding start sync
        using inv(2) f2 by (auto split: prod.splits if_splits) (metis append_take_drop_id)
    qed
  qed
qed

end
