(* ===== verification/Op_Queue.thy ===== *)
theory Op_Queue
  imports Common_Prelude
begin

text \<open>
  Queues of operations of which one is in progress.  The list has the newest operation in front; the
  one at the back is the only one that is worked on.  An operation is finished before it leaves the
  list, or it is taken out of the middle and finished at once; what follows a finished operation runs later.
\<close>

text \<open>\<open>xs\<close> is the list, \<open>act\<close> the operation in progress, \<open>fin\<close> are the finished ones with a continuation.\<close>

definition op_queue_ok :: "nat list \<Rightarrow> nat list \<Rightarrow> nat list \<Rightarrow> bool" where
  "op_queue_ok xs act fin \<longleftrightarrow>
     distinct xs \<and> distinct (butlast xs @ act @ fin) \<and>
     (if xs = [] then act = [] else act = [last xs] \<or> act = [] \<and> last xs \<in> set fin)"

definition queue_pending :: "nat list \<Rightarrow> nat list \<Rightarrow> nat list \<Rightarrow> nat multiset" where
  "queue_pending xs act fin = mset (butlast xs) + mset act + mset fin"

lemma in_butlast_conv:
  assumes "distinct xs"
  shows "i \<in> set (butlast xs) \<longleftrightarrow> i \<in> set xs \<and> i \<noteq> last xs"
proof (cases "xs = []")
  case False
  have "set xs = insert (last xs) (set (butlast xs))"
    using append_butlast_last_id [OF False] by (metis Un_insert_right list.simps(15) set_append sup_bot_right empty_set)
  then show ?thesis using last_not_butlast [OF assms False] by auto
qed simp

lemma queue_empty [simp]: "op_queue_ok [] [] []"
  by (simp add: op_queue_ok_def)

lemma queue_push:
  assumes "op_queue_ok xs act fin" "i \<notin> set xs" "i \<notin> set fin"
  defines "act' \<equiv> act @ (if xs = [] then [i] else [])"
  shows "op_queue_ok (i # xs) act' fin" "queue_pending (i # xs) act' fin = add_mset i (queue_pending xs act fin)"
  using assms by (auto simp: op_queue_ok_def queue_pending_def dest: in_set_butlastD)

lemma queue_finish:
  assumes "op_queue_ok xs act fin" "act = [i]"
  shows "op_queue_ok xs [] (fin @ [i])" "queue_pending xs [] (fin @ [i]) = queue_pending xs act fin"
  using assms by (auto simp: op_queue_ok_def queue_pending_def split: if_splits)

lemma queue_drop:
  assumes "op_queue_ok xs act fin" "i \<in> set xs" "i \<noteq> last xs"
  defines "xs' \<equiv> filter (\<lambda>j. j \<noteq> i) xs"
  shows "op_queue_ok xs' act (fin @ [i])" "queue_pending xs' act (fin @ [i]) = queue_pending xs act fin"
    "xs' \<noteq> []" "last xs' = last xs"
proof -
  have ne: "xs \<noteq> []" and d: "distinct xs" using assms(1,2) by (auto simp: op_queue_ok_def)
  have i: "i \<in> set (butlast xs)" using in_butlast_conv [OF d] assms(2,3) by blast
  have xs': "xs' = filter (\<lambda>j. j \<noteq> i) (butlast xs) @ [last xs]"
    using ne assms(3) filter_append [of "\<lambda>j. j \<noteq> i" "butlast xs" "[last xs]"] by (simp add: xs'_def)
  then show "xs' \<noteq> []" "last xs' = last xs" by simp_all
  have m: "mset (butlast xs) = add_mset i (mset (butlast xs'))"
    using mset_filter_neq [OF distinct_butlast [OF d] i] xs' by simp
  then show "queue_pending xs' act (fin @ [i]) = queue_pending xs act fin" by (simp add: queue_pending_def)
  show "op_queue_ok xs' act (fin @ [i])"
    using assms(1) ne i xs' last_not_butlast [OF d ne] by (auto simp: op_queue_ok_def distinct_butlast)
qed

text \<open>The continuation of a finished operation takes it off the back and starts the next one.\<close>

definition queue_next :: "nat \<Rightarrow> nat list \<Rightarrow> nat list \<times> nat list" where
  "queue_next i xs =
     (if xs \<noteq> [] \<and> last xs = i
      then (butlast xs, if butlast xs = [] then [] else [last (butlast xs)]) else (xs, []))"

lemma queue_continue:
  assumes "op_queue_ok xs act fin" "mset fin = add_mset i (mset fin')"
  shows "op_queue_ok (fst (queue_next i xs)) (act @ snd (queue_next i xs)) fin'"
    "queue_pending (fst (queue_next i xs)) (act @ snd (queue_next i xs)) fin' + {#i#} = queue_pending xs act fin"
proof -
  have d: "distinct (i # fin')" "set fin = insert i (set fin')"
    using assms mset_eq_imp_distinct_iff [of fin "i # fin'"] mset_eq_setD [of fin "i # fin'"]
    by (auto simp: op_queue_ok_def)
  have step: "mset (butlast xs) = add_mset (last (butlast xs)) (mset (butlast (butlast xs)))" if "butlast xs \<noteq> []"
    using that by (metis append_butlast_last_id mset_append mset.simps add_mset_add_single union_commute)
  have "op_queue_ok (fst (queue_next i xs)) (act @ snd (queue_next i xs)) fin' \<and>
    queue_pending (fst (queue_next i xs)) (act @ snd (queue_next i xs)) fin' + {#i#} = queue_pending xs act fin"
  proof (cases "xs \<noteq> [] \<and> last xs = i")
    case True
    then have act: "act = []" using assms(1) d by (auto simp: op_queue_ok_def)
    have b: "distinct (butlast xs)" "distinct (butlast xs @ fin)"
      using assms(1) act by (simp_all add: op_queue_ok_def distinct_butlast)
    show ?thesis
    proof (cases "butlast xs = []")
      case True
      then show ?thesis
        using \<open>xs \<noteq> [] \<and> last xs = i\<close> act assms(2) d by (simp add: op_queue_ok_def queue_next_def queue_pending_def)
    next
      case False
      have "distinct (butlast (butlast xs) @ [last (butlast xs)] @ fin')"
        using b d append_butlast_last_id [OF False] by (metis append_assoc distinct.simps(2) distinct_append inf_commute insert_disjoint(2))
      then show ?thesis
        using False \<open>xs \<noteq> [] \<and> last xs = i\<close> act assms(2) b step [OF False]
        by (simp add: op_queue_ok_def queue_next_def queue_pending_def)
    qed
  next
    case False
    then show ?thesis using assms d by (auto simp: op_queue_ok_def queue_next_def queue_pending_def)
  qed
  then show "op_queue_ok (fst (queue_next i xs)) (act @ snd (queue_next i xs)) fin'"
    "queue_pending (fst (queue_next i xs)) (act @ snd (queue_next i xs)) fin' + {#i#} = queue_pending xs act fin"
    by blast+
qed

end
