(* ===== verification/Win_Endpoint.thy ===== *)
theory Win_Endpoint
  imports Win_Operations Op_Queue Timers
begin

text \<open>
  The endpoint of a Windows pipe, \<open>win-pipe-endpoint.cpp\<close>, with the threads of
  \<open>win-pipe-iocp-owner.cpp\<close> that start, cancel and finish its operations.

  Reads and writes are independent directions of the same shape.  Each has a list of operations, the
  newest in front, and a thread that runs posted tasks in order; only the operation at the back is
  started.  A step is one critical section, one task of a thread, one packet of the completion
  port or the continuation of a finished operation.  What the operating system does is an
  argument of the step.
\<close>

section \<open>State\<close>

datatype direction = Dir_write | Dir_read

datatype win_task = Task_start nat | Task_rest nat | Task_cancel nat

text \<open>
  \<open>wd_ops\<close> are all operations by their id.  \<open>wd_inflight\<close> are the operations with a call of \<open>ReadFile\<close> or
  \<open>WriteFile\<close> whose packet has not been taken, \<open>wd_cancel_io\<close> is whether \<open>CancelIo\<close> was called for it.
  \<open>wd_resolved\<close> are the operations with a set promise whose continuation has not run.
\<close>

record win_dir =
  wd_ops :: "win_op list"
  wd_queue :: "nat list"
  wd_thread :: "win_task list"
  wd_inflight :: "nat list"
  wd_cancel_io :: bool
  wd_resolved :: "(nat \<times> win_pipe_operation_res \<times> bytes option) list"

record win_endpoint =
  we_open :: bool
  we_callbacks :: "nat list"
  we_executed :: "nat list"
  we_dir :: "direction \<Rightarrow> win_dir"
  we_timer :: "(direction \<times> nat) multiple_timer"

definition win_dir_init :: win_dir where
  "win_dir_init =
     \<lparr>wd_ops = [], wd_queue = [], wd_thread = [], wd_inflight = [], wd_cancel_io = False, wd_resolved = []\<rparr>"

definition win_create :: win_endpoint where
  "win_create =
     \<lparr>we_open = True, we_callbacks = [], we_executed = [], we_dir = (\<lambda>_. win_dir_init),
      we_timer = multiple_timer_init\<rparr>"

definition win_is_connected :: "win_endpoint \<Rightarrow> bool" where
  "win_is_connected s = we_open s"

definition win_set_disconnect_callback :: "nat \<Rightarrow> win_endpoint \<Rightarrow> win_endpoint" where
  "win_set_disconnect_callback cb s =
     (if we_open s then s\<lparr>we_callbacks := we_callbacks s @ [cb]\<rparr> else s\<lparr>we_executed := we_executed s @ [cb]\<rparr>)"


section \<open>One direction\<close>

definition modify_op :: "nat \<Rightarrow> (win_op \<Rightarrow> win_op) \<Rightarrow> win_dir \<Rightarrow> win_dir" where
  "modify_op i f d = d\<lparr>wd_ops := (wd_ops d)[i := f (wd_ops d ! i)]\<rparr>"

definition post_task :: "win_task \<Rightarrow> win_dir \<Rightarrow> win_dir" where
  "post_task t d = d\<lparr>wd_thread := wd_thread d @ [t]\<rparr>"

definition op_resolve :: "direction \<Rightarrow> nat \<Rightarrow> win_dir \<Rightarrow> win_dir" where
  "op_resolve sd i d =
     d\<lparr>wd_resolved := wd_resolved d @
         [(i, wo_res (wd_ops d ! i), if sd = Dir_read then read_result (wd_ops d ! i) else None)]\<rparr>"

definition set_and_resolve ::
  "direction \<Rightarrow> (win_pipe_operation_res \<Rightarrow> win_pipe_operation_res) \<Rightarrow> nat \<Rightarrow> win_dir \<Rightarrow> win_dir"
where
  "set_and_resolve sd f i d = op_resolve sd i (modify_op i (op_set f) d)"

text \<open>
  The call that starts an operation.  On a closed handle it fails.  A call that does not fail leaves a packet
  for the completion port.
\<close>

definition op_start :: "direction \<Rightarrow> bool \<Rightarrow> bytes list \<Rightarrow> bool \<Rightarrow> win_op \<Rightarrow> win_op \<times> bool" where
  "op_start sd opened chunks err op =
     (case sd of
        Dir_write \<Rightarrow> (op, err \<or> \<not> opened)
      | Dir_read \<Rightarrow> read_start (if opened then chunks else []) (err \<or> \<not> opened) op)"

definition op_start_async :: "direction \<Rightarrow> bool \<Rightarrow> bytes list \<Rightarrow> bool \<Rightarrow> nat \<Rightarrow> win_dir \<Rightarrow> win_dir" where
  "op_start_async sd opened chunks err i d =
     (let (op, ec) = op_start sd opened chunks err (wd_ops d ! i); d = modify_op i (\<lambda>_. op) d
      in if ec then set_and_resolve sd set_failed_if_possible i d
         else d\<lparr>wd_inflight := wd_inflight d @ [i], wd_cancel_io := False\<rparr>)"

definition op_cancel :: "direction \<Rightarrow> nat \<Rightarrow> win_dir \<Rightarrow> win_dir" where
  "op_cancel sd i d =
     (if sd = Dir_read \<and> wo_read_bytes (wd_ops d ! i) \<noteq> 0 then d else d\<lparr>wd_cancel_io := True\<rparr>)"

text \<open>The next task of the thread of a direction.\<close>

definition run_task :: "direction \<Rightarrow> bool \<Rightarrow> bytes list \<Rightarrow> bool \<Rightarrow> win_dir \<Rightarrow> win_dir" where
  "run_task sd opened chunks err d =
     (case wd_thread d of
        [] \<Rightarrow> d
      | t # ts \<Rightarrow>
          let d = d\<lparr>wd_thread := ts\<rparr>
          in case t of
               Task_start i \<Rightarrow>
                 if wo_res (wd_ops d ! i) \<noteq> Win_unknown then op_resolve sd i d
                 else op_start_async sd opened chunks err i d
             | Task_rest i \<Rightarrow> op_start_async sd opened chunks err i d
             | Task_cancel i \<Rightarrow> op_cancel sd i d)"

text \<open>
  The packets that can arrive.  An operation is aborted, with nothing transferred, when it was cancelled or its
  handle was closed; a read with more data to come has filled the buffer.
\<close>

definition io_possible :: "direction \<Rightarrow> bool \<Rightarrow> io_status \<Rightarrow> bytes \<Rightarrow> win_dir \<Rightarrow> bool" where
  "io_possible sd opened status data d \<longleftrightarrow>
     wd_inflight d \<noteq> [] \<and>
     (case status of
        Io_aborted \<Rightarrow> data = [] \<and> (wd_cancel_io d \<or> \<not> opened)
      | Io_success \<Rightarrow> sd = Dir_read \<longrightarrow> length data \<le> length (last (wo_buffers (wd_ops d ! hd (wd_inflight d))))
      | Io_more_data \<Rightarrow> sd = Dir_read \<and> length data = length (last (wo_buffers (wd_ops d ! hd (wd_inflight d))))
      | Io_error \<Rightarrow> data = [])"

definition worker_step :: "direction \<Rightarrow> io_status \<Rightarrow> bytes \<Rightarrow> win_dir \<Rightarrow> win_dir" where
  "worker_step sd status data d =
     (let i = hd (wd_inflight d); d = d\<lparr>wd_inflight := tl (wd_inflight d)\<rparr>
      in case sd of
           Dir_write \<Rightarrow> op_resolve sd i (modify_op i (worker_write status) d)
         | Dir_read \<Rightarrow>
             (case worker_read status data (wd_ops d ! i) of
                Resolve_read op \<Rightarrow> op_resolve sd i (modify_op i (\<lambda>_. op) d)
              | Read_rest op \<Rightarrow> post_task (Task_rest i) (modify_op i (\<lambda>_. op) d)))"

definition add_op :: "win_op \<Rightarrow> win_dir \<Rightarrow> win_dir" where
  "add_op op d =
     (let i = length (wd_ops d); d = d\<lparr>wd_ops := wd_ops d @ [op], wd_queue := i # wd_queue d\<rparr>
      in if length (wd_queue d) = 1 then post_task (Task_start i) d else d)"

definition cancel_op_by_timeout :: "direction \<Rightarrow> nat \<Rightarrow> win_dir \<Rightarrow> win_dir" where
  "cancel_op_by_timeout sd i d =
     (if i \<notin> set (wd_queue d) then d
      else let d = modify_op i (op_set set_timeout_if_possible) d
           in if i = last (wd_queue d) then post_task (Task_cancel i) d
              else op_resolve sd i (d\<lparr>wd_queue := filter (\<lambda>j. j \<noteq> i) (wd_queue d)\<rparr>))"

definition pop_op :: "nat \<Rightarrow> win_dir \<Rightarrow> win_dir" where
  "pop_op i d =
     (if wd_queue d \<noteq> [] \<and> last (wd_queue d) = i
      then let d = d\<lparr>wd_queue := butlast (wd_queue d)\<rparr>
           in if wd_queue d \<noteq> [] then post_task (Task_start (last (wd_queue d))) d else d
      else d)"

definition set_results :: "(win_pipe_operation_res \<Rightarrow> win_pipe_operation_res) \<Rightarrow> win_dir \<Rightarrow> win_dir" where
  "set_results f d = fold (\<lambda>i. modify_op i (op_set f)) (wd_queue d) d"


section \<open>The endpoint\<close>

definition set_dir :: "direction \<Rightarrow> win_dir \<Rightarrow> win_endpoint \<Rightarrow> win_endpoint" where
  "set_dir sd d s = s\<lparr>we_dir := (we_dir s)(sd := d)\<rparr>"

definition start_op_timer ::
  "time_point \<Rightarrow> direction \<Rightarrow> nat option \<Rightarrow> win_endpoint \<Rightarrow> timer_id option \<times> win_endpoint"
where
  "start_op_timer now sd timeout s =
     (case timeout of
        None \<Rightarrow> (None, s)
      | Some ms \<Rightarrow>
          let (t, timer) = multiple_timer_start now (sd, length (wd_ops (we_dir s sd))) ms (we_timer s)
          in (Some t, s\<lparr>we_timer := timer\<rparr>))"

definition win_write_async ::
  "time_point \<Rightarrow> promise_id \<Rightarrow> bytes \<Rightarrow> nat option \<Rightarrow> win_endpoint \<Rightarrow> win_endpoint \<times> pipe_result completion list"
where
  "win_write_async now p msg timeout s =
     (if \<not> we_open s then (s, [(p, Written Op_failed)])
      else let (timer_id, s) = start_op_timer now Dir_write timeout s
           in (set_dir Dir_write (add_op (write_op_create p timer_id msg) (we_dir s Dir_write)) s, []))"

definition win_read_async ::
  "time_point \<Rightarrow> promise_id \<Rightarrow> nat option \<Rightarrow> win_endpoint \<Rightarrow> win_endpoint \<times> pipe_result completion list"
where
  "win_read_async now p timeout s =
     (if \<not> we_open s then (s, [(p, Read Op_failed None)])
      else let (timer_id, s) = start_op_timer now Dir_read timeout s
           in (set_dir Dir_read (add_op (read_op_create p timer_id) (we_dir s Dir_read)) s, []))"

definition invoke_disconnect_callbacks :: "win_endpoint \<Rightarrow> win_endpoint" where
  "invoke_disconnect_callbacks s = s\<lparr>we_executed := we_executed s @ we_callbacks s, we_callbacks := []\<rparr>"

definition invalidate_impl :: "bool \<Rightarrow> win_endpoint \<Rightarrow> win_endpoint" where
  "invalidate_impl by_cancel s =
     (if \<not> we_open s then s
      else
        let set_result = (if by_cancel then set_canceled_if_possible else set_failed_if_possible);
            s = set_dir Dir_write (set_results set_result (we_dir s Dir_write)) s;
            s = set_dir Dir_read (set_results set_result (we_dir s Dir_read)) s
        in invoke_disconnect_callbacks (s\<lparr>we_open := False\<rparr>))"

definition complete_op :: "direction \<Rightarrow> nat \<Rightarrow> win_endpoint \<Rightarrow> win_endpoint" where
  "complete_op sd i s =
     (let d = we_dir s sd;
          s = (if wd_queue d \<noteq> [] \<and> last (wd_queue d) = i
               then case wo_timer_id (wd_ops d ! i) of
                      None \<Rightarrow> s
                    | Some t \<Rightarrow> s\<lparr>we_timer := multiple_timer_cancel t (we_timer s)\<rparr>
               else s)
      in set_dir sd (pop_op i d) s)"

fun make_result :: "direction \<Rightarrow> win_pipe_operation_res \<Rightarrow> bytes option \<Rightarrow> pipe_result" where
  "make_result Dir_write r b = Written (to_pipe_op_res r)"
| "make_result Dir_read r b = Read (to_pipe_op_res r) b"

text \<open>The continuation of an operation: the last thing before the caller's promise is set.\<close>

definition run_then :: "direction \<Rightarrow> nat \<Rightarrow> win_endpoint \<Rightarrow> win_endpoint \<times> pipe_result completion list" where
  "run_then sd k s =
     (let d = we_dir s sd; (i, r, b) = wd_resolved d ! k;
          s = set_dir sd (d\<lparr>wd_resolved := drop_nth k (wd_resolved d)\<rparr>) s;
          s = (if r = Win_failed then invalidate_impl False s else s);
          s = complete_op sd i s
      in (s, [(wo_promise (wd_ops d ! i), make_result sd r b)]))"

datatype win_event =
    Win_write time_point promise_id bytes "nat option"
  | Win_read time_point promise_id "nat option"
  | Win_invalidate
  | Win_callback nat
  | Win_thread direction "bytes list" bool
  | Win_worker direction io_status bytes
  | Win_then direction nat
  | Win_timer_expire time_point timer_id
  | Win_timer_handler timer_id

fun win_step :: "win_endpoint \<Rightarrow> win_event \<Rightarrow> win_endpoint \<times> pipe_result completion list" where
  "win_step s (Win_write now p msg timeout) = win_write_async now p msg timeout s"
| "win_step s (Win_read now p timeout) = win_read_async now p timeout s"
| "win_step s Win_invalidate = (invalidate_impl True s, [])"
| "win_step s (Win_callback cb) = (win_set_disconnect_callback cb s, [])"
| "win_step s (Win_thread sd chunks err) = (set_dir sd (run_task sd (we_open s) chunks err (we_dir s sd)) s, [])"
| "win_step s (Win_worker sd status data) =
     (if io_possible sd (we_open s) status data (we_dir s sd)
      then set_dir sd (worker_step sd status data (we_dir s sd)) s else s, [])"
| "win_step s (Win_then sd k) = (if k < length (wd_resolved (we_dir s sd)) then run_then sd k s else (s, []))"
| "win_step s (Win_timer_expire now t) = (s\<lparr>we_timer := multiple_timer_expire now t (we_timer s)\<rparr>, [])"
| "win_step s (Win_timer_handler t) =
     (let (timer, cb) = multiple_timer_handler t (we_timer s); s = s\<lparr>we_timer := timer\<rparr>
      in (case cb of None \<Rightarrow> s | Some (sd, i) \<Rightarrow> set_dir sd (cancel_op_by_timeout sd i (we_dir s sd)) s, []))"


section \<open>Invariant of a direction\<close>

abbreviation res_of :: "win_dir \<Rightarrow> nat \<Rightarrow> win_pipe_operation_res" where
  "res_of d i \<equiv> wo_res (wd_ops d ! i)"

abbreviation got_of :: "win_dir \<Rightarrow> nat \<Rightarrow> nat" where
  "got_of d i \<equiv> wo_read_bytes (wd_ops d ! i)"

abbreviation promise_of :: "win_dir \<Rightarrow> nat \<Rightarrow> promise_id" where
  "promise_of d i \<equiv> wo_promise (wd_ops d ! i)"

fun task_starts :: "win_task list \<Rightarrow> nat list" where
  "task_starts [] = []"
| "task_starts (Task_start i # ts) = i # task_starts ts"
| "task_starts (Task_rest i # ts) = i # task_starts ts"
| "task_starts (Task_cancel i # ts) = task_starts ts"

lemma task_starts_append [simp]: "task_starts (ts @ us) = task_starts ts @ task_starts us"
  by (induction ts rule: task_starts.induct) simp_all

lemma task_starts_set: "Task_start i \<in> set ts \<or> Task_rest i \<in> set ts \<Longrightarrow> i \<in> set (task_starts ts)"
  by (induction ts rule: task_starts.induct) auto

definition active :: "win_dir \<Rightarrow> nat list" where
  "active d = wd_inflight d @ task_starts (wd_thread d)"

definition finished :: "win_dir \<Rightarrow> nat list" where
  "finished d = map fst (wd_resolved d)"

text \<open>
  A thread runs its tasks in order, so the task that cancels an operation never meets the I/O of
  another one: whatever is or will be in flight when it runs is that operation.
\<close>

fun cancels_ok :: "nat list \<Rightarrow> win_task list \<Rightarrow> bool" where
  "cancels_ok A [] = True"
| "cancels_ok A (Task_start i # ts) = cancels_ok (A @ [i]) ts"
| "cancels_ok A (Task_rest i # ts) = cancels_ok (A @ [i]) ts"
| "cancels_ok A (Task_cancel i # ts) = (set A \<subseteq> {i} \<and> cancels_ok A ts)"

lemma cancels_ok_mono: "cancels_ok B ts \<Longrightarrow> set A \<subseteq> set B \<Longrightarrow> cancels_ok A ts"
proof (induction B ts arbitrary: A rule: cancels_ok.induct)
  case (2 B i ts)
  then have "set (A @ [i]) \<subseteq> set (B @ [i])" by auto
  then show ?case using 2 by simp
next
  case (3 B i ts)
  then have "set (A @ [i]) \<subseteq> set (B @ [i])" by auto
  then show ?case using 3 by simp
qed auto

lemma cancels_ok_append:
  "cancels_ok A (ts @ us) \<longleftrightarrow> cancels_ok A ts \<and> cancels_ok (A @ task_starts ts) us"
  by (induction A ts rule: cancels_ok.induct) simp_all

definition results_ok :: "direction \<Rightarrow> bool \<Rightarrow> win_dir \<Rightarrow> bool" where
  "results_ok sd opened d \<longleftrightarrow>
     (opened \<or> (\<forall>i \<in> set (wd_queue d). res_of d i \<noteq> Win_unknown)) \<and>
     (\<forall>i. Task_cancel i \<in> set (wd_thread d) \<longrightarrow> i < length (wd_ops d) \<and> res_of d i \<noteq> Win_unknown) \<and>
     (wd_cancel_io d \<longrightarrow>
       (\<forall>i \<in> set (wd_inflight d). res_of d i \<noteq> Win_unknown \<and> (sd = Dir_read \<longrightarrow> got_of d i = 0))) \<and>
     (\<forall>i. i \<in> set (butlast (wd_queue d)) \<or> Task_start i \<in> set (wd_thread d) \<longrightarrow> got_of d i = 0) \<and>
     (\<forall>(i, r, b) \<in> set (wd_resolved d). r \<noteq> Win_unknown \<and>
       (sd = Dir_read \<and> opened \<and> r = Win_timeout \<longrightarrow> got_of d i = 0))"

lemma results_okD:
  assumes "results_ok sd opened d"
  shows "\<not> opened \<Longrightarrow> i \<in> set (wd_queue d) \<Longrightarrow> res_of d i \<noteq> Win_unknown"
    "Task_cancel i \<in> set (wd_thread d) \<Longrightarrow> i < length (wd_ops d)"
    "Task_cancel i \<in> set (wd_thread d) \<Longrightarrow> res_of d i \<noteq> Win_unknown"
    "wd_cancel_io d \<Longrightarrow> i \<in> set (wd_inflight d) \<Longrightarrow> res_of d i \<noteq> Win_unknown"
    "wd_cancel_io d \<Longrightarrow> i \<in> set (wd_inflight d) \<Longrightarrow> sd = Dir_read \<Longrightarrow> got_of d i = 0"
    "i \<in> set (butlast (wd_queue d)) \<or> Task_start i \<in> set (wd_thread d) \<Longrightarrow> got_of d i = 0"
    "(i, r, b) \<in> set (wd_resolved d) \<Longrightarrow> r \<noteq> Win_unknown"
    "(i, Win_timeout, b) \<in> set (wd_resolved d) \<Longrightarrow> sd = Dir_read \<Longrightarrow> opened \<Longrightarrow> got_of d i = 0"
  using assms unfolding results_ok_def by (blast, blast, blast, blast, blast, blast, blast, blast)

lemma results_okI:
  assumes "\<And>i. \<not> opened \<Longrightarrow> i \<in> set (wd_queue d) \<Longrightarrow> res_of d i \<noteq> Win_unknown"
    and "\<And>i. Task_cancel i \<in> set (wd_thread d) \<Longrightarrow> i < length (wd_ops d) \<and> res_of d i \<noteq> Win_unknown"
    and "\<And>i. wd_cancel_io d \<Longrightarrow> i \<in> set (wd_inflight d) \<Longrightarrow>
      res_of d i \<noteq> Win_unknown \<and> (sd = Dir_read \<longrightarrow> got_of d i = 0)"
    and "\<And>i. i \<in> set (butlast (wd_queue d)) \<or> Task_start i \<in> set (wd_thread d) \<Longrightarrow> got_of d i = 0"
    and "\<And>i r b. (i, r, b) \<in> set (wd_resolved d) \<Longrightarrow>
      r \<noteq> Win_unknown \<and> (sd = Dir_read \<and> opened \<and> r = Win_timeout \<longrightarrow> got_of d i = 0)"
  shows "results_ok sd opened d"
  using assms unfolding results_ok_def by blast

definition dir_inv :: "direction \<Rightarrow> bool \<Rightarrow> win_dir \<Rightarrow> bool" where
  "dir_inv sd opened d \<longleftrightarrow>
     op_queue_ok (wd_queue d) (active d) (finished d) \<and>
     (\<forall>i \<in> set (wd_queue d) \<union> set (finished d). i < length (wd_ops d)) \<and>
     cancels_ok (wd_inflight d) (wd_thread d) \<and> results_ok sd opened d"

definition dir_pending :: "win_dir \<Rightarrow> promise_id multiset" where
  "dir_pending d = image_mset (promise_of d) (queue_pending (wd_queue d) (active d) (finished d))"

lemma dir_inv_init: "dir_inv sd True win_dir_init"
  by (simp add: dir_inv_def win_dir_init_def active_def finished_def results_ok_def)

lemma dir_invD:
  assumes "dir_inv sd opened d"
  shows "op_queue_ok (wd_queue d) (active d) (finished d)" "i \<in> set (wd_queue d) \<Longrightarrow> i < length (wd_ops d)"
    "i \<in> set (finished d) \<Longrightarrow> i < length (wd_ops d)" "cancels_ok (wd_inflight d) (wd_thread d)"
    "results_ok sd opened d"
  using assms by (auto simp: dir_inv_def)

lemma active_in_queue: "dir_inv sd opened d \<Longrightarrow> i \<in> set (active d) \<Longrightarrow> i \<in> set (wd_queue d) \<and> active d = [i]"
  using dir_invD(1) [of sd opened d] by (auto simp: op_queue_ok_def split: if_splits)

lemma pending_bound:
  "dir_inv sd opened d \<Longrightarrow> i \<in># queue_pending (wd_queue d) (active d) (finished d) \<Longrightarrow> i < length (wd_ops d)"
  using active_in_queue [of sd opened d i] by (auto simp: queue_pending_def dir_inv_def dest: in_set_butlastD)

lemma dir_pending_same:
  assumes "dir_inv sd opened d" "\<And>j. j < length (wd_ops d) \<Longrightarrow> promise_of d' j = promise_of d j"
    and "queue_pending (wd_queue d') (active d') (finished d') = queue_pending (wd_queue d) (active d) (finished d)"
  shows "dir_pending d' = dir_pending d"
  unfolding dir_pending_def assms(3) by (rule image_mset_cong) (use assms(1,2) pending_bound in blast)

lemma modify_fields [simp]:
  "wd_queue (modify_op i f d) = wd_queue d" "wd_thread (modify_op i f d) = wd_thread d"
  "wd_inflight (modify_op i f d) = wd_inflight d" "wd_cancel_io (modify_op i f d) = wd_cancel_io d"
  "wd_resolved (modify_op i f d) = wd_resolved d" "length (wd_ops (modify_op i f d)) = length (wd_ops d)"
  "active (modify_op i f d) = active d" "finished (modify_op i f d) = finished d"
  by (simp_all add: modify_op_def active_def finished_def)

lemma modify_nth:
  "i < length (wd_ops d) \<Longrightarrow> wd_ops (modify_op i f d) ! j = (if j = i then f (wd_ops d ! i) else wd_ops d ! j)"
  by (simp add: modify_op_def nth_list_update)

lemma post_fields [simp]:
  "wd_queue (post_task t d) = wd_queue d" "wd_thread (post_task t d) = wd_thread d @ [t]"
  "wd_inflight (post_task t d) = wd_inflight d" "wd_cancel_io (post_task t d) = wd_cancel_io d"
  "wd_resolved (post_task t d) = wd_resolved d" "wd_ops (post_task t d) = wd_ops d"
  "active (post_task t d) = active d @ task_starts [t]" "finished (post_task t d) = finished d"
  by (simp_all add: post_task_def active_def finished_def)

lemma resolve_fields [simp]:
  "wd_queue (op_resolve sd i d) = wd_queue d" "wd_thread (op_resolve sd i d) = wd_thread d"
  "wd_inflight (op_resolve sd i d) = wd_inflight d" "wd_cancel_io (op_resolve sd i d) = wd_cancel_io d"
  "wd_ops (op_resolve sd i d) = wd_ops d"
  "wd_resolved (op_resolve sd i d) =
     wd_resolved d @ [(i, res_of d i, if sd = Dir_read then read_result (wd_ops d ! i) else None)]"
  "active (op_resolve sd i d) = active d" "finished (op_resolve sd i d) = finished d @ [i]"
  by (simp_all add: op_resolve_def active_def finished_def)

lemma op_set_fields [simp]:
  "wo_promise (op_set f op) = wo_promise op" "wo_read_bytes (op_set f op) = wo_read_bytes op"
  "wo_res (op_set f op) = f (wo_res op)" "wo_buffers (op_set f op) = wo_buffers op"
  by (simp_all add: op_set_def)


section \<open>Steps of a direction\<close>

text \<open>The operation at the back moves on; nothing else of the direction changes.\<close>

lemma moved_results:
  assumes inv: "dir_inv sd opened d0" and act: "active d0 = [i]"
    and same: "wd_queue d = wd_queue d0" "wd_resolved d = wd_resolved d0" "length (wd_ops d) = length (wd_ops d0)"
      "\<And>j. j \<noteq> i \<Longrightarrow> wd_ops d ! j = wd_ops d0 ! j"
    and res: "res_of d0 i \<noteq> Win_unknown \<Longrightarrow> res_of d i \<noteq> Win_unknown"
    and thread: "set (wd_thread d) \<subseteq> set (wd_thread d0) \<union> {Task_rest i}" "\<And>j. Task_start j \<notin> set (wd_thread d)"
    and cancel: "wd_cancel_io d \<Longrightarrow> wd_inflight d = []"
  shows "results_ok sd opened d"
proof -
  note r = results_okD [OF dir_invD(5) [OF inv]]
  have known: "res_of d0 j \<noteq> Win_unknown \<Longrightarrow> res_of d j \<noteq> Win_unknown" for j
    using res same(4) by (cases "j = i") auto
  have i: "i \<notin> set (butlast (wd_queue d0))" "i \<notin> fst ` set (wd_resolved d0)"
    using dir_invD(1) [OF inv] act by (auto simp: op_queue_ok_def finished_def)
  have got: "got_of d j = got_of d0 j" if "j \<in> set (butlast (wd_queue d0)) \<or> j \<in> fst ` set (wd_resolved d0)" for j
    using same(4) [of j] i that by (cases "j = i") auto
  show ?thesis
  proof (rule results_okI)
    fix j
    show "res_of d j \<noteq> Win_unknown" if "\<not> opened" "j \<in> set (wd_queue d)"
      using known r(1) [of j] same(1) that by simp
    show "j < length (wd_ops d) \<and> res_of d j \<noteq> Win_unknown" if "Task_cancel j \<in> set (wd_thread d)"
      using known r(2,3) [of j] thread(1) that same(3) by auto
    show "got_of d j = 0" if "j \<in> set (butlast (wd_queue d)) \<or> Task_start j \<in> set (wd_thread d)"
      using r(6) [of j] got [of j] thread(2) [of j] that same(1) by simp
    show "rr \<noteq> Win_unknown \<and> (sd = Dir_read \<and> opened \<and> rr = Win_timeout \<longrightarrow> got_of d j = 0)"
      if "(j, rr, b) \<in> set (wd_resolved d)" for rr b
    proof -
      have in0: "(j, rr, b) \<in> set (wd_resolved d0)" using that same(2) by simp
      then have "got_of d j = got_of d0 j" using got [of j] by force
      then show ?thesis using r(7) [OF in0] r(8) [of j b] in0 by auto
    qed
  qed (use cancel in auto)
qed

lemma finish_ok:
  assumes inv: "dir_inv sd opened d0" and act: "active d0 = [i]"
    and same: "wd_queue d = wd_queue d0" "wd_resolved d = wd_resolved d0" "length (wd_ops d) = length (wd_ops d0)"
      "\<And>j. j \<noteq> i \<Longrightarrow> wd_ops d ! j = wd_ops d0 ! j" "promise_of d i = promise_of d0 i"
    and res: "res_of d i \<noteq> Win_unknown"
    and got: "sd = Dir_read \<Longrightarrow> opened \<Longrightarrow> res_of d i = Win_timeout \<Longrightarrow> got_of d i = 0"
    and thread: "set (wd_thread d) \<subseteq> set (wd_thread d0)" "cancels_ok [] (wd_thread d)"
    and idle: "active d = []"
  shows "dir_inv sd opened (op_resolve sd i d)" "dir_pending (op_resolve sd i d) = dir_pending d0"
proof -
  have idle': "wd_inflight d = []" "task_starts (wd_thread d) = []" using idle by (simp_all add: active_def)
  then have none: "Task_start j \<notin> set (wd_thread d)" for j using task_starts_set [of j "wd_thread d"] by auto
  have fin: "finished d = finished d0" using same(2) by (simp add: finished_def)
  have "results_ok sd opened d"
    using moved_results [OF inv act same(1-4)] res thread(1) none idle' by blast
  then have r: "results_ok sd opened (op_resolve sd i d)"
    using res got by (auto simp: results_ok_def)
  note q = queue_finish [OF dir_invD(1) [OF inv] act]
  have "i \<in> set (wd_queue d0)" using active_in_queue [OF inv, of i] act by simp
  then show "dir_inv sd opened (op_resolve sd i d)"
    using q(1) r idle idle' same fin thread(2) inv by (auto simp: dir_inv_def)
  have "promise_of d j = promise_of d0 j" for j using same(4,5) by (cases "j = i") auto
  then show "dir_pending (op_resolve sd i d) = dir_pending d0"
    using dir_pending_same [OF inv, of "op_resolve sd i d"] q(2) same(1) idle fin by simp
qed

lemma moves_ok:
  assumes inv: "dir_inv sd opened d0" and act: "active d0 = [i]"
    and same: "wd_queue d = wd_queue d0" "wd_resolved d = wd_resolved d0" "length (wd_ops d) = length (wd_ops d0)"
      "\<And>j. j \<noteq> i \<Longrightarrow> wd_ops d ! j = wd_ops d0 ! j" "promise_of d i = promise_of d0 i"
    and res: "res_of d i = res_of d0 i"
    and thread: "set (wd_thread d) \<subseteq> set (wd_thread d0) \<union> {Task_rest i}" "\<And>j. Task_start j \<notin> set (wd_thread d)"
      "cancels_ok (wd_inflight d) (wd_thread d)"
    and act': "active d = [i]" and cancel: "wd_cancel_io d \<Longrightarrow> wd_inflight d = []"
  shows "dir_inv sd opened d" "dir_pending d = dir_pending d0"
proof -
  have fin: "finished d = finished d0" using same(2) by (simp add: finished_def)
  have "results_ok sd opened d"
    using moved_results [OF inv act same(1-4) _ thread(1,2) cancel] res by simp
  then show "dir_inv sd opened d" using inv same fin act act' thread(3) by (auto simp: dir_inv_def)
  have "promise_of d j = promise_of d0 j" for j using same(4,5) by (cases "j = i") auto
  then show "dir_pending d = dir_pending d0"
    using dir_pending_same [OF inv, of d] same(1) act act' fin by simp
qed

lemma read_start_fields:
  "wo_promise (fst (read_start chunks err op)) = wo_promise op \<and> wo_res (fst (read_start chunks err op)) = wo_res op"
  by (induction chunks err op rule: read_start.induct)
    (auto simp: Let_def add_buffer_chunk_def add_read_bytes_def fill_buffer_def split: option.splits)

lemma op_start_fields:
  "wo_promise (fst (op_start sd opened chunks err op)) = wo_promise op"
  "wo_res (fst (op_start sd opened chunks err op)) = wo_res op"
  by (simp_all add: op_start_def read_start_fields split: direction.split)

lemma op_start_async_ok:
  fixes chunks err
  assumes inv: "dir_inv sd opened d" and t: "wd_thread d = t # ts" "t = Task_start i \<or> t = Task_rest i"
  defines "d' \<equiv> op_start_async sd opened chunks err i (d\<lparr>wd_thread := ts\<rparr>)"
  shows "dir_inv sd opened d'" "dir_pending d' = dir_pending d"
proof -
  have "i \<in> set (active d)" using t by (auto simp: active_def)
  then have act: "i \<in> set (wd_queue d)" "active d = [i]" using active_in_queue [OF inv] by blast+
  then have i: "i < length (wd_ops d)" using dir_invD(2) [OF inv] by blast
  have idle: "wd_inflight d = []" "task_starts ts = []" using act(2) t by (auto simp: active_def append_eq_Cons_conv)
  have c: "cancels_ok [i] ts" using dir_invD(4) [OF inv] t idle by auto
  have none: "Task_start j \<notin> set ts" for j using idle(2) task_starts_set [of j ts] by auto
  obtain op ec where op: "op_start sd opened chunks err (wd_ops d ! i) = (op, ec)" by fastforce
  have f: "wo_promise op = promise_of d i" "wo_res op = res_of d i"
    using op_start_fields [of sd opened chunks err "wd_ops d ! i"] op by simp_all
  show "dir_inv sd opened d'" "dir_pending d' = dir_pending d"
  proof (atomize (full), cases ec)
    case True
    let ?d = "modify_op i (op_set set_failed_if_possible) (modify_op i (\<lambda>_. op) (d\<lparr>wd_thread := ts\<rparr>))"
    have "d' = op_resolve sd i ?d" using True op by (simp add: d'_def op_start_async_def set_and_resolve_def)
    moreover have "active ?d = []" using idle by (simp add: active_def)
    ultimately show "dir_inv sd opened d' \<and> dir_pending d' = dir_pending d"
      using finish_ok [OF inv act(2), of ?d] i f c t cancels_ok_mono [of "[i]" ts "[]"] by (auto simp: modify_nth)
  next
    case False
    let ?d = "(modify_op i (\<lambda>_. op) (d\<lparr>wd_thread := ts\<rparr>))\<lparr>wd_inflight := [i], wd_cancel_io := False\<rparr>"
    have "d' = ?d" using False op idle by (simp add: d'_def op_start_async_def)
    moreover have "active ?d = [i]" "cancels_ok (wd_inflight ?d) (wd_thread ?d)" using idle c by (simp_all add: active_def)
    moreover have "set (wd_thread ?d) \<subseteq> set (wd_thread d) \<union> {Task_rest i}" "Task_start j \<notin> set (wd_thread ?d)" for j
      using t none by auto
    moreover have "wd_ops ?d ! j = (if j = i then op else wd_ops d ! j)" for j using i by (simp add: modify_op_def nth_list_update)
    ultimately show "dir_inv sd opened d' \<and> dir_pending d' = dir_pending d"
      using moves_ok [OF inv act(2), of ?d] f by simp
  qed
qed

lemma op_cancel_ok:
  assumes inv: "dir_inv sd opened d" and t: "wd_thread d = Task_cancel i # ts"
  defines "d' \<equiv> op_cancel sd i (d\<lparr>wd_thread := ts\<rparr>)"
  shows "dir_inv sd opened d'" "dir_pending d' = dir_pending d"
proof -
  have f: "wd_ops d' = wd_ops d" "wd_queue d' = wd_queue d" "wd_thread d' = ts" "wd_inflight d' = wd_inflight d"
    "wd_resolved d' = wd_resolved d" "finished d' = finished d" "active d' = active d"
    using t by (simp_all add: d'_def op_cancel_def finished_def active_def)
  have c: "set (wd_inflight d) \<subseteq> {i}" "cancels_ok (wd_inflight d) ts" using dir_invD(4) [OF inv] t by simp_all
  note r = results_okD [OF dir_invD(5) [OF inv]]
  have io: "res_of d j \<noteq> Win_unknown \<and> (sd = Dir_read \<longrightarrow> got_of d j = 0)"
    if "wd_cancel_io d'" "j \<in> set (wd_inflight d)" for j
    using that c(1) r(3) [of i] r(4,5) [of j] t by (auto simp: d'_def op_cancel_def split: if_splits)
  have "results_ok sd opened d'"
    using r t io by (intro results_okI) (auto simp: f)
  then show "dir_inv sd opened d'" using inv c(2) by (simp add: dir_inv_def f)
  show "dir_pending d' = dir_pending d" by (simp add: dir_pending_def f)
qed

lemma run_task_ok:
  assumes inv: "dir_inv sd opened d"
  shows "dir_inv sd opened (run_task sd opened chunks err d) \<and> dir_pending (run_task sd opened chunks err d) = dir_pending d"
proof (cases "wd_thread d")
  case Nil
  then show ?thesis using inv by (simp add: run_task_def)
next
  case (Cons t ts)
  show ?thesis
  proof (cases t)
    case (Task_start i)
    have act: "i \<in> set (active d)" using Cons Task_start by (simp add: active_def)
    then have a: "i \<in> set (wd_queue d)" "active d = [i]" using active_in_queue [OF inv] by blast+
    then have idle: "wd_inflight d = []" "task_starts ts = []"
      using Cons Task_start by (auto simp: active_def append_eq_Cons_conv)
    let ?d = "d\<lparr>wd_thread := ts\<rparr>"
    have c: "cancels_ok [] ts"
      using dir_invD(4) [OF inv] Cons Task_start idle cancels_ok_mono [of "[i]" ts "[]"] by simp
    have "active ?d = []" using idle by (simp add: active_def)
    moreover have "got_of d i = 0" using results_okD(6) [OF dir_invD(5) [OF inv]] Cons Task_start by simp
    ultimately have "res_of d i \<noteq> Win_unknown \<Longrightarrow>
        dir_inv sd opened (op_resolve sd i ?d) \<and> dir_pending (op_resolve sd i ?d) = dir_pending d"
      using finish_ok [OF inv a(2), of ?d] c Cons by auto
    then show ?thesis
      using op_start_async_ok [OF inv Cons, of i chunks err] Cons Task_start by (simp add: run_task_def Let_def)
  next
    case (Task_rest i)
    then show ?thesis using op_start_async_ok [OF inv Cons, of i chunks err] Cons by (simp add: run_task_def)
  next
    case (Task_cancel i)
    then show ?thesis using op_cancel_ok [OF inv, of i ts] Cons by (simp add: run_task_def)
  qed
qed

lemma worker_read_fields:
  "worker_read status data op = Resolve_read op' \<Longrightarrow> wo_promise op' = wo_promise op"
  "worker_read status data op = Read_rest op' \<Longrightarrow> wo_promise op' = wo_promise op"
  "worker_read status data op = Read_rest op' \<Longrightarrow> wo_res op' = wo_res op"
  "worker_read status data op = Resolve_read op' \<Longrightarrow> status \<noteq> Io_aborted \<Longrightarrow>
     wo_res op' \<noteq> Win_unknown \<and> wo_res op' \<noteq> Win_timeout"
  "worker_read Io_aborted [] op = Resolve_read op' \<Longrightarrow> wo_res op' = wo_res op \<and> wo_read_bytes op' = wo_read_bytes op"
  by (auto simp: worker_read_def Let_def add_buffer_chunk_def add_read_bytes_def fill_buffer_def
      split: io_status.splits option.splits if_splits)

lemma worker_write_fields:
  "wo_promise (worker_write status op) = wo_promise op"
  "status \<noteq> Io_aborted \<or> wo_res op \<noteq> Win_unknown \<Longrightarrow> wo_res (worker_write status op) \<noteq> Win_unknown"
  by (auto simp: worker_write_def split: io_status.splits)

lemma worker_step_ok:
  assumes inv: "dir_inv sd opened d" and io: "io_possible sd opened status data d"
  shows "dir_inv sd opened (worker_step sd status data d) \<and> dir_pending (worker_step sd status data d) = dir_pending d"
proof -
  obtain i rest where "wd_inflight d = i # rest" using io by (auto simp: io_possible_def neq_Nil_conv)
  moreover from this have act: "i \<in> set (wd_queue d)" "active d = [i]"
    using active_in_queue [OF inv, of i] by (simp_all add: active_def)
  ultimately have fl: "wd_inflight d = [i]" "task_starts (wd_thread d) = []" by (simp_all add: active_def)
  then have none: "Task_start j \<notin> set (wd_thread d)" for j using task_starts_set [of j "wd_thread d"] by auto
  have i: "i < length (wd_ops d)" using dir_invD(2) [OF inv act(1)] .
  have c: "cancels_ok [] (wd_thread d)" using dir_invD(4) [OF inv] cancels_ok_mono [of "[i]" _ "[]"] fl by simp
  note r = results_okD [OF dir_invD(5) [OF inv]]
  have ab: "data = []" "res_of d i \<noteq> Win_unknown" "sd = Dir_read \<Longrightarrow> opened \<Longrightarrow> got_of d i = 0" if "status = Io_aborted"
    using io r(1,4,5) [of i] act(1) fl(1) that by (auto simp: io_possible_def)
  let ?d = "\<lambda>op. modify_op i (\<lambda>_. op) (d\<lparr>wd_inflight := []\<rparr>)"
  have nth: "wd_ops (?d op) ! j = (if j = i then op else wd_ops d ! j)" "active (?d op) = []" for op j
    using i fl by (simp_all add: modify_op_def nth_list_update active_def)
  have done_ok: "dir_inv sd opened (op_resolve sd i (?d op)) \<and> dir_pending (op_resolve sd i (?d op)) = dir_pending d"
    if "wo_promise op = promise_of d i" "wo_res op \<noteq> Win_unknown"
      "sd = Dir_read \<Longrightarrow> opened \<Longrightarrow> wo_res op = Win_timeout \<Longrightarrow> wo_read_bytes op = 0" for op
    using finish_ok [OF inv act(2), of "?d op"] nth c that by simp
  show ?thesis
  proof (cases sd)
    case Dir_write
    have "modify_op i (worker_write status) (d\<lparr>wd_inflight := []\<rparr>) = ?d (worker_write status (wd_ops d ! i))"
      by (simp add: modify_op_def)
    then show ?thesis
      using done_ok [of "worker_write status (wd_ops d ! i)"] Dir_write fl ab(2)
        worker_write_fields(1) [of status "wd_ops d ! i"] worker_write_fields(2) [of status "wd_ops d ! i"]
      by (auto simp: worker_step_def)
  next
    case Dir_read
    show ?thesis
    proof (cases "worker_read status data (wd_ops d ! i)")
      case (Resolve_read op)
      have "wo_res op \<noteq> Win_unknown \<and> (opened \<longrightarrow> wo_res op = Win_timeout \<longrightarrow> wo_read_bytes op = 0)"
        using worker_read_fields(4) [of status data "wd_ops d ! i" op] worker_read_fields(5) [of "wd_ops d ! i" op] Resolve_read ab Dir_read
        by (cases "status = Io_aborted") auto
      then show ?thesis
        using done_ok [of op] worker_read_fields(1) [OF Resolve_read] Resolve_read Dir_read fl by (auto simp: worker_step_def)
    next
      case (Read_rest op)
      let ?d' = "post_task (Task_rest i) (?d op)"
      have a: "active ?d' = [i]" "wd_inflight ?d' = []" "cancels_ok [] (wd_thread ?d')"
        using nth(2) [of op] c by (simp_all add: cancels_ok_append)
      have "worker_step sd status data d = ?d'" using Read_rest Dir_read fl by (simp add: worker_step_def)
      then show ?thesis
        using moves_ok [OF inv act(2), of ?d'] nth(1) worker_read_fields(2,3) [OF Read_rest] a none by auto
    qed
  qed
qed

lemma add_op_ok:
  assumes inv: "dir_inv sd True d" and op: "wo_res op = Win_unknown" "wo_read_bytes op = 0"
  shows "dir_inv sd True (add_op op d) \<and> dir_pending (add_op op d) = add_mset (wo_promise op) (dir_pending d)"
proof -
  let ?i = "length (wd_ops d)" and ?d = "add_op op d"
  let ?new = "if wd_queue d = [] then [Task_start ?i] else []"
  have f: "wd_ops ?d = wd_ops d @ [op]" "wd_queue ?d = ?i # wd_queue d" "wd_thread ?d = wd_thread d @ ?new"
    "wd_inflight ?d = wd_inflight d" "wd_cancel_io ?d = wd_cancel_io d" "wd_resolved ?d = wd_resolved d"
    "finished ?d = finished d" "active ?d = active d @ (if wd_queue d = [] then [?i] else [])"
    by (simp_all add: add_op_def Let_def post_task_def finished_def active_def)
  note b = dir_invD(2,3) [OF inv]
  have old: "wd_ops ?d ! j = wd_ops d ! j" if "j < ?i" for j using that by (simp add: f nth_append)
  have fresh: "?i \<notin> set (wd_queue d)" "?i \<notin> set (finished d)" using b [of ?i] by auto
  note q = queue_push [OF dir_invD(1) [OF inv] fresh]
  note r = results_okD [OF dir_invD(5) [OF inv]]
  have fl: "j < ?i" if "j \<in> set (wd_inflight d)" for j using active_in_queue [OF inv, of j] b(1) that by (auto simp: active_def)
  have st: "j < ?i" if "Task_start j \<in> set (wd_thread d)" for j
    using active_in_queue [OF inv, of j] b(1) that task_starts_set [of j "wd_thread d"] by (auto simp: active_def)
  have "results_ok sd True ?d"
  proof (rule results_okI)
    fix j
    show "j < length (wd_ops ?d) \<and> res_of ?d j \<noteq> Win_unknown" if "Task_cancel j \<in> set (wd_thread ?d)"
      using r(2,3) [of j] that old [of j] by (auto simp: f split: if_splits)
    show "res_of ?d j \<noteq> Win_unknown \<and> (sd = Dir_read \<longrightarrow> got_of ?d j = 0)"
      if "wd_cancel_io ?d" "j \<in> set (wd_inflight ?d)"
      using r(4,5) [of j] that old [of j] fl [of j] by (auto simp: f)
    show "got_of ?d j = 0" if "j \<in> set (butlast (wd_queue ?d)) \<or> Task_start j \<in> set (wd_thread ?d)"
    proof (cases "j = ?i")
      case True
      then show ?thesis by (simp add: f op(2))
    next
      case False
      then have "j \<in> set (butlast (wd_queue d)) \<or> Task_start j \<in> set (wd_thread d)"
        using that by (auto simp: f split: if_splits)
      then show ?thesis using r(6) [of j] old [of j] st [of j] b(1) [of j] by (auto dest: in_set_butlastD)
    qed
    show "rr \<noteq> Win_unknown \<and> (sd = Dir_read \<and> True \<and> rr = Win_timeout \<longrightarrow> got_of ?d j = 0)"
      if "(j, rr, x) \<in> set (wd_resolved ?d)" for rr x
    proof -
      have in0: "(j, rr, x) \<in> set (wd_resolved d)" using that by (simp add: f)
      then have "j < ?i" using b(2) [of j] by (force simp: finished_def)
      then show ?thesis using r(7) [OF in0] r(8) [of j x] in0 old [of j] by auto
    qed
  qed simp
  moreover have "cancels_ok (wd_inflight ?d) (wd_thread ?d)"
    using dir_invD(4) [OF inv] by (simp add: f cancels_ok_append)
  moreover have "j < length (wd_ops ?d)" if "j \<in> set (wd_queue ?d) \<union> set (finished ?d)" for j
    using b [of j] that by (auto simp: f)
  ultimately have "dir_inv sd True ?d" using q(1) by (simp add: dir_inv_def f)
  moreover have "image_mset (promise_of ?d) (queue_pending (wd_queue d) (active d) (finished d)) = dir_pending d"
    unfolding dir_pending_def by (rule image_mset_cong) (use pending_bound [OF inv] old in simp)
  then have "dir_pending ?d = add_mset (wo_promise op) (dir_pending d)"
    using q(2) by (simp add: dir_pending_def [of ?d]) (simp add: f)
  ultimately show ?thesis by blast
qed

lemma set_known_ok:
  assumes inv: "dir_inv sd opened d" and i: "i \<in> set (wd_queue d)" "f (res_of d i) \<noteq> Win_unknown"
  shows "dir_inv sd opened (modify_op i (op_set f) d)" "dir_pending (modify_op i (op_set f) d) = dir_pending d"
proof -
  note r = results_okD [OF dir_invD(5) [OF inv]]
  have l: "i < length (wd_ops d)" using dir_invD(2) [OF inv i(1)] .
  have n: "got_of (modify_op i (op_set f) d) j = got_of d j" "promise_of (modify_op i (op_set f) d) j = promise_of d j"
    "res_of d j \<noteq> Win_unknown \<Longrightarrow> res_of (modify_op i (op_set f) d) j \<noteq> Win_unknown" for j
    using i(2) by (simp_all add: modify_nth [OF l])
  have "results_ok sd opened (modify_op i (op_set f) d)"
    by (rule results_okI) (use r n in auto)
  then show "dir_inv sd opened (modify_op i (op_set f) d)" using inv by (simp add: dir_inv_def)
  show "dir_pending (modify_op i (op_set f) d) = dir_pending d" by (simp add: dir_pending_def n)
qed

lemma post_cancel_ok:
  assumes inv: "dir_inv sd opened d" and i: "i \<in> set (wd_queue d)" "i = last (wd_queue d)" "res_of d i \<noteq> Win_unknown"
  shows "dir_inv sd opened (post_task (Task_cancel i) d)" "dir_pending (post_task (Task_cancel i) d) = dir_pending d"
proof -
  note r = results_okD [OF dir_invD(5) [OF inv]]
  have l: "i < length (wd_ops d)" using dir_invD(2) [OF inv i(1)] .
  have "set (active d) \<subseteq> {i}" using dir_invD(1) [OF inv] i(2) by (auto simp: op_queue_ok_def split: if_splits)
  then have "cancels_ok (wd_inflight d) (wd_thread d @ [Task_cancel i])"
    using dir_invD(4) [OF inv] by (simp add: cancels_ok_append active_def)
  moreover have "results_ok sd opened (post_task (Task_cancel i) d)"
    by (rule results_okI) (use r i(3) l in auto)
  ultimately show "dir_inv sd opened (post_task (Task_cancel i) d)" using inv by (simp add: dir_inv_def)
  show "dir_pending (post_task (Task_cancel i) d) = dir_pending d" by (simp add: dir_pending_def)
qed

lemma drop_op_ok:
  assumes inv: "dir_inv sd opened d" and i: "i \<in> set (wd_queue d)" "i \<noteq> last (wd_queue d)" "res_of d i \<noteq> Win_unknown"
  defines "d' \<equiv> op_resolve sd i (d\<lparr>wd_queue := filter (\<lambda>j. j \<noteq> i) (wd_queue d)\<rparr>)"
  shows "dir_inv sd opened d'" "dir_pending d' = dir_pending d"
proof -
  have f: "wd_ops d' = wd_ops d" "wd_queue d' = filter (\<lambda>j. j \<noteq> i) (wd_queue d)" "wd_thread d' = wd_thread d"
    "wd_inflight d' = wd_inflight d" "wd_cancel_io d' = wd_cancel_io d" "finished d' = finished d @ [i]"
    "active d' = active d" "fst ` set (wd_resolved d') = insert i (fst ` set (wd_resolved d))"
    by (simp_all add: d'_def active_def finished_def)
  note r = results_okD [OF dir_invD(5) [OF inv]] and q = queue_drop [OF dir_invD(1) [OF inv] i(1,2)]
  have dist: "distinct (wd_queue d)" using dir_invD(1) [OF inv] by (simp add: op_queue_ok_def)
  have i0: "got_of d i = 0" using r(6) [of i] in_butlast_conv [OF dist] i by blast
  have bl: "j \<in> set (butlast (wd_queue d))" if "j \<in> set (butlast (wd_queue d'))" for j
    using that in_butlast_conv [OF dist] in_butlast_conv [OF distinct_filter [OF dist]] q(4) by (auto simp: f)
  have "results_ok sd opened d'"
  proof (rule results_okI)
    show "rr \<noteq> Win_unknown \<and> (sd = Dir_read \<and> opened \<and> rr = Win_timeout \<longrightarrow> got_of d' j = 0)"
      if "(j, rr, x) \<in> set (wd_resolved d')" for j rr x
    proof (cases "(j, rr, x) \<in> set (wd_resolved d)")
      case True
      then show ?thesis using r(7) [OF True] r(8) [of j x] by (auto simp: f)
    next
      case False
      then show ?thesis using that i(3) i0 by (simp add: d'_def)
    qed
    show "got_of d' j = 0" if "j \<in> set (butlast (wd_queue d')) \<or> Task_start j \<in> set (wd_thread d')" for j
      using r(6) [of j] bl [of j] that by (auto simp: f)
  qed (use r in \<open>auto simp: f\<close>)
  then show "dir_inv sd opened d'"
    using inv q(1) dir_invD(2) [OF inv i(1)] by (auto simp: dir_inv_def f)
  show "dir_pending d' = dir_pending d" using q(2) by (simp add: dir_pending_def f)
qed

lemma timeout_ok:
  assumes inv: "dir_inv sd opened d"
  shows "dir_inv sd opened (cancel_op_by_timeout sd i d) \<and> dir_pending (cancel_op_by_timeout sd i d) = dir_pending d"
proof (cases "i \<in> set (wd_queue d)")
  case True
  let ?d = "modify_op i (op_set set_timeout_if_possible) d"
  note d = set_known_ok [OF inv True, of set_timeout_if_possible]
  have known: "res_of ?d i \<noteq> Win_unknown" using dir_invD(2) [OF inv True] by (simp add: modify_nth)
  have q: "i \<in> set (wd_queue ?d)" using True by simp
  show ?thesis
  proof (cases "i = last (wd_queue ?d)")
    case last: True
    then have "cancel_op_by_timeout sd i d = post_task (Task_cancel i) ?d"
      using True unfolding cancel_op_by_timeout_def Let_def by presburger
    then show ?thesis using post_cancel_ok [OF d(1) q last known] d(2) by simp
  next
    case False
    then have "cancel_op_by_timeout sd i d = op_resolve sd i (?d\<lparr>wd_queue := filter (\<lambda>j. j \<noteq> i) (wd_queue ?d)\<rparr>)"
      using True unfolding cancel_op_by_timeout_def Let_def by presburger
    then show ?thesis using drop_op_ok [OF d(1) q False known] d(2) by simp
  qed
qed (use inv in \<open>simp add: cancel_op_by_timeout_def\<close>)

lemma set_results_fields [simp]:
  "wd_queue (set_results f d) = wd_queue d" "wd_thread (set_results f d) = wd_thread d"
  "wd_inflight (set_results f d) = wd_inflight d" "wd_cancel_io (set_results f d) = wd_cancel_io d"
  "wd_resolved (set_results f d) = wd_resolved d" "length (wd_ops (set_results f d)) = length (wd_ops d)"
  "active (set_results f d) = active d" "finished (set_results f d) = finished d"
proof -
  have "wd_queue (fold (\<lambda>i. modify_op i (op_set f)) xs d) = wd_queue d \<and>
    wd_thread (fold (\<lambda>i. modify_op i (op_set f)) xs d) = wd_thread d \<and>
    wd_inflight (fold (\<lambda>i. modify_op i (op_set f)) xs d) = wd_inflight d \<and>
    wd_cancel_io (fold (\<lambda>i. modify_op i (op_set f)) xs d) = wd_cancel_io d \<and>
    wd_resolved (fold (\<lambda>i. modify_op i (op_set f)) xs d) = wd_resolved d \<and>
    length (wd_ops (fold (\<lambda>i. modify_op i (op_set f)) xs d)) = length (wd_ops d)" for xs
    by (induction xs arbitrary: d) simp_all
  then show "wd_queue (set_results f d) = wd_queue d" "wd_thread (set_results f d) = wd_thread d"
    "wd_inflight (set_results f d) = wd_inflight d" "wd_cancel_io (set_results f d) = wd_cancel_io d"
    "wd_resolved (set_results f d) = wd_resolved d" "length (wd_ops (set_results f d)) = length (wd_ops d)"
    by (simp_all add: set_results_def)
  then show "active (set_results f d) = active d" "finished (set_results f d) = finished d"
    by (simp_all add: active_def finished_def)
qed

lemma fold_set_ok:
  assumes "dir_inv sd opened d" "\<And>r. f r \<noteq> Win_unknown" "set xs \<subseteq> set (wd_queue d)"
  defines "d' \<equiv> fold (\<lambda>i. modify_op i (op_set f)) xs d"
  shows "dir_inv sd opened d' \<and> dir_pending d' = dir_pending d \<and> (\<forall>i. promise_of d' i = promise_of d i) \<and>
    (\<forall>i. res_of d i \<noteq> Win_unknown \<or> i \<in> set xs \<longrightarrow> res_of d' i \<noteq> Win_unknown)"
  using assms(1,3) unfolding d'_def
proof (induction xs arbitrary: d)
  case (Cons i xs)
  let ?d = "modify_op i (op_set f) d"
  have q: "i \<in> set (wd_queue d)" "set xs \<subseteq> set (wd_queue ?d)" using Cons.prems(2) by simp_all
  note d = set_known_ok [OF Cons.prems(1) q(1), of f, OF assms(2)]
  have n: "promise_of ?d j = promise_of d j" "res_of d j \<noteq> Win_unknown \<or> j = i \<longrightarrow> res_of ?d j \<noteq> Win_unknown" for j
    using assms(2) dir_invD(2) [OF Cons.prems(1) q(1)] by (simp_all add: modify_nth)
  note ih = Cons.IH [OF d(1) q(2)]
  have "\<forall>j. res_of d j \<noteq> Win_unknown \<or> j \<in> set (i # xs) \<longrightarrow>
      res_of (fold (\<lambda>i. modify_op i (op_set f)) xs ?d) j \<noteq> Win_unknown"
    using ih n(2) by (metis set_ConsD)
  then show ?case using ih d(2) n(1) by simp
qed simp

lemma close_ok:
  assumes "dir_inv sd opened d" "\<And>r. f r \<noteq> Win_unknown"
  shows "dir_inv sd False (set_results f d)" "dir_pending (set_results f d) = dir_pending d"
    "promise_of (set_results f d) i = promise_of d i"
proof -
  note f = fold_set_ok [where f = f, OF assms(1) assms(2) subset_refl, folded set_results_def]
  note r = results_okD [OF dir_invD(5), of sd opened "set_results f d"]
  have "results_ok sd False (set_results f d)"
    by (rule results_okI) (use f r in auto)
  then show "dir_inv sd False (set_results f d)" using f by (simp add: dir_inv_def)
  show "dir_pending (set_results f d) = dir_pending d" "promise_of (set_results f d) i = promise_of d i"
    using f by blast+
qed

lemma pop_op_fields:
  "wd_ops (pop_op i d) = wd_ops d" "wd_queue (pop_op i d) = fst (queue_next i (wd_queue d))"
  "wd_thread (pop_op i d) = wd_thread d @ map Task_start (snd (queue_next i (wd_queue d)))"
  "wd_inflight (pop_op i d) = wd_inflight d" "wd_cancel_io (pop_op i d) = wd_cancel_io d"
  "wd_resolved (pop_op i d) = wd_resolved d"
  by (auto simp: pop_op_def queue_next_def Let_def)

lemma task_starts_map [simp]: "task_starts (map Task_start xs) = xs"
  by (induction xs) simp_all

lemma cancels_ok_starts: "cancels_ok A (map Task_start xs)"
  by (induction xs arbitrary: A) simp_all

lemma queue_next_waiting: "j \<in> set (snd (queue_next i xs)) \<Longrightarrow> j \<in> set (butlast xs)"
  by (auto simp: queue_next_def split: if_splits)

lemma queue_next_butlast: "j \<in> set (butlast (fst (queue_next i xs))) \<Longrightarrow> j \<in> set (butlast xs)"
  by (auto simp: queue_next_def split: if_splits dest: in_set_butlastD)

lemma queue_next_subset: "j \<in> set (fst (queue_next i xs)) \<Longrightarrow> j \<in> set xs"
  by (auto simp: queue_next_def split: if_splits dest: in_set_butlastD)

lemma then_ok:
  assumes inv: "dir_inv sd opened d" and k: "k < length (wd_resolved d)" "i = fst (wd_resolved d ! k)"
  defines "d' \<equiv> pop_op i (d\<lparr>wd_resolved := drop_nth k (wd_resolved d)\<rparr>)"
  shows "dir_inv sd opened d'" "add_mset (promise_of d i) (dir_pending d') = dir_pending d"
proof -
  let ?xs = "fst (queue_next i (wd_queue d))" and ?new = "snd (queue_next i (wd_queue d))"
  have f: "wd_ops d' = wd_ops d" "wd_queue d' = ?xs" "wd_thread d' = wd_thread d @ map Task_start ?new"
    "wd_inflight d' = wd_inflight d" "wd_cancel_io d' = wd_cancel_io d" "wd_resolved d' = drop_nth k (wd_resolved d)"
    "active d' = active d @ ?new"
    by (simp_all add: d'_def pop_op_fields active_def)
  have m: "mset (wd_resolved d) = add_mset (wd_resolved d ! k) (mset (wd_resolved d'))"
    using mset_drop_nth [OF k(1)] by (simp add: f)
  then have mf: "mset (finished d) = add_mset i (mset (finished d'))" by (simp add: finished_def k(2))
  have sub: "set (wd_resolved d') \<subseteq> set (wd_resolved d)" "set (finished d') \<subseteq> set (finished d)"
    using m mf by (metis mset_eq_setD set_mset_add_mset_insert set_mset_mset subset_insertI)+
  note q = queue_continue [OF dir_invD(1) [OF inv] mf] and r = results_okD [OF dir_invD(5) [OF inv]]
  have "results_ok sd opened d'"
  proof (rule results_okI)
    show "rr \<noteq> Win_unknown \<and> (sd = Dir_read \<and> opened \<and> rr = Win_timeout \<longrightarrow> got_of d' j = 0)"
      if "(j, rr, x) \<in> set (wd_resolved d')" for j rr x
      using r(7) [of j rr x] r(8) [of j x] sub(1) that by (auto simp: f(1))
    show "got_of d' j = 0" if "j \<in> set (butlast (wd_queue d')) \<or> Task_start j \<in> set (wd_thread d')" for j
      using r(6) [of j] that queue_next_waiting [of j i "wd_queue d"] queue_next_butlast [of j i "wd_queue d"]
      by (auto simp: f)
  qed (use r queue_next_subset [of _ i "wd_queue d"] in \<open>auto simp: f\<close>)
  moreover have "cancels_ok (wd_inflight d') (wd_thread d')"
    using dir_invD(4) [OF inv] cancels_ok_starts by (simp add: f cancels_ok_append)
  moreover have "j < length (wd_ops d')" if "j \<in> set (wd_queue d') \<union> set (finished d')" for j
    using dir_invD(2,3) [OF inv, of j] that sub(2) queue_next_subset [of j i "wd_queue d"] by (auto simp: f)
  ultimately show "dir_inv sd opened d'" using q(1) by (simp add: dir_inv_def f)
  show "add_mset (promise_of d i) (dir_pending d') = dir_pending d"
    unfolding dir_pending_def q(2) [symmetric] by (simp add: f)
qed


section \<open>The endpoint as a completion system\<close>

definition win_inv :: "win_endpoint \<Rightarrow> bool" where
  "win_inv s \<longleftrightarrow> dir_inv Dir_write (we_open s) (we_dir s Dir_write) \<and> dir_inv Dir_read (we_open s) (we_dir s Dir_read)"

definition win_pending :: "win_endpoint \<Rightarrow> promise_id multiset" where
  "win_pending s = dir_pending (we_dir s Dir_write) + dir_pending (we_dir s Dir_read)"

fun win_opened :: "win_endpoint \<Rightarrow> win_event \<Rightarrow> promise_id multiset" where
  "win_opened s (Win_write now p msg timeout) = {#p#}"
| "win_opened s (Win_read now p timeout) = {#p#}"
| "win_opened s e = {#}"

lemma win_inv_create: "win_inv win_create"
  by (simp add: win_inv_def win_create_def dir_inv_init)

lemma win_invD: "win_inv s \<Longrightarrow> dir_inv sd (we_open s) (we_dir s sd)"
  by (cases sd) (simp_all add: win_inv_def)

lemma set_dir_fields [simp]:
  "we_open (set_dir sd d s) = we_open s" "we_dir (set_dir sd d s) = (we_dir s)(sd := d)"
  "we_callbacks (set_dir sd d s) = we_callbacks s" "we_executed (set_dir sd d s) = we_executed s"
  "we_timer (set_dir sd d s) = we_timer s"
  by (simp_all add: set_dir_def)

lemma set_dir_ok:
  assumes "win_inv s" "dir_inv sd (we_open s) d" "dir_pending d + A = dir_pending (we_dir s sd) + B"
  shows "win_inv (set_dir sd d s)" "win_pending (set_dir sd d s) + A = win_pending s + B"
  using assms by (cases sd; simp add: win_inv_def win_pending_def union_assoc union_commute union_lcomm)+

lemma timer_ok [simp]: "win_inv (s\<lparr>we_timer := t\<rparr>) = win_inv s" "win_pending (s\<lparr>we_timer := t\<rparr>) = win_pending s"
  by (simp_all add: win_inv_def win_pending_def)

lemma set_results_resolved: "set_results f (d\<lparr>wd_resolved := x\<rparr>) = (set_results f d)\<lparr>wd_resolved := x\<rparr>"
proof -
  have "fold (\<lambda>i. modify_op i (op_set f)) xs (d\<lparr>wd_resolved := x\<rparr>) =
    (fold (\<lambda>i. modify_op i (op_set f)) xs d)\<lparr>wd_resolved := x\<rparr>" for xs
  proof (induction xs arbitrary: d)
    case (Cons i xs)
    have "modify_op i (op_set f) (d\<lparr>wd_resolved := x\<rparr>) = (modify_op i (op_set f) d)\<lparr>wd_resolved := x\<rparr>"
      by (simp add: modify_op_def)
    then show ?case using Cons.IH by simp
  qed simp
  then show ?thesis by (simp add: set_results_def)
qed

lemma invalidate_fields:
  "we_open (invalidate_impl b s) = False"
  "we_dir (invalidate_impl b s) sd =
     (if we_open s then set_results (if b then set_canceled_if_possible else set_failed_if_possible) (we_dir s sd)
      else we_dir s sd)"
  by (cases sd; simp add: invalidate_impl_def invoke_disconnect_callbacks_def Let_def)+

lemma invalidate_ok:
  assumes "win_inv s"
  shows "win_inv (invalidate_impl b s)" "win_pending (invalidate_impl b s) = win_pending s"
proof -
  let ?f = "if b then set_canceled_if_possible else set_failed_if_possible"
  have known: "?f r \<noteq> Win_unknown" for r by simp
  note c = close_ok [where f = ?f, OF win_invD [OF assms] known]
  have "dir_inv sd False (we_dir (invalidate_impl b s) sd)" for sd
    using c(1) [of sd] win_invD [OF assms, of sd] by (cases "we_open s") (simp_all add: invalidate_fields)
  then show "win_inv (invalidate_impl b s)" by (simp add: win_inv_def invalidate_fields(1))
  show "win_pending (invalidate_impl b s) = win_pending s"
    using c(2) by (simp add: win_pending_def invalidate_fields(2))
qed

lemma complete_op_fields:
  "we_open (complete_op sd i s) = we_open s" "we_dir (complete_op sd i s) = (we_dir s)(sd := pop_op i (we_dir s sd))"
  by (simp_all add: complete_op_def Let_def split: option.split)

lemma start_timer_fields:
  "we_open (snd (start_op_timer now sd t s)) = we_open s" "we_dir (snd (start_op_timer now sd t s)) = we_dir s"
  "win_inv (snd (start_op_timer now sd t s)) = win_inv s" "win_pending (snd (start_op_timer now sd t s)) = win_pending s"
  by (simp_all add: start_op_timer_def case_prod_beta split: option.split)

lemma run_then_ok:
  assumes inv: "win_inv s" and k: "k < length (wd_resolved (we_dir s sd))"
  shows "win_inv (fst (run_then sd k s))"
    "win_pending (fst (run_then sd k s)) + mset (map fst (snd (run_then sd k s))) = win_pending s"
    "we_open (fst (run_then sd k s)) \<Longrightarrow> we_open s"
proof -
  obtain i r b where irb: "wd_resolved (we_dir s sd) ! k = (i, r, b)" by (metis prod_cases3)
  define s1 where "s1 = (if r = Win_failed then invalidate_impl False s else s)"
  have s1: "win_inv s1" "win_pending s1 = win_pending s" using inv invalidate_ok by (simp_all add: s1_def)
  have res: "wd_resolved (we_dir s1 sd) = wd_resolved (we_dir s sd)"
    by (simp add: s1_def invalidate_fields)
  have prom: "promise_of (we_dir s1 sd) i = promise_of (we_dir s sd) i"
    using close_ok(3) [OF win_invD [OF inv, of sd], of set_failed_if_possible i] by (simp add: s1_def invalidate_fields)
  let ?s = "fst (run_then sd k s)"
  let ?d = "pop_op i ((we_dir s1 sd)\<lparr>wd_resolved := drop_nth k (wd_resolved (we_dir s1 sd))\<rparr>)"
  have s': "we_open ?s = we_open s1" "we_dir ?s = (we_dir s1)(sd := ?d)"
    "snd (run_then sd k s) = [(promise_of (we_dir s sd) i, make_result sd r b)]"
    using irb res by (auto simp: run_then_def Let_def s1_def complete_op_fields invalidate_fields set_results_resolved fun_eq_iff)
  have k': "k < length (wd_resolved (we_dir s1 sd))" "i = fst (wd_resolved (we_dir s1 sd) ! k)" using k irb res by simp_all
  note t = then_ok [OF win_invD [OF s1(1), of sd] k']
  have "dir_pending ?d + {#promise_of (we_dir s sd) i#} = dir_pending (we_dir s1 sd) + {#}" using t(2) prom by simp
  note o = set_dir_ok [OF s1(1) t(1) this]
  show "win_inv ?s" using o(1) s' by (simp add: win_inv_def)
  show "win_pending ?s + mset (map fst (snd (run_then sd k s))) = win_pending s"
    using o(2) s1(2) s' by (simp add: win_pending_def)
  show "we_open ?s \<Longrightarrow> we_open s" using s'(1) by (simp add: s1_def invalidate_fields split: if_splits)
qed

lemma new_op_ok:
  assumes inv: "win_inv s" "we_open s" and op: "wo_res op = Win_unknown" "wo_read_bytes op = 0"
  shows "win_inv (set_dir sd (add_op op (we_dir s sd)) s)"
    "win_pending (set_dir sd (add_op op (we_dir s sd)) s) = win_pending s + {#wo_promise op#}"
proof -
  have d: "dir_inv sd True (we_dir s sd)" using win_invD [OF inv(1), of sd] inv(2) by simp
  note a = add_op_ok [OF d op]
  have "dir_pending (add_op op (we_dir s sd)) + {#} = dir_pending (we_dir s sd) + {#wo_promise op#}" using a by simp
  from set_dir_ok [OF inv(1) _ this] a inv(2)
  show "win_inv (set_dir sd (add_op op (we_dir s sd)) s)"
    "win_pending (set_dir sd (add_op op (we_dir s sd)) s) = win_pending s + {#wo_promise op#}" by simp_all
qed

lemma same_dir_ok:
  assumes "win_inv s" "dir_inv sd (we_open s) d \<and> dir_pending d = dir_pending (we_dir s sd)"
  shows "win_inv (set_dir sd d s) \<and> win_pending (set_dir sd d s) = win_pending s"
  using set_dir_ok [OF assms(1), of sd d "{#}" "{#}"] assms(2) by simp

lemma win_step_ok:
  assumes inv: "win_inv s"
  shows "win_inv (fst (win_step s e)) \<and>
    win_pending (fst (win_step s e)) + mset (map fst (snd (win_step s e))) = win_pending s + win_opened s e"
proof (cases e)
  case (Win_write now p msg timeout)
  then show ?thesis
    using inv new_op_ok [of "snd (start_op_timer now Dir_write timeout s)" "write_op_create p t msg" Dir_write for t]
    by (auto simp: win_write_async_def start_timer_fields write_op_create_def case_prod_beta)
next
  case (Win_read now p timeout)
  then show ?thesis
    using inv new_op_ok [of "snd (start_op_timer now Dir_read timeout s)" "read_op_create p t" Dir_read for t]
    by (auto simp: win_read_async_def start_timer_fields read_op_create_def case_prod_beta)
next
  case Win_invalidate
  then show ?thesis using invalidate_ok [OF inv] by simp
next
  case (Win_callback cb)
  then show ?thesis using inv by (cases "we_open s") (simp_all add: win_set_disconnect_callback_def win_inv_def win_pending_def)
next
  case (Win_thread sd chunks err)
  then show ?thesis using same_dir_ok [OF inv run_task_ok [OF win_invD [OF inv]]] by simp
next
  case (Win_worker sd status data)
  then show ?thesis using inv same_dir_ok [OF inv worker_step_ok [OF win_invD [OF inv]], of sd status data] by simp
next
  case (Win_then sd k)
  then show ?thesis using inv run_then_ok [OF inv, of k sd] by simp
next
  case (Win_timer_expire now t)
  then show ?thesis using inv by simp
next
  case (Win_timer_handler t)
  let ?s = "s\<lparr>we_timer := fst (multiple_timer_handler t (we_timer s))\<rparr>"
  have s: "win_inv ?s" using inv by simp
  show ?thesis
    using s inv same_dir_ok [OF s timeout_ok [OF win_invD [OF s]]] Win_timer_handler
    by (auto simp: case_prod_beta Let_def split: option.splits)
qed

interpretation win: completion_system win_step win_inv win_pending win_opened
  by unfold_locales (use win_step_ok in blast)+

text \<open>The promises of the calls, in order.\<close>

fun win_calls :: "win_event list \<Rightarrow> promise_id list" where
  "win_calls [] = []"
| "win_calls (Win_write now p msg timeout # es) = p # win_calls es"
| "win_calls (Win_read now p timeout # es) = p # win_calls es"
| "win_calls (e # es) = win_calls es"

lemma win_opened_run: "run_opened win_step win_opened s es = mset (win_calls es)"
  by (induction es arbitrary: s rule: win_calls.induct) simp_all

definition dir_idle :: "win_dir \<Rightarrow> bool" where
  "dir_idle d \<longleftrightarrow> wd_thread d = [] \<and> wd_inflight d = [] \<and> wd_resolved d = []"

lemma idle_pending: "dir_inv sd opened d \<Longrightarrow> dir_idle d \<Longrightarrow> dir_pending d = {#} \<and> wd_queue d = []"
  by (auto simp: dir_inv_def dir_idle_def dir_pending_def queue_pending_def op_queue_ok_def active_def finished_def
      split: if_splits)


section \<open>Results that are decided\<close>

text \<open>An operation can only end with one of the results \<open>R\<close>: its own result and those already handed over.\<close>

definition decided :: "win_pipe_operation_res set \<Rightarrow> nat \<Rightarrow> win_dir \<Rightarrow> bool" where
  "decided R i d \<longleftrightarrow>
     i < length (wd_ops d) \<and> res_of d i \<in> R \<and> (\<forall>r b. (i, r, b) \<in> set (wd_resolved d) \<longrightarrow> r \<in> R)"

definition stable_results :: "win_pipe_operation_res set \<Rightarrow> bool" where
  "stable_results R \<longleftrightarrow> Win_success \<in> R \<and>
     (\<forall>r \<in> R. set_canceled_if_possible r \<in> R \<and> set_timeout_if_possible r \<in> R \<and> set_failed_if_possible r \<in> R)"

lemma stable_canceled: "stable_results {Win_success, Win_canceled}"
  by (simp add: stable_results_def set_canceled_if_possible_def set_timeout_if_possible_def set_failed_if_possible_def)

lemma stable_failed: "stable_results {Win_success, Win_failed}"
  by (simp add: stable_results_def set_canceled_if_possible_def set_timeout_if_possible_def set_failed_if_possible_def)

lemma decided_modify:
  "decided R i d \<Longrightarrow> (wo_res (wd_ops d ! j) \<in> R \<Longrightarrow> wo_res (f (wd_ops d ! j)) \<in> R) \<Longrightarrow> decided R i (modify_op j f d)"
  by (cases "j = i") (auto simp: decided_def modify_op_def)

lemma decided_resolve: "decided R i d \<Longrightarrow> decided R i (op_resolve sd j d)"
  by (auto simp: decided_def)

lemma decided_other:
  "decided R i d \<Longrightarrow> decided R i (post_task t d)" "decided R i d \<Longrightarrow> decided R i (d\<lparr>wd_queue := xs\<rparr>)"
  "decided R i d \<Longrightarrow> decided R i (d\<lparr>wd_thread := ts\<rparr>)" "decided R i d \<Longrightarrow> decided R i (d\<lparr>wd_inflight := fl\<rparr>)"
  "decided R i d \<Longrightarrow> decided R i (d\<lparr>wd_inflight := fl, wd_cancel_io := c\<rparr>)"
  "decided R i d \<Longrightarrow> decided R i (d\<lparr>wd_cancel_io := c\<rparr>)"
  "decided R i d \<Longrightarrow> set rs \<subseteq> set (wd_resolved d) \<Longrightarrow> decided R i (d\<lparr>wd_resolved := rs\<rparr>)"
  by (auto simp: decided_def)

lemmas decided_intros = decided_modify decided_resolve decided_other

lemma decided_run_task:
  assumes "stable_results R" "decided R i d"
  shows "decided R i (run_task sd opened chunks err d)"
proof -
  have start: "decided R i (op_start_async sd opened chunks err j d')" if "decided R i d'" for d' j
    using assms(1) that op_start_fields(2) [of sd opened chunks err "wd_ops d' ! j"]
    by (auto simp: op_start_async_def set_and_resolve_def stable_results_def case_prod_beta Let_def
        intro!: decided_intros)
  show ?thesis using assms(2)
    by (auto simp: run_task_def op_cancel_def Let_def split: list.split win_task.split intro!: decided_intros start)
qed

lemma worker_res:
  assumes "stable_results R" "wo_res op \<in> R"
  shows "wo_res (worker_write status op) \<in> R" "worker_read status data op = Resolve_read op' \<Longrightarrow> wo_res op' \<in> R"
    "worker_read status data op = Read_rest op' \<Longrightarrow> wo_res op' \<in> R"
  using assms by (auto simp: worker_write_def worker_read_def stable_results_def set_success_def Let_def
      add_buffer_chunk_def add_read_bytes_def fill_buffer_def split: io_status.splits option.splits if_splits)

lemma decided_worker:
  assumes "stable_results R" "decided R i d"
  shows "decided R i (worker_step sd status data d)"
proof -
  define j where "j = hd (wd_inflight d)"
  define d1 where "d1 = d\<lparr>wd_inflight := tl (wd_inflight d)\<rparr>"
  have d1: "decided R i d1" using decided_other(4) [OF assms(2)] by (simp add: d1_def)
  note w = worker_res [OF assms(1), of "wd_ops d1 ! j"]
  show ?thesis
  proof (cases sd)
    case Dir_write
    have "decided R i (modify_op j (worker_write status) d1)" by (rule decided_modify [OF d1]) (rule w(1))
    then show ?thesis using Dir_write by (simp add: worker_step_def Let_def j_def d1_def decided_resolve)
  next
    case Dir_read
    show ?thesis
    proof (cases "worker_read status data (wd_ops d1 ! j)")
      case (Resolve_read op)
      have "decided R i (modify_op j (\<lambda>_. op) d1)" by (rule decided_modify [OF d1]) (rule w(2) [OF _ Resolve_read])
      then show ?thesis using Dir_read Resolve_read by (simp add: worker_step_def Let_def j_def d1_def decided_resolve)
    next
      case (Read_rest op)
      have "decided R i (modify_op j (\<lambda>_. op) d1)" by (rule decided_modify [OF d1]) (rule w(3) [OF _ Read_rest])
      then show ?thesis using Dir_read Read_rest by (simp add: worker_step_def Let_def j_def d1_def decided_other)
    qed
  qed
qed

lemma decided_timeout: "stable_results R \<Longrightarrow> decided R i d \<Longrightarrow> decided R i (cancel_op_by_timeout sd j d)"
  by (auto simp: cancel_op_by_timeout_def Let_def stable_results_def intro!: decided_intros)

lemma decided_pop: "decided R i d \<Longrightarrow> decided R i (pop_op j d)"
  by (auto simp: pop_op_def Let_def intro!: decided_intros)

lemma decided_add: "decided R i d \<Longrightarrow> decided R i (add_op op d)"
  by (auto simp: add_op_def Let_def decided_def nth_append post_task_def)

lemma decided_set_results:
  assumes "stable_results R" "f \<in> {set_canceled_if_possible, set_failed_if_possible}" "decided R i d"
  shows "decided R i (set_results f d)"
proof -
  have "decided R i (fold (\<lambda>i. modify_op i (op_set f)) xs d)" for xs
    using assms(3)
  proof (induction xs arbitrary: d)
    case (Cons j xs)
    have "decided R i (modify_op j (op_set f) d)"
      using assms(1,2) Cons.prems by (auto simp: stable_results_def intro!: decided_modify)
    then show ?case using Cons.IH by simp
  qed simp
  then show ?thesis by (simp add: set_results_def)
qed

abbreviation promises :: "win_dir \<Rightarrow> promise_id list" where
  "promises d \<equiv> map wo_promise (wd_ops d)"

lemma promises_modify: "wo_promise (f (wd_ops d ! i)) = promise_of d i \<Longrightarrow> promises (modify_op i f d) = promises d"
  by (cases "i < length (wd_ops d)")
    (simp_all add: modify_op_def map_update list_update_beyond, metis list_update_id nth_map)

lemma promises_run_task: "promises (run_task sd opened chunks err d) = promises d"
proof -
  have "promises (op_start_async sd opened chunks err j d') = promises d'" for j d'
    using op_start_fields(1) [of sd opened chunks err "wd_ops d' ! j"]
    by (auto simp: op_start_async_def set_and_resolve_def Let_def case_prod_beta promises_modify)
  then show ?thesis by (simp add: run_task_def op_cancel_def Let_def split: list.split win_task.split)
qed

lemma promises_worker: "promises (worker_step sd status data d) = promises d"
  by (auto simp: worker_step_def Let_def promises_modify worker_write_fields worker_read_fields
      split: direction.split read_next.split)

lemma promises_timeout: "promises (cancel_op_by_timeout sd i d) = promises d"
  by (simp add: cancel_op_by_timeout_def Let_def promises_modify)

lemma promises_set_results: "promises (set_results f d) = promises d"
proof -
  have "promises (fold (\<lambda>i. modify_op i (op_set f)) xs d) = promises d" for xs
    by (induction xs arbitrary: d) (simp_all add: promises_modify)
  then show ?thesis by (simp add: set_results_def)
qed

text \<open>Every operation of the promise is decided.\<close>

definition settled :: "win_pipe_operation_res set \<Rightarrow> promise_id \<Rightarrow> win_endpoint \<Rightarrow> bool" where
  "settled R p s \<longleftrightarrow> (\<forall>sd i. i < length (wd_ops (we_dir s sd)) \<and> promise_of (we_dir s sd) i = p \<longrightarrow> decided R i (we_dir s sd))"

lemma settled_set_dir:
  assumes "settled R p s" "promises d = promises (we_dir s sd)" "\<And>i. decided R i (we_dir s sd) \<Longrightarrow> decided R i d"
  shows "settled R p (set_dir sd d s)"
proof -
  have l: "length (wd_ops d) = length (wd_ops (we_dir s sd))" using assms(2) by (rule map_eq_imp_length_eq)
  have "promise_of d i = promise_of (we_dir s sd) i" if "i < length (wd_ops d)" for i
    using arg_cong [OF assms(2), of "\<lambda>xs. xs ! i"] l that by simp
  then show ?thesis using assms(1,3) l by (auto simp: settled_def)
qed

lemma settled_add:
  assumes "settled R p s" "wo_promise op \<noteq> p"
  shows "settled R p (set_dir sd (add_op op (we_dir s sd)) s)"
proof -
  have "decided R i (add_op op (we_dir s sd))"
    if "i < length (wd_ops (add_op op (we_dir s sd)))" "promise_of (add_op op (we_dir s sd)) i = p" for i
    using assms that decided_add [of R i "we_dir s sd" op]
    by (auto simp: settled_def add_op_def Let_def nth_append less_Suc_eq split: if_splits)
  then show ?thesis using assms(1) by (auto simp: settled_def)
qed

lemma settled_timer [simp]: "settled R p (s\<lparr>we_timer := t\<rparr>) = settled R p s"
  by (simp add: settled_def)

lemma settled_cong: "we_dir s' = we_dir s \<Longrightarrow> settled R p s' = settled R p s"
  by (simp add: settled_def)

lemma settled_invalidate:
  assumes "stable_results R" "settled R p s"
  shows "settled R p (invalidate_impl b s)"
proof (cases "we_open s")
  case True
  let ?f = "if b then set_canceled_if_possible else set_failed_if_possible"
  have f: "?f \<in> {set_canceled_if_possible, set_failed_if_possible}" by simp
  let ?s = "\<lambda>sd s. set_dir sd (set_results ?f (we_dir s sd)) s"
  have step: "settled R p (?s sd s)" if "settled R p s" for sd s
    using that by (rule settled_set_dir [OF _ promises_set_results decided_set_results [OF assms(1) f]])
  have "settled R p (?s Dir_read (?s Dir_write s))" using step assms(2) by blast
  then show ?thesis
    by (rule iffD1 [OF settled_cong, rotated]) (rule ext, rename_tac sd, case_tac sd; simp add: invalidate_fields True)
next
  case False
  then show ?thesis using assms(2) by (simp add: invalidate_impl_def)
qed

lemma settled_then:
  assumes R: "stable_results R" and s: "settled R p s" and inv: "win_inv s"
    and k: "k < length (wd_resolved (we_dir s sd))"
  shows "settled R p (fst (run_then sd k s))" "(p, r) \<in> set (snd (run_then sd k s)) \<Longrightarrow> op_res r \<in> to_pipe_op_res ` R"
proof -
  obtain i x b where ixb: "wd_resolved (we_dir s sd) ! k = (i, x, b)" by (metis prod_cases3)
  let ?d = "(we_dir s sd)\<lparr>wd_resolved := drop_nth k (wd_resolved (we_dir s sd))\<rparr>"
  have sub: "set (drop_nth k (wd_resolved (we_dir s sd))) \<subseteq> set (wd_resolved (we_dir s sd))"
    by (auto simp: drop_nth_def dest: in_set_takeD in_set_dropD)
  have "settled R p (set_dir sd ?d s)" by (rule settled_set_dir [OF s]) (simp_all add: decided_other(7) [OF _ sub])
  then have "settled R p (if x = Win_failed then invalidate_impl False (set_dir sd ?d s) else set_dir sd ?d s)" (is "settled R p ?s")
    using settled_invalidate [OF R] by simp
  then have "settled R p (set_dir sd (pop_op i (we_dir ?s sd)) ?s)"
    by (rule settled_set_dir) (auto simp: pop_op_fields decided_pop)
  then have "settled R p (complete_op sd i ?s)"
    by (rule iffD1 [OF settled_cong, rotated]) (simp add: complete_op_fields)
  then show "settled R p (fst (run_then sd k s))" using ixb by (simp add: run_then_def Let_def)
  have "i \<in> set (finished (we_dir s sd))" using ixb k by (force simp: finished_def in_set_conv_nth)
  then have i: "i < length (wd_ops (we_dir s sd))" using dir_invD(3) [OF win_invD [OF inv]] by blast
  assume out: "(p, r) \<in> set (snd (run_then sd k s))"
  then have "promise_of (we_dir s sd) i = p" "r = make_result sd x b" using ixb by (auto simp: run_then_def Let_def)
  moreover from this have "x \<in> R" using s i ixb k nth_mem [OF k] by (auto simp: settled_def decided_def)
  ultimately show "op_res r \<in> to_pipe_op_res ` R" by (cases sd) auto
qed

lemma settled_step:
  assumes R: "stable_results R" and s: "settled R p s" and inv: "win_inv s" and e: "p \<notin> set (win_calls [e])"
  shows "settled R p (fst (win_step s e)) \<and> ((p, r) \<in> set (snd (win_step s e)) \<longrightarrow> op_res r \<in> to_pipe_op_res ` R)"
proof (cases e)
  case (Win_write now q msg timeout)
  let ?s = "snd (start_op_timer now Dir_write timeout s)"
  have "settled R p ?s" using settled_cong [OF start_timer_fields(2)] s by blast
  then have "settled R p (set_dir Dir_write (add_op (write_op_create q t msg) (we_dir ?s Dir_write)) ?s)" for t
    using settled_add e Win_write by (simp add: write_op_create_def)
  then show ?thesis using s e Win_write by (auto simp: win_write_async_def case_prod_beta)
next
  case (Win_read now q timeout)
  let ?s = "snd (start_op_timer now Dir_read timeout s)"
  have "settled R p ?s" using settled_cong [OF start_timer_fields(2)] s by blast
  then have "settled R p (set_dir Dir_read (add_op (read_op_create q t) (we_dir ?s Dir_read)) ?s)" for t
    using settled_add e Win_read by (simp add: read_op_create_def)
  then show ?thesis using s e Win_read by (auto simp: win_read_async_def case_prod_beta)
next
  case Win_invalidate
  then show ?thesis using settled_invalidate [OF R s] by simp
next
  case (Win_callback cb)
  then show ?thesis using s by (simp add: win_set_disconnect_callback_def settled_def)
next
  case (Win_thread sd chunks err)
  then show ?thesis using settled_set_dir [OF s promises_run_task decided_run_task [OF R]] by simp
next
  case (Win_worker sd status data)
  then show ?thesis using s settled_set_dir [OF s promises_worker decided_worker [OF R]] by simp
next
  case (Win_then sd k)
  then show ?thesis using s settled_then [OF R s inv] by auto
next
  case (Win_timer_expire now t)
  then show ?thesis using s by simp
next
  case (Win_timer_handler t)
  let ?s = "s\<lparr>we_timer := fst (multiple_timer_handler t (we_timer s))\<rparr>"
  have "settled R p (set_dir sd (cancel_op_by_timeout sd i (we_dir ?s sd)) ?s)" for sd i
    by (rule settled_set_dir [OF _ promises_timeout decided_timeout [OF R]]) (use s in simp_all)
  then show ?thesis using s Win_timer_handler by (auto simp: case_prod_beta Let_def split: option.splits)
qed

lemma win_calls_Cons: "set (win_calls (e # es)) = set (win_calls [e]) \<union> set (win_calls es)"
  by (cases e) auto

lemma settled_run:
  assumes "stable_results R" "settled R p s" "win_inv s" "p \<notin> set (win_calls es)" "(p, r) \<in> set (run_output win_step s es)"
  shows "op_res r \<in> to_pipe_op_res ` R"
  using assms(2-)
proof (induction es arbitrary: s)
  case (Cons e es)
  have c: "p \<notin> set (win_calls [e])" "p \<notin> set (win_calls es)" using Cons.prems(3) unfolding win_calls_Cons [of e es] by blast+
  note st = settled_step [OF assms(1) Cons.prems(1,2) c(1), of r]
  have inv: "win_inv (fst (win_step s e))" using win_step_ok [OF Cons.prems(2)] by (rule conjunct1)
  consider "(p, r) \<in> set (snd (win_step s e))" | "(p, r) \<in> set (run_output win_step (fst (win_step s e)) es)"
    using Cons.prems(4) by auto
  then show ?case
  proof cases
    case 1
    then show ?thesis using st by simp
  next
    case 2
    show ?thesis by (rule Cons.IH [OF conjunct1 [OF st] inv c(2) 2])
  qed
qed simp


section \<open>Properties\<close>

lemma win_reachable: "win_inv (run_state win_step win_create es)"
  using win_inv_create by (rule win.inv_run)

text \<open>
  C30: Every read and write of a Windows pipe endpoint completes exactly once, whatever the order in which its
  threads, the completion port, the timer, invalidation and the loss of the connection act: no
  promise is set twice or without a call, and once the threads have no task, no I/O is in flight
  and the continuations have run, every call is answered.
\<close>

theorem win_endpoint_exactly_once:
  fixes es
  defines "out \<equiv> map fst (run_output win_step win_create es)" and "s \<equiv> run_state win_step win_create es"
  assumes "distinct (win_calls es)"
  shows "distinct out \<and> set out \<subseteq> set (win_calls es) \<and>
    (dir_idle (we_dir s Dir_write) \<and> dir_idle (we_dir s Dir_read) \<longrightarrow> set out = set (win_calls es))"
proof -
  have none: "win_pending win_create = {#}"
    by (simp add: win_pending_def win_create_def dir_pending_def win_dir_init_def queue_pending_def active_def finished_def)
  then have all: "win_pending s + mset out = mset (win_calls es)"
    using win.conserve_run [OF win_inv_create, of es] by (simp add: out_def s_def win_opened_run)
  have "distinct out"
    unfolding out_def
    by (rule win.completed_at_most_once [OF win_inv_create])
      (use assms(3) in \<open>simp add: none win_opened_run distinct_count_atmost_1\<close>)
  moreover have "set out \<subseteq> set (win_calls es)"
    using all by (metis set_mset_mset set_mset_mono mset_subset_eq_add_right)
  moreover have "set out = set (win_calls es)" if "dir_idle (we_dir s Dir_write)" "dir_idle (we_dir s Dir_read)"
  proof -
    have "win_pending s = {#}"
      using idle_pending [OF win_invD [OF win_reachable]] that by (simp add: win_pending_def s_def)
    then show ?thesis using all by (metis empty_neutral(1) mset_eq_setD)
  qed
  ultimately show ?thesis by blast
qed

text \<open>
  A write succeeds; a second write times out behind it and a read is aborted when the pipe is invalidated.
\<close>

definition win_session :: "win_event list" where
  "win_session =
     [Win_write 0 10 [1, 2] None, Win_write 0 11 [3] (Some 5), Win_read 0 12 None,
      Win_thread Dir_write [] False, Win_timer_expire 5 0, Win_timer_handler 0, Win_thread Dir_read [] False,
      Win_worker Dir_write Io_success [], Win_invalidate, Win_worker Dir_read Io_aborted [],
      Win_then Dir_write 0, Win_then Dir_write 0, Win_then Dir_read 0]"

lemmas win_session_simps =
  win_session_def win_create_def win_dir_init_def win_write_async_def win_read_async_def start_op_timer_def
  multiple_timer_init_def multiple_timer_start_def multiple_timer_expire_def multiple_timer_handler_def set_dir_def
  add_op_def write_op_create_def read_op_create_def post_task_def run_task_def op_start_async_def op_start_def
  modify_op_def cancel_op_by_timeout_def op_set_def set_timeout_if_possible_def op_resolve_def io_possible_def
  worker_step_def worker_write_def set_success_def invalidate_impl_def set_results_def set_canceled_if_possible_def
  invoke_disconnect_callbacks_def worker_read_def add_read_bytes_def fill_buffer_def run_then_def complete_op_def
  pop_op_def drop_nth_def read_result_def dir_idle_def

theorem win_endpoint_exactly_once_witness:
  "set (map fst (run_output win_step win_create win_session)) = {10, 11, 12} \<and>
   map (\<lambda>(p, r). (p, op_res r)) (run_output win_step win_create win_session) =
     [(11, Op_timeout), (10, Op_success), (12, Op_canceled)]"
proof -
  let ?s = "run_state win_step win_create win_session"
  have "dir_idle (we_dir ?s Dir_write)" "dir_idle (we_dir ?s Dir_read)" "win_calls win_session = [10, 11, 12]"
    by (simp_all add: win_session_simps)
  then have "set (map fst (run_output win_step win_create win_session)) = {10, 11, 12}"
    using win_endpoint_exactly_once [of win_session] by simp
  moreover have "map (\<lambda>(p, r). (p, op_res r)) (run_output win_step win_create win_session) =
     [(11, Op_timeout), (10, Op_success), (12, Op_canceled)]" by (simp add: win_session_simps)
  ultimately show ?thesis by blast
qed

lemma fold_set_nth:
  "i < length (wd_ops d) \<Longrightarrow> distinct xs \<Longrightarrow>
   wd_ops (fold (\<lambda>i. modify_op i (op_set f)) xs d) ! i = (if i \<in> set xs then op_set f (wd_ops d ! i) else wd_ops d ! i)"
proof (induction xs arbitrary: d)
  case (Cons a xs)
  then show ?case by (cases "a = i") (auto simp: modify_op_def)
qed simp

lemma invalidate_decides:
  fixes b
  assumes inv: "win_inv s" "we_open s" and i: "i \<in> set (wd_queue (we_dir s sd))" "i \<notin> set (finished (we_dir s sd))"
  defines "f \<equiv> if b then set_canceled_if_possible else set_failed_if_possible"
  shows "f (res_of (we_dir s sd) i) \<in> R \<Longrightarrow> decided R i (we_dir (invalidate_impl b s) sd)"
proof -
  have l: "i < length (wd_ops (we_dir s sd))" using dir_invD(2) [OF win_invD [OF inv(1)] i(1)] .
  have d: "distinct (wd_queue (we_dir s sd))" using dir_invD(1) [OF win_invD [OF inv(1)]] by (simp add: op_queue_ok_def)
  have "res_of (we_dir (invalidate_impl b s) sd) i = f (res_of (we_dir s sd) i)"
    using fold_set_nth [OF l d, of f] i(1) inv(2) by (simp add: invalidate_fields set_results_def f_def)
  moreover have "(i, r, x) \<notin> set (wd_resolved (we_dir (invalidate_impl b s) sd))" for r x
    using i(2) by (auto simp: finished_def invalidate_fields(2) image_iff)
  moreover have "i < length (wd_ops (we_dir (invalidate_impl b s) sd))" using l by (simp add: invalidate_fields)
  ultimately show "f (res_of (we_dir s sd) i) \<in> R \<Longrightarrow> decided R i (we_dir (invalidate_impl b s) sd)"
    by (simp add: decided_def)
qed

text \<open>
  The end of the connection decides the operations that wait in a Windows pipe endpoint.  After \<open>invalidate\<close> an
  operation without a result is cancelled, and after the loss of the connection it fails,
  even if its timer had already run out; only a transfer that the operating system reports as
  finished is still a success.  New operations fail at once.
\<close>

theorem win_endpoint_invalidated:
  fixes es by_cancel
  defines "s \<equiv> run_state win_step win_create es" and "s' \<equiv> invalidate_impl by_cancel (run_state win_step win_create es)"
  assumes "we_open s" "i \<in> set (wd_queue (we_dir s sd))" "i \<notin> set (finished (we_dir s sd))"
    and "res_of (we_dir s sd) i = Win_unknown \<or> \<not> by_cancel \<and> res_of (we_dir s sd) i = Win_timeout"
    and "\<forall>sd' j. j < length (wd_ops (we_dir s sd')) \<and> promise_of (we_dir s sd') j = p \<longrightarrow> sd' = sd \<and> j = i"
    and "p \<notin> set (win_calls es')" "(p, r) \<in> set (run_output win_step s' es')"
  shows "op_res r \<in> {Op_success, if by_cancel then Op_canceled else Op_failed} \<and>
    snd (win_step s' (Win_read now q t)) = [(q, Read Op_failed None)] \<and>
    snd (win_step s' (Win_write now q msg t)) = [(q, Written Op_failed)]"
proof -
  let ?R = "{Win_success, if by_cancel then Win_canceled else Win_failed}"
  have inv: "win_inv s" unfolding s_def by (rule win_reachable)
  have "decided ?R i (we_dir s' sd)"
    unfolding s'_def s_def [symmetric]
    by (rule invalidate_decides [OF inv assms(3-5)])
      (use assms(6) in \<open>auto simp: set_canceled_if_possible_def set_failed_if_possible_def\<close>)
  moreover have "length (wd_ops (we_dir s' sd')) = length (wd_ops (we_dir s sd'))"
    "promise_of (we_dir s' sd') j = promise_of (we_dir s sd') j" for sd' j
    using close_ok(3) [OF win_invD [OF inv, of sd'], of set_canceled_if_possible j]
      close_ok(3) [OF win_invD [OF inv, of sd'], of set_failed_if_possible j]
    by (simp_all add: s'_def s_def [symmetric] invalidate_fields)
  ultimately have "settled ?R p s'" using assms(7) by (auto simp: settled_def)
  moreover have "win_inv s'" unfolding s'_def s_def [symmetric] using inv by (rule invalidate_ok)
  moreover have "stable_results ?R" using stable_canceled stable_failed by simp
  ultimately have "op_res r \<in> to_pipe_op_res ` ?R" using settled_run assms(8,9) by blast
  moreover have "\<not> we_open s'" by (simp add: s'_def invalidate_fields)
  ultimately show ?thesis by (auto simp: win_read_async_def win_write_async_def split: if_splits)
qed

theorem win_endpoint_invalidated_witness:
  "op_res (Read Op_canceled None) \<in> {Op_success, Op_canceled} \<and>
   (12, Read Op_canceled None) \<in>
     set (run_output win_step (invalidate_impl True (run_state win_step win_create (take 8 win_session))) (drop 9 win_session))"
proof -
  let ?s = "run_state win_step win_create (take 8 win_session)"
  have "we_open ?s" "wd_queue (we_dir ?s Dir_read) = [0]" "finished (we_dir ?s Dir_read) = []"
    "res_of (we_dir ?s Dir_read) 0 = Win_unknown" "win_calls (drop 9 win_session) = []"
    "promises (we_dir ?s Dir_read) = [12]" "promises (we_dir ?s Dir_write) = [10, 11]"
    and out: "(12, Read Op_canceled None) \<in> set (run_output win_step (invalidate_impl True ?s) (drop 9 win_session))"
    by (simp_all add: win_session_simps finished_def)
  moreover have "sd' = Dir_read \<and> j = 0" if "j < length (wd_ops (we_dir ?s sd'))" "promise_of (we_dir ?s sd') j = 12" for sd' j
    using calculation(6,7) that nth_map [of j "wd_ops (we_dir ?s sd')" wo_promise]
      map_eq_imp_length_eq [of wo_promise "wd_ops (we_dir ?s sd')" id "[12]"]
    by (cases sd') (auto simp: less_Suc_eq numeral_2_eq_2 dest: arg_cong [where f = length])
  ultimately show ?thesis
    using win_endpoint_invalidated [of "take 8 win_session" 0 Dir_read True 12 "drop 9 win_session" "Read Op_canceled None"]
    by simp
qed

text \<open>
  C31: An operation of a Windows pipe is never resolved without a result, so the assertion of \<open>resolve\<close> holds, and a
  read that times out on an open pipe has not taken a single byte: the start of a
  message is not lost with it, because a read that has begun a message is never cancelled.
\<close>

theorem win_timeout_loses_nothing:
  fixes es
  defines "s \<equiv> run_state win_step win_create es"
  assumes "(i, r, b) \<in> set (wd_resolved (we_dir s sd))"
  shows "r \<noteq> Win_unknown \<and> (sd = Dir_read \<and> we_open s \<and> r = Win_timeout \<longrightarrow> wo_read_bytes (wd_ops (we_dir s sd) ! i) = 0)"
proof -
  have "results_ok sd (we_open s) (we_dir s sd)"
    unfolding s_def by (rule dir_invD(5) [OF win_invD [OF win_reachable]])
  then show ?thesis using results_okD(7) [of sd _ _ i r b] results_okD(8) [of sd _ _ i b] assms(2) by auto
qed

definition win_read_timeout :: "win_event list" where
  "win_read_timeout =
     [Win_read 0 1 (Some 3), Win_thread Dir_read [] False, Win_timer_expire 3 0, Win_timer_handler 0,
      Win_thread Dir_read [] False, Win_worker Dir_read Io_aborted []]"

theorem win_timeout_loses_nothing_witness:
  "let s = run_state win_step win_create win_read_timeout in
   wd_resolved (we_dir s Dir_read) = [(0, Win_timeout, None)] \<and> wo_read_bytes (wd_ops (we_dir s Dir_read) ! 0) = 0"
proof -
  let ?s = "run_state win_step win_create win_read_timeout"
  have "wd_resolved (we_dir ?s Dir_read) = [(0, Win_timeout, None)]" "we_open ?s"
    by (simp_all add: win_session_simps win_read_timeout_def op_cancel_def)
  then show ?thesis using win_timeout_loses_nothing [of 0 Win_timeout None win_read_timeout Dir_read] by simp
qed



section \<open>Reading a message\<close>

text \<open>
  The events by which the operating system hands a message to the read that is about to start.  An entry of \<open>ks\<close> is how many
  calls of \<open>ReadFile\<close> in one \<open>start\<close> end at once with \<open>ERROR_MORE_DATA\<close>; the call after them ends with a packet, for
  the rest of the message or for as much as the buffer takes.  Without an entry all calls end with packets.
\<close>

function os_read :: "nat list \<Rightarrow> bytes \<Rightarrow> win_endpoint \<Rightarrow> win_event list" where
  "os_read ks left s =
     (let d = we_dir s Dir_read;
          chunks = sync_chunks (case ks of [] \<Rightarrow> 0 | k # _ \<Rightarrow> k) left (wd_ops d ! hd (task_starts (wd_thread d)));
          start = Win_thread Dir_read chunks False;
          s = fst (win_step s start); d = we_dir s Dir_read;
          left = drop (length (concat chunks)) left;
          n = length (last (wo_buffers (wd_ops d ! hd (wd_inflight d))))
      in if wd_inflight d = [] then [start]
         else if n = 0 \<or> length left \<le> n then [start, Win_worker Dir_read Io_success left]
         else let more = Win_worker Dir_read Io_more_data (take n left); s = fst (win_step s more)
              in start # more # (if wd_thread (we_dir s Dir_read) = [] then [] else os_read (tl ks) (drop n left) s))"
  by auto
termination
proof (relation "measure (\<lambda>(ks, left, s). length left)", goal_cases)
  case (2 ks left s d chunks start s' d' left' n more s'')
  have "length (drop n left') < length left" if "n \<noteq> 0" "\<not> length left' \<le> n"
    using that unfolding 2(6) by (simp add: less_diff_conv)
  then show ?case using 2(9) by simp
qed simp

declare os_read.simps [simp del]

text \<open>A read that has \<open>got\<close> the first bytes of a message and waits for the thread, or for a packet.\<close>

definition reading :: "nat \<Rightarrow> bytes \<Rightarrow> win_endpoint \<Rightarrow> bool" where
  "reading i got s \<longleftrightarrow>
     (let d = we_dir s Dir_read
      in we_open s \<and> i < length (wd_ops d) \<and> wd_resolved d = [] \<and> read_inv got (wd_ops d ! i) \<and> res_of d i = Win_unknown)"

definition to_start :: "nat \<Rightarrow> win_endpoint \<Rightarrow> bool" where
  "to_start i s \<longleftrightarrow>
     wd_inflight (we_dir s Dir_read) = [] \<and>
     (wd_thread (we_dir s Dir_read) = [Task_start i] \<or> wd_thread (we_dir s Dir_read) = [Task_rest i])"

definition started :: "nat \<Rightarrow> win_endpoint \<Rightarrow> bool" where
  "started i s \<longleftrightarrow> wd_inflight (we_dir s Dir_read) = [i] \<and> wd_thread (we_dir s Dir_read) = []"

text \<open>The read has ended with the result it must have for the whole message.\<close>

definition read_ended :: "nat \<Rightarrow> bytes \<Rightarrow> win_endpoint \<Rightarrow> bool" where
  "read_ended i msg s \<longleftrightarrow>
     wd_inflight (we_dir s Dir_read) = [] \<and> wd_thread (we_dir s Dir_read) = [] \<and> i < length (wd_ops (we_dir s Dir_read)) \<and>
     wd_resolved (we_dir s Dir_read) = [(i, if length msg \<le> max_size then (Win_success, Some msg) else (Win_failed, None))]"

lemma start_step:
  fixes s i k left
  assumes r: "reading i got s" "to_start i s"
  defines "chunks \<equiv> sync_chunks k left (wd_ops (we_dir s Dir_read) ! i)"
  defines "s' \<equiv> fst (win_step s (Win_thread Dir_read chunks False))"
  shows "promise_of (we_dir s' Dir_read) i = promise_of (we_dir s Dir_read) i \<and>
    (read_ended i (got @ left) s' \<or>
     started i s' \<and> left = concat chunks @ drop (length (concat chunks)) left \<and> reading i (got @ concat chunks) s')"
proof -
  let ?d = "we_dir s Dir_read" and ?op = "wd_ops (we_dir s Dir_read) ! i"
  obtain op' ec where st: "read_start chunks False ?op = (op', ec)" by fastforce
  have inv: "read_inv got ?op" "res_of ?d i = Win_unknown" "we_open s" "i < length (wd_ops ?d)" "wd_resolved ?d = []" "wd_inflight ?d = []"
    using r by (simp_all add: reading_def to_start_def Let_def)
  note sync = read_start_sync [OF inv(1), where k = k and left = left, folded chunks_def, unfolded st, simplified]
  have "s' = set_dir Dir_read (op_start_async Dir_read True chunks False i (?d\<lparr>wd_thread := []\<rparr>)) s"
    using r inv by (auto simp: s'_def run_task_def to_start_def Let_def)
  then have d': "we_dir s' Dir_read = op_start_async Dir_read True chunks False i (?d\<lparr>wd_thread := []\<rparr>)" "we_open s' = we_open s"
    by simp_all
  show ?thesis
  proof (cases ec)
    case True
    then have "read_ended i (got @ left) s'"
      using sync inv d' st
      by (auto simp: read_ended_def op_start_async_def op_start_def set_and_resolve_def op_resolve_def modify_op_def op_set_def
          set_failed_if_possible_def read_result_def)
    moreover have "promise_of (we_dir s' Dir_read) i = promise_of ?d i"
      using True sync inv d' st by (simp add: op_start_async_def op_start_def set_and_resolve_def op_resolve_def modify_op_def op_set_def)
    ultimately show ?thesis by blast
  next
    case False
    then have "left = concat chunks @ drop (length (concat chunks)) left" using sync by (metis append_eq_conv_conj)
    then show ?thesis using False sync inv d' st
      by (simp add: started_def reading_def op_start_async_def op_start_def modify_op_def)
  qed
qed

lemma success_step:
  fixes s left
  assumes r: "reading i got s" "started i s" and n: "length left \<le> length (last (wo_buffers (wd_ops (we_dir s Dir_read) ! i)))"
  defines "s' \<equiv> fst (win_step s (Win_worker Dir_read Io_success left))"
  shows "promise_of (we_dir s' Dir_read) i = promise_of (we_dir s Dir_read) i \<and> read_ended i (got @ left) s'"
proof -
  let ?d = "we_dir s Dir_read"
  have inv: "read_inv got (wd_ops ?d ! i)" "we_open s" "i < length (wd_ops ?d)" "wd_resolved ?d = []" "wd_inflight ?d = [i]" "wd_thread ?d = []"
    using r by (simp_all add: reading_def started_def Let_def)
  have "s' = set_dir Dir_read (worker_step Dir_read Io_success left ?d) s"
    using inv n by (simp add: s'_def io_possible_def)
  then have d': "we_dir s' Dir_read = worker_step Dir_read Io_success left ?d" by simp
  show ?thesis
    using read_inv_last [OF inv(1) n] inv d'
    by (simp add: read_ended_def worker_step_def worker_read_def op_resolve_def modify_op_def op_set_def set_success_def
        read_result_def Let_def add_read_bytes_def fill_buffer_def)
qed

lemma more_step:
  fixes s i left
  defines "n \<equiv> length (last (wo_buffers (wd_ops (we_dir s Dir_read) ! i)))"
  assumes r: "reading i got s" "started i s" and n: "n < length left"
  defines "s' \<equiv> fst (win_step s (Win_worker Dir_read Io_more_data (take n left)))"
  shows "promise_of (we_dir s' Dir_read) i = promise_of (we_dir s Dir_read) i \<and>
    (read_ended i (got @ left) s' \<or> to_start i s' \<and> reading i (got @ take n left) s')"
proof -
  let ?d = "we_dir s Dir_read"
  let ?op = "add_read_bytes n (fill_buffer (take n left) (wd_ops ?d ! i))"
  have inv: "read_inv got (wd_ops ?d ! i)" "we_open s" "i < length (wd_ops ?d)" "wd_resolved ?d = []" "wd_inflight ?d = [i]"
    "wd_thread ?d = []" "res_of ?d i = Win_unknown"
    using r by (simp_all add: reading_def started_def Let_def)
  have l: "length (take n left) = length (last (wo_buffers (wd_ops ?d ! i)))" using n by (simp add: n_def)
  have l': "min (length left) n = n" "length (take n left) = n" using n by simp_all
  have "s' = set_dir Dir_read (worker_step Dir_read Io_more_data (take n left) ?d) s"
    using inv l by (simp add: s'_def io_possible_def)
  then have d': "we_dir s' Dir_read = worker_step Dir_read Io_more_data (take n left) ?d" "we_open s'" using inv by simp_all
  have fields: "wo_res ?op = Win_unknown" "wo_promise ?op = promise_of ?d i"
    using inv by (simp_all add: add_read_bytes_def fill_buffer_def)
  have chunk: "case add_buffer_chunk ?op of None \<Rightarrow> length got + n = max_size
      | Some op'' \<Rightarrow> read_inv (got @ take n left) op'' \<and> wo_res op'' = res_of ?d i"
    using read_inv_chunk [OF inv(1) l] unfolding l'(2) .
  show ?thesis
  proof (cases "add_buffer_chunk ?op")
    case None
    then show ?thesis using chunk inv d' fields n l'(1)
      by (simp add: read_ended_def worker_step_def worker_read_def op_resolve_def modify_op_def op_set_def
          set_failed_if_possible_def read_result_def Let_def)
  next
    case (Some op2)
    then have "wo_promise op2 = promise_of ?d i" using fields by (auto simp: add_buffer_chunk_def Let_def split: if_splits)
    then show ?thesis using Some chunk inv d' n l'(1)
      by (simp add: reading_def to_start_def worker_step_def worker_read_def post_task_def modify_op_def Let_def)
  qed
qed

lemma os_read_ends:
  "reading i got s \<Longrightarrow> to_start i s \<Longrightarrow>
   run_output win_step s (os_read ks left s) = [] \<and> read_ended i (got @ left) (run_state win_step s (os_read ks left s)) \<and>
   promise_of (we_dir (run_state win_step s (os_read ks left s)) Dir_read) i = promise_of (we_dir s Dir_read) i"
proof (induction ks left s arbitrary: got rule: os_read.induct)
  case (1 ks left s)
  let ?chunks = "sync_chunks (case ks of [] \<Rightarrow> 0 | k # _ \<Rightarrow> k) left (wd_ops (we_dir s Dir_read) ! i)"
  let ?start = "Win_thread Dir_read ?chunks False" and ?left = "drop (length (concat ?chunks)) left"
  let ?s = "fst (win_step s ?start)"
  let ?n = "length (last (wo_buffers (wd_ops (we_dir ?s Dir_read) ! i)))"
  let ?more = "Win_worker Dir_read Io_more_data (take ?n ?left)"
  let ?s' = "fst (win_step ?s ?more)"
  have hd: "hd (task_starts (wd_thread (we_dir s Dir_read))) = i" using "1.prems"(2) by (auto simp: to_start_def)
  have quiet: "snd (win_step x (Win_thread Dir_read c b)) = []" "snd (win_step x (Win_worker Dir_read st data)) = []" for x c b st data
    by simp_all
  note step = start_step [OF "1.prems", where left = left and k = "case ks of [] \<Rightarrow> 0 | k # _ \<Rightarrow> k"]
  show ?case
  proof (cases "read_ended i (got @ left) ?s")
    case True
    then have "os_read ks left s = [?start]"
      by (subst os_read.simps) (simp add: hd read_ended_def Let_def del: win_step.simps)
    then show ?thesis using True step quiet by (simp del: win_step.simps)
  next
    case False
    then have st: "started i ?s" "reading i (got @ concat ?chunks) ?s" "left = concat ?chunks @ ?left" "promise_of (we_dir ?s Dir_read) i = promise_of (we_dir s Dir_read) i"
      using step by blast+
    have inflight: "wd_inflight (we_dir ?s Dir_read) = [i]" using st(1) by (simp add: started_def)
    have n0: "?n \<noteq> 0" using st(2) by (auto simp: reading_def read_inv_def Let_def)
    have whole: "(got @ concat ?chunks) @ ?left = got @ left" using st(3) by simp
    show ?thesis
    proof (cases "length ?left \<le> ?n")
      case True
      then have "os_read ks left s = [?start, Win_worker Dir_read Io_success ?left]"
        by (subst os_read.simps) (simp add: hd inflight Let_def del: win_step.simps)
      then show ?thesis using success_step [OF st(2,1) True] st(4) quiet unfolding whole by (simp del: win_step.simps)
    next
      case False
      then have more: "promise_of (we_dir ?s' Dir_read) i = promise_of (we_dir ?s Dir_read) i \<and>
          (read_ended i (got @ left) ?s' \<or> to_start i ?s' \<and> reading i ((got @ concat ?chunks) @ take ?n ?left) ?s')"
        using more_step [OF st(2,1), of ?left] unfolding whole by simp
      have os: "os_read ks left s =
          ?start # ?more # (if wd_thread (we_dir ?s' Dir_read) = [] then [] else os_read (tl ks) (drop ?n ?left) ?s')"
        using False n0 by (subst os_read.simps) (simp add: hd inflight Let_def del: win_step.simps)
      show ?thesis
      proof (cases "wd_thread (we_dir ?s' Dir_read) = []")
        case True
        then have "read_ended i (got @ left) ?s'" using more by (auto simp: to_start_def)
        then show ?thesis using True more st(4) quiet unfolding os by (simp del: win_step.simps)
      next
        case cont: False
        then have r: "reading i ((got @ concat ?chunks) @ take ?n ?left) ?s'" "to_start i ?s'" using more by (auto simp: read_ended_def)
        have all: "((got @ concat ?chunks) @ take ?n ?left) @ drop ?n ?left = got @ left"
          using whole by (simp only: append_assoc append_take_drop_id)
        have "run_output win_step ?s' (os_read (tl ks) (drop ?n ?left) ?s') = [] \<and>
            read_ended i (got @ left) (run_state win_step ?s' (os_read (tl ks) (drop ?n ?left) ?s')) \<and>
            promise_of (we_dir (run_state win_step ?s' (os_read (tl ks) (drop ?n ?left) ?s')) Dir_read) i = promise_of (we_dir ?s' Dir_read) i"
          using "1.IH" [OF refl refl refl refl refl refl refl _ _ refl refl, unfolded hd inflight list.sel, OF _ _ cont r] False n0
          unfolding all by (simp del: win_step.simps)
        then show ?thesis using cont more st(4) quiet unfolding os by (simp del: win_step.simps)
      qed
    qed
  qed
qed

text \<open>
  C29: A read of the Windows pipe takes a message whatever its size and however the operating system cuts it.  On an open endpoint without
  other reads, with any number of calls of \<open>ReadFile\<close> that return at once with a part of the message and
  with completion packets for the others, the buffers that start at 8192 bytes and double put the message together
  byte for byte as long as it has at most \<open>MaxTransferMessageSize\<close> bytes, and the caller gets it; a
  longer one makes the read fail without a message.
\<close>

theorem win_read_message:
  fixes s now p timeout
  defines "s' \<equiv> fst (win_step s (Win_read now p timeout))"
  assumes "we_open s" "dir_idle (we_dir s Dir_read)" "wd_queue (we_dir s Dir_read) = []"
  shows "run_output win_step s (Win_read now p timeout # os_read ks msg s' @ [Win_then Dir_read 0]) =
    [(p, if length msg \<le> max_size then Read Op_success (Some msg) else Read Op_failed None)]"
proof -
  let ?i = "length (wd_ops (we_dir s Dir_read))"
  obtain t u where tu: "start_op_timer now Dir_read timeout s = (t, u)" by fastforce
  have u: "we_dir u = we_dir s" "we_open u = we_open s" using start_timer_fields [of now Dir_read timeout s] tu by simp_all
  have s': "s' = set_dir Dir_read (add_op (read_op_create p t) (we_dir s Dir_read)) u"
    using assms(2) tu u by (simp add: s'_def win_read_async_def)
  have r: "reading ?i [] s'" "to_start ?i s'" and q: "promise_of (we_dir s' Dir_read) ?i = p"
    using assms(2-4) u read_inv_create [of p t]
    by (simp_all add: s' reading_def to_start_def add_op_def post_task_def dir_idle_def read_op_create_def Let_def)
  let ?s = "run_state win_step s' (os_read ks msg s')"
  note os = os_read_ends [OF r, of ks msg, unfolded append_Nil q]
  then have "snd (win_step ?s (Win_then Dir_read 0)) =
      [(p, if length msg \<le> max_size then Read Op_success (Some msg) else Read Op_failed None)]"
    by (simp add: read_ended_def run_then_def Let_def)
  moreover have "snd (win_step s (Win_read now p timeout)) = []" using assms(2) tu by (simp add: win_read_async_def)
  ultimately show ?thesis using os by (simp add: s'_def [symmetric] run_append_output del: win_step.simps)
qed

text \<open>A message of 100000 bytes on a new endpoint: the first \<open>start\<close> reads two parts at once, the rest comes with packets.\<close>

theorem win_read_message_witness:
  "run_output win_step win_create
     (Win_read 0 5 None # os_read [2] (replicate 100000 7) (fst (win_step win_create (Win_read 0 5 None))) @ [Win_then Dir_read 0]) =
   [(5, Read Op_success (Some (replicate 100000 7)))]"
proof -
  have "we_open win_create" "dir_idle (we_dir win_create Dir_read)" "wd_queue (we_dir win_create Dir_read) = []"
    by (simp_all add: win_create_def dir_idle_def win_dir_init_def)
  then show ?thesis using win_read_message [of win_create 0 5 None "[2]" "replicate 100000 7"] max_size_eq
    by (simp only: length_replicate) simp
qed

end
