(* ===== verification/Win_Env.thy ===== *)
theory Win_Env
  imports Pipe_Env Win_Operations
begin

text \<open>
  What the two environments of Windows pipes share (\<open>win-pipe-server-env.cpp\<close> and
  \<open>win-pipe-client-env.cpp\<close>): the map of pending operations with their timers, and the count of the
  calls that have no answer yet.

  The two environments fill the map in the same way.  A call without a timeout starts its operation
  while it holds the lock of the map.  A call with a timeout starts the operation first, and takes
  the lock afterwards to start the timer and to insert the operation.  An operation is named by
  its number, which is also the promise of the call and the id under which it is inserted.
\<close>

fun to_pipe_wait_res :: "win_pipe_operation_res \<Rightarrow> pipe_wait_res" where
  "to_pipe_wait_res Win_success = Wait_success"
| "to_pipe_wait_res Win_canceled = Wait_canceled"
| "to_pipe_wait_res Win_timeout = Wait_timeout"
| "to_pipe_wait_res Win_failed = Wait_failed"
| "to_pipe_wait_res Win_unknown = Wait_failed"


section \<open>The map of pending operations\<close>

record pending_info =
  pi_op :: nat
  pi_client_id :: nat
  pi_timer_id :: "timer_id option"

text \<open>A call with a timeout between the start of the operation and its insertion.\<close>

record starting_call =
  sc_op :: nat
  sc_client_id :: nat
  sc_timeout :: nat

record pending_table =
  pt_starting :: "starting_call list"
  pt_map :: "pending_info list"
  pt_timer :: "nat multiple_timer"

definition pending_table_init :: pending_table where
  "pending_table_init = \<lparr>pt_starting = [], pt_map = [], pt_timer = multiple_timer_init\<rparr>"

definition begin_call :: "nat \<Rightarrow> nat \<Rightarrow> nat option \<Rightarrow> pending_table \<Rightarrow> pending_table" where
  "begin_call i client_id timeout t =
     (case timeout of
        None \<Rightarrow> t\<lparr>pt_map := \<lparr>pi_op = i, pi_client_id = client_id, pi_timer_id = None\<rparr> # pt_map t\<rparr>
      | Some ms \<Rightarrow> t\<lparr>pt_starting := \<lparr>sc_op = i, sc_client_id = client_id, sc_timeout = ms\<rparr> # pt_starting t\<rparr>)"

definition insert_call :: "time_point \<Rightarrow> nat \<Rightarrow> pending_table \<Rightarrow> pending_table" where
  "insert_call now k t =
     (let c = pt_starting t ! k; (timer_id, timer) = multiple_timer_start now (sc_op c) (sc_timeout c) (pt_timer t)
      in t\<lparr>pt_starting := drop_nth k (pt_starting t), pt_timer := timer,
           pt_map := \<lparr>pi_op = sc_op c, pi_client_id = sc_client_id c, pi_timer_id = Some timer_id\<rparr> # pt_map t\<rparr>)"

text \<open>The callback of \<open>finally\<close>.\<close>

definition erase_call :: "nat \<Rightarrow> pending_table \<Rightarrow> pending_table" where
  "erase_call i t =
     (case List.find (\<lambda>c. pi_op c = i) (pt_map t) of
        None \<Rightarrow> t
      | Some c \<Rightarrow>
          t\<lparr>pt_map := filter (\<lambda>c. pi_op c \<noteq> i) (pt_map t),
            pt_timer := (case pi_timer_id c of None \<Rightarrow> pt_timer t | Some tm \<Rightarrow> multiple_timer_cancel tm (pt_timer t))\<rparr>)"

definition pending_ids :: "pending_table \<Rightarrow> nat list" where
  "pending_ids t = map pi_op (pt_map t)"

definition starting_ids :: "pending_table \<Rightarrow> nat list" where
  "starting_ids t = map sc_op (pt_starting t)"

text \<open>The operations that a cancel with this client id, or with none, names.\<close>

definition matching_ids :: "nat option \<Rightarrow> pending_table \<Rightarrow> nat list" where
  "matching_ids client_id t =
     map pi_op (filter (\<lambda>c. case client_id of None \<Rightarrow> True | Some x \<Rightarrow> pi_client_id c = x) (pt_map t))"

text \<open>The handler of a timer; the operation is the one to cancel.\<close>

definition table_timer_handler :: "timer_id \<Rightarrow> pending_table \<Rightarrow> pending_table \<times> nat option" where
  "table_timer_handler tm t =
     (let (timer, cb) = multiple_timer_handler tm (pt_timer t)
      in (t\<lparr>pt_timer := timer\<rparr>, case cb of None \<Rightarrow> None | Some i \<Rightarrow> if i \<in> set (pending_ids t) then Some i else None))"

definition table_timer_expire :: "time_point \<Rightarrow> timer_id \<Rightarrow> pending_table \<Rightarrow> pending_table" where
  "table_timer_expire now tm t = t\<lparr>pt_timer := multiple_timer_expire now tm (pt_timer t)\<rparr>"


text \<open>The map and the calls being started hold the numbers of \<open>A\<close>, each once.\<close>

definition table_ok :: "nat set \<Rightarrow> pending_table \<Rightarrow> bool" where
  "table_ok A t \<longleftrightarrow> distinct (pending_ids t @ starting_ids t) \<and> set (pending_ids t @ starting_ids t) = A"

lemma table_ok_init: "table_ok {} pending_table_init"
  by (simp add: table_ok_def pending_table_init_def pending_ids_def starting_ids_def)

lemma table_ok_begin: "table_ok A t \<Longrightarrow> i \<notin> A \<Longrightarrow> table_ok (insert i A) (begin_call i c ms t)"
  by (auto simp: table_ok_def begin_call_def pending_ids_def starting_ids_def split: option.split)

lemma table_ok_insert:
  assumes "table_ok A t" "k < length (pt_starting t)"
  shows "table_ok A (insert_call now k t)"
proof -
  let ?i = "sc_op (pt_starting t ! k)"
  have m: "mset (starting_ids t) = add_mset ?i (mset (starting_ids (insert_call now k t)))"
    using mset_drop_nth [OF assms(2)] by (simp add: starting_ids_def insert_call_def Let_def case_prod_beta)
  have p: "pending_ids (insert_call now k t) = ?i # pending_ids t"
    by (simp add: pending_ids_def insert_call_def Let_def case_prod_beta)
  have "mset (pending_ids (insert_call now k t) @ starting_ids (insert_call now k t)) = mset (pending_ids t @ starting_ids t)"
    using m p by simp
  from mset_eq_imp_distinct_iff [OF this] mset_eq_setD [OF this] show ?thesis using assms(1) by (simp add: table_ok_def)
qed

lemma table_ok_erase:
  assumes "table_ok A t" "i \<in> A" "i \<notin> set (starting_ids t)"
  shows "table_ok (A - {i}) (erase_call i t)"
proof -
  have "i \<in> pi_op ` set (pt_map t)" using assms by (auto simp: table_ok_def pending_ids_def)
  then have "List.find (\<lambda>c. pi_op c = i) (pt_map t) \<noteq> None" by (auto simp: find_None_iff)
  then obtain c where "List.find (\<lambda>c. pi_op c = i) (pt_map t) = Some c" by blast
  then have "pending_ids (erase_call i t) = filter (\<lambda>j. j \<noteq> i) (pending_ids t)" "starting_ids (erase_call i t) = starting_ids t"
    by (simp_all add: erase_call_def pending_ids_def starting_ids_def filter_map o_def)
  then show ?thesis using assms by (auto simp: table_ok_def)
qed

lemma table_ok_timer:
  "table_ok A (fst (table_timer_handler tm t)) = table_ok A t" "table_ok A (table_timer_expire now tm t) = table_ok A t"
  by (simp_all add: table_ok_def table_timer_handler_def table_timer_expire_def pending_ids_def starting_ids_def
      Let_def case_prod_beta)

lemma table_timer_op: "snd (table_timer_handler tm t) = Some i \<Longrightarrow> i \<in> set (pending_ids t)"
  by (auto simp: table_timer_handler_def Let_def case_prod_beta split: option.splits if_splits)

lemma matching_pending: "set (matching_ids c t) \<subseteq> set (pending_ids t)"
  by (auto simp: matching_ids_def pending_ids_def)


section \<open>Calls without an answer\<close>

definition unanswered :: "('o \<Rightarrow> bool) \<Rightarrow> 'o list \<Rightarrow> promise_id multiset" where
  "unanswered waits ops = mset (filter (\<lambda>i. waits (ops ! i)) [0..<length ops])"

lemma unanswered_Nil [simp]: "unanswered waits [] = {#}"
  by (simp add: unanswered_def)

lemma unanswered_set: "set_mset (unanswered waits ops) = {i. i < length ops \<and> waits (ops ! i)}"
  by (auto simp: unanswered_def)

lemma unanswered_add: "waits op \<Longrightarrow> unanswered waits (ops @ [op]) = unanswered waits ops + {#length ops#}"
proof -
  assume "waits op"
  moreover have "filter (\<lambda>i. waits ((ops @ [op]) ! i)) [0..<length ops] = filter (\<lambda>i. waits (ops ! i)) [0..<length ops]"
    by (rule filter_cong) (simp_all add: nth_append)
  ultimately show ?thesis by (simp add: unanswered_def)
qed

lemma unanswered_keep:
  assumes "waits op = waits (ops ! i)"
  shows "unanswered waits (ops[i := op]) = unanswered waits ops"
proof -
  have "waits (ops[i := op] ! j) = waits (ops ! j)" for j by (rule field_list_update) (rule assms)
  then show ?thesis by (simp add: unanswered_def)
qed

lemma unanswered_answer:
  assumes "i < length ops" "waits (ops ! i)" "\<not> waits op"
  shows "unanswered waits (ops[i := op]) + {#i#} = unanswered waits ops"
proof -
  have "filter (\<lambda>j. waits (ops[i := op] ! j)) [0..<length ops] =
      filter (\<lambda>j. j \<noteq> i) (filter (\<lambda>j. waits (ops ! j)) [0..<length ops])"
    using assms by (auto simp: nth_list_update intro: filter_cong)
  moreover have "i \<in> set (filter (\<lambda>j. waits (ops ! j)) [0..<length ops])" using assms by simp
  ultimately show ?thesis
    using mset_filter_neq [of "filter (\<lambda>j. waits (ops ! j)) [0..<length ops]" i] by (simp add: unanswered_def)
qed

text \<open>The calls without an answer are the others.\<close>

lemma unanswered_rest:
  assumes "unanswered waits ops + mset xs = mset [0..<length ops]"
  shows "{i. i < length ops \<and> waits (ops ! i)} = {..<length ops} - set xs"
proof -
  let ?ys = "filter (\<lambda>i. waits (ops ! i)) [0..<length ops]"
  have m: "mset (?ys @ xs) = mset [0..<length ops]" using assms by (simp add: unanswered_def)
  have "distinct (?ys @ xs)" using mset_eq_imp_distinct_iff [OF m] by simp
  moreover have "set (?ys @ xs) = {..<length ops}" using mset_eq_setD [OF m] by (simp add: lessThan_atLeast0)
  ultimately show ?thesis by (auto simp: disjoint_iff)
qed

end
