(* ===== verification/Win_Server_Env.thy ===== *)
theory Win_Server_Env
  imports Win_Env
begin

text \<open>
  Creating Windows pipes: \<open>win-pipe-server-env.cpp\<close>, \<open>win-pipe-create-operation.cpp\<close> and the part of
  \<open>win-pipe-iocp-owner.cpp\<close> that serves them.

  Every call of \<open>create_pipe\<close> has an operation of its own.  Its pipe is created and the wait for a
  client is started by a task of the reading thread of the completion port, and a cancel is a later
  task of the same thread.  The operating system and the worker of the completion port act in
  between.  The thread is shared with the endpoints; here it holds the tasks of create operations.
\<close>

section \<open>Create operations\<close>

text \<open>
  Where an operation is: its task is posted, it waits for a client (with the status of the packet once there is
  one), it is resolved and its continuation has not run, or its caller has the answer.
\<close>

datatype create_stage =
    Cr_posted
  | Cr_connecting "io_status option"
  | Cr_resolved win_pipe_operation_res "nat option"
  | Cr_answered

record create_op =
  cr_res :: win_pipe_operation_res
  cr_pipe :: "nat option"
  cr_stage :: create_stage

definition create_op_create :: create_op where
  "create_op_create = \<lparr>cr_res = Win_unknown, cr_pipe = None, cr_stage = Cr_posted\<rparr>"

text \<open>Unlike that of a read or write, the result of a create is not changed from a timeout to a failure.\<close>

definition create_set_failed_if_possible :: "win_pipe_operation_res \<Rightarrow> win_pipe_operation_res" where
  "create_set_failed_if_possible r = (if r = Win_unknown then Win_failed else r)"

definition create_resolve :: "create_op \<Rightarrow> create_op" where
  "create_resolve op =
     op\<lparr>cr_pipe := None,
        cr_stage := Cr_resolved (cr_res op) (if cr_res op = Win_success then cr_pipe op else None)\<rparr>"

definition create_fail :: "create_op \<Rightarrow> create_op" where
  "create_fail op = create_resolve (op\<lparr>cr_res := create_set_failed_if_possible (cr_res op)\<rparr>)"

text \<open>\<open>ConnectNamedPipe\<close> is pending, finds a client that is already connected, or fails.\<close>

datatype connect_outcome = Connect_pending | Connect_already | Connect_error

definition start_wait_connect :: "connect_outcome \<Rightarrow> create_op \<Rightarrow> create_op" where
  "start_wait_connect out op =
     (case out of
        Connect_pending \<Rightarrow> op\<lparr>cr_stage := Cr_connecting None\<rparr>
      | Connect_already \<Rightarrow> create_resolve (op\<lparr>cr_res := set_success (cr_res op)\<rparr>)
      | Connect_error \<Rightarrow> create_fail op)"

text \<open>\<open>create_pipe\<close> of the operation: \<open>handle\<close> is None if the pipe cannot be created.\<close>

definition create_named_pipe :: "nat option \<Rightarrow> create_op \<Rightarrow> create_op \<times> bool" where
  "create_named_pipe handle op =
     (case handle of
        None \<Rightarrow> (op\<lparr>cr_res := create_set_failed_if_possible (cr_res op)\<rparr>, False)
      | Some h \<Rightarrow> (op\<lparr>cr_pipe := Some h\<rparr>, True))"

text \<open>The task of \<open>create_pipe_async\<close>.\<close>

definition create_pipe_async :: "nat option \<Rightarrow> bool \<Rightarrow> connect_outcome \<Rightarrow> create_op \<Rightarrow> create_op" where
  "create_pipe_async handle associate_ec out op =
     (let (op, created) = create_named_pipe handle op
      in if \<not> created then create_resolve op
         else if associate_ec then create_fail op
         else start_wait_connect out op)"

text \<open>\<open>CancelIo\<close> aborts a wait that has no packet yet.\<close>

definition create_cancel :: "bool \<Rightarrow> create_op \<Rightarrow> create_op" where
  "create_cancel by_timeout op =
     (let op = op\<lparr>cr_res := (if by_timeout then set_timeout_if_possible else set_canceled_if_possible) (cr_res op)\<rparr>
      in if cr_pipe op \<noteq> None \<and> cr_stage op = Cr_connecting None then op\<lparr>cr_stage := Cr_connecting (Some Io_aborted)\<rparr> else op)"

definition worker_create :: "create_op \<Rightarrow> create_op" where
  "worker_create op =
     (case cr_stage op of
        Cr_connecting (Some status) \<Rightarrow>
          if status = Io_success then create_resolve (op\<lparr>cr_res := set_success (cr_res op)\<rparr>) else create_fail op
      | _ \<Rightarrow> op)"

text \<open>A client connects or the wait fails: the packet is queued.\<close>

definition connect_finished :: "bool \<Rightarrow> create_op \<Rightarrow> create_op" where
  "connect_finished ok op =
     (if cr_stage op = Cr_connecting None
      then op\<lparr>cr_stage := Cr_connecting (Some (if ok then Io_success else Io_error))\<rparr> else op)"


section \<open>The environment\<close>

datatype create_task = Task_create nat | Task_cancel_create nat bool

record win_server_env =
  wv_ops :: "create_op list"
  wv_table :: pending_table
  wv_thread :: "create_task list"

definition win_server_env_init :: win_server_env where
  "win_server_env_init = \<lparr>wv_ops = [], wv_table = pending_table_init, wv_thread = []\<rparr>"

definition update_create :: "nat \<Rightarrow> (create_op \<Rightarrow> create_op) \<Rightarrow> win_server_env \<Rightarrow> win_server_env" where
  "update_create i f s = s\<lparr>wv_ops := (wv_ops s)[i := f (wv_ops s ! i)]\<rparr>"

definition win_create_pipe :: "nat \<Rightarrow> nat option \<Rightarrow> win_server_env \<Rightarrow> win_server_env" where
  "win_create_pipe client_id timeout s =
     (let i = length (wv_ops s)
      in s\<lparr>wv_ops := wv_ops s @ [create_op_create], wv_thread := wv_thread s @ [Task_create i],
           wv_table := begin_call i client_id timeout (wv_table s)\<rparr>)"

definition cancel_create :: "nat \<Rightarrow> bool \<Rightarrow> win_server_env \<Rightarrow> win_server_env" where
  "cancel_create i by_timeout s = s\<lparr>wv_thread := wv_thread s @ [Task_cancel_create i by_timeout]\<rparr>"

text \<open>The map is not ordered, so the loop may meet the operations in any order.\<close>

definition win_cancel_pending_server_endpoints :: "nat option \<Rightarrow> nat list \<Rightarrow> win_server_env \<Rightarrow> win_server_env" where
  "win_cancel_pending_server_endpoints client_id order s =
     (if mset order = mset (matching_ids client_id (wv_table s))
      then fold (\<lambda>i. cancel_create i False) order s else s)"

definition run_create_task :: "nat option \<Rightarrow> bool \<Rightarrow> connect_outcome \<Rightarrow> win_server_env \<Rightarrow> win_server_env" where
  "run_create_task handle associate_ec out s =
     (case wv_thread s of
        [] \<Rightarrow> s
      | t # ts \<Rightarrow>
          let s = s\<lparr>wv_thread := ts\<rparr>
          in case t of
               Task_create i \<Rightarrow> update_create i (create_pipe_async handle associate_ec out) s
             | Task_cancel_create i by_timeout \<Rightarrow> update_create i (create_cancel by_timeout) s)"

text \<open>The continuations of \<open>create_pipe\<close>: the operation leaves the map and the caller gets the result.\<close>

definition create_finally :: "nat \<Rightarrow> win_server_env \<Rightarrow> win_server_env \<times> pipe_wait_result completion list" where
  "create_finally i s =
     (case cr_stage (wv_ops s ! i) of
        Cr_resolved r h \<Rightarrow>
          (update_create i (\<lambda>op. op\<lparr>cr_stage := Cr_answered\<rparr>) (s\<lparr>wv_table := erase_call i (wv_table s)\<rparr>),
           [(i, to_pipe_wait_res r, if is_success_wait (to_pipe_wait_res r) then h else None)])
      | _ \<Rightarrow> (s, []))"

datatype win_server_event =
    Wv_create_pipe nat "nat option"
  | Wv_insert time_point nat
  | Wv_thread "nat option" bool connect_outcome
  | Wv_connect nat bool
  | Wv_worker nat
  | Wv_finally nat
  | Wv_cancel "nat option" "nat list"
  | Wv_timer_expire time_point timer_id
  | Wv_timer_handler timer_id

text \<open>The continuations are attached when the operation is in the map.\<close>

fun win_server_step :: "win_server_env \<Rightarrow> win_server_event \<Rightarrow> win_server_env \<times> pipe_wait_result completion list" where
  "win_server_step s (Wv_create_pipe client_id timeout) = (win_create_pipe client_id timeout s, [])"
| "win_server_step s (Wv_insert now k) =
     (if k < length (pt_starting (wv_table s)) then s\<lparr>wv_table := insert_call now k (wv_table s)\<rparr> else s, [])"
| "win_server_step s (Wv_thread handle associate_ec out) = (run_create_task handle associate_ec out s, [])"
| "win_server_step s (Wv_connect i ok) = (update_create i (connect_finished ok) s, [])"
| "win_server_step s (Wv_worker i) = (update_create i worker_create s, [])"
| "win_server_step s (Wv_finally i) =
     (if i < length (wv_ops s) \<and> i \<notin> set (starting_ids (wv_table s)) then create_finally i s else (s, []))"
| "win_server_step s (Wv_cancel client_id order) = (win_cancel_pending_server_endpoints client_id order s, [])"
| "win_server_step s (Wv_timer_expire now t) = (s\<lparr>wv_table := table_timer_expire now t (wv_table s)\<rparr>, [])"
| "win_server_step s (Wv_timer_handler t) =
     (let (table, i) = table_timer_handler t (wv_table s); s = s\<lparr>wv_table := table\<rparr>
      in (case i of None \<Rightarrow> s | Some i \<Rightarrow> cancel_create i True s, []))"


section \<open>Invariant\<close>

definition create_waits :: "create_op \<Rightarrow> bool" where
  "create_waits op \<longleftrightarrow> cr_stage op \<noteq> Cr_answered"

definition create_ok :: "create_op \<Rightarrow> bool" where
  "create_ok op \<longleftrightarrow>
     (case cr_stage op of
        Cr_posted \<Rightarrow> cr_pipe op = None \<and> cr_res op = Win_unknown
      | Cr_connecting st \<Rightarrow> cr_pipe op \<noteq> None \<and> (st = None \<longrightarrow> cr_res op = Win_unknown)
      | Cr_resolved r h \<Rightarrow> cr_pipe op = None \<and> r \<noteq> Win_unknown \<and> (r = Win_success \<longleftrightarrow> h \<noteq> None)
      | Cr_answered \<Rightarrow> cr_pipe op = None)"

fun posted_creates :: "create_task list \<Rightarrow> nat list" where
  "posted_creates [] = []"
| "posted_creates (Task_create i # ts) = i # posted_creates ts"
| "posted_creates (Task_cancel_create i b # ts) = posted_creates ts"

lemma posted_creates_append [simp]: "posted_creates (ts @ us) = posted_creates ts @ posted_creates us"
  by (induction ts rule: posted_creates.induct) simp_all

text \<open>An operation is created before it is cancelled.\<close>

fun create_first :: "create_task list \<Rightarrow> bool" where
  "create_first [] = True"
| "create_first (Task_create i # ts) = create_first ts"
| "create_first (Task_cancel_create i b # ts) = (i \<notin> set (posted_creates ts) \<and> create_first ts)"

fun task_op :: "create_task \<Rightarrow> nat" where
  "task_op (Task_create i) = i"
| "task_op (Task_cancel_create i b) = i"

lemma create_first_append:
  "create_first (ts @ [Task_create n]) \<longleftrightarrow> create_first ts \<and> (\<forall>b. Task_cancel_create n b \<notin> set ts)"
  "create_first (ts @ [Task_cancel_create n b]) \<longleftrightarrow> create_first ts"
  by (induction ts rule: create_first.induct) auto

definition server_env_inv :: "win_server_env \<Rightarrow> bool" where
  "server_env_inv s \<longleftrightarrow>
     (\<forall>op \<in> set (wv_ops s). create_ok op) \<and>
     (\<forall>t \<in> set (wv_thread s). task_op t < length (wv_ops s)) \<and> create_first (wv_thread s) \<and>
     distinct (posted_creates (wv_thread s)) \<and>
     set (posted_creates (wv_thread s)) = {i. i < length (wv_ops s) \<and> cr_stage (wv_ops s ! i) = Cr_posted} \<and>
     table_ok {i. i < length (wv_ops s) \<and> create_waits (wv_ops s ! i)} (wv_table s)"

definition server_env_pending :: "win_server_env \<Rightarrow> promise_id multiset" where
  "server_env_pending s = unanswered create_waits (wv_ops s)"

fun server_env_opened :: "win_server_env \<Rightarrow> win_server_event \<Rightarrow> promise_id multiset" where
  "server_env_opened s (Wv_create_pipe client_id timeout) = {#length (wv_ops s)#}"
| "server_env_opened s e = {#}"

lemma server_env_inv_init: "server_env_inv win_server_env_init"
  using table_ok_init by (simp add: server_env_inv_def win_server_env_init_def)

lemma server_env_invD:
  assumes "server_env_inv s"
  shows "i < length (wv_ops s) \<Longrightarrow> create_ok (wv_ops s ! i)" "t \<in> set (wv_thread s) \<Longrightarrow> task_op t < length (wv_ops s)"
    "create_first (wv_thread s)" "distinct (posted_creates (wv_thread s))"
    "i \<in> set (posted_creates (wv_thread s)) \<longleftrightarrow> i < length (wv_ops s) \<and> cr_stage (wv_ops s ! i) = Cr_posted"
    "table_ok {i. i < length (wv_ops s) \<and> create_waits (wv_ops s ! i)} (wv_table s)"
  using assms by (auto simp: server_env_inv_def)


section \<open>Steps of operations\<close>

lemmas create_op_defs =
  create_ok_def create_waits_def create_resolve_def create_fail_def create_set_failed_if_possible_def start_wait_connect_def
  create_named_pipe_def create_pipe_async_def create_cancel_def worker_create_def connect_finished_def set_success_def

lemma create_pipe_async_ok:
  assumes "create_ok op" "cr_stage op = Cr_posted"
  shows "create_ok (create_pipe_async h ec out op)" "cr_stage (create_pipe_async h ec out op) \<noteq> Cr_posted"
    "create_waits (create_pipe_async h ec out op)"
  using assms by (auto simp: create_op_defs Let_def split: option.splits connect_outcome.splits)

lemma create_cancel_ok:
  assumes "create_ok op" "cr_stage op \<noteq> Cr_posted"
  shows "create_ok (create_cancel b op)" "cr_stage (create_cancel b op) \<noteq> Cr_posted"
    "create_waits (create_cancel b op) = create_waits op"
  using assms by (auto simp: create_op_defs Let_def split: create_stage.splits)

lemma worker_create_ok:
  assumes "create_ok op"
  shows "create_ok (worker_create op)" "cr_stage (worker_create op) = Cr_posted \<longleftrightarrow> cr_stage op = Cr_posted"
    "create_waits (worker_create op) = create_waits op"
  using assms by (auto simp: create_op_defs split: create_stage.splits option.splits)

lemma connect_finished_ok:
  assumes "create_ok op"
  shows "create_ok (connect_finished ok op)" "cr_stage (connect_finished ok op) = Cr_posted \<longleftrightarrow> cr_stage op = Cr_posted"
    "create_waits (connect_finished ok op) = create_waits op"
  using assms by (auto simp: create_op_defs split: create_stage.splits)

lemma update_create_beyond: "\<not> i < length (wv_ops s) \<Longrightarrow> update_create i f s = s"
  by (simp add: update_create_def list_update_beyond)

text \<open>An operation changes and stays without an answer; the thread is \<open>ts\<close>.\<close>

lemma update_create_inv:
  assumes inv: "server_env_inv s" and i: "i < length (wv_ops s)"
    and op: "create_ok (f (wv_ops s ! i))" "create_waits (f (wv_ops s ! i)) = create_waits (wv_ops s ! i)"
    and ts: "set ts \<subseteq> set (wv_thread s)" "create_first ts" "distinct (posted_creates ts)"
      "set (posted_creates ts) =
        (if cr_stage (f (wv_ops s ! i)) = Cr_posted then insert i (set (posted_creates (wv_thread s)))
         else set (posted_creates (wv_thread s)) - {i})"
  shows "server_env_inv (update_create i f (s\<lparr>wv_thread := ts\<rparr>))"
    "server_env_pending (update_create i f (s\<lparr>wv_thread := ts\<rparr>)) = server_env_pending s"
proof -
  let ?s = "update_create i f (s\<lparr>wv_thread := ts\<rparr>)"
  have f: "wv_ops ?s = (wv_ops s)[i := f (wv_ops s ! i)]" "wv_thread ?s = ts" "wv_table ?s = wv_table s"
    by (simp_all add: update_create_def)
  have waits: "create_waits (wv_ops ?s ! j) = create_waits (wv_ops s ! j)" for j
    unfolding f by (rule field_list_update) (rule op(2))
  have "create_ok op'" if "op' \<in> set (wv_ops ?s)" for op'
    using that set_update_subset_insert [of "wv_ops s" i] op(1) inv by (auto simp: f server_env_inv_def)
  moreover have "set (posted_creates ts) = {j. j < length (wv_ops ?s) \<and> cr_stage (wv_ops ?s ! j) = Cr_posted}"
    using server_env_invD(5) [OF inv] ts(4) i by (auto simp: f nth_list_update split: if_splits)
  ultimately show "server_env_inv ?s"
    using server_env_invD(2,6) [OF inv] ts(1-3) waits by (auto simp: server_env_inv_def f)
  show "server_env_pending ?s = server_env_pending s"
    unfolding server_env_pending_def f by (rule unanswered_keep) (rule op(2))
qed

lemma update_create_same:
  assumes inv: "server_env_inv s"
    and f: "\<And>op. create_ok op \<Longrightarrow> create_ok (f op) \<and> create_waits (f op) = create_waits op \<and>
      (cr_stage (f op) = Cr_posted \<longleftrightarrow> cr_stage op = Cr_posted)"
  shows "server_env_inv (update_create i f s) \<and> server_env_pending (update_create i f s) = server_env_pending s"
proof (cases "i < length (wv_ops s)")
  case True
  note g = f [OF server_env_invD(1) [OF inv True]]
  have "set (posted_creates (wv_thread s)) =
      (if cr_stage (f (wv_ops s ! i)) = Cr_posted then insert i (set (posted_creates (wv_thread s)))
       else set (posted_creates (wv_thread s)) - {i})"
    using g server_env_invD(5) [OF inv, of i] True by auto
  from update_create_inv [where f = f, OF inv True _ _ subset_refl server_env_invD(3,4) [OF inv] this] g
  show ?thesis by simp
qed (use inv in \<open>simp add: update_create_beyond\<close>)

lemma run_create_task_ok:
  assumes inv: "server_env_inv s"
  shows "server_env_inv (run_create_task h ec out s) \<and> server_env_pending (run_create_task h ec out s) = server_env_pending s"
proof (cases "wv_thread s")
  case Nil
  then show ?thesis using inv by (simp add: run_create_task_def)
next
  case (Cons t ts)
  have i: "task_op t < length (wv_ops s)" using server_env_invD(2) [OF inv, of t] Cons by simp
  note ok = server_env_invD(1) [OF inv i] and first = server_env_invD(3,4) [OF inv] and posted = server_env_invD(5) [OF inv]
  show ?thesis
  proof (cases t)
    case (Task_create j)
    have p: "cr_stage (wv_ops s ! j) = Cr_posted" using posted [of j] Cons Task_create by simp
    have ok': "create_ok (wv_ops s ! j)" "j < length (wv_ops s)" using ok i Task_create by simp_all
    note new = create_pipe_async_ok [OF ok'(1) p, of h ec out]
    have "create_waits (wv_ops s ! j)" using p by (simp add: create_waits_def)
    then show ?thesis
      using update_create_inv [where f = "create_pipe_async h ec out" and ts = ts, OF inv ok'(2) new(1)] new first Cons Task_create
      by (auto simp: run_create_task_def)
  next
    case (Task_cancel_create j b)
    have ok': "create_ok (wv_ops s ! j)" "j < length (wv_ops s)" using ok i Task_cancel_create by simp_all
    then have np: "cr_stage (wv_ops s ! j) \<noteq> Cr_posted" using posted [of j] first(1) Cons Task_cancel_create by auto
    note new = create_cancel_ok [OF ok'(1) np, of b]
    show ?thesis
      using update_create_inv [where f = "create_cancel b" and ts = ts, OF inv ok'(2) new(1)] new first Cons Task_cancel_create
      by (auto simp: run_create_task_def)
  qed
qed

lemma create_pipe_inv:
  assumes inv: "server_env_inv s"
  shows "server_env_inv (win_create_pipe c ms s)"
    "server_env_pending (win_create_pipe c ms s) = server_env_pending s + {#length (wv_ops s)#}"
proof -
  let ?n = "length (wv_ops s)" and ?s = "win_create_pipe c ms s"
  note d = server_env_invD [OF inv]
  have f: "wv_ops ?s = wv_ops s @ [create_op_create]" "wv_thread ?s = wv_thread s @ [Task_create ?n]"
    "wv_table ?s = begin_call ?n c ms (wv_table s)"
    by (simp_all add: win_create_pipe_def Let_def)
  have new: "create_waits create_op_create" "create_ok create_op_create" "cr_stage create_op_create = Cr_posted"
    by (simp_all add: create_waits_def create_ok_def create_op_create_def)
  have "{i. i < length (wv_ops ?s) \<and> create_waits (wv_ops ?s ! i)} = insert ?n {i. i < ?n \<and> create_waits (wv_ops s ! i)}"
    using new(1) by (auto simp: f(1) nth_append less_Suc_eq)
  then have t: "table_ok {i. i < length (wv_ops ?s) \<and> create_waits (wv_ops ?s ! i)} (wv_table ?s)"
    using table_ok_begin [OF d(6), of ?n] by (simp add: f(3))
  have p: "set (posted_creates (wv_thread ?s)) = {i. i < length (wv_ops ?s) \<and> cr_stage (wv_ops ?s ! i) = Cr_posted}"
  proof (rule set_eqI)
    show "i \<in> set (posted_creates (wv_thread ?s)) \<longleftrightarrow>
        i \<in> {i. i < length (wv_ops ?s) \<and> cr_stage (wv_ops ?s ! i) = Cr_posted}" for i
      using d(5) [of i] new(3) by (cases "i = ?n") (auto simp: f(1,2) nth_append)
  qed
  have "Task_cancel_create ?n b \<notin> set (wv_thread s)" for b using d(2) [of "Task_cancel_create ?n b"] by auto
  then have "create_first (wv_thread ?s)" using d(3) by (simp add: f(2) create_first_append)
  moreover have "distinct (posted_creates (wv_thread ?s))" using d(4) d(5) [of ?n] by (simp add: f(2))
  moreover have "task_op t < length (wv_ops ?s)" if "t \<in> set (wv_thread ?s)" for t
    using that d(2) [of t] by (auto simp: f(1,2))
  moreover have "create_ok op" if "op \<in> set (wv_ops ?s)" for op
    using that inv new(2) by (auto simp: f(1) server_env_inv_def)
  ultimately show "server_env_inv ?s" using t p unfolding server_env_inv_def by blast
  show "server_env_pending ?s = server_env_pending s + {#?n#}"
    unfolding server_env_pending_def f(1) by (rule unanswered_add) (rule new(1))
qed

lemma cancel_create_inv:
  assumes "server_env_inv s" "i < length (wv_ops s)"
  shows "server_env_inv (cancel_create i b s) \<and> server_env_pending (cancel_create i b s) = server_env_pending s"
  using assms by (auto simp: server_env_inv_def cancel_create_def create_first_append server_env_pending_def)

lemma fold_cancel_create_inv:
  assumes "server_env_inv s" "\<forall>i \<in> set xs. i < length (wv_ops s)"
  defines "s' \<equiv> fold (\<lambda>i. cancel_create i False) xs s"
  shows "server_env_inv s' \<and> server_env_pending s' = server_env_pending s \<and> wv_ops s' = wv_ops s \<and> wv_table s' = wv_table s"
  using assms(1,2) unfolding s'_def
proof (induction xs arbitrary: s)
  case (Cons i xs)
  have "server_env_inv (cancel_create i False s)" "server_env_pending (cancel_create i False s) = server_env_pending s"
    using cancel_create_inv [OF Cons.prems(1), of i False] Cons.prems(2) by simp_all
  then show ?case using Cons.IH [of "cancel_create i False s"] Cons.prems(2) by (simp add: cancel_create_def)
qed simp

lemma create_finally_ok:
  assumes inv: "server_env_inv s" and i: "i < length (wv_ops s)" "i \<notin> set (starting_ids (wv_table s))"
  shows "server_env_inv (fst (create_finally i s))"
    "server_env_pending (fst (create_finally i s)) + mset (map fst (snd (create_finally i s))) = server_env_pending s"
proof (atomize (full), cases "cr_stage (wv_ops s ! i)")
  case (Cr_resolved r h)
  let ?op = "(wv_ops s ! i)\<lparr>cr_stage := Cr_answered\<rparr>" and ?s = "fst (create_finally i s)"
  have f: "wv_ops ?s = (wv_ops s)[i := ?op]" "wv_thread ?s = wv_thread s" "wv_table ?s = erase_call i (wv_table s)"
    using Cr_resolved by (simp_all add: create_finally_def update_create_def)
  note d = server_env_invD [OF inv]
  have w: "create_waits (wv_ops s ! i)" "\<not> create_waits ?op" "create_ok ?op"
    using Cr_resolved d(1) [OF i(1)] by (simp_all add: create_waits_def create_ok_def)
  have "{j. j < length (wv_ops s) \<and> create_waits ((wv_ops s)[i := ?op] ! j)} =
      {j. j < length (wv_ops s) \<and> create_waits (wv_ops s ! j)} - {i}"
    using i(1) w(2) by (auto simp: nth_list_update split: if_splits)
  then have "table_ok {j. j < length (wv_ops ?s) \<and> create_waits (wv_ops ?s ! j)} (wv_table ?s)"
    using table_ok_erase [OF d(6) _ i(2)] i(1) w(1) by (simp add: f)
  moreover have "create_ok op" if "op \<in> set (wv_ops ?s)" for op
  proof -
    have "op \<in> insert ?op (set (wv_ops s))" using that set_update_subset_insert [of "wv_ops s" i ?op] unfolding f(1) by blast
    then show ?thesis using w(3) inv by (auto simp: server_env_inv_def)
  qed
  moreover have "set (posted_creates (wv_thread s)) = {j. j < length (wv_ops ?s) \<and> cr_stage (wv_ops ?s ! j) = Cr_posted}"
  proof (rule set_eqI)
    show "j \<in> set (posted_creates (wv_thread s)) \<longleftrightarrow>
        j \<in> {j. j < length (wv_ops ?s) \<and> cr_stage (wv_ops ?s ! j) = Cr_posted}" for j
      unfolding f(1) d(5) using Cr_resolved i(1) by (cases "j = i") simp_all
  qed
  ultimately have "server_env_inv ?s" using d(2-4) unfolding server_env_inv_def by (simp add: f(1,2))
  moreover have "server_env_pending ?s + {#i#} = server_env_pending s"
    unfolding server_env_pending_def f(1) by (rule unanswered_answer [OF i(1) w(1,2)])
  moreover have "map fst (snd (create_finally i s)) = [i]" using Cr_resolved by (simp add: create_finally_def)
  ultimately show "server_env_inv ?s \<and>
      server_env_pending ?s + mset (map fst (snd (create_finally i s))) = server_env_pending s" by simp
qed (use inv in \<open>simp_all add: create_finally_def\<close>)

lemma server_env_table:
  assumes "server_env_inv s" "\<And>A. table_ok A (wv_table s) \<Longrightarrow> table_ok A t"
  shows "server_env_inv (s\<lparr>wv_table := t\<rparr>) \<and> server_env_pending (s\<lparr>wv_table := t\<rparr>) = server_env_pending s"
  using assms by (simp add: server_env_inv_def server_env_pending_def)

lemma pending_is_op: "server_env_inv s \<Longrightarrow> i \<in> set (pending_ids (wv_table s)) \<Longrightarrow> i < length (wv_ops s) \<and> create_waits (wv_ops s ! i)"
  using server_env_invD(6) [of s] by (auto simp: table_ok_def)

lemma cancel_pending_ok:
  assumes "server_env_inv s"
  defines "s' \<equiv> \<lambda>c order. win_cancel_pending_server_endpoints c order s"
  shows "server_env_inv (s' c order)" "server_env_pending (s' c order) = server_env_pending s" "wv_ops (s' c order) = wv_ops s"
proof -
  have "\<forall>i \<in> set order. i < length (wv_ops s)" if "mset order = mset (matching_ids c (wv_table s))"
    using mset_eq_setD [OF that] matching_pending [of c "wv_table s"] pending_is_op [OF assms(1)] by blast
  then show "server_env_inv (s' c order)" "server_env_pending (s' c order) = server_env_pending s" "wv_ops (s' c order) = wv_ops s"
    using assms(1) fold_cancel_create_inv [OF assms(1), of order]
    by (auto simp: s'_def win_cancel_pending_server_endpoints_def)
qed

lemma server_env_step_ok:
  assumes inv: "server_env_inv s"
  shows "server_env_inv (fst (win_server_step s e)) \<and>
    server_env_pending (fst (win_server_step s e)) + mset (map fst (snd (win_server_step s e))) =
      server_env_pending s + server_env_opened s e"
proof (cases e)
  case (Wv_create_pipe c ms)
  then show ?thesis using create_pipe_inv [OF inv] by simp
next
  case (Wv_insert now k)
  then show ?thesis using inv server_env_table [OF inv, of "insert_call now k (wv_table s)"] table_ok_insert by simp
next
  case (Wv_thread h ec out)
  then show ?thesis using run_create_task_ok [OF inv] by simp
next
  case (Wv_connect i ok)
  then show ?thesis using update_create_same [OF inv, of "connect_finished ok" i] connect_finished_ok by simp
next
  case (Wv_worker i)
  then show ?thesis using update_create_same [OF inv, of worker_create i] worker_create_ok by simp
next
  case (Wv_finally i)
  then show ?thesis using inv create_finally_ok [OF inv, of i] by simp
next
  case (Wv_cancel c order)
  then show ?thesis using cancel_pending_ok [OF inv] by simp
next
  case (Wv_timer_expire now t)
  then show ?thesis using server_env_table [OF inv, of "table_timer_expire now t (wv_table s)"] by (simp add: table_ok_timer)
next
  case (Wv_timer_handler t)
  let ?s = "s\<lparr>wv_table := fst (table_timer_handler t (wv_table s))\<rparr>"
  have s: "server_env_inv ?s" "server_env_pending ?s = server_env_pending s"
    using server_env_table [OF inv, of "fst (table_timer_handler t (wv_table s))"] by (simp_all add: table_ok_timer)
  have "i < length (wv_ops ?s)" if "snd (table_timer_handler t (wv_table s)) = Some i" for i
    using pending_is_op [OF inv table_timer_op [OF that]] by simp
  then show ?thesis using s cancel_create_inv [OF s(1)] Wv_timer_handler
    by (auto simp: case_prod_beta Let_def split: option.splits)
qed


section \<open>Operations that are cancelled\<close>

definition create_doomed :: "win_pipe_operation_res \<Rightarrow> create_op \<Rightarrow> bool" where
  "create_doomed code op \<longleftrightarrow>
     code \<in> {Win_canceled, Win_timeout} \<and> cr_res op = code \<and>
     (case cr_stage op of
        Cr_posted \<Rightarrow> False
      | Cr_connecting st \<Rightarrow> st \<noteq> None \<and> st \<noteq> Some Io_success
      | Cr_resolved r h \<Rightarrow> r = code
      | Cr_answered \<Rightarrow> True)"

definition server_env_doomed :: "win_pipe_operation_res \<Rightarrow> win_server_env \<Rightarrow> promise_id \<Rightarrow> bool" where
  "server_env_doomed code s i \<longleftrightarrow> i < length (wv_ops s) \<and> create_doomed code (wv_ops s ! i)"

definition other_result :: "win_pipe_operation_res \<Rightarrow> pipe_wait_result completion \<Rightarrow> bool" where
  "other_result code c \<longleftrightarrow> snd c \<noteq> no_pipe (to_pipe_wait_res code)"

lemma create_doomed_steps:
  assumes "create_doomed code op"
  shows "create_doomed code (create_cancel b op)" "create_doomed code (worker_create op)" "create_doomed code (connect_finished ok op)"
    "create_doomed code (op\<lparr>cr_stage := Cr_answered\<rparr>)"
  using assms by (auto simp: create_doomed_def create_op_defs Let_def set_timeout_if_possible_def set_canceled_if_possible_def
      split: create_stage.splits option.splits)

lemma doomed_update:
  assumes "server_env_doomed code s i" "create_doomed code (wv_ops s ! i) \<Longrightarrow> i = j \<Longrightarrow> create_doomed code (f (wv_ops s ! i))"
  shows "server_env_doomed code (update_create j f s) i"
  using assms by (cases "i = j") (simp_all add: server_env_doomed_def update_create_def)

lemma doomed_ops: "wv_ops s' = wv_ops s \<Longrightarrow> server_env_doomed code s' i = server_env_doomed code s i"
  by (simp add: server_env_doomed_def)

lemma server_env_doomed_step:
  assumes inv: "server_env_inv s" and d: "server_env_doomed code s i"
  shows "server_env_doomed code (fst (win_server_step s e)) i"
proof (cases e)
  case (Wv_create_pipe c ms)
  then show ?thesis using d by (simp add: server_env_doomed_def win_create_pipe_def Let_def nth_append)
next
  case (Wv_thread h ec out)
  show ?thesis
  proof (cases "wv_thread s")
    case Nil
    then show ?thesis using d Wv_thread by (simp add: run_create_task_def)
  next
    case (Cons t ts)
    have d': "server_env_doomed code (s\<lparr>wv_thread := ts\<rparr>) i" using d by (simp add: server_env_doomed_def)
    show ?thesis
    proof (cases t)
      case (Task_create j)
      have "i \<noteq> j" using d server_env_invD(5) [OF inv, of j] Cons Task_create by (auto simp: server_env_doomed_def create_doomed_def)
      then show ?thesis using doomed_update [OF d'] Wv_thread Cons Task_create by (simp add: run_create_task_def)
    next
      case (Task_cancel_create j b)
      then show ?thesis
        using doomed_update [OF d', of j "create_cancel b"] create_doomed_steps(1) Wv_thread Cons by (simp add: run_create_task_def)
    qed
  qed
next
  case (Wv_connect j ok)
  then show ?thesis using doomed_update [OF d] create_doomed_steps(3) by simp
next
  case (Wv_worker j)
  then show ?thesis using doomed_update [OF d] create_doomed_steps(2) by simp
next
  case (Wv_finally j)
  have d': "server_env_doomed code (s\<lparr>wv_table := t\<rparr>) i" for t using d by (simp add: server_env_doomed_def)
  show ?thesis
    using d doomed_update [OF d', where f = "\<lambda>op. op\<lparr>cr_stage := Cr_answered\<rparr>"] create_doomed_steps(4) Wv_finally
    by (simp add: create_finally_def split: create_stage.split)
next
  case (Wv_cancel c order)
  then show ?thesis using d doomed_ops [OF cancel_pending_ok(3) [OF inv]] by simp
qed (use d in \<open>auto simp: server_env_doomed_def cancel_create_def case_prod_beta Let_def split: option.split\<close>)

lemma server_env_output:
  assumes "c \<in> set (snd (win_server_step s e))"
  obtains i r h where "i < length (wv_ops s)" "cr_stage (wv_ops s ! i) = Cr_resolved r h"
    "c = (i, to_pipe_wait_res r, if is_success_wait (to_pipe_wait_res r) then h else None)"
  using assms by (cases e) (auto simp: create_finally_def case_prod_beta Let_def split: create_stage.splits if_splits)

interpretation win_server: cancellable_env win_server_step server_env_inv server_env_pending server_env_opened
  "\<lambda>s. length (wv_ops s)" "server_env_doomed code" "other_result code" for code
proof
  fix s e p r
  assume inv: "server_env_inv s"
  show "server_env_inv (fst (win_server_step s e))"
    and "server_env_pending (fst (win_server_step s e)) + mset (map fst (snd (win_server_step s e))) =
      server_env_pending s + server_env_opened s e"
    using server_env_step_ok [OF inv] by blast+
  have "length (wv_ops (fst (win_server_step s e))) = length (wv_ops s) + size (server_env_opened s e)"
    using cancel_pending_ok(3) [OF inv]
    by (cases e) (auto simp: win_create_pipe_def run_create_task_def update_create_def create_finally_def cancel_create_def
        Let_def case_prod_beta split: list.split create_task.split create_stage.split option.split)
  then show "mset [0..<length (wv_ops s)] + server_env_opened s e = mset [0..<length (wv_ops (fst (win_server_step s e)))]"
    by (cases e) simp_all
  assume d: "server_env_doomed code s p"
  then show "server_env_doomed code (fst (win_server_step s e)) p" by (rule server_env_doomed_step [OF inv])
  assume "(p, r) \<in> set (snd (win_server_step s e))"
  then show "\<not> other_result code (p, r)"
    using d by (auto simp: server_env_doomed_def create_doomed_def other_result_def is_success_wait_def elim!: server_env_output)
qed


section \<open>Properties\<close>

text \<open>Nothing is under way: no task of the thread, no wait for a client and no continuation.\<close>

definition server_env_idle :: "win_server_env \<Rightarrow> bool" where
  "server_env_idle s \<longleftrightarrow>
     wv_thread s = [] \<and>
     (\<forall>op \<in> set (wv_ops s). case cr_stage op of Cr_connecting st \<Rightarrow> False | Cr_resolved r h \<Rightarrow> False | _ \<Rightarrow> True)"

lemma server_env_idle_pending:
  assumes "server_env_inv s" "server_env_idle s"
  shows "server_env_pending s = {#}"
proof -
  have "\<not> create_waits (wv_ops s ! i)" if "i < length (wv_ops s)" for i
  proof -
    have "case cr_stage (wv_ops s ! i) of Cr_connecting st \<Rightarrow> False | Cr_resolved r h \<Rightarrow> False | _ \<Rightarrow> True"
      using assms(2) nth_mem [OF that] by (simp add: server_env_idle_def)
    then show ?thesis
      using assms(2) server_env_invD(5) [OF assms(1), of i] that
      by (cases "cr_stage (wv_ops s ! i)") (auto simp: server_env_idle_def create_waits_def)
  qed
  then show ?thesis by (simp add: server_env_pending_def unanswered_def)
qed

lemma server_env_carries:
  assumes "c \<in> set (run_output win_server_step win_server_env_init es)"
  shows "carries_socket c"
proof (rule win_server.output_run [OF _ server_env_inv_init assms])
  fix s e c
  assume inv: "server_env_inv s" and c: "c \<in> set (snd (win_server_step s e))"
  obtain i r h where i: "i < length (wv_ops s)" "cr_stage (wv_ops s ! i) = Cr_resolved r h"
    "c = (i, to_pipe_wait_res r, if is_success_wait (to_pipe_wait_res r) then h else None)"
    by (rule server_env_output [OF c])
  then show "carries_socket c"
    using server_env_invD(1) [OF inv i(1)]
    by (cases r) (auto simp: carries_socket_def successful_def is_success_wait_def create_ok_def)
qed

text \<open>
  C32: Every call of \<open>create_pipe\<close> of the Windows server environment gets at most one result, and exactly one
  once its thread, the completion port and the continuations have nothing left to do.  A result carries a
  pipe exactly if it is a success.  The map, together with the calls that are being inserted, holds exactly the calls without
  a result, and an operation owns a pipe handle only while it waits for a client, so none is leaked.
\<close>

theorem win_server_env_exactly_once:
  fixes es
  defines "out \<equiv> run_output win_server_step win_server_env_init es" and "s \<equiv> run_state win_server_step win_server_env_init es"
  shows "distinct (map fst out) \<and> set (map fst out) \<subseteq> {..<length (wv_ops s)} \<and>
    (server_env_idle s \<longrightarrow> set (map fst out) = {..<length (wv_ops s)}) \<and> (\<forall>c \<in> set out. carries_socket c) \<and>
    set (pending_ids (wv_table s) @ starting_ids (wv_table s)) = {..<length (wv_ops s)} - set (map fst out) \<and>
    (\<forall>op \<in> set (wv_ops s). cr_pipe op \<noteq> None \<longrightarrow> (\<exists>st. cr_stage op = Cr_connecting st))"
proof -
  have "length (wv_ops win_server_env_init) = 0" "server_env_pending win_server_env_init = {#}"
    by (simp_all add: win_server_env_init_def server_env_pending_def)
  note once = win_server.answered_once [OF server_env_inv_init this, of es, folded out_def s_def]
  have inv: "server_env_inv s" unfolding s_def by (rule win_server.inv_run [OF server_env_inv_init])
  have idle: "set (map fst out) = {..<length (wv_ops s)}" if "server_env_idle s"
    using once(3) server_env_idle_pending [OF inv that] by blast
  have "{i. i < length (wv_ops s) \<and> create_waits (wv_ops s ! i)} = {..<length (wv_ops s)} - set (map fst out)"
    using unanswered_rest once(4) unfolding server_env_pending_def by blast
  moreover have "set (pending_ids (wv_table s) @ starting_ids (wv_table s)) = {i. i < length (wv_ops s) \<and> create_waits (wv_ops s ! i)}"
    using server_env_invD(6) [OF inv] by (simp only: table_ok_def)
  moreover have "\<exists>st. cr_stage op = Cr_connecting st" if "op \<in> set (wv_ops s)" "cr_pipe op \<noteq> None" for op
    using inv that by (cases "cr_stage op") (auto simp: server_env_inv_def create_ok_def)
  moreover have "carries_socket c" if "c \<in> set out" for c using that server_env_carries by (simp add: out_def)
  ultimately show ?thesis using once(1,2) idle by (intro conjI) (simp_all only: simp_thms, blast+)
qed

text \<open>A client connects to the first pipe, the second call times out, the third is cancelled and the fourth fails.\<close>

definition win_server_session :: "win_server_event list" where
  "win_server_session =
     [Wv_create_pipe 1 None, Wv_thread (Some 70) False Connect_pending, Wv_create_pipe 1 (Some 5), Wv_insert 0 0,
      Wv_thread (Some 71) False Connect_pending, Wv_create_pipe 2 None, Wv_connect 0 True, Wv_timer_expire 5 0, Wv_timer_handler 0,
      Wv_worker 0, Wv_thread (Some 72) False Connect_pending, Wv_cancel (Some 2) [2], Wv_thread None False Connect_error,
      Wv_thread None False Connect_error, Wv_worker 1, Wv_worker 2, Wv_finally 1, Wv_finally 0, Wv_finally 2,
      Wv_create_pipe 3 None, Wv_thread None False Connect_error, Wv_finally 3]"

theorem win_server_env_exactly_once_witness:
  "run_output win_server_step win_server_env_init win_server_session =
     [(1, Wait_timeout, None), (0, Wait_success, Some 70), (2, Wait_canceled, None), (3, Wait_failed, None)] \<and>
   set (map fst (run_output win_server_step win_server_env_init win_server_session)) = {..<4}"
proof -
  let ?s = "run_state win_server_step win_server_env_init win_server_session"
  have "server_env_idle ?s \<and> length (wv_ops ?s) = 4" by code_simp
  then have "set (map fst (run_output win_server_step win_server_env_init win_server_session)) = {..<4}"
    using win_server_env_exactly_once [of win_server_session] by simp
  moreover have "run_output win_server_step win_server_env_init win_server_session =
     [(1, Wait_timeout, None), (0, Wait_success, Some 70), (2, Wait_canceled, None), (3, Wait_failed, None)]" by code_simp
  ultimately show ?thesis by simp
qed

text \<open>
  A cancel of a Windows server pipe takes effect.  \<open>cancel_pending_server_endpoints\<close> posts a cancel for
  every call it names; once that task runs for a call that still waits for its client, the call
  never gets a pipe but the code for a cancelled call, or for a timeout if the timer posted it, whatever happens afterwards.
\<close>

theorem win_server_env_cancel:
  fixes es
  defines "s \<equiv> run_state win_server_step win_server_env_init es"
  assumes "wv_thread s = Task_cancel_create i by_timeout # ts" "cr_stage (wv_ops s ! i) = Cr_connecting None"
    and "(i, r) \<in> set (run_output win_server_step s (Wv_thread h ec co # es'))"
  shows "r = no_pipe (canceled_result by_timeout)"
proof -
  let ?s = "run_create_task h ec co s" and ?code = "if by_timeout then Win_timeout else Win_canceled"
  have inv: "server_env_inv s" unfolding s_def by (rule win_server.inv_run [OF server_env_inv_init])
  have i: "i < length (wv_ops s)" using server_env_invD(2) [OF inv, of "Task_cancel_create i by_timeout"] assms(2) by simp
  have "cr_pipe (wv_ops s ! i) \<noteq> None" "cr_res (wv_ops s ! i) = Win_unknown"
    using server_env_invD(1) [OF inv i] assms(3) by (simp_all add: create_ok_def)
  then have "create_doomed ?code (create_cancel by_timeout (wv_ops s ! i))"
    using assms(3) by (simp add: create_doomed_def create_cancel_def set_timeout_if_possible_def set_canceled_if_possible_def)
  then have "server_env_doomed ?code ?s i"
    using i assms(2) by (simp add: server_env_doomed_def run_create_task_def update_create_def)
  moreover have "server_env_inv ?s" using run_create_task_ok [OF inv] by blast
  moreover have "(i, r) \<in> set (run_output win_server_step ?s es')" using assms(4) by simp
  ultimately have "\<not> other_result ?code (i, r)" by (intro win_server.doomed_never_successful)
  then show ?thesis by (auto simp: other_result_def canceled_result_def split: if_splits)
qed

theorem win_server_env_cancel_witness:
  "map snd (filter (\<lambda>c. fst c = 2) (run_output win_server_step win_server_env_init win_server_session)) =
     [no_pipe (canceled_result False)]"
proof -
  let ?s = "run_state win_server_step win_server_env_init (take 13 win_server_session)"
  have "wv_thread ?s = [Task_cancel_create 2 False]" "cr_stage (wv_ops ?s ! 2) = Cr_connecting None"
    "drop 13 win_server_session = Wv_thread None False Connect_error # drop 14 win_server_session"
    "map snd (filter (\<lambda>c. fst c = 2) (run_output win_server_step win_server_env_init win_server_session)) = [(Wait_canceled, None)]"
    by code_simp+
  moreover have "(2, Wait_canceled, None) \<in> set (run_output win_server_step ?s (drop 13 win_server_session))" by code_simp
  ultimately show ?thesis
    using win_server_env_cancel [of "take 13 win_server_session" 2 False "[]" "(Wait_canceled, None)" None False Connect_error
        "drop 14 win_server_session"] by simp
qed

end
