(* ===== verification/Win_Client_Env.thy ===== *)
theory Win_Client_Env
  imports Win_Env
begin

text \<open>
  Opening Windows pipes: \<open>win-pipe-client-env.cpp\<close> and \<open>win-pipe-open-operation.cpp\<close>.

  Every call of \<open>open_pipe\<close> has a thread of its own that tries to open the pipe and, while the server is busy or
  absent, waits for 100 ms or for a cancel.  A step is one attempt, one end of a wait, a
  continuation or a critical section of the environment.
\<close>

section \<open>Open operations\<close>

datatype cancel_event = No_cancel | Canceled | Canceled_by_timeout

text \<open>The thread is before an attempt or in the wait, it has set the promise, or the caller has the answer.\<close>

datatype open_stage =
    Op_attempt
  | Op_backoff
  | Op_resolved win_pipe_operation_res "nat option"
  | Op_answered

record win_open_op =
  wp_cancel_event :: cancel_event
  wp_stage :: open_stage

definition win_open_op_create :: win_open_op where
  "win_open_op_create = \<lparr>wp_cancel_event = No_cancel, wp_stage = Op_attempt\<rparr>"

definition win_open_cancel :: "bool \<Rightarrow> win_open_op \<Rightarrow> win_open_op" where
  "win_open_cancel by_timeout op =
     (if wp_cancel_event op = No_cancel
      then op\<lparr>wp_cancel_event := (if by_timeout then Canceled_by_timeout else Canceled)\<rparr> else op)"

text \<open>\<open>CreateFile\<close> with \<open>SetNamedPipeHandleState\<close>: a handle, which may refuse the mode, or an error.\<close>

datatype open_outcome = Opened nat bool | Pipe_busy | Open_error

definition open_attempt :: "open_outcome \<Rightarrow> win_open_op \<Rightarrow> win_open_op" where
  "open_attempt out op =
     (if wp_stage op = Op_attempt
      then op\<lparr>wp_stage :=
        (case out of
           Opened h mode_ok \<Rightarrow> Op_resolved (if mode_ok then Win_success else Win_failed) (Some h)
         | Open_error \<Rightarrow> Op_resolved Win_failed None
         | Pipe_busy \<Rightarrow> Op_backoff)\<rparr>
      else op)"

text \<open>The wait ends with the cancel or after its time.\<close>

definition open_wake :: "win_open_op \<Rightarrow> win_open_op" where
  "open_wake op =
     (if wp_stage op = Op_backoff
      then op\<lparr>wp_stage :=
        (if wp_cancel_event op \<noteq> No_cancel
         then Op_resolved (if wp_cancel_event op = Canceled_by_timeout then Win_timeout else Win_canceled) None
         else Op_attempt)\<rparr>
      else op)"


section \<open>The environment\<close>

record win_client_env =
  wl_ops :: "win_open_op list"
  wl_table :: pending_table

definition win_client_env_init :: win_client_env where
  "win_client_env_init = \<lparr>wl_ops = [], wl_table = pending_table_init\<rparr>"

definition update_open :: "nat \<Rightarrow> (win_open_op \<Rightarrow> win_open_op) \<Rightarrow> win_client_env \<Rightarrow> win_client_env" where
  "update_open i f s = s\<lparr>wl_ops := (wl_ops s)[i := f (wl_ops s ! i)]\<rparr>"

definition win_open_pipe :: "nat \<Rightarrow> nat option \<Rightarrow> win_client_env \<Rightarrow> win_client_env" where
  "win_open_pipe client_id timeout s =
     s\<lparr>wl_ops := wl_ops s @ [win_open_op_create], wl_table := begin_call (length (wl_ops s)) client_id timeout (wl_table s)\<rparr>"

definition win_cancel_pending_client_endpoints :: "nat option \<Rightarrow> win_client_env \<Rightarrow> win_client_env" where
  "win_cancel_pending_client_endpoints client_id s =
     fold (\<lambda>i. update_open i (win_open_cancel False)) (matching_ids client_id (wl_table s)) s"

text \<open>
  The continuations.  The handle of a success is associated with the completion port; if that throws, the
  future of the caller has the exception.  The operation leaves the map in any case.
\<close>

definition open_result :: "exn option \<Rightarrow> win_pipe_operation_res \<Rightarrow> nat option \<Rightarrow> pipe_wait_result or_exn" where
  "open_result associate_error r h =
     (case (r, associate_error) of
        (Win_success, Some e) \<Rightarrow> Inl e
      | _ \<Rightarrow> Inr (to_pipe_wait_res r, if is_success_wait (to_pipe_wait_res r) then h else None))"

definition open_finally ::
  "exn option \<Rightarrow> nat \<Rightarrow> win_client_env \<Rightarrow> win_client_env \<times> pipe_wait_result or_exn completion list"
where
  "open_finally associate_error i s =
     (case wp_stage (wl_ops s ! i) of
        Op_resolved r h \<Rightarrow>
          (update_open i (\<lambda>op. op\<lparr>wp_stage := Op_answered\<rparr>) (s\<lparr>wl_table := erase_call i (wl_table s)\<rparr>),
           [(i, open_result associate_error r h)])
      | _ \<Rightarrow> (s, []))"

datatype win_client_event =
    Wl_open_pipe nat "nat option"
  | Wl_insert time_point nat
  | Wl_attempt nat open_outcome
  | Wl_wake nat
  | Wl_finally nat "exn option"
  | Wl_cancel "nat option"
  | Wl_timer_expire time_point timer_id
  | Wl_timer_handler timer_id

fun win_client_step ::
  "win_client_env \<Rightarrow> win_client_event \<Rightarrow> win_client_env \<times> pipe_wait_result or_exn completion list"
where
  "win_client_step s (Wl_open_pipe client_id timeout) = (win_open_pipe client_id timeout s, [])"
| "win_client_step s (Wl_insert now k) =
     (if k < length (pt_starting (wl_table s)) then s\<lparr>wl_table := insert_call now k (wl_table s)\<rparr> else s, [])"
| "win_client_step s (Wl_attempt i out) = (update_open i (open_attempt out) s, [])"
| "win_client_step s (Wl_wake i) = (update_open i open_wake s, [])"
| "win_client_step s (Wl_finally i associate_error) =
     (if i < length (wl_ops s) \<and> i \<notin> set (starting_ids (wl_table s)) then open_finally associate_error i s else (s, []))"
| "win_client_step s (Wl_cancel client_id) = (win_cancel_pending_client_endpoints client_id s, [])"
| "win_client_step s (Wl_timer_expire now t) = (s\<lparr>wl_table := table_timer_expire now t (wl_table s)\<rparr>, [])"
| "win_client_step s (Wl_timer_handler t) =
     (let (table, i) = table_timer_handler t (wl_table s); s = s\<lparr>wl_table := table\<rparr>
      in (case i of None \<Rightarrow> s | Some i \<Rightarrow> update_open i (win_open_cancel True) s, []))"


section \<open>Invariant\<close>

definition open_waits :: "win_open_op \<Rightarrow> bool" where
  "open_waits op \<longleftrightarrow> wp_stage op \<noteq> Op_answered"

definition open_ok :: "win_open_op \<Rightarrow> bool" where
  "open_ok op \<longleftrightarrow> (case wp_stage op of Op_resolved r h \<Rightarrow> r \<noteq> Win_unknown \<and> (r = Win_success \<longrightarrow> h \<noteq> None) | _ \<Rightarrow> True)"

definition client_env_inv :: "win_client_env \<Rightarrow> bool" where
  "client_env_inv s \<longleftrightarrow>
     (\<forall>op \<in> set (wl_ops s). open_ok op) \<and>
     table_ok {i. i < length (wl_ops s) \<and> open_waits (wl_ops s ! i)} (wl_table s)"

definition client_env_pending :: "win_client_env \<Rightarrow> promise_id multiset" where
  "client_env_pending s = unanswered open_waits (wl_ops s)"

fun client_env_opened :: "win_client_env \<Rightarrow> win_client_event \<Rightarrow> promise_id multiset" where
  "client_env_opened s (Wl_open_pipe client_id timeout) = {#length (wl_ops s)#}"
| "client_env_opened s e = {#}"

lemma client_env_inv_init: "client_env_inv win_client_env_init"
  using table_ok_init by (simp add: client_env_inv_def win_client_env_init_def)

lemma client_env_invD:
  assumes "client_env_inv s"
  shows "i < length (wl_ops s) \<Longrightarrow> open_ok (wl_ops s ! i)"
    "table_ok {i. i < length (wl_ops s) \<and> open_waits (wl_ops s ! i)} (wl_table s)"
    "i \<in> set (pending_ids (wl_table s)) \<Longrightarrow> i < length (wl_ops s)"
  using assms by (auto simp: client_env_inv_def table_ok_def)

lemmas open_op_defs = open_waits_def open_ok_def open_attempt_def open_wake_def win_open_cancel_def

lemma open_op_steps:
  "open_ok op \<Longrightarrow> open_ok (open_attempt out op)" "open_waits (open_attempt out op) = open_waits op"
  "open_ok op \<Longrightarrow> open_ok (open_wake op)" "open_waits (open_wake op) = open_waits op"
  "open_ok (win_open_cancel b op) = open_ok op" "open_waits (win_open_cancel b op) = open_waits op"
  by (auto simp: open_op_defs split: open_outcome.split)

lemma update_open_ok:
  assumes inv: "client_env_inv s" and f: "\<And>op. open_ok op \<Longrightarrow> open_ok (f op)" "\<And>op. open_waits (f op) = open_waits op"
  shows "client_env_inv (update_open i f s) \<and> client_env_pending (update_open i f s) = client_env_pending s"
proof -
  let ?s = "update_open i f s"
  have g: "wl_ops ?s = (wl_ops s)[i := f (wl_ops s ! i)]" "wl_table ?s = wl_table s" by (simp_all add: update_open_def)
  have waits: "open_waits (wl_ops ?s ! j) = open_waits (wl_ops s ! j)" for j
    unfolding g by (rule field_list_update) (rule f(2))
  have "open_ok op" if "op \<in> set (wl_ops ?s)" for op
  proof (cases "i < length (wl_ops s)")
    case True
    have "op \<in> insert (f (wl_ops s ! i)) (set (wl_ops s))"
      using that set_update_subset_insert [of "wl_ops s" i] unfolding g(1) by blast
    then show ?thesis using f(1) client_env_invD(1) [OF inv True] inv by (auto simp: client_env_inv_def)
  next
    case False
    then show ?thesis using that inv by (simp add: g(1) list_update_beyond client_env_inv_def)
  qed
  then have "client_env_inv ?s" using client_env_invD(2) [OF inv] waits by (simp add: client_env_inv_def g)
  moreover have "client_env_pending ?s = client_env_pending s"
    unfolding client_env_pending_def g(1) by (rule unanswered_keep) (rule f(2))
  ultimately show ?thesis by blast
qed

lemma fold_open_cancel:
  "client_env_inv s \<Longrightarrow>
   client_env_inv (fold (\<lambda>i. update_open i (win_open_cancel b)) xs s) \<and>
   client_env_pending (fold (\<lambda>i. update_open i (win_open_cancel b)) xs s) = client_env_pending s"
proof (induction xs arbitrary: s)
  case (Cons i xs)
  show ?case using Cons.IH [of "update_open i (win_open_cancel b) s"] update_open_ok [OF Cons.prems, of "win_open_cancel b" i]
    by (simp add: open_op_steps)
qed simp

lemma open_pipe_ok:
  assumes inv: "client_env_inv s"
  shows "client_env_inv (win_open_pipe c ms s)"
    "client_env_pending (win_open_pipe c ms s) = client_env_pending s + {#length (wl_ops s)#}"
proof -
  let ?n = "length (wl_ops s)" and ?s = "win_open_pipe c ms s"
  have f: "wl_ops ?s = wl_ops s @ [win_open_op_create]" "wl_table ?s = begin_call ?n c ms (wl_table s)"
    by (simp_all add: win_open_pipe_def)
  have new: "open_waits win_open_op_create" "open_ok win_open_op_create"
    by (simp_all add: open_waits_def open_ok_def win_open_op_create_def)
  have "{i. i < length (wl_ops ?s) \<and> open_waits (wl_ops ?s ! i)} = insert ?n {i. i < ?n \<and> open_waits (wl_ops s ! i)}"
    using new(1) by (auto simp: f(1) nth_append less_Suc_eq)
  then have "table_ok {i. i < length (wl_ops ?s) \<and> open_waits (wl_ops ?s ! i)} (wl_table ?s)"
    using table_ok_begin [OF client_env_invD(2) [OF inv], of ?n] by (simp add: f(2))
  then show "client_env_inv ?s" using inv new(2) by (simp add: client_env_inv_def) (simp add: f)
  show "client_env_pending ?s = client_env_pending s + {#?n#}"
    unfolding client_env_pending_def f(1) by (rule unanswered_add) (rule new(1))
qed

lemma open_finally_ok:
  assumes inv: "client_env_inv s" and i: "i < length (wl_ops s)" "i \<notin> set (starting_ids (wl_table s))"
  shows "client_env_inv (fst (open_finally ae i s)) \<and>
    client_env_pending (fst (open_finally ae i s)) + mset (map fst (snd (open_finally ae i s))) = client_env_pending s"
proof (cases "wp_stage (wl_ops s ! i)")
  case (Op_resolved r h)
  let ?op = "(wl_ops s ! i)\<lparr>wp_stage := Op_answered\<rparr>" and ?s = "fst (open_finally ae i s)"
  have f: "wl_ops ?s = (wl_ops s)[i := ?op]" "wl_table ?s = erase_call i (wl_table s)" "map fst (snd (open_finally ae i s)) = [i]"
    using Op_resolved by (simp_all add: open_finally_def update_open_def)
  have w: "open_waits (wl_ops s ! i)" "\<not> open_waits ?op" "open_ok ?op"
    using Op_resolved by (simp_all add: open_waits_def open_ok_def)
  have "{j. j < length (wl_ops s) \<and> open_waits ((wl_ops s)[i := ?op] ! j)} =
      {j. j < length (wl_ops s) \<and> open_waits (wl_ops s ! j)} - {i}"
    using i(1) w(2) by (auto simp: nth_list_update split: if_splits)
  then have t: "table_ok {j. j < length (wl_ops ?s) \<and> open_waits (wl_ops ?s ! j)} (wl_table ?s)"
    using table_ok_erase [OF client_env_invD(2) [OF inv] _ i(2)] i(1) w(1) by (simp add: f)
  have "open_ok op" if "op \<in> set (wl_ops ?s)" for op
  proof -
    have "op \<in> insert ?op (set (wl_ops s))" using that set_update_subset_insert [of "wl_ops s" i ?op] unfolding f(1) by blast
    then show ?thesis using w(3) inv by (auto simp: client_env_inv_def)
  qed
  then have "client_env_inv ?s" using t unfolding client_env_inv_def by blast
  moreover have "client_env_pending ?s + {#i#} = client_env_pending s"
    unfolding client_env_pending_def f(1) by (rule unanswered_answer [OF i(1) w(1,2)])
  ultimately show ?thesis using f(3) by simp
qed (use inv in \<open>simp_all add: open_finally_def\<close>)

lemma client_env_table:
  assumes "client_env_inv s" "\<And>A. table_ok A (wl_table s) \<Longrightarrow> table_ok A t"
  shows "client_env_inv (s\<lparr>wl_table := t\<rparr>) \<and> client_env_pending (s\<lparr>wl_table := t\<rparr>) = client_env_pending s"
  using assms by (simp add: client_env_inv_def client_env_pending_def)

lemma client_env_step_ok:
  assumes inv: "client_env_inv s"
  shows "client_env_inv (fst (win_client_step s e)) \<and>
    client_env_pending (fst (win_client_step s e)) + mset (map fst (snd (win_client_step s e))) =
      client_env_pending s + client_env_opened s e"
proof (cases e)
  case (Wl_open_pipe c ms)
  then show ?thesis using open_pipe_ok [OF inv] by simp
next
  case (Wl_insert now k)
  then show ?thesis using inv client_env_table [OF inv, of "insert_call now k (wl_table s)"] table_ok_insert by simp
next
  case (Wl_attempt i out)
  then show ?thesis using update_open_ok [OF inv, of "open_attempt out" i] by (simp add: open_op_steps)
next
  case (Wl_wake i)
  then show ?thesis using update_open_ok [OF inv, of open_wake i] by (simp add: open_op_steps)
next
  case (Wl_finally i ae)
  then show ?thesis using inv open_finally_ok [OF inv, of i ae] by simp
next
  case (Wl_cancel c)
  then show ?thesis using fold_open_cancel [OF inv] by (simp add: win_cancel_pending_client_endpoints_def)
next
  case (Wl_timer_expire now t)
  then show ?thesis using client_env_table [OF inv, of "table_timer_expire now t (wl_table s)"] by (simp add: table_ok_timer)
next
  case (Wl_timer_handler t)
  let ?s = "s\<lparr>wl_table := fst (table_timer_handler t (wl_table s))\<rparr>"
  have s: "client_env_inv ?s" "client_env_pending ?s = client_env_pending s"
    using client_env_table [OF inv, of "fst (table_timer_handler t (wl_table s))"] by (simp_all add: table_ok_timer)
  then show ?thesis using update_open_ok [OF s(1), of "win_open_cancel True"] Wl_timer_handler
    by (auto simp: case_prod_beta Let_def open_op_steps split: option.splits)
qed


section \<open>Operations that are cancelled\<close>

text \<open>
  The first cancel decides the code.  An operation in its wait does not try again; one whose attempt is
  under way gets the result of this attempt, or the code if the pipe is busy.
\<close>

definition open_doomed :: "bool \<Rightarrow> win_open_op \<Rightarrow> bool" where
  "open_doomed by_timeout op \<longleftrightarrow>
     wp_cancel_event op = (if by_timeout then Canceled_by_timeout else Canceled) \<and>
     (case wp_stage op of
        Op_attempt \<Rightarrow> False
      | Op_backoff \<Rightarrow> True
      | Op_resolved r h \<Rightarrow> r = (if by_timeout then Win_timeout else Win_canceled)
      | Op_answered \<Rightarrow> True)"

definition client_env_doomed :: "bool \<Rightarrow> win_client_env \<Rightarrow> promise_id \<Rightarrow> bool" where
  "client_env_doomed by_timeout s i \<longleftrightarrow> i < length (wl_ops s) \<and> open_doomed by_timeout (wl_ops s ! i)"

definition other_open_result :: "bool \<Rightarrow> pipe_wait_result or_exn completion \<Rightarrow> bool" where
  "other_open_result by_timeout c \<longleftrightarrow> snd c \<noteq> Inr (no_pipe (canceled_result by_timeout))"

lemma open_doomed_steps:
  assumes "open_doomed b op"
  shows "open_doomed b (open_attempt out op)" "open_doomed b (open_wake op)" "open_doomed b (win_open_cancel b' op)"
    "open_doomed b (op\<lparr>wp_stage := Op_answered\<rparr>)"
  using assms by (auto simp: open_doomed_def open_op_defs split: open_stage.splits)

lemma client_doomed_update:
  assumes "client_env_doomed b s i" "\<And>op. open_doomed b op \<Longrightarrow> open_doomed b (f op)"
  shows "client_env_doomed b (update_open j f s) i"
  using assms by (cases "i = j") (simp_all add: client_env_doomed_def update_open_def)

lemma client_doomed_fold:
  "client_env_doomed b s i \<Longrightarrow> client_env_doomed b (fold (\<lambda>i. update_open i (win_open_cancel b')) xs s) i"
  by (induction xs arbitrary: s) (simp_all add: client_doomed_update open_doomed_steps)

lemma client_doomed_table: "client_env_doomed b (s\<lparr>wl_table := t\<rparr>) i = client_env_doomed b s i"
  by (simp add: client_env_doomed_def)

lemma client_env_doomed_step:
  assumes d: "client_env_doomed b s i"
  shows "client_env_doomed b (fst (win_client_step s e)) i"
proof (cases e)
  case (Wl_open_pipe c ms)
  then show ?thesis using d by (simp add: client_env_doomed_def win_open_pipe_def nth_append)
next
  case (Wl_cancel c)
  then show ?thesis using client_doomed_fold [OF d] by (simp add: win_cancel_pending_client_endpoints_def)
qed (use d in \<open>auto simp: client_doomed_table open_finally_def case_prod_beta Let_def
    split: open_stage.split option.split intro!: client_doomed_update open_doomed_steps\<close>)

lemma client_env_output:
  assumes "c \<in> set (snd (win_client_step s e))"
  obtains i r h ae where "i < length (wl_ops s)" "wp_stage (wl_ops s ! i) = Op_resolved r h" "c = (i, open_result ae r h)"
  using assms by (cases e) (auto simp: open_finally_def case_prod_beta Let_def split: open_stage.splits if_splits)

lemma fold_open_cancel_length:
  "length (wl_ops (fold (\<lambda>i. update_open i (win_open_cancel b)) xs s)) = length (wl_ops s)"
  by (induction xs arbitrary: s) (simp_all add: update_open_def)

interpretation win_client: cancellable_env win_client_step client_env_inv client_env_pending client_env_opened
  "\<lambda>s. length (wl_ops s)" "client_env_doomed by_timeout" "other_open_result by_timeout" for by_timeout
proof
  fix s e p r
  assume inv: "client_env_inv s"
  show "client_env_inv (fst (win_client_step s e))"
    and "client_env_pending (fst (win_client_step s e)) + mset (map fst (snd (win_client_step s e))) =
      client_env_pending s + client_env_opened s e"
    using client_env_step_ok [OF inv] by blast+
  have "length (wl_ops (fst (win_client_step s e))) = length (wl_ops s) + size (client_env_opened s e)"
    by (cases e) (auto simp: win_open_pipe_def update_open_def open_finally_def fold_open_cancel_length
        win_cancel_pending_client_endpoints_def Let_def case_prod_beta split: open_stage.split option.split)
  then show "mset [0..<length (wl_ops s)] + client_env_opened s e = mset [0..<length (wl_ops (fst (win_client_step s e)))]"
    by (cases e) simp_all
  assume d: "client_env_doomed by_timeout s p"
  then show "client_env_doomed by_timeout (fst (win_client_step s e)) p" by (rule client_env_doomed_step)
  assume "(p, r) \<in> set (snd (win_client_step s e))"
  then show "\<not> other_open_result by_timeout (p, r)"
    using d by (auto simp: client_env_doomed_def open_doomed_def other_open_result_def open_result_def canceled_result_def
        is_success_wait_def elim!: client_env_output)
qed


section \<open>Properties\<close>

text \<open>No thread is running and no continuation is due.\<close>

definition client_env_idle :: "win_client_env \<Rightarrow> bool" where
  "client_env_idle s \<longleftrightarrow> (\<forall>op \<in> set (wl_ops s). wp_stage op = Op_answered)"

definition open_carries :: "pipe_wait_result or_exn completion \<Rightarrow> bool" where
  "open_carries c = (case snd c of Inl e \<Rightarrow> True | Inr r \<Rightarrow> carries_socket (fst c, r))"

lemma client_env_carries:
  assumes "c \<in> set (run_output win_client_step win_client_env_init es)"
  shows "open_carries c"
proof (rule win_client.output_run [OF _ client_env_inv_init assms])
  fix s e c
  assume inv: "client_env_inv s" and c: "c \<in> set (snd (win_client_step s e))"
  obtain i r h ae where i: "i < length (wl_ops s)" "wp_stage (wl_ops s ! i) = Op_resolved r h" "c = (i, open_result ae r h)"
    by (rule client_env_output [OF c])
  then show "open_carries c"
    using client_env_invD(1) [OF inv i(1)]
    by (cases r; cases ae) (auto simp: open_carries_def open_result_def carries_socket_def successful_def is_success_wait_def open_ok_def)
qed

text \<open>
  Every call of \<open>open_pipe\<close> of the Windows client environment gets at most one result, and exactly one once its
  thread and its continuations have finished.  A result that is not an exception carries a pipe
  exactly if it is a success, and the map with the calls that are being inserted holds exactly the calls without a result.
\<close>

theorem win_client_env_exactly_once:
  fixes es
  defines "out \<equiv> run_output win_client_step win_client_env_init es" and "s \<equiv> run_state win_client_step win_client_env_init es"
  shows "distinct (map fst out) \<and> set (map fst out) \<subseteq> {..<length (wl_ops s)} \<and>
    (client_env_idle s \<longrightarrow> set (map fst out) = {..<length (wl_ops s)}) \<and> (\<forall>c \<in> set out. open_carries c) \<and>
    set (pending_ids (wl_table s) @ starting_ids (wl_table s)) = {..<length (wl_ops s)} - set (map fst out)"
proof -
  have "length (wl_ops win_client_env_init) = 0" "client_env_pending win_client_env_init = {#}"
    by (simp_all add: win_client_env_init_def client_env_pending_def)
  note once = win_client.answered_once [OF client_env_inv_init this, of es, folded out_def s_def]
  have inv: "client_env_inv s" unfolding s_def by (rule win_client.inv_run [OF client_env_inv_init])
  have idle: "set (map fst out) = {..<length (wl_ops s)}" if "client_env_idle s"
  proof (rule once(3))
    have "wp_stage (wl_ops s ! i) = Op_answered" if "i < length (wl_ops s)" for i
      using \<open>client_env_idle s\<close> nth_mem [OF that] by (simp add: client_env_idle_def)
    then show "client_env_pending s = {#}" by (simp add: client_env_pending_def unanswered_def open_waits_def)
  qed
  have "{i. i < length (wl_ops s) \<and> open_waits (wl_ops s ! i)} = {..<length (wl_ops s)} - set (map fst out)"
    using unanswered_rest once(4) unfolding client_env_pending_def by blast
  moreover have "set (pending_ids (wl_table s) @ starting_ids (wl_table s)) = {i. i < length (wl_ops s) \<and> open_waits (wl_ops s ! i)}"
    using client_env_invD(2) [OF inv] by (simp only: table_ok_def)
  moreover have "open_carries c" if "c \<in> set out" for c using that client_env_carries by (simp add: out_def)
  ultimately show ?thesis using once(1,2) idle by (intro conjI) (simp_all only: simp_thms, blast+)
qed

text \<open>The first call finds the server at the second attempt; the second is cancelled while it waits; the third throws.\<close>

definition win_client_session :: "win_client_event list" where
  "win_client_session =
     [Wl_open_pipe 1 None, Wl_attempt 0 Pipe_busy, Wl_open_pipe 2 (Some 500), Wl_insert 0 0, Wl_attempt 1 Pipe_busy,
      Wl_wake 0, Wl_cancel (Some 2), Wl_attempt 0 (Opened 80 True), Wl_wake 1, Wl_finally 1 None, Wl_finally 0 None,
      Wl_open_pipe 1 None, Wl_attempt 2 (Opened 81 True), Wl_finally 2 (Some (Runtime_error ''system_error''))]"

theorem win_client_env_exactly_once_witness:
  "run_output win_client_step win_client_env_init win_client_session =
     [(1, Inr (Wait_canceled, None)), (0, Inr (Wait_success, Some 80)), (2, Inl (Runtime_error ''system_error''))] \<and>
   set (map fst (run_output win_client_step win_client_env_init win_client_session)) = {..<3}"
proof -
  let ?s = "run_state win_client_step win_client_env_init win_client_session"
  have "client_env_idle ?s \<and> length (wl_ops ?s) = 3" by code_simp
  then have "set (map fst (run_output win_client_step win_client_env_init win_client_session)) = {..<3}"
    using win_client_env_exactly_once [of win_client_session] by simp
  moreover have "run_output win_client_step win_client_env_init win_client_session =
     [(1, Inr (Wait_canceled, None)), (0, Inr (Wait_success, Some 80)), (2, Inl (Runtime_error ''system_error''))]" by code_simp
  ultimately show ?thesis by simp
qed

text \<open>A call that waits when it is cancelled for the first time never gets a pipe, and its wait ends with the result.\<close>

lemma fold_open_cancel_nth:
  assumes "i \<in> set xs" "i < length (wl_ops s)" "distinct xs"
  shows "wl_ops (fold (\<lambda>i. update_open i (win_open_cancel b)) xs s) ! i = win_open_cancel b (wl_ops s ! i)"
  using assms
proof (induction xs arbitrary: s)
  case (Cons j xs)
  have other: "wl_ops (fold (\<lambda>i. update_open i (win_open_cancel b)) ys s) ! i = wl_ops s ! i" if "i \<notin> set ys" for ys s
    using that by (induction ys arbitrary: s) (simp_all add: update_open_def)
  show ?case
  proof (cases "i = j")
    case True
    then show ?thesis using Cons.prems other [of xs "update_open j (win_open_cancel b) s"] by simp (simp add: update_open_def)
  next
    case False
    then show ?thesis using Cons.prems Cons.IH [of "update_open j (win_open_cancel b) s"] by simp (simp add: update_open_def)
  qed
qed simp

lemma win_client_env_cancel:
  fixes es
  defines "s \<equiv> run_state win_client_step win_client_env_init es"
  assumes i: "i \<in> set (matching_ids client_id (wl_table s))" "wp_stage (wl_ops s ! i) = Op_backoff"
    "wp_cancel_event (wl_ops s ! i) = No_cancel"
  shows "(i, r) \<in> set (run_output win_client_step s (Wl_cancel client_id # es')) \<Longrightarrow> r = Inr (no_pipe Wait_canceled)"
    "wp_stage (open_wake (wl_ops (win_cancel_pending_client_endpoints client_id s) ! i)) = Op_resolved Win_canceled None"
proof -
  let ?s = "win_cancel_pending_client_endpoints client_id s"
  have inv: "client_env_inv s" unfolding s_def by (rule win_client.inv_run [OF client_env_inv_init])
  have p: "i \<in> set (pending_ids (wl_table s))" using i(1) matching_pending by blast
  note l = client_env_invD(3) [OF inv p]
  have "distinct (matching_ids client_id (wl_table s))"
    using client_env_invD(2) [OF inv] by (simp add: table_ok_def pending_ids_def matching_ids_def distinct_map_filter)
  then have op: "wl_ops ?s ! i = win_open_cancel False (wl_ops s ! i)"
    using fold_open_cancel_nth [OF i(1) l] by (simp add: win_cancel_pending_client_endpoints_def)
  then show "wp_stage (open_wake (wl_ops ?s ! i)) = Op_resolved Win_canceled None"
    using i(2,3) by (simp add: win_open_cancel_def open_wake_def)
  assume out: "(i, r) \<in> set (run_output win_client_step s (Wl_cancel client_id # es'))"
  have "client_env_doomed False ?s i"
    using op l i(2,3) by (simp add: client_env_doomed_def open_doomed_def win_open_cancel_def
        win_cancel_pending_client_endpoints_def fold_open_cancel_length)
  moreover have "client_env_inv ?s" using fold_open_cancel [OF inv] by (simp add: win_cancel_pending_client_endpoints_def)
  moreover have "(i, r) \<in> set (run_output win_client_step ?s es')" using out by simp
  ultimately have "\<not> other_open_result False (i, r)" by (intro win_client.doomed_never_successful)
  then show "r = Inr (no_pipe Wait_canceled)" by (simp add: other_open_result_def canceled_result_def)
qed

end
