(* ===== verification/Event_Sync.thy ===== *)
theory Event_Sync
  imports Common_Prelude
begin

text \<open>
  The event of \<open>synchronization/internal/event/event.cpp\<close> with the spinlock of
  \<open>synchronization/spinlock.h\<close>, for any number of threads.

  A step of a thread is one access to shared state: a test of the spinlock, one read or write of
  \<open>m_is_set\<close>, a release of the lock, a notification or a wake-up.  The test of the condition of a wait and the
  block of its thread are different steps; only the release of the lock and the block are one
  step, as \<open>condition_variable_any\<close> guarantees.  Time is in nanoseconds.
\<close>

section \<open>State\<close>

text \<open>
  \<open>Ev_last_check\<close> is the evaluation of the condition after the deadline of a \<open>wait_until\<close> has passed; it is not an operation
  of a caller.
\<close>

datatype event_op = Ev_set | Ev_is_set | Ev_reset | Ev_wait | Ev_wait_for int | Ev_last_check

datatype event_result = Ev_done | Ev_bool bool | Ev_signaled | Ev_timed_out

text \<open>
  Where a thread is: about to test the spinlock, with the lock before the access of its operation, with the lock and a true
  condition, with the lock and a false condition, with the lock before its release (with the
  result of the operation, none for a \<open>set\<close> that still has to notify), before the notification
  and blocked.
\<close>

datatype event_pc =
    Ev_idle
  | Ev_spin event_op
  | Ev_holding event_op
  | Ev_taking
  | Ev_parking event_op
  | Ev_unlocking "event_result option"
  | Ev_notify
  | Ev_blocked event_op

record event_state =
  ev_manual_reset :: bool
  ev_is_set :: bool
  ev_flag :: bool
  ev_threads :: "event_pc list"

definition event_create :: "bool \<Rightarrow> bool \<Rightarrow> nat \<Rightarrow> event_state" where
  "event_create manual_reset initial_set threads =
     \<lparr>ev_manual_reset = manual_reset, ev_is_set = initial_set, ev_flag = False, ev_threads = replicate threads Ev_idle\<rparr>"

type_synonym event_out = "nat \<times> event_result"

definition goto :: "nat \<Rightarrow> event_pc \<Rightarrow> event_state \<Rightarrow> event_state" where
  "goto t pc s = s\<lparr>ev_threads := (ev_threads s)[t := pc]\<rparr>"


section \<open>Spinlock\<close>

definition test_and_set :: "event_state \<Rightarrow> event_state \<times> bool" where
  "test_and_set s = (s\<lparr>ev_flag := True\<rparr>, ev_flag s)"

text \<open>One round of the loop of \<open>lock\<close>.\<close>

definition spinlock_lock :: "nat \<Rightarrow> event_op \<Rightarrow> event_state \<Rightarrow> event_state" where
  "spinlock_lock t op s = (let (s, was_set) = test_and_set s in if was_set then s else goto t (Ev_holding op) s)"

definition spinlock_unlock :: "event_state \<Rightarrow> event_state" where
  "spinlock_unlock s = s\<lparr>ev_flag := False\<rparr>"


section \<open>Deadlines\<close>

text \<open>
  The deadline of a wait with a timeout: nanoseconds of the clock and milliseconds are signed 64-bit numbers.  The
  event compares them in their common type, nanoseconds; the multiplication that converts the
  timeout is written as it wraps on the usual machines.  The future of
  \<open>future-controller.h\<close> compares long doubles, taken as exact numbers here: a long double of 64
  bits of precision holds every such number, that of MSVC rounds to 53 bits.
\<close>

type_synonym int64 = "64 word"

definition time_point_max :: int64 where
  "time_point_max = 0x7FFFFFFFFFFFFFFF"

definition ms_to_ns :: "int64 \<Rightarrow> int64" where
  "ms_to_ns timeout = timeout * 1000000"

definition event_deadline :: "int64 \<Rightarrow> int64 \<Rightarrow> int64" where
  "event_deadline now timeout =
     (if sint (ms_to_ns timeout) > sint (time_point_max - now) then time_point_max else now + ms_to_ns timeout)"

definition future_deadline :: "int64 \<Rightarrow> int64 \<Rightarrow> int64" where
  "future_deadline now timeout =
     (if sint timeout * 1000000 \<ge> sint (time_point_max - now) then time_point_max else now + ms_to_ns timeout)"


section \<open>Operations\<close>

definition event_set :: "nat \<Rightarrow> event_state \<Rightarrow> event_state" where
  "event_set t s = goto t (Ev_unlocking None) (s\<lparr>ev_is_set := True\<rparr>)"

definition event_is_set :: "nat \<Rightarrow> event_state \<Rightarrow> event_state" where
  "event_is_set t s = goto t (Ev_unlocking (Some (Ev_bool (ev_is_set s)))) s"

definition event_reset :: "nat \<Rightarrow> event_state \<Rightarrow> event_state" where
  "event_reset t s = goto t (Ev_unlocking (Some Ev_done)) (s\<lparr>ev_is_set := False\<rparr>)"

definition event_wait :: "nat \<Rightarrow> event_state \<Rightarrow> event_state" where
  "event_wait t s = (if ev_is_set s then goto t Ev_taking s else goto t (Ev_parking Ev_wait) s)"

definition event_wait_for :: "int \<Rightarrow> nat \<Rightarrow> event_state \<Rightarrow> event_state" where
  "event_wait_for tp t s = (if ev_is_set s then goto t Ev_taking s else goto t (Ev_parking (Ev_wait_for tp)) s)"

definition event_last_check :: "nat \<Rightarrow> event_state \<Rightarrow> event_state" where
  "event_last_check t s = (if ev_is_set s then goto t Ev_taking s else goto t (Ev_unlocking (Some Ev_timed_out)) s)"

definition take_signal :: "nat \<Rightarrow> event_state \<Rightarrow> event_state" where
  "take_signal t s =
     goto t (Ev_unlocking (Some Ev_signaled)) (if \<not> ev_manual_reset s then s\<lparr>ev_is_set := False\<rparr> else s)"

definition event_park :: "event_op \<Rightarrow> nat \<Rightarrow> event_state \<Rightarrow> event_state" where
  "event_park op t s = goto t (Ev_blocked op) (spinlock_unlock s)"

definition event_unlock :: "event_result option \<Rightarrow> nat \<Rightarrow> event_state \<Rightarrow> event_state \<times> event_out list" where
  "event_unlock r t s =
     (case r of
        None \<Rightarrow> (goto t Ev_notify (spinlock_unlock s), [])
      | Some r \<Rightarrow> (goto t Ev_idle (spinlock_unlock s), [(t, r)]))"

definition run_section :: "event_op \<Rightarrow> nat \<Rightarrow> event_state \<Rightarrow> event_state" where
  "run_section op t s =
     (case op of
        Ev_set \<Rightarrow> event_set t s
      | Ev_is_set \<Rightarrow> event_is_set t s
      | Ev_reset \<Rightarrow> event_reset t s
      | Ev_wait \<Rightarrow> event_wait t s
      | Ev_wait_for tp \<Rightarrow> event_wait_for tp t s
      | Ev_last_check \<Rightarrow> event_last_check t s)"

fun wake :: "event_pc \<Rightarrow> event_pc" where
  "wake (Ev_blocked op) = Ev_spin op"
| "wake pc = pc"

fun is_blocked :: "event_pc \<Rightarrow> bool" where
  "is_blocked (Ev_blocked op) = True"
| "is_blocked pc = False"

text \<open>
  The notification after the lock was released: all blocked threads, or one of them, the \<open>k\<close>-th thread.  An automatic event
  with blocked threads wakes one; the step with another \<open>k\<close> is none.
\<close>

definition event_notify :: "nat \<Rightarrow> nat \<Rightarrow> event_state \<Rightarrow> event_state \<times> event_out list" where
  "event_notify k t s =
     (if ev_manual_reset s
      then (goto t Ev_idle (s\<lparr>ev_threads := map wake (ev_threads s)\<rparr>), [(t, Ev_done)])
      else if k < length (ev_threads s) \<and> is_blocked (ev_threads s ! k)
      then (goto t Ev_idle (goto k (wake (ev_threads s ! k)) s), [(t, Ev_done)])
      else if (\<exists>pc \<in> set (ev_threads s). is_blocked pc) then (s, [])
      else (goto t Ev_idle s, [(t, Ev_done)]))"

text \<open>
  A call of \<open>wait_for\<close> computes its deadline before it takes the lock.  A blocked thread may wake without a notification, for no
  reason or because its time is over; in the end it takes the lock and checks the condition
  again, after the deadline for the last time.
\<close>

datatype event_action =
    Ev_call event_op
  | Ev_call_wait_for int64 int64
  | Ev_run nat
  | Ev_wake int

fun woken_op :: "int \<Rightarrow> event_op \<Rightarrow> event_op" where
  "woken_op now (Ev_wait_for tp) = (if tp \<le> now then Ev_last_check else Ev_wait_for tp)"
| "woken_op now op = op"

fun event_step :: "event_state \<Rightarrow> nat \<times> event_action \<Rightarrow> event_state \<times> event_out list" where
  "event_step s (t, a) =
     (if \<not> t < length (ev_threads s) then (s, [])
      else case (a, ev_threads s ! t) of
        (Ev_call op, Ev_idle) \<Rightarrow> (if op = Ev_last_check then s else goto t (Ev_spin op) s, [])
      | (Ev_call_wait_for now timeout, Ev_idle) \<Rightarrow> (goto t (Ev_spin (Ev_wait_for (sint (event_deadline now timeout)))) s, [])
      | (Ev_run k, Ev_spin op) \<Rightarrow> (spinlock_lock t op s, [])
      | (Ev_run k, Ev_holding op) \<Rightarrow> (run_section op t s, [])
      | (Ev_run k, Ev_taking) \<Rightarrow> (take_signal t s, [])
      | (Ev_run k, Ev_parking op) \<Rightarrow> (event_park op t s, [])
      | (Ev_run k, Ev_unlocking r) \<Rightarrow> event_unlock r t s
      | (Ev_run k, Ev_notify) \<Rightarrow> event_notify k t s
      | (Ev_wake now, Ev_blocked op) \<Rightarrow> (goto t (Ev_spin (woken_op now op)) s, [])
      | _ \<Rightarrow> (s, []))"


section \<open>Invariants\<close>

fun is_holding :: "event_pc \<Rightarrow> bool" where
  "is_holding (Ev_holding op) = True"
| "is_holding Ev_taking = True"
| "is_holding (Ev_parking op) = True"
| "is_holding (Ev_unlocking r) = True"
| "is_holding pc = False"

fun is_waiting_op :: "event_op \<Rightarrow> bool" where
  "is_waiting_op Ev_wait = True"
| "is_waiting_op (Ev_wait_for tp) = True"
| "is_waiting_op op = False"

text \<open>A thread that will look at the event, or wake one that will.\<close>

fun will_check :: "bool \<Rightarrow> event_pc \<Rightarrow> bool" where
  "will_check manual Ev_notify = True"
| "will_check manual (Ev_unlocking r) = (r = None)"
| "will_check manual (Ev_spin op) = (\<not> manual \<and> (is_waiting_op op \<or> op = Ev_last_check))"
| "will_check manual (Ev_holding op) = (\<not> manual \<and> (is_waiting_op op \<or> op = Ev_last_check))"
| "will_check manual Ev_taking = (\<not> manual)"
| "will_check manual pc = False"

text \<open>What a thread found holds as long as it has the lock.\<close>

fun pc_ok :: "bool \<Rightarrow> event_pc \<Rightarrow> bool" where
  "pc_ok is_set (Ev_blocked op) = is_waiting_op op"
| "pc_ok is_set (Ev_parking op) = (is_waiting_op op \<and> \<not> is_set)"
| "pc_ok is_set Ev_taking = is_set"
| "pc_ok is_set pc = True"

definition event_inv :: "event_state \<Rightarrow> bool" where
  "event_inv s \<longleftrightarrow>
     length (filter is_holding (ev_threads s)) = of_bool (ev_flag s) \<and>
     (\<forall>pc \<in> set (ev_threads s). pc_ok (ev_is_set s) pc) \<and>
     (ev_is_set s \<longrightarrow> (\<exists>pc \<in> set (ev_threads s). is_blocked pc) \<longrightarrow>
       (\<exists>pc \<in> set (ev_threads s). will_check (ev_manual_reset s) pc))"

lemma event_inv_create: "event_inv (event_create manual initial n)"
  by (simp add: event_inv_def event_create_def)

lemma goto_fields [simp]:
  "ev_threads (goto t pc s) = (ev_threads s)[t := pc]" "ev_flag (goto t pc s) = ev_flag s"
  "ev_is_set (goto t pc s) = ev_is_set s" "ev_manual_reset (goto t pc s) = ev_manual_reset s"
  by (simp_all add: goto_def)

lemma ex_nth: "(\<exists>x \<in> set xs. P x) \<longleftrightarrow> (\<exists>j < length xs. P (xs ! j))"
  by (auto simp: set_conv_nth)

lemma ex_update:
  assumes "t < length xs"
  shows "(\<exists>x \<in> set (xs[t := y]). P x) \<longleftrightarrow> P y \<or> (\<exists>j < length xs. j \<noteq> t \<and> P (xs ! j))"
proof -
  have "(\<exists>j < length xs. P (xs[t := y] ! j)) \<longleftrightarrow> P (xs[t := y] ! t) \<or> (\<exists>j < length xs. j \<noteq> t \<and> P (xs[t := y] ! j))"
    using assms by blast
  then show ?thesis using assms unfolding ex_nth by (simp cong: conj_cong)
qed

lemma ex_split: "t < length xs \<Longrightarrow> (\<exists>x \<in> set xs. P x) \<longleftrightarrow> P (xs ! t) \<or> (\<exists>j < length xs. j \<noteq> t \<and> P (xs ! j))"
  using ex_update [of t xs "xs ! t" P] by simp

lemma filter_update:
  "t < length xs \<Longrightarrow> length (filter P (xs[t := y])) + of_bool (P (xs ! t)) = length (filter P xs) + of_bool (P y)"
proof (induction xs arbitrary: t)
  case (Cons x xs)
  then show ?case by (cases t) (auto dest: Cons.IH)
qed simp

lemma pc_ok_free: "\<not> is_holding pc \<Longrightarrow> pc_ok b pc = pc_ok b' pc"
  by (cases pc) simp_all

lemma holding_flag:
  assumes "event_inv s" "t < length (ev_threads s)" "is_holding (ev_threads s ! t)"
  shows "ev_flag s"
proof -
  have "filter is_holding (ev_threads s) \<noteq> []" using assms(2,3) nth_mem by (auto simp: filter_empty_conv)
  then show ?thesis using assms(1) by (cases "ev_flag s") (simp_all add: event_inv_def)
qed

lemma holding_alone:
  assumes inv: "event_inv s" and t: "t < length (ev_threads s)" "is_holding (ev_threads s ! t)"
    and j: "j < length (ev_threads s)" "j \<noteq> t"
  shows "\<not> is_holding (ev_threads s ! j)"
proof
  assume h: "is_holding (ev_threads s ! j)"
  let ?xs = "(ev_threads s)[t := Ev_idle]"
  have "length (filter is_holding ?xs) = 0"
    using filter_update [OF t(1), of is_holding Ev_idle] t(2) inv holding_flag [OF inv t] by (simp add: event_inv_def)
  moreover have "?xs ! j \<in> set ?xs" using j by (intro nth_mem) simp
  then have "ev_threads s ! j \<in> set (filter is_holding ?xs)" using h j by simp
  ultimately show False by simp
qed

text \<open>One thread moves; it changes the event only if it has the lock.\<close>

lemma move_inv:
  assumes inv: "event_inv s" and t: "t < length (ev_threads s)"
    and s': "ev_threads s' = (ev_threads s)[t := pc]" "ev_manual_reset s' = ev_manual_reset s"
    and is_set: "ev_is_set s' = ev_is_set s \<or> is_holding (ev_threads s ! t)"
    and flag: "of_bool (ev_flag s') + of_bool (is_holding (ev_threads s ! t)) = (of_bool (ev_flag s) + of_bool (is_holding pc) :: nat)"
    and pc: "pc_ok (ev_is_set s') pc"
    and check: "ev_is_set s' \<Longrightarrow> \<not> will_check (ev_manual_reset s) pc \<Longrightarrow>
      \<not> is_blocked pc \<and> ev_is_set s \<and> (will_check (ev_manual_reset s) (ev_threads s ! t) \<longrightarrow>
        \<not> (\<exists>j < length (ev_threads s). j \<noteq> t \<and> is_blocked (ev_threads s ! j)))"
  shows "event_inv s'"
proof -
  have "length (filter is_holding (ev_threads s')) = of_bool (ev_flag s')"
    using filter_update [OF t, of is_holding pc] flag inv by (simp add: event_inv_def s')
  moreover have "pc_ok (ev_is_set s') x" if x: "x \<in> set (ev_threads s')" for x
  proof -
    obtain j where j: "j < length (ev_threads s)" "x = (ev_threads s)[t := pc] ! j" using x s' by (auto simp: in_set_conv_nth)
    have "pc_ok (ev_is_set s) (ev_threads s ! j)" using inv j(1) nth_mem by (auto simp: event_inv_def)
    then have "pc_ok (ev_is_set s') (ev_threads s ! j)" if "j \<noteq> t"
      using is_set holding_alone [OF inv t _ j(1) that] pc_ok_free [of "ev_threads s ! j" "ev_is_set s" "ev_is_set s'"] by auto
    then show ?thesis using j pc t by (cases "j = t") simp_all
  qed
  moreover have "\<exists>pc \<in> set (ev_threads s'). will_check (ev_manual_reset s') pc"
    if "ev_is_set s'" "\<exists>pc \<in> set (ev_threads s'). is_blocked pc"
  proof (cases "will_check (ev_manual_reset s) pc")
    case True
    then show ?thesis using t by (auto simp: s' ex_update)
  next
    case False
    note c = check [OF that(1) False]
    then have b: "\<exists>j < length (ev_threads s). j \<noteq> t \<and> is_blocked (ev_threads s ! j)"
      using that(2) t by (auto simp: s' ex_update)
    then have "\<exists>pc \<in> set (ev_threads s). will_check (ev_manual_reset s) pc"
      using inv c ex_split [OF t, of is_blocked] by (auto simp: event_inv_def)
    then show ?thesis using b c t by (auto simp: s' ex_update ex_split)
  qed
  ultimately show ?thesis by (simp add: event_inv_def)
qed

lemma wake_facts [simp]:
  "is_holding (wake pc) = is_holding pc" "\<not> is_blocked (wake pc)" "pc_ok b pc \<Longrightarrow> pc_ok b (wake pc)" "will_check m pc \<Longrightarrow> will_check m (wake pc)"
  by (cases pc; simp)+

lemma wake_all_inv: "event_inv s \<Longrightarrow> event_inv (s\<lparr>ev_threads := map wake (ev_threads s)\<rparr>)"
  by (auto simp: event_inv_def filter_map o_def)

lemma wake_will_check: "is_blocked pc \<Longrightarrow> pc_ok b pc \<Longrightarrow> will_check False (wake pc)"
  by (cases pc) auto

lemma wake_one_inv:
  assumes inv: "event_inv s" and k: "k < length (ev_threads s)" "is_blocked (ev_threads s ! k)"
  shows "event_inv (goto k (wake (ev_threads s ! k)) s)"
proof -
  obtain op where op: "ev_threads s ! k = Ev_blocked op" using k(2) by (cases "ev_threads s ! k") auto
  show ?thesis by (rule move_inv [OF inv k(1), where pc = "Ev_spin op"]) (use op inv k(1) in \<open>auto simp: event_inv_def\<close>)
qed

lemma event_notify_inv:
  assumes inv: "event_inv s" and t: "t < length (ev_threads s)" "ev_threads s ! t = Ev_notify"
  shows "event_inv (fst (event_notify k t s))"
proof -
  consider "ev_manual_reset s" | "\<not> ev_manual_reset s" "k < length (ev_threads s)" "is_blocked (ev_threads s ! k)"
    | "\<not> ev_manual_reset s" "\<exists>pc \<in> set (ev_threads s). is_blocked pc" "\<not> (k < length (ev_threads s) \<and> is_blocked (ev_threads s ! k))"
    | "\<not> ev_manual_reset s" "\<not> (\<exists>pc \<in> set (ev_threads s). is_blocked pc)" by blast
  then show ?thesis
  proof cases
    case 1
    let ?s = "s\<lparr>ev_threads := map wake (ev_threads s)\<rparr>"
    have "event_inv (goto t Ev_idle ?s)"
      by (rule move_inv [OF wake_all_inv [OF inv], where pc = Ev_idle and t = t]) (use t in auto)
    then show ?thesis using 1 by (simp add: event_notify_def)
  next
    case 2
    let ?s = "goto k (wake (ev_threads s ! k)) s"
    have kt: "k \<noteq> t" using 2(3) t(2) by auto
    have "pc_ok (ev_is_set s) (ev_threads s ! k)" using inv 2(2) nth_mem by (auto simp: event_inv_def)
    then have w: "will_check False (wake (ev_threads s ! k))" using wake_will_check 2(3) by blast
    have tx: "ev_threads ?s ! t = Ev_notify" "t < length (ev_threads ?s)" using t kt by simp_all
    have m: "\<not> ev_manual_reset ?s" using 2(1) by simp
    let ?u = "goto t Ev_idle ?s"
    have "\<exists>pc \<in> set (ev_threads ?u). will_check (ev_manual_reset ?u) pc"
      unfolding ex_nth using kt 2(1,2) w by (intro exI [of _ k]) simp
    moreover have "length (filter is_holding (ev_threads ?u)) = of_bool (ev_flag ?u)"
      using filter_update [OF tx(2), of is_holding Ev_idle] wake_one_inv [OF inv 2(2,3)] tx(1) by (simp add: event_inv_def)
    moreover have "pc_ok (ev_is_set ?u) x" if "x \<in> set (ev_threads ?u)" for x
      using that set_update_subset_insert [of "ev_threads ?s" t Ev_idle] wake_one_inv [OF inv 2(2,3)]
      by (auto simp: event_inv_def)
    ultimately have "event_inv ?u" by (simp add: event_inv_def)
    then show ?thesis using 2 by (simp add: event_notify_def)
  next
    case 3
    then show ?thesis using inv by (auto simp: event_notify_def)
  next
    case 4
    have "event_inv (goto t Ev_idle s)"
      by (rule move_inv [OF inv t(1), where pc = Ev_idle]) (use 4 t in \<open>auto simp: ex_nth\<close>)
    then show ?thesis using 4 by (auto simp: event_notify_def)
  qed
qed

lemmas event_defs = event_set_def event_is_set_def event_reset_def event_wait_def event_wait_for_def event_last_check_def
  take_signal_def event_park_def event_unlock_def run_section_def spinlock_unlock_def spinlock_lock_def test_and_set_def

text \<open>A step of the thread that has the lock.\<close>

lemma held_inv:
  assumes inv: "event_inv s" and t: "t < length (ev_threads s)" "is_holding (ev_threads s ! t)"
    and s': "ev_threads s' = (ev_threads s)[t := pc]" "ev_manual_reset s' = ev_manual_reset s" "ev_flag s' = is_holding pc"
    and pc: "pc_ok (ev_is_set s') pc"
    and check: "ev_is_set s' \<Longrightarrow> \<not> will_check (ev_manual_reset s) pc \<Longrightarrow>
      \<not> is_blocked pc \<and> ev_is_set s \<and> \<not> will_check (ev_manual_reset s) (ev_threads s ! t)"
  shows "event_inv s'"
proof (rule move_inv [OF inv t(1) s'(1,2)])
  show "of_bool (ev_flag s') + of_bool (is_holding (ev_threads s ! t)) = (of_bool (ev_flag s) + of_bool (is_holding pc) :: nat)"
    using t(2) s'(3) holding_flag [OF inv t] by simp
qed (use t(2) pc check in auto)

lemma run_section_inv:
  assumes inv: "event_inv s" and t: "t < length (ev_threads s)" "ev_threads s ! t = Ev_holding op"
  shows "event_inv (run_section op t s)"
proof -
  have h: "is_holding (ev_threads s ! t)" using t(2) by simp
  note flag = holding_flag [OF inv t(1) h]
  obtain pc b where r: "run_section op t s = goto t pc (s\<lparr>ev_is_set := b\<rparr>)" "is_holding pc" "pc_ok b pc"
    "b \<longrightarrow> \<not> will_check (ev_manual_reset s) pc \<longrightarrow>
      \<not> is_blocked pc \<and> ev_is_set s \<and> \<not> will_check (ev_manual_reset s) (Ev_holding op)"
  proof (cases op)
    case Ev_set
    then show ?thesis using that [of "Ev_unlocking None" True] by (simp add: event_defs)
  next
    case Ev_is_set
    then show ?thesis using that [of "Ev_unlocking (Some (Ev_bool (ev_is_set s)))" "ev_is_set s"] by (simp add: event_defs)
  next
    case Ev_reset
    then show ?thesis using that [of "Ev_unlocking (Some Ev_done)" False] by (simp add: event_defs)
  next
    case Ev_wait
    then show ?thesis using that [of "if ev_is_set s then Ev_taking else Ev_parking Ev_wait" "ev_is_set s"] by (simp add: event_defs)
  next
    case (Ev_wait_for tp)
    then show ?thesis using that [of "if ev_is_set s then Ev_taking else Ev_parking (Ev_wait_for tp)" "ev_is_set s"]
      by (simp add: event_defs)
  next
    case Ev_last_check
    then show ?thesis using that [of "if ev_is_set s then Ev_taking else Ev_unlocking (Some Ev_timed_out)" "ev_is_set s"]
      by (simp add: event_defs)
  qed
  show ?thesis unfolding r(1) by (rule held_inv [OF inv t(1) h, where pc = pc]) (use r(2,3,4) flag t(2) in simp_all)
qed

lemma take_signal_inv:
  assumes inv: "event_inv s" and t: "t < length (ev_threads s)" "ev_threads s ! t = Ev_taking"
  shows "event_inv (take_signal t s)"
proof -
  have h: "is_holding (ev_threads s ! t)" using t(2) by simp
  have "pc_ok (ev_is_set s) (ev_threads s ! t)" using inv t(1) nth_mem by (auto simp: event_inv_def)
  then show ?thesis
    by (intro held_inv [OF inv t(1) h, where pc = "Ev_unlocking (Some Ev_signaled)"])
      (use t(2) holding_flag [OF inv t(1) h] in \<open>auto simp: take_signal_def split: if_splits\<close>)
qed

lemma event_park_inv:
  assumes inv: "event_inv s" and t: "t < length (ev_threads s)" "ev_threads s ! t = Ev_parking op"
  shows "event_inv (event_park op t s)"
proof -
  have h: "is_holding (ev_threads s ! t)" using t(2) by simp
  have "pc_ok (ev_is_set s) (ev_threads s ! t)" using inv t(1) nth_mem by (auto simp: event_inv_def)
  then show ?thesis
    by (intro held_inv [OF inv t(1) h, where pc = "Ev_blocked op"]) (use t(2) in \<open>auto simp: event_park_def spinlock_unlock_def\<close>)
qed

lemma event_unlock_inv:
  assumes inv: "event_inv s" and t: "t < length (ev_threads s)" "ev_threads s ! t = Ev_unlocking r"
  shows "event_inv (fst (event_unlock r t s))"
proof -
  have h: "is_holding (ev_threads s ! t)" using t(2) by simp
  show ?thesis
    by (rule held_inv [OF inv t(1) h, where pc = "if r = None then Ev_notify else Ev_idle"])
      (use t(2) in \<open>cases r; auto simp: event_unlock_def spinlock_unlock_def\<close>)+
qed

lemma spin_inv:
  assumes inv: "event_inv s" and t: "t < length (ev_threads s)" "ev_threads s ! t = Ev_spin op"
  shows "event_inv (spinlock_lock t op s)"
proof (cases "ev_flag s")
  case True
  then show ?thesis using inv by (simp add: spinlock_lock_def test_and_set_def event_inv_def)
next
  case False
  have "event_inv (goto t (Ev_holding op) (s\<lparr>ev_flag := True\<rparr>))"
  proof (rule move_inv [OF inv t(1), where pc = "Ev_holding op"])
    show "\<not> is_blocked (Ev_holding op) \<and> ev_is_set s \<and>
        (will_check (ev_manual_reset s) (ev_threads s ! t) \<longrightarrow>
         \<not> (\<exists>j < length (ev_threads s). j \<noteq> t \<and> is_blocked (ev_threads s ! j)))"
      if "ev_is_set (goto t (Ev_holding op) (s\<lparr>ev_flag := True\<rparr>))" "\<not> will_check (ev_manual_reset s) (Ev_holding op)"
      using that t(2) by auto
  qed (use False t(2) in simp_all)
  then show ?thesis using False by (simp add: spinlock_lock_def test_and_set_def)
qed

lemma event_inv_step:
  assumes inv: "event_inv s"
  shows "event_inv (fst (event_step s e))"
proof -
  obtain t a where e: "e = (t, a)" by fastforce
  show ?thesis
  proof (cases "t < length (ev_threads s)")
    case False
    then show ?thesis using inv e by simp
  next
    case t: True
    show ?thesis
    proof (cases "ev_threads s ! t")
      case Ev_idle
      have "event_inv (goto t (Ev_spin op) s)" for op
        by (rule move_inv [OF inv t, where pc = "Ev_spin op"]) (use Ev_idle inv in \<open>auto simp: event_inv_def\<close>)
      then show ?thesis using Ev_idle inv e t by (cases a) simp_all
    next
      case (Ev_spin op)
      then show ?thesis using spin_inv [OF inv t Ev_spin] inv e t by (cases a) simp_all
    next
      case (Ev_holding op)
      then show ?thesis using run_section_inv [OF inv t Ev_holding] inv e t by (cases a) simp_all
    next
      case Ev_taking
      then show ?thesis using take_signal_inv [OF inv t Ev_taking] inv e t by (cases a) simp_all
    next
      case (Ev_parking op)
      then show ?thesis using event_park_inv [OF inv t Ev_parking] inv e t by (cases a) simp_all
    next
      case (Ev_unlocking r)
      then show ?thesis using event_unlock_inv [OF inv t Ev_unlocking] inv e t by (cases a) simp_all
    next
      case Ev_notify
      then show ?thesis using event_notify_inv [OF inv t Ev_notify] inv e t by (cases a) simp_all
    next
      case (Ev_blocked op)
      have "is_waiting_op op" using inv t Ev_blocked nth_mem [OF t] by (auto simp: event_inv_def)
      then have "event_inv (goto t (Ev_spin (woken_op now op)) s)" for now
        by (intro move_inv [OF inv t, where pc = "Ev_spin (woken_op now op)"])
          (use Ev_blocked inv t in \<open>cases op; auto simp: event_inv_def\<close>)+
      then show ?thesis using Ev_blocked inv e t by (cases a) simp_all
    qed
  qed
qed

interpretation event_sys: event_system event_step event_inv
  by unfold_locales (rule event_inv_step)


section \<open>Properties of the event\<close>

text \<open>
  C33: No wake-up of an event is lost.  Whatever threads call \<open>set\<close>, \<open>reset\<close>, \<open>is_set\<close>, \<open>wait\<close> and
  \<open>wait_for\<close> in whatever order, when no thread can go on because each is idle or blocked in a
  wait, and one is blocked, then the event is not set.
\<close>

theorem event_no_lost_wakeup:
  fixes es manual_reset initial_set n
  defines "s \<equiv> run_state event_step (event_create manual_reset initial_set n) es"
  assumes "\<forall>pc \<in> set (ev_threads s). pc = Ev_idle \<or> is_blocked pc" "\<exists>pc \<in> set (ev_threads s). is_blocked pc"
  shows "\<not> ev_is_set s"
proof
  assume "ev_is_set s"
  moreover have "event_inv s" unfolding s_def by (rule event_sys.inv_run [OF event_inv_create])
  ultimately obtain pc where pc: "pc \<in> set (ev_threads s)" "will_check (ev_manual_reset s) pc"
    using assms(3) by (auto simp: event_inv_def)
  have "pc = Ev_idle \<or> is_blocked pc" using assms(2) pc(1) by blast
  then show False using pc(2) by (cases pc) auto
qed

text \<open>
  Thread 0 blocks; thread 2 finds the event reset, thread 1 tries to set it in between and waits for the lock until thread 2 has
  blocked; thread 2 gets the signal.
\<close>

definition event_session :: "(nat \<times> event_action) list" where
  "event_session =
     [(0, Ev_call Ev_wait), (0, Ev_run 0), (0, Ev_run 0), (0, Ev_run 0), (2, Ev_call (Ev_wait_for 50)), (2, Ev_run 0), (2, Ev_run 0),
      (1, Ev_call Ev_set), (1, Ev_run 0), (2, Ev_run 0), (1, Ev_run 0), (1, Ev_run 0), (1, Ev_run 0), (1, Ev_run 2),
      (2, Ev_run 0), (2, Ev_run 0), (2, Ev_run 0), (2, Ev_run 0)]"

theorem event_no_lost_wakeup_witness:
  "\<not> ev_is_set (run_state event_step (event_create False False 3) event_session) \<and>
   run_output event_step (event_create False False 3) event_session = [(1, Ev_done), (2, Ev_signaled)]"
proof -
  have "ev_threads (run_state event_step (event_create False False 3) event_session) = [Ev_blocked Ev_wait, Ev_idle, Ev_idle]"
    "run_output event_step (event_create False False 3) event_session = [(1, Ev_done), (2, Ev_signaled)]"
    by code_simp+
  then show ?thesis using event_no_lost_wakeup [of False False 3 event_session] by simp
qed

text \<open>The critical sections of \<open>set\<close> that a step runs, and the waits that end with a signal.\<close>

fun set_sections :: "event_state \<Rightarrow> nat \<times> event_action \<Rightarrow> nat list" where
  "set_sections s (t, Ev_run k) = (if t < length (ev_threads s) \<and> ev_threads s ! t = Ev_holding Ev_set then [t] else [])"
| "set_sections s e = []"

definition signals :: "event_out list \<Rightarrow> nat" where
  "signals out = length (filter (\<lambda>(t, r). r = Ev_signaled) out)"

lemma signals_append [simp]: "signals (xs @ ys) = signals xs + signals ys"
  by (simp add: signals_def)

text \<open>The signals an event still has to give out.\<close>

definition pending_signals :: "event_state \<Rightarrow> nat" where
  "pending_signals s = of_bool (ev_is_set s) + length (filter (\<lambda>pc. pc = Ev_unlocking (Some Ev_signaled)) (ev_threads s))"

lemma pending_goto:
  assumes "t < length (ev_threads s)"
  shows "pending_signals (goto t pc s) + of_bool (ev_threads s ! t = Ev_unlocking (Some Ev_signaled)) =
    pending_signals s + of_bool (pc = Ev_unlocking (Some Ev_signaled))"
  using filter_update [OF assms, of "\<lambda>pc. pc = Ev_unlocking (Some Ev_signaled)" pc] by (simp add: pending_signals_def)

lemma pending_notify: "ev_threads s ! t = Ev_notify \<Longrightarrow> t < length (ev_threads s) \<Longrightarrow>
   \<not> ev_manual_reset s \<Longrightarrow> pending_signals (fst (event_notify k t s)) = pending_signals s"
  using pending_goto [of t "goto k (wake (ev_threads s ! k)) s" Ev_idle] pending_goto [of k s "wake (ev_threads s ! k)"]
    pending_goto [of t s Ev_idle]
  by (cases "k = t"; cases "ev_threads s ! k") (auto simp: event_notify_def)

lemma pending_update:
  "pending_signals (s\<lparr>ev_flag := b\<rparr>) = pending_signals s"
  "pending_signals (s\<lparr>ev_is_set := True\<rparr>) \<le> Suc (pending_signals s)"
  "pending_signals (s\<lparr>ev_is_set := False\<rparr>) \<le> pending_signals s"
  "ev_is_set s \<Longrightarrow> Suc (pending_signals (s\<lparr>ev_is_set := False\<rparr>)) = pending_signals s"
  by (simp_all add: pending_signals_def)

lemma signals_step:
  assumes inv: "event_inv s" and auto: "\<not> ev_manual_reset s"
  shows "signals (snd (event_step s e)) + pending_signals (fst (event_step s e)) \<le> pending_signals s + length (set_sections s e)"
proof -
  obtain t a where e: "e = (t, a)" by fastforce
  show ?thesis
  proof (cases "t < length (ev_threads s)")
    case False
    then show ?thesis using e by (cases a) (simp_all add: signals_def)
  next
    case t: True
    have "pc_ok (ev_is_set s) (ev_threads s ! t)" using inv t nth_mem by (auto simp: event_inv_def)
    moreover note pending_notify [OF _ t auto] pending_goto [OF t]
    moreover have "pending_signals (goto t pc s') + of_bool (ev_threads s ! t = Ev_unlocking (Some Ev_signaled)) =
        pending_signals s' + of_bool (pc = Ev_unlocking (Some Ev_signaled))" if "ev_threads s' = ev_threads s" for pc s'
      using pending_goto [of t s' pc] t that by simp
    ultimately show ?thesis
      using auto e t
      by (cases a; cases "ev_threads s ! t")
        (auto simp: event_defs event_notify_def signals_def pending_update split: event_op.split option.split)
  qed
qed

lemma manual_step: "ev_manual_reset (fst (event_step s e)) = ev_manual_reset s"
  by (cases "(s, e)" rule: event_step.cases)
    (auto simp: event_defs event_notify_def split: event_action.split event_pc.split event_op.split option.split)

lemma signals_run:
  "event_inv s \<Longrightarrow> \<not> ev_manual_reset s \<Longrightarrow>
   signals (run_output event_step s es) \<le> pending_signals s + length (run_collect event_step set_sections s es)"
proof (induction es arbitrary: s)
  case Nil
  then show ?case by (simp add: signals_def)
next
  case (Cons e es)
  have "signals (run_output event_step (fst (event_step s e)) es) \<le>
      pending_signals (fst (event_step s e)) + length (run_collect event_step set_sections (fst (event_step s e)) es)"
    using Cons.prems by (intro Cons.IH event_inv_step) (simp_all add: manual_step)
  then show ?case using signals_step [OF Cons.prems, of e] by simp
qed

text \<open>
  The spinlock excludes: at most one thread is in a critical section of an event, and only while the flag is set.  An
  event with automatic reset gives out at most one signal for its initial state and one for
  each \<open>set\<close>.
\<close>

theorem event_signals_once:
  fixes es manual_reset initial_set n
  defines "s \<equiv> run_state event_step (event_create manual_reset initial_set n) es"
  shows "length (filter is_holding (ev_threads s)) = of_bool (ev_flag s) \<and>
    (\<not> manual_reset \<longrightarrow>
      signals (run_output event_step (event_create manual_reset initial_set n) es) \<le>
        of_bool initial_set + length (run_collect event_step set_sections (event_create manual_reset initial_set n) es))"
proof -
  have "event_inv s" unfolding s_def by (rule event_sys.inv_run [OF event_inv_create])
  moreover have "\<not> manual_reset \<Longrightarrow> signals (run_output event_step (event_create manual_reset initial_set n) es) \<le>
      pending_signals (event_create manual_reset initial_set n) +
      length (run_collect event_step set_sections (event_create manual_reset initial_set n) es)"
    by (rule signals_run [OF event_inv_create]) (simp add: event_create_def)
  moreover have "pending_signals (event_create manual_reset initial_set n) = of_bool initial_set"
    by (simp add: pending_signals_def event_create_def)
  ultimately show ?thesis unfolding event_inv_def by (cases manual_reset) simp_all
qed

theorem event_signals_once_witness:
  "signals (run_output event_step (event_create False True 3) event_session) \<le>
     1 + length (run_collect event_step set_sections (event_create False True 3) event_session)"
  using event_signals_once [of False True 3 event_session] by simp


section \<open>The range of deadlines\<close>

lemma sint_time_point_max: "sint time_point_max = 2 ^ 63 - 1"
  by (simp add: time_point_max_def)

lemma sint_bounds: "- (2 ^ 63) \<le> sint (x :: int64)" "sint (x :: int64) < 2 ^ 63"
  using sint_ge [of x] sint_lt [of x] by simp_all

text \<open>Arithmetic without overflow.\<close>

lemma sint_exact:
  fixes x y :: int64
  shows "- (2 ^ 63) \<le> sint x + sint y \<Longrightarrow> sint x + sint y < 2 ^ 63 \<Longrightarrow> sint (x + y) = sint x + sint y"
    "- (2 ^ 63) \<le> sint x - sint y \<Longrightarrow> sint x - sint y < 2 ^ 63 \<Longrightarrow> sint (x - y) = sint x - sint y"
    "- (2 ^ 63) \<le> sint x * sint y \<Longrightarrow> sint x * sint y < 2 ^ 63 \<Longrightarrow> sint (x * y) = sint x * sint y"
  by (simp_all add: sint_word_ariths signed_take_bit_int_eq_self)

lemma remaining_exact: "0 \<le> sint now \<Longrightarrow> sint (time_point_max - now) = 2 ^ 63 - 1 - sint now"
  using sint_exact(2) [of time_point_max now] sint_bounds [of now] by (simp add: sint_time_point_max)

lemma ms_to_ns_exact:
  "- (2 ^ 63) \<le> sint timeout * 1000000 \<Longrightarrow> sint timeout * 1000000 < 2 ^ 63 \<Longrightarrow> sint (ms_to_ns timeout) = sint timeout * 1000000"
  using sint_exact(3) [of timeout 1000000] by (simp add: ms_to_ns_def)

lemma deadline_exact:
  assumes "0 \<le> sint now" "- (2 ^ 63) \<le> sint timeout * 1000000" "sint timeout * 1000000 \<le> 2 ^ 63 - 1 - sint now"
  shows "sint (now + ms_to_ns timeout) = sint now + sint timeout * 1000000"
  using assms sint_exact(1) [of now "ms_to_ns timeout"] ms_to_ns_exact [of timeout] by simp

text \<open>
  C34: The deadline of a wait.  On a clock that has not overflowed, \<open>future::wait_for\<close> computes the current time plus any
  positive timeout and stops at the largest time point.  \<open>event::wait_for\<close> does so only for
  timeouts that fit into 64 bits as nanoseconds: for \<open>milliseconds::max()\<close> the conversion in its
  own range check wraps, and the deadline lies one millisecond in the past.
\<close>

theorem wait_deadlines:
  assumes "0 \<le> sint now"
  shows "(0 < sint timeout \<longrightarrow> sint (future_deadline now timeout) = min (2 ^ 63 - 1) (sint now + sint timeout * 1000000)) \<and>
    (- (2 ^ 63) \<le> sint timeout * 1000000 \<and> sint timeout * 1000000 < 2 ^ 63 \<longrightarrow>
      sint (event_deadline now timeout) = min (2 ^ 63 - 1) (sint now + sint timeout * 1000000)) \<and>
    sint (event_deadline now 0x7FFFFFFFFFFFFFFF) = sint now - 1000000"
proof (intro conjI impI)
  note rem = remaining_exact [OF assms]
  show "sint (future_deadline now timeout) = min (2 ^ 63 - 1) (sint now + sint timeout * 1000000)" if "0 < sint timeout"
    using that deadline_exact [OF assms, of timeout] by (auto simp: future_deadline_def rem sint_time_point_max min_def)
  show "sint (event_deadline now timeout) = min (2 ^ 63 - 1) (sint now + sint timeout * 1000000)"
    if "- (2 ^ 63) \<le> sint timeout * 1000000 \<and> sint timeout * 1000000 < 2 ^ 63"
    using that deadline_exact [OF assms, of timeout] ms_to_ns_exact [of timeout]
    by (auto simp: event_deadline_def rem sint_time_point_max min_def)
  have wrap: "ms_to_ns 0x7FFFFFFFFFFFFFFF = - 1000000" by (simp add: ms_to_ns_def)
  have "sint (now - 1000000) = sint now - 1000000"
    using assms sint_exact(2) [of now 1000000] sint_bounds [of now] by simp
  then show "sint (event_deadline now 0x7FFFFFFFFFFFFFFF) = sint now - 1000000"
    using assms sint_bounds(2) [of now] by (simp add: event_deadline_def wrap rem)
qed

theorem wait_deadlines_witness:
  "sint (future_deadline 5000000 0x7FFFFFFFFFFFFFFF) = 2 ^ 63 - 1 \<and> sint (event_deadline 5000000 20) = 25000000 \<and>
   sint (event_deadline 5000000 0x7FFFFFFFFFFFFFFF) = 4000000"
  using wait_deadlines [of 5000000 "0x7FFFFFFFFFFFFFFF"] wait_deadlines [of 5000000 20] by simp

end
