(* ===== verification/Thread_Pool.thy ===== *)
theory Thread_Pool
  imports Common_Prelude
begin

text \<open>
  The thread pool of \<open>thread/thread-pool/thread-pool.h\<close> and the task of \<open>thread-pool-task.h\<close>.

  The \<open>io_context\<close> of boost.asio is modelled by what its documentation says of \<open>run\<close>: it executes
  posted tasks, it lets an exception of a task through, it returns when the context is stopped, and when the
  context has neither work guard nor unfinished task it stops the context and returns.  Every step is
  one of the workers', one \<open>post\<close> or one half of \<open>stop\<close>.
\<close>

section \<open>State\<close>

datatype worker = In_run | Executing nat | Exited

text \<open>Tasks are numbered in the order of \<open>post\<close>; \<open>tp_late\<close> are those posted to a stopped context.\<close>

record pool =
  tp_posted :: nat
  tp_queue :: "nat list"
  tp_late :: "nat list"
  tp_workers :: "worker list"
  tp_work_guard :: bool
  tp_stopped :: bool
  tp_joined :: bool

definition pool_create :: "nat \<Rightarrow> pool" where
  "pool_create thread_num =
     \<lparr>tp_posted = 0, tp_queue = [], tp_late = [], tp_workers = replicate thread_num In_run, tp_work_guard = True,
      tp_stopped = False, tp_joined = False\<rparr>"

definition post_to_pool :: "pool \<Rightarrow> pool" where
  "post_to_pool s =
     (let i = tp_posted s; s = s\<lparr>tp_posted := Suc i\<rparr>
      in if tp_stopped s then s\<lparr>tp_late := tp_late s @ [i]\<rparr> else s\<lparr>tp_queue := tp_queue s @ [i]\<rparr>)"

text \<open>A \<open>thread_pool_task\<close> moves its function into the task it posts; the state of a task is what it has left.\<close>

record pool_task =
  tk_has_pool :: bool
  tk_has_func :: bool

definition task_exec :: "pool_task \<Rightarrow> pool \<Rightarrow> (pool_task \<times> pool) or_exn" where
  "task_exec t s =
     (if \<not> tk_has_func t then Inl (Runtime_error ''no function to execute'')
      else if \<not> tk_has_pool t then Inl (Logic_error ''no thread pool'')
      else Inr (t\<lparr>tk_has_func := False\<rparr>, post_to_pool s))"

definition is_stopped :: "pool \<Rightarrow> bool" where
  "is_stopped s = tp_stopped s"

definition get_num :: "pool \<Rightarrow> nat" where
  "get_num s = length (tp_workers s)"

definition set_worker :: "nat \<Rightarrow> worker \<Rightarrow> pool \<Rightarrow> pool" where
  "set_worker w x s = s\<lparr>tp_workers := (tp_workers s)[w := x]\<rparr>"

definition out_of_work :: "pool \<Rightarrow> bool" where
  "out_of_work s \<longleftrightarrow> \<not> tp_work_guard s \<and> tp_queue s = [] \<and> (\<forall>x \<in> set (tp_workers s). \<forall>i. x \<noteq> Executing i)"

text \<open>\<open>run\<close> takes the next task or returns, which ends the loop of the worker.\<close>

definition worker_run :: "nat \<Rightarrow> pool \<Rightarrow> pool" where
  "worker_run w s =
     (if tp_stopped s then set_worker w Exited s
      else case tp_queue s of
        i # q \<Rightarrow> set_worker w (Executing i) (s\<lparr>tp_queue := q\<rparr>)
      | [] \<Rightarrow> if out_of_work s then set_worker w Exited (s\<lparr>tp_stopped := True\<rparr>) else s)"

text \<open>A task ends.  An exception leaves \<open>run\<close>; the loop swallows it and enters \<open>run\<close> again unless the context is stopped.\<close>

definition worker_finish :: "nat \<Rightarrow> bool \<Rightarrow> pool \<Rightarrow> pool" where
  "worker_finish w throws s = set_worker w (if throws \<and> tp_stopped s then Exited else In_run) s"

definition stop_begin :: "pool \<Rightarrow> pool" where
  "stop_begin s = s\<lparr>tp_work_guard := False\<rparr>"

text \<open>\<open>join_all\<close> returns when all workers have ended.\<close>

definition stop_end :: "pool \<Rightarrow> pool" where
  "stop_end s =
     (if \<not> tp_work_guard s \<and> (\<forall>x \<in> set (tp_workers s). x = Exited) then s\<lparr>tp_stopped := True, tp_joined := True\<rparr> else s)"

datatype pool_event =
    Pool_post
  | Pool_worker nat bool
  | Pool_stop_begin
  | Pool_stop_end

text \<open>The output is the tasks that end, in order.\<close>

fun pool_step :: "pool \<Rightarrow> pool_event \<Rightarrow> pool \<times> nat completion list" where
  "pool_step s Pool_post = (post_to_pool s, [])"
| "pool_step s (Pool_worker w throws) =
     (if \<not> w < length (tp_workers s) then (s, [])
      else case tp_workers s ! w of
        In_run \<Rightarrow> (worker_run w s, [])
      | Executing i \<Rightarrow> (worker_finish w throws s, [(i, w)])
      | Exited \<Rightarrow> (s, []))"
| "pool_step s Pool_stop_begin = (stop_begin s, [])"
| "pool_step s Pool_stop_end = (stop_end s, [])"


section \<open>Invariant\<close>

definition executing :: "worker list \<Rightarrow> nat list" where
  "executing ws = concat (map (\<lambda>x. case x of Executing i \<Rightarrow> [i] | _ \<Rightarrow> []) ws)"

definition pool_pending :: "pool \<Rightarrow> promise_id multiset" where
  "pool_pending s = mset (tp_queue s) + mset (tp_late s) + mset (executing (tp_workers s))"

fun pool_opened :: "pool \<Rightarrow> pool_event \<Rightarrow> promise_id multiset" where
  "pool_opened s Pool_post = {#tp_posted s#}"
| "pool_opened s e = {#}"

definition pool_inv :: "pool \<Rightarrow> bool" where
  "pool_inv s \<longleftrightarrow>
     ((\<exists>x \<in> set (tp_workers s). x = Exited) \<longrightarrow> tp_stopped s) \<and>
     (tp_stopped s \<longrightarrow> tp_workers s \<noteq> [] \<longrightarrow> tp_queue s = [] \<and> executing (tp_workers s) = []) \<and>
     (tp_late s \<noteq> [] \<longrightarrow> tp_stopped s) \<and> (tp_stopped s \<longrightarrow> \<not> tp_work_guard s)"

lemma executing_update:
  assumes "w < length ws"
  shows "mset (executing (ws[w := x])) + mset (case ws ! w of Executing i \<Rightarrow> [i] | _ \<Rightarrow> []) =
    mset (executing ws) + mset (case x of Executing i \<Rightarrow> [i] | _ \<Rightarrow> [])"
  using assms
proof (induction ws arbitrary: w)
  case (Cons a ws)
  show ?case
  proof (cases w)
    case 0
    then show ?thesis by (simp add: executing_def)
  next
    case (Suc v)
    then show ?thesis using Cons.IH [of v] Cons.prems by (simp add: executing_def union_assoc)
  qed
qed simp

lemma executing_none: "(\<forall>x \<in> set ws. \<forall>i. x \<noteq> Executing i) \<longleftrightarrow> executing ws = []"
  by (auto simp: executing_def split: worker.splits)

lemma pool_inv_create: "pool_inv (pool_create n)"
  by (simp add: pool_inv_def pool_create_def)

lemma set_worker_fields [simp]:
  "tp_posted (set_worker w x s) = tp_posted s" "tp_queue (set_worker w x s) = tp_queue s"
  "tp_late (set_worker w x s) = tp_late s" "tp_workers (set_worker w x s) = (tp_workers s)[w := x]"
  "tp_work_guard (set_worker w x s) = tp_work_guard s" "tp_stopped (set_worker w x s) = tp_stopped s"
  "tp_joined (set_worker w x s) = tp_joined s"
  by (simp_all add: set_worker_def)

lemma exited_update: "w < length ws \<Longrightarrow> x \<noteq> Exited \<Longrightarrow> Exited \<in> set (ws[w := x]) \<Longrightarrow> Exited \<in> set ws"
  using set_update_subset_insert [of ws w x] by auto

lemma pool_worker_ok:
  assumes inv: "pool_inv s" and w: "w < length (tp_workers s)"
  shows "pool_inv (fst (pool_step s (Pool_worker w throws))) \<and>
    pool_pending (fst (pool_step s (Pool_worker w throws))) + mset (map fst (snd (pool_step s (Pool_worker w throws)))) = pool_pending s"
proof -
  have ne: "tp_workers s \<noteq> []" using w by auto
  note u = executing_update [OF w]
  show ?thesis
  proof (cases "tp_workers s ! w")
    case In_run
    then have x: "executing ((tp_workers s)[w := Exited]) = []" if "executing (tp_workers s) = []"
      using u [of Exited] that by simp
    consider "tp_stopped s" | i q where "\<not> tp_stopped s" "tp_queue s = i # q" | "\<not> tp_stopped s" "tp_queue s = []" "out_of_work s"
      | "\<not> tp_stopped s" "tp_queue s = []" "\<not> out_of_work s" by (cases "tp_queue s") auto
    then show ?thesis
    proof cases
      case 1
      then show ?thesis using inv w x ne In_run u [of Exited] by (auto simp: worker_run_def pool_inv_def pool_pending_def)
    next
      case 2
      then show ?thesis
        using inv w In_run u [of "Executing i"] exited_update [OF w, of "Executing i"]
        by (auto simp: worker_run_def pool_inv_def pool_pending_def)
    next
      case 3
      then show ?thesis
        using inv w x ne In_run u [of Exited] executing_none [of "tp_workers s"]
        by (auto simp: worker_run_def pool_inv_def pool_pending_def out_of_work_def)
    next
      case 4
      then show ?thesis using inv w In_run by (simp add: worker_run_def)
    qed
  next
    case (Executing i)
    then have "executing (tp_workers s) \<noteq> []" using executing_none [of "tp_workers s"] nth_mem [OF w] by metis
    then have "\<not> tp_stopped s" using inv ne by (auto simp: pool_inv_def)
    then show ?thesis
      using inv w Executing u [of In_run] exited_update [OF w, of In_run]
      by (auto simp: worker_finish_def pool_inv_def pool_pending_def)
  next
    case Exited
    then show ?thesis using inv w by simp
  qed
qed

lemma stop_end_ok:
  assumes inv: "pool_inv s"
  shows "pool_inv (stop_end s) \<and> pool_pending (stop_end s) = pool_pending s"
proof -
  have "tp_stopped s" if "tp_workers s \<noteq> []" "\<forall>x \<in> set (tp_workers s). x = Exited"
    using inv that by (cases "tp_workers s") (auto simp: pool_inv_def)
  then show ?thesis using inv by (auto simp: stop_end_def pool_inv_def pool_pending_def)
qed

lemma pool_step_ok:
  assumes inv: "pool_inv s"
  shows "pool_inv (fst (pool_step s e)) \<and>
    pool_pending (fst (pool_step s e)) + mset (map fst (snd (pool_step s e))) = pool_pending s + pool_opened s e"
proof (cases e)
  case Pool_post
  then show ?thesis using inv by (auto simp: post_to_pool_def Let_def pool_inv_def pool_pending_def)
next
  case (Pool_worker w throws)
  then show ?thesis using inv pool_worker_ok [OF inv, of w throws] by (cases "w < length (tp_workers s)") simp_all
next
  case Pool_stop_begin
  then show ?thesis using inv by (simp add: stop_begin_def pool_inv_def pool_pending_def)
next
  case Pool_stop_end
  then show ?thesis using stop_end_ok [OF inv] by simp
qed

interpretation thread_pool: completion_system pool_step pool_inv pool_pending pool_opened
  by unfold_locales (use pool_step_ok in blast)+

text \<open>A task posts once: the second execution finds no function.\<close>

lemma task_exec_twice:
  "task_exec t s = Inr (t', s') \<Longrightarrow>
   s' = post_to_pool s \<and> task_exec t' s'' = Inl (Runtime_error ''no function to execute'')"
  by (auto simp: task_exec_def split: if_splits)

lemma worker_fields:
  "tp_posted (worker_run w s) = tp_posted s" "length (tp_workers (worker_run w s)) = length (tp_workers s)"
  "tp_joined (worker_run w s) = tp_joined s" "tp_stopped s \<Longrightarrow> tp_stopped (worker_run w s)"
  "tp_posted (worker_finish w b s) = tp_posted s" "length (tp_workers (worker_finish w b s)) = length (tp_workers s)"
  "tp_joined (worker_finish w b s) = tp_joined s" "tp_stopped (worker_finish w b s) = tp_stopped s"
  by (simp_all add: worker_run_def worker_finish_def split: list.split)

lemma posted_run:
  "mset [0..<tp_posted s] + run_opened pool_step pool_opened s es = mset [0..<tp_posted (run_state pool_step s es)] \<and>
   length (tp_workers (run_state pool_step s es)) = length (tp_workers s)"
proof (induction es arbitrary: s)
  case (Cons e es)
  let ?s = "fst (pool_step s e)"
  have p: "tp_posted ?s = tp_posted s + size (pool_opened s e)" and l: "length (tp_workers ?s) = length (tp_workers s)"
    by (cases e; simp add: post_to_pool_def Let_def worker_fields stop_begin_def stop_end_def split: worker.split)+
  have "pool_opened s e = {#} \<or> pool_opened s e = {#tp_posted s#}" by (cases e) simp_all
  then have "mset [0..<tp_posted s] + pool_opened s e = mset [0..<tp_posted ?s]"
    using p by (auto simp del: mset_upt)
  then have "mset [0..<tp_posted s] + (pool_opened s e + run_opened pool_step pool_opened ?s es) =
      mset [0..<tp_posted ?s] + run_opened pool_step pool_opened ?s es"
    by (simp only: union_assoc [symmetric])
  then show ?case using Cons.IH [of ?s] l by (simp only: run_opened.simps run_Cons_state)
qed simp

lemma joined_step: "pool_inv s \<Longrightarrow> (tp_joined s \<longrightarrow> tp_stopped s) \<Longrightarrow>
  tp_joined (fst (pool_step s e)) \<longrightarrow> tp_stopped (fst (pool_step s e))"
  by (cases e) (auto simp: post_to_pool_def Let_def worker_fields stop_begin_def stop_end_def split: worker.split)

interpretation joined_pool: event_system pool_step "\<lambda>s. pool_inv s \<and> (tp_joined s \<longrightarrow> tp_stopped s)"
  by unfold_locales (use pool_step_ok joined_step in blast)


text \<open>Until \<open>stop\<close> is called the work guard keeps the context running, so that no task comes too late.\<close>

lemma guard_run:
  "Pool_stop_begin \<notin> set es \<Longrightarrow> tp_work_guard (run_state pool_step s es) = tp_work_guard s"
proof (induction es arbitrary: s)
  case (Cons e es)
  then have "tp_work_guard (fst (pool_step s e)) = tp_work_guard s"
    by (cases e) (auto simp: post_to_pool_def Let_def worker_run_def worker_finish_def stop_end_def split: worker.split list.split)
  then show ?case using Cons by simp
qed simp

lemma before_stop:
  assumes "Pool_stop_begin \<notin> set es"
  shows "\<not> tp_stopped (run_state pool_step (pool_create n) es) \<and> tp_late (run_state pool_step (pool_create n) es) = []"
  using thread_pool.inv_run [OF pool_inv_create, of n es] guard_run [OF assms, of "pool_create n"]
  by (auto simp: pool_inv_def pool_create_def)

lemma late_run:
  "set (tp_late (run_state pool_step s es)) \<subseteq> set (tp_late s) \<union> {tp_posted s..}"
proof (induction es arbitrary: s)
  case (Cons e es)
  have "set (tp_late (fst (pool_step s e))) \<subseteq> set (tp_late s) \<union> {tp_posted s..}" "tp_posted s \<le> tp_posted (fst (pool_step s e))"
    by (cases e; auto simp: post_to_pool_def Let_def worker_run_def worker_finish_def stop_begin_def stop_end_def
        split: worker.split list.split)+
  then show ?case using Cons.IH [of "fst (pool_step s e)"] by fastforce
qed simp

lemma posted_mono: "tp_posted s \<le> tp_posted (run_state pool_step s es)"
proof (induction es arbitrary: s)
  case (Cons e es)
  have "tp_posted s \<le> tp_posted (fst (pool_step s e))"
    by (cases e) (auto simp: post_to_pool_def Let_def worker_fields stop_begin_def stop_end_def split: worker.split)
  then show ?case using Cons.IH [of "fst (pool_step s e)"] by simp
qed simp


section \<open>Properties\<close>

text \<open>
  C35: A thread pool with at least one thread runs every task exactly once.  No task runs twice; a task that throws does not
  cost a worker, for no worker ends before the pool is stopped, and a pool does not stop before
  \<open>stop\<close> is called.  When \<open>stop\<close> has returned, every task has run that was posted before the call of
  \<open>stop\<close>, and of the later ones every task that was not posted to a context that had already run
  out of work.
\<close>

theorem thread_pool_drains:
  fixes es thread_num
  defines "s \<equiv> run_state pool_step (pool_create thread_num) es"
    and "out \<equiv> map fst (run_output pool_step (pool_create thread_num) es)"
  assumes "0 < thread_num"
  shows "distinct out \<and> set out \<subseteq> {..<tp_posted s} \<and> (\<not> is_stopped s \<longrightarrow> Exited \<notin> set (tp_workers s)) \<and>
    get_num s = thread_num \<and> (tp_joined s \<longrightarrow> set out = {..<tp_posted s} - set (tp_late s)) \<and>
    (\<forall>k. Pool_stop_begin \<notin> set (take k es) \<longrightarrow>
      \<not> is_stopped (run_state pool_step (pool_create thread_num) (take k es)) \<and>
      (tp_joined s \<longrightarrow> {..<tp_posted (run_state pool_step (pool_create thread_num) (take k es))} \<subseteq> set out))"
proof -
  have init: "pool_pending (pool_create thread_num) = {#}" "tp_posted (pool_create thread_num) = 0"
    by (simp_all add: pool_pending_def pool_create_def executing_def)
  have all: "pool_pending s + mset out = mset [0..<tp_posted s]"
    using thread_pool.conserve_run [OF pool_inv_create, of thread_num es] posted_run [of "pool_create thread_num" es] init
    by (simp add: s_def out_def)
  then have sub: "mset out \<subseteq># mset [0..<tp_posted s]" by (metis mset_subset_eq_add_right)
  have inv: "pool_inv s \<and> (tp_joined s \<longrightarrow> tp_stopped s)"
    unfolding s_def by (rule joined_pool.inv_run) (simp add: pool_inv_create, simp add: pool_create_def)
  have len: "length (tp_workers s) = thread_num"
    using posted_run [of "pool_create thread_num" es] by (simp add: s_def pool_create_def)
  have "distinct out"
    using distinct_submset [OF sub] by simp
  moreover have "set out \<subseteq> {..<tp_posted s}" using set_mset_mono [OF sub] by (simp add: lessThan_atLeast0)
  moreover have run: "set out = {..<tp_posted s} - set (tp_late s)" if "tp_joined s"
  proof -
    have "tp_workers s \<noteq> []" using len assms(3) by auto
    then have "pool_pending s = mset (tp_late s)" using inv that by (simp add: pool_inv_def pool_pending_def)
    then have m: "mset (tp_late s @ out) = mset [0..<tp_posted s]" using all by simp
    have "distinct (tp_late s @ out)" using mset_eq_imp_distinct_iff [OF m] by simp
    moreover have "set (tp_late s @ out) = {..<tp_posted s}" using mset_eq_setD [OF m] by (simp add: lessThan_atLeast0)
    ultimately show ?thesis by auto
  qed
  moreover have "Exited \<notin> set (tp_workers s)" if "\<not> is_stopped s" using inv that by (auto simp: pool_inv_def is_stopped_def)
  moreover have "\<not> is_stopped (run_state pool_step (pool_create thread_num) (take k es)) \<and>
      (tp_joined s \<longrightarrow> {..<tp_posted (run_state pool_step (pool_create thread_num) (take k es))} \<subseteq> set out)"
    if "Pool_stop_begin \<notin> set (take k es)" for k
  proof -
    let ?t = "run_state pool_step (pool_create thread_num) (take k es)"
    have "s = run_state pool_step ?t (drop k es)" by (simp add: s_def run_append_state [symmetric])
    then have "set (tp_late s) \<subseteq> {tp_posted ?t..}" "tp_posted ?t \<le> tp_posted s"
      using late_run [of ?t "drop k es"] before_stop [OF that] posted_mono [of ?t "drop k es"] by simp_all
    then show ?thesis using run before_stop [OF that] by (fastforce simp: is_stopped_def)
  qed
  ultimately show ?thesis using len by (simp add: get_num_def)
qed

text \<open>Two workers, three tasks of which the first throws, and a fourth that comes too late.\<close>

definition pool_session :: "pool_event list" where
  "pool_session =
     [Pool_post, Pool_post, Pool_worker 0 False, Pool_worker 0 True, Pool_stop_begin, Pool_worker 1 False, Pool_post,
      Pool_worker 0 False, Pool_worker 1 False, Pool_worker 1 False, Pool_worker 0 False, Pool_worker 1 False, Pool_post,
      Pool_worker 0 False, Pool_stop_end]"

theorem thread_pool_drains_witness:
  "map fst (run_output pool_step (pool_create 2) pool_session) = [0, 1, 2] \<and>
   {..<2} \<subseteq> set (map fst (run_output pool_step (pool_create 2) pool_session)) \<and>
   set (map fst (run_output pool_step (pool_create 2) pool_session)) = {..<4} - {3}"
proof -
  let ?s = "run_state pool_step (pool_create 2) pool_session" and ?o = "map fst (run_output pool_step (pool_create 2) pool_session)"
  note defs = pool_session_def pool_create_def post_to_pool_def worker_run_def worker_finish_def set_worker_def
    stop_begin_def stop_end_def out_of_work_def numeral_2_eq_2
  have s: "tp_joined ?s \<and> tp_posted ?s = 4 \<and> tp_late ?s = [3]" and out: "?o = [0, 1, 2]"
    by (simp_all add: defs)
  have before: "Pool_stop_begin \<notin> set (take 4 pool_session)"
    "tp_posted (run_state pool_step (pool_create 2) (take 4 pool_session)) = 2" by (simp_all add: defs)
  have "{..<2} \<subseteq> set ?o"
    using thread_pool_drains [of 2 pool_session, THEN conjunct2, THEN conjunct2, THEN conjunct2, THEN conjunct2, THEN conjunct2,
        THEN spec, of 4] s before by simp
  moreover have "set ?o = {..<4} - {3}" using thread_pool_drains [of 2 pool_session] s by simp
  ultimately show ?thesis using out by (intro conjI)
qed

end
