(* ===== verification/Ownership.thy ===== *)
theory Ownership
  imports Common_Prelude
begin

text \<open>
  The owning wrappers: \<open>win-lib/types/internal/unique-handle.h\<close>, \<open>memory/unique-ptr2.h\<close>,
  \<open>utils/function.h\<close> and \<open>utils/value-proxy.h\<close>.

  The state of a wrapper type is the list of its objects; an object is named by its place.  A destroyed object stays in
  its place and owns nothing.  A step is one constructor, assignment, destructor or member function.
  What is destroyed, closed or given up is the output, so that the laws of \<open>completion_system\<close> say that every
  resource meets this fate exactly once.
\<close>

section \<open>Places\<close>

definition held :: "'a option list \<Rightarrow> 'a multiset" where
  "held xs = mset (concat (map (case_option [] (\<lambda>x. [x])) xs))"

definition opt_mset :: "'a option \<Rightarrow> 'a multiset" where
  "opt_mset x = (case x of None \<Rightarrow> {#} | Some a \<Rightarrow> {#a#})"

lemma opt_mset_simps [simp]: "opt_mset None = {#}" "opt_mset (Some a) = {#a#}"
  by (simp_all add: opt_mset_def)

lemma held_simps [simp]: "held [] = {#}" "held (x # xs) = opt_mset x + held xs" "held (xs @ ys) = held xs + held ys"
  by (simp_all add: held_def opt_mset_def split: option.split)

lemma held_update: "i < length xs \<Longrightarrow> held (xs[i := y]) + opt_mset (xs ! i) = held xs + opt_mset y"
proof (induction xs arbitrary: i)
  case (Cons x xs)
  show ?case
  proof (cases i)
    case (Suc j)
    then show ?thesis using Cons.IH [of j] Cons.prems by (simp add: union_assoc)
  qed (simp add: union_commute union_lcomm)
qed simp

lemma held_drop: "i < length xs \<Longrightarrow> held (xs[i := None]) + opt_mset (xs ! i) = held xs"
  using held_update [of i xs None] by simp

lemma held_mem: "i < length xs \<Longrightarrow> xs ! i = Some a \<Longrightarrow> a \<in># held xs"
  using held_drop [of i xs] by (metis opt_mset_simps(2) union_single_eq_member add.commute add_mset_add_single insert_noteq_member)

lemma held_none: "held xs = {#} \<longleftrightarrow> (\<forall>x \<in> set xs. x = None)"
  by (induction xs) (auto simp: opt_mset_def split: option.split)

definition held_once :: "'a option list \<Rightarrow> bool" where
  "held_once xs \<longleftrightarrow> (\<forall>a. count (held xs) a \<le> 1)"

text \<open>A resource that is held once is in one place.\<close>

lemma held_once_place:
  assumes "held_once xs" "i < length xs" "j < length xs" "i \<noteq> j" "xs ! i = Some a"
  shows "xs ! j \<noteq> Some a"
proof
  assume j: "xs ! j = Some a"
  have "held (xs[i := None]) + {#a#} = held xs" using held_drop [OF assms(2)] assms(5) by simp
  moreover have "a \<in># held (xs[i := None])" by (rule held_mem [of j]) (use assms j in auto)
  ultimately have "count (held xs) a \<ge> 2"
    by (metis count_add_mset add_mset_add_single count_greater_eq_one_iff Suc_le_mono numeral_2_eq_2 One_nat_def)
  then show False using assms(1) by (auto simp: held_once_def dest: spec [of _ a])
qed


section \<open>Handles\<close>

datatype handle_fate = Closed | Given_up

definition closes :: "nat option \<Rightarrow> handle_fate completion list" where
  "closes x = (case x of None \<Rightarrow> [] | Some h \<Rightarrow> [(h, Closed)])"

definition handle_construct :: "nat option \<Rightarrow> nat option list \<Rightarrow> nat option list" where
  "handle_construct h xs = xs @ [h]"

definition handle_reset :: "nat \<Rightarrow> nat option \<Rightarrow> nat option list \<Rightarrow> nat option list \<times> handle_fate completion list" where
  "handle_reset i h xs = (if xs ! i = h then (xs, []) else (xs[i := h], closes (xs ! i)))"

definition handle_destroy :: "nat \<Rightarrow> nat option list \<Rightarrow> nat option list \<times> handle_fate completion list" where
  "handle_destroy i xs = handle_reset i None xs"

definition handle_move_construct :: "nat \<Rightarrow> nat option list \<Rightarrow> nat option list" where
  "handle_move_construct j xs = xs[j := None] @ [xs ! j]"

definition handle_move_assign :: "nat \<Rightarrow> nat \<Rightarrow> nat option list \<Rightarrow> nat option list \<times> handle_fate completion list" where
  "handle_move_assign i j xs = (if i \<noteq> j then handle_reset i (xs ! j) (xs[j := None]) else (xs, []))"

definition handle_release :: "nat \<Rightarrow> nat option list \<Rightarrow> nat option list \<times> handle_fate completion list" where
  "handle_release i xs = (xs[i := None], case xs ! i of None \<Rightarrow> [] | Some h \<Rightarrow> [(h, Given_up)])"

text \<open>\<open>put\<close> hands out the address; \<open>h\<close> is what the caller stores there.\<close>

definition handle_put :: "nat \<Rightarrow> nat option \<Rightarrow> nat option list \<Rightarrow> nat option list \<times> handle_fate completion list" where
  "handle_put i h xs = (let (xs, out) = handle_reset i None xs in (xs[i := h], out))"

definition handle_swap :: "nat \<Rightarrow> nat \<Rightarrow> nat option list \<Rightarrow> nat option list" where
  "handle_swap i j xs = xs[i := xs ! j, j := xs ! i]"

datatype handle_event =
    H_construct "nat option"
  | H_move_construct nat
  | H_move_assign nat nat
  | H_destroy nat
  | H_reset nat "nat option"
  | H_release nat
  | H_put nat "nat option"
  | H_swap nat nat

text \<open>A raw handle is given to one owner only: a step that would give it to a second is not taken.\<close>

definition may_own :: "nat option list \<Rightarrow> nat option \<Rightarrow> bool" where
  "may_own xs h = (case h of None \<Rightarrow> True | Some a \<Rightarrow> Some a \<notin> set xs)"

fun handle_step :: "nat option list \<Rightarrow> handle_event \<Rightarrow> nat option list \<times> handle_fate completion list" where
  "handle_step xs (H_construct h) = (if may_own xs h then handle_construct h xs else xs, [])"
| "handle_step xs (H_move_construct j) = (if j < length xs then handle_move_construct j xs else xs, [])"
| "handle_step xs (H_move_assign i j) = (if i < length xs \<and> j < length xs then handle_move_assign i j xs else (xs, []))"
| "handle_step xs (H_destroy i) = (if i < length xs then handle_destroy i xs else (xs, []))"
| "handle_step xs (H_reset i h) = (if i < length xs \<and> (may_own xs h \<or> xs ! i = h) then handle_reset i h xs else (xs, []))"
| "handle_step xs (H_release i) = (if i < length xs then handle_release i xs else (xs, []))"
| "handle_step xs (H_put i h) = (if i < length xs \<and> may_own xs h then handle_put i h xs else (xs, []))"
| "handle_step xs (H_swap i j) = (if i < length xs \<and> j < length xs then handle_swap i j xs else xs, [])"

fun handles_acquired :: "nat option list \<Rightarrow> handle_event \<Rightarrow> nat multiset" where
  "handles_acquired xs (H_construct h) = (if may_own xs h then opt_mset h else {#})"
| "handles_acquired xs (H_reset i h) = (if i < length xs \<and> may_own xs h \<and> xs ! i \<noteq> h then opt_mset h else {#})"
| "handles_acquired xs (H_put i h) = (if i < length xs \<and> may_own xs h then opt_mset h else {#})"
| "handles_acquired xs e = {#}"

lemma closes_mset [simp]: "image_mset fst (mset (closes x)) = opt_mset x"
  by (simp add: closes_def split: option.split)

lemma reset_conserve:
  assumes "i < length xs"
  shows "held (fst (handle_reset i h xs)) + mset (map fst (snd (handle_reset i h xs))) =
    held xs + (if xs ! i = h then {#} else opt_mset h)"
  using held_update [OF assms, of h] by (simp add: handle_reset_def)

lemma held_sum: "held xs = sum_mset (image_mset opt_mset (mset xs))"
  by (induction xs) simp_all

lemma swap_held: "i < length xs \<Longrightarrow> j < length xs \<Longrightarrow> held (handle_swap i j xs) = held xs"
  unfolding held_sum handle_swap_def by (simp only: mset_swap)

lemma handle_conserve:
  assumes once: "held_once xs"
  shows "held (fst (handle_step xs e)) + mset (map fst (snd (handle_step xs e))) = held xs + handles_acquired xs e"
proof (cases e)
  case (H_construct h)
  then show ?thesis by (simp add: handle_construct_def)
next
  case (H_move_construct j)
  then show ?thesis using held_drop [of j xs] by (simp add: handle_move_construct_def)
next
  case (H_move_assign i j)
  show ?thesis
  proof (cases "i < length xs \<and> j < length xs \<and> i \<noteq> j")
    case True
    then have ij: "i < length xs" "j < length xs" "i \<noteq> j" by auto
    have "xs ! i \<noteq> xs ! j \<or> xs ! j = None" using held_once_place [OF once ij] by (cases "xs ! i") auto
    then have "held (fst (handle_reset i (xs ! j) (xs[j := None]))) +
        mset (map fst (snd (handle_reset i (xs ! j) (xs[j := None])))) = held (xs[j := None]) + opt_mset (xs ! j)"
      using reset_conserve [of i "xs[j := None]" "xs ! j"] ij by auto
    then show ?thesis using held_drop [OF ij(2)] H_move_assign True by (simp add: handle_move_assign_def)
  next
    case False
    then show ?thesis using H_move_assign by (auto simp: handle_move_assign_def)
  qed
next
  case (H_destroy i)
  then show ?thesis using reset_conserve [of i xs None] by (simp add: handle_destroy_def)
next
  case (H_reset i h)
  then show ?thesis using reset_conserve [of i xs h] by auto
next
  case (H_release i)
  then show ?thesis using held_drop [of i xs] by (auto simp: handle_release_def split: option.split)
next
  case (H_put i h)
  show ?thesis
  proof (cases "i < length xs")
    case True
    have "handle_put i h xs = (xs[i := h], closes (xs ! i))"
      by (cases "xs ! i = None") (simp_all add: handle_put_def handle_reset_def closes_def)
    then show ?thesis using H_put held_update [OF True, of h] True by simp
  qed (use H_put in simp)
next
  case (H_swap i j)
  then show ?thesis using swap_held by simp
qed

lemma held_once_acquire:
  assumes "held_once xs" "may_own xs h" "held ys + A = held xs + opt_mset h"
  shows "held_once ys"
proof -
  have "count (held xs + opt_mset h) a \<le> 1" for a
  proof (cases "h = Some a")
    case True
    then have "a \<notin># held xs" using assms(2) by (auto simp: may_own_def held_def split: option.splits)
    then show ?thesis using True by (simp add: count_eq_zero_iff)
  next
    case False
    then show ?thesis using assms(1) by (cases h) (auto simp: held_once_def)
  qed
  then have "count (held ys) a \<le> 1" for a using assms(3) by (metis count_union le_add1 le_trans)
  then show ?thesis by (simp add: held_once_def)
qed

lemma handle_inv_step:
  assumes once: "held_once xs"
  shows "held_once (fst (handle_step xs e))"
proof -
  obtain h where h: "may_own xs h" "handles_acquired xs e = opt_mset h"
  proof (cases e)
    case (H_construct h)
    show ?thesis by (rule that [of "if may_own xs h then h else None"]) (use H_construct in \<open>auto simp: may_own_def\<close>)
  next
    case (H_reset i h)
    show ?thesis by (rule that [of "if i < length xs \<and> may_own xs h \<and> xs ! i \<noteq> h then h else None"]) (use H_reset in \<open>auto simp: may_own_def\<close>)
  next
    case (H_put i h)
    show ?thesis by (rule that [of "if i < length xs \<and> may_own xs h then h else None"]) (use H_put in \<open>auto simp: may_own_def\<close>)
  qed (rule that [of None]; simp add: may_own_def)+
  show ?thesis using held_once_acquire [OF once h(1)] handle_conserve [OF once, of e] h(2) by metis
qed

interpretation handles: completion_system handle_step held_once held handles_acquired
  by unfold_locales (use handle_inv_step handle_conserve in auto)


section \<open>Numbered resources\<close>

text \<open>
  Wrappers that create their resources number them as they are created.  A resource then is either still owned or has been
  disposed of, and never both: no owner holds a dangling resource, none is disposed of twice and none is lost.
\<close>

locale owner_system = completion_system step inv pend opn
  for step :: "'s \<Rightarrow> 'e \<Rightarrow> 's \<times> 'r completion list" and inv pend opn +
  fixes fresh :: "'s \<Rightarrow> nat"
  assumes numbered: "inv s \<Longrightarrow> opn s e = mset [fresh s..<fresh (fst (step s e))] \<and> fresh s \<le> fresh (fst (step s e))"
begin

lemma run_numbered:
  "inv s \<Longrightarrow>
   run_opened step opn s es = mset [fresh s..<fresh (run_state step s es)] \<and> fresh s \<le> fresh (run_state step s es)"
proof (induction es arbitrary: s)
  case (Cons e es)
  let ?t = "fst (step s e)"
  have t: "run_opened step opn ?t es = mset [fresh ?t..<fresh (run_state step ?t es)]" "fresh ?t \<le> fresh (run_state step ?t es)"
    using Cons.IH [of ?t] inv_step [OF Cons.prems] by auto
  have "mset [fresh s..<fresh ?t] + mset [fresh ?t..<fresh (run_state step ?t es)] =
        mset [fresh s..<fresh (run_state step ?t es)]"
    using upt_add_eq_append [of "fresh s" "fresh ?t" "fresh (run_state step ?t es) - fresh ?t"] t(2) numbered [OF Cons.prems, of e]
    by (simp del: mset_upt flip: mset_append)
  then show ?case using t numbered [OF Cons.prems, of e]
    by (simp del: mset_upt run.simps(2))
qed simp

lemma all_accounted:
  assumes "inv s" "pend s = {#}" "fresh s = 0"
  shows "pend (run_state step s es) + mset (map fst (run_output step s es)) = mset [0..<fresh (run_state step s es)]"
  using conserve_run [OF assms(1), of es] run_numbered [OF assms(1), of es] assms(2,3) by (simp del: mset_upt)

lemma disposed_once:
  assumes "inv s" "pend s = {#}" "fresh s = 0"
  shows "distinct (map fst (run_output step s es))"
    and "set (map fst (run_output step s es)) \<union> set_mset (pend (run_state step s es)) = {0..<fresh (run_state step s es)}"
    and "set (map fst (run_output step s es)) \<inter> set_mset (pend (run_state step s es)) = {}"
proof -
  let ?out = "map fst (run_output step s es)" and ?pend = "pend (run_state step s es)"
  let ?n = "fresh (run_state step s es)"
  note acc = all_accounted [OF assms, of es]
  have one: "count ?pend p + count (mset ?out) p \<le> 1" for p
    using arg_cong [OF acc, of "\<lambda>M. count M p"] distinct_count_atmost_1 [of "[0..<?n]"]
    by (simp del: mset_upt mset_map)
  show "distinct ?out"
    by (rule distinct_if_count_le_1) (use one in \<open>meson add_leE\<close>)
  show "set ?out \<union> set_mset ?pend = {0..<?n}"
    using arg_cong [OF acc, of set_mset] by (simp del: mset_upt mset_map) auto
  show "set ?out \<inter> set_mset ?pend = {}"
  proof (rule ccontr)
    assume "set ?out \<inter> set_mset ?pend \<noteq> {}"
    then obtain p where p: "p \<in># mset ?out" "p \<in># ?pend" by auto
    have "0 < count (mset ?out) p" "0 < count ?pend p" using p unfolding count_greater_zero_iff by auto
    then show False using one [of p] by linarith
  qed
qed

end


section \<open>Unique pointers\<close>

text \<open>
  The two pointers of a \<open>unique_ptr2\<close> are set and cleared together, so an object is the number of its allocation.  An
  allocation is destroyed and deallocated, or only deallocated if the constructor of its object throws.
\<close>

datatype ptr_fate = Destroyed | Only_deallocated

record ptr_state =
  up_slots :: "nat option list"
  up_next :: nat

definition ptr_init :: ptr_state where
  "ptr_init = \<lparr>up_slots = [], up_next = 0\<rparr>"

definition make_unique2 :: "bool \<Rightarrow> ptr_state \<Rightarrow> ptr_state \<times> ptr_fate completion list" where
  "make_unique2 throws s =
     (let ptr = up_next s; s = s\<lparr>up_next := Suc ptr\<rparr>
      in if throws then (s, [(ptr, Only_deallocated)]) else (s\<lparr>up_slots := up_slots s @ [Some ptr]\<rparr>, []))"

definition ptr_reset :: "nat \<Rightarrow> ptr_state \<Rightarrow> ptr_state \<times> ptr_fate completion list" where
  "ptr_reset i s =
     (case up_slots s ! i of
        None \<Rightarrow> (s, [])
      | Some ptr \<Rightarrow> (s\<lparr>up_slots := (up_slots s)[i := None]\<rparr>, [(ptr, Destroyed)]))"

definition ptr_move_construct :: "nat \<Rightarrow> ptr_state \<Rightarrow> ptr_state" where
  "ptr_move_construct j s = s\<lparr>up_slots := (up_slots s)[j := None] @ [up_slots s ! j]\<rparr>"

definition ptr_take :: "nat \<Rightarrow> nat \<Rightarrow> ptr_state \<Rightarrow> ptr_state" where
  "ptr_take i j s = s\<lparr>up_slots := (up_slots s)[i := up_slots s ! j, j := None]\<rparr>"

definition ptr_move_assign :: "nat \<Rightarrow> nat \<Rightarrow> ptr_state \<Rightarrow> ptr_state \<times> ptr_fate completion list" where
  "ptr_move_assign i j s = (if i \<noteq> j then let (s, out) = ptr_reset i s in (ptr_take i j s, out) else (s, []))"

datatype ptr_event =
    P_default
  | P_make bool
  | P_move_construct nat
  | P_move_assign nat nat
  | P_reset nat

fun ptr_step :: "ptr_state \<Rightarrow> ptr_event \<Rightarrow> ptr_state \<times> ptr_fate completion list" where
  "ptr_step s P_default = (s\<lparr>up_slots := up_slots s @ [None]\<rparr>, [])"
| "ptr_step s (P_make throws) = make_unique2 throws s"
| "ptr_step s (P_move_construct j) = (if j < length (up_slots s) then ptr_move_construct j s else s, [])"
| "ptr_step s (P_move_assign i j) =
     (if i < length (up_slots s) \<and> j < length (up_slots s) then ptr_move_assign i j s else (s, []))"
| "ptr_step s (P_reset i) = (if i < length (up_slots s) then ptr_reset i s else (s, []))"

fun ptr_opened :: "ptr_state \<Rightarrow> ptr_event \<Rightarrow> nat multiset" where
  "ptr_opened s (P_make throws) = {#up_next s#}"
| "ptr_opened s e = {#}"

lemma ptr_reset_slots:
  "up_slots (fst (ptr_reset i s)) = (up_slots s)[i := None]"
  by (cases "up_slots s ! i") (simp_all add: ptr_reset_def, metis list_update_id)

lemma ptr_reset_conserve:
  "i < length (up_slots s) \<Longrightarrow>
   held ((up_slots s)[i := None]) + mset (map fst (snd (ptr_reset i s))) = held (up_slots s)"
  using held_drop [of i "up_slots s"] by (cases "up_slots s ! i") (simp_all add: ptr_reset_def)

lemma ptr_take_held:
  assumes "i < length xs" "j < length xs" "i \<noteq> j"
  shows "held (xs[i := None, i := xs ! j, j := None]) = held (xs[i := None])"
proof -
  have "held (xs[i := xs ! j, j := None]) + opt_mset (xs ! j) = held (xs[i := xs ! j])"
    using held_drop [of j "xs[i := xs ! j]"] assms by simp
  moreover have "held (xs[i := xs ! j]) = held (xs[i := None]) + opt_mset (xs ! j)"
    using held_update [of i "xs[i := None]" "xs ! j"] assms by simp
  ultimately show ?thesis by simp
qed

lemma ptr_conserve:
  "held (up_slots (fst (ptr_step s e))) + mset (map fst (snd (ptr_step s e))) = held (up_slots s) + ptr_opened s e"
proof (cases e)
  case (P_move_construct j)
  then show ?thesis using held_drop [of j "up_slots s"] by (simp add: ptr_move_construct_def)
next
  case (P_move_assign i j)
  show ?thesis
  proof (cases "i < length (up_slots s) \<and> j < length (up_slots s) \<and> i \<noteq> j")
    case True
    then have ij: "i < length (up_slots s)" "j < length (up_slots s)" "i \<noteq> j" by auto
    note r = ptr_reset_conserve [OF ij(1)]
    have "up_slots (ptr_take i j (fst (ptr_reset i s))) = (up_slots s)[i := None, i := up_slots s ! j, j := None]"
      using ij by (simp add: ptr_take_def ptr_reset_slots)
    then have "held (up_slots (ptr_take i j (fst (ptr_reset i s)))) = held ((up_slots s)[i := None])"
      using ptr_take_held [OF ij] by simp
    then show ?thesis using r P_move_assign True by (simp add: ptr_move_assign_def case_prod_beta)
  next
    case False
    then show ?thesis using P_move_assign by (auto simp: ptr_move_assign_def)
  qed
next
  case (P_reset i)
  then show ?thesis using ptr_reset_conserve [of i s] by (simp add: ptr_reset_slots)
qed (simp_all add: make_unique2_def Let_def)

lemma ptr_next_step:
  "ptr_opened s e = mset [up_next s..<up_next (fst (ptr_step s e))] \<and> up_next s \<le> up_next (fst (ptr_step s e))"
  by (cases e) (simp_all add: make_unique2_def Let_def ptr_move_construct_def ptr_move_assign_def ptr_reset_def ptr_take_def
      case_prod_beta split: option.split)

interpretation pointers: owner_system ptr_step "\<lambda>s. True" "\<lambda>s. held (up_slots s)" ptr_opened up_next
  by unfold_locales (simp only: ptr_conserve | rule TrueI | rule ptr_next_step)+


section \<open>Functions\<close>

text \<open>
  A callable object of a \<open>function\<close> is in the buffer of the function (small-buffer optimisation) or on the heap.  Moving
  the function moves the pointer to a heap object, but constructs a new object from one in a buffer and destroys the old one.
  \<open>fo_callable\<close> is what the object does when it is called; a move constructor keeps it.
\<close>

record 'c func_object =
  fo_on_heap :: bool
  fo_id :: nat
  fo_callable :: 'c

record 'c func_state =
  fn_slots :: "'c func_object option list"
  fn_next :: nat

datatype func_error = Bad_function_call

definition func_init :: "'c func_state" where
  "func_init = \<lparr>fn_slots = [], fn_next = 0\<rparr>"

definition func_construct :: "bool \<Rightarrow> 'c \<Rightarrow> 'c func_state \<Rightarrow> 'c func_state" where
  "func_construct heap func s =
     s\<lparr>fn_slots := fn_slots s @ [Some \<lparr>fo_on_heap = heap, fo_id = fn_next s, fo_callable = func\<rparr>],
       fn_next := Suc (fn_next s)\<rparr>"

definition func_destroy :: "nat \<Rightarrow> 'c func_state \<Rightarrow> 'c func_state \<times> unit completion list" where
  "func_destroy i s =
     (s\<lparr>fn_slots := (fn_slots s)[i := None]\<rparr>, case fn_slots s ! i of None \<Rightarrow> [] | Some obj \<Rightarrow> [(fo_id obj, ())])"

definition func_move_object :: "'c func_object \<Rightarrow> nat \<Rightarrow> 'c func_object \<times> nat \<times> unit completion list" where
  "func_move_object obj fresh =
     (if fo_on_heap obj then (obj, fresh, []) else (obj\<lparr>fo_id := fresh\<rparr>, Suc fresh, [(fo_id obj, ())]))"

definition func_move_construct :: "nat \<Rightarrow> 'c func_state \<Rightarrow> 'c func_state \<times> unit completion list" where
  "func_move_construct j s =
     (case fn_slots s ! j of
        None \<Rightarrow> (s\<lparr>fn_slots := fn_slots s @ [None]\<rparr>, [])
      | Some other \<Rightarrow>
          let (obj, fresh, out) = func_move_object other (fn_next s)
          in (s\<lparr>fn_slots := (fn_slots s)[j := None] @ [Some obj], fn_next := fresh\<rparr>, out))"

definition func_move_assign :: "nat \<Rightarrow> nat \<Rightarrow> 'c func_state \<Rightarrow> 'c func_state \<times> unit completion list" where
  "func_move_assign i j s =
     (if i \<noteq> j then
        let (s, out) = func_destroy i s
        in case fn_slots s ! j of
             None \<Rightarrow> (s, out)
           | Some other \<Rightarrow>
               let (obj, fresh, out') = func_move_object other (fn_next s)
               in (s\<lparr>fn_slots := (fn_slots s)[i := Some obj, j := None], fn_next := fresh\<rparr>, out @ out')
      else (s, []))"

definition func_call :: "nat \<Rightarrow> 'c func_state \<Rightarrow> func_error + 'c" where
  "func_call i s = (case fn_slots s ! i of None \<Rightarrow> Inl Bad_function_call | Some obj \<Rightarrow> Inr (fo_callable obj))"

definition func_is_set :: "nat \<Rightarrow> 'c func_state \<Rightarrow> bool" where
  "func_is_set i s \<longleftrightarrow> fn_slots s ! i \<noteq> None"

datatype 'c func_event =
    F_default
  | F_construct bool 'c
  | F_move_construct nat
  | F_move_assign nat nat
  | F_destroy nat

fun func_step :: "'c func_state \<Rightarrow> 'c func_event \<Rightarrow> 'c func_state \<times> unit completion list" where
  "func_step s F_default = (s\<lparr>fn_slots := fn_slots s @ [None]\<rparr>, [])"
| "func_step s (F_construct heap func) = (func_construct heap func s, [])"
| "func_step s (F_move_construct j) = (if j < length (fn_slots s) then func_move_construct j s else (s, []))"
| "func_step s (F_move_assign i j) =
     (if i < length (fn_slots s) \<and> j < length (fn_slots s) then func_move_assign i j s else (s, []))"
| "func_step s (F_destroy i) = (if i < length (fn_slots s) then func_destroy i s else (s, []))"

text \<open>What clients rely on: a list of optional callables that are moved about.\<close>

fun func_spec :: "'c option list \<Rightarrow> 'c func_event \<Rightarrow> 'c option list" where
  "func_spec fs F_default = fs @ [None]"
| "func_spec fs (F_construct heap func) = fs @ [Some func]"
| "func_spec fs (F_move_construct j) = (if j < length fs then fs[j := None] @ [fs ! j] else fs)"
| "func_spec fs (F_move_assign i j) =
     (if i < length fs \<and> j < length fs \<and> i \<noteq> j then fs[i := fs ! j, j := None] else fs)"
| "func_spec fs (F_destroy i) = fs[i := None]"

definition func_contents :: "'c func_state \<Rightarrow> 'c option list" where
  "func_contents s = map (map_option fo_callable) (fn_slots s)"

definition func_ids :: "'c func_object option list \<Rightarrow> nat multiset" where
  "func_ids xs = image_mset fo_id (held xs)"

text \<open>The objects a step constructs: the numbers it takes.\<close>

definition func_opened :: "'c func_state \<Rightarrow> 'c func_event \<Rightarrow> nat multiset" where
  "func_opened s e = mset [fn_next s..<fn_next (fst (func_step s e))]"

lemma func_move_object_callable:
  "fo_callable (fst (func_move_object obj n)) = fo_callable obj"
  by (simp add: func_move_object_def)

lemma contents_none:
  "xs ! j = None \<Longrightarrow> (map (map_option f) xs)[j := None] = map (map_option f) xs"
  by (metis list_update_id map_update option.map(1))

lemma func_contents_step: "func_contents (fst (func_step s e)) = func_spec (func_contents s) e"
proof (cases e)
  case (F_move_construct j)
  then show ?thesis
    by (simp add: func_contents_def func_move_construct_def case_prod_beta map_update func_move_object_callable
        contents_none split: option.split)
next
  case (F_move_assign i j)
  show ?thesis
  proof (cases "i < length (fn_slots s) \<and> j < length (fn_slots s) \<and> i \<noteq> j")
    case True
    show ?thesis
    proof (cases "fn_slots s ! j")
      case None
      then have "(map (map_option fo_callable) ((fn_slots s)[i := None]))[j := None] =
          map (map_option fo_callable) ((fn_slots s)[i := None])"
        using True by (intro contents_none) simp
      then show ?thesis using None True F_move_assign
        by (simp add: func_contents_def func_move_assign_def func_destroy_def map_update)
    next
      case (Some other)
      then show ?thesis using True F_move_assign
        by (simp add: func_contents_def func_move_assign_def func_destroy_def map_update case_prod_beta func_move_object_callable)
    qed
  next
    case False
    then show ?thesis using F_move_assign by (auto simp: func_contents_def func_move_assign_def)
  qed
next
  case (F_destroy i)
  then show ?thesis by (simp add: func_contents_def func_destroy_def map_update list_update_beyond)
qed (simp_all add: func_contents_def func_construct_def)

lemma func_ids_simps [simp]: "func_ids [] = {#}" "func_ids (xs @ ys) = func_ids xs + func_ids ys"
  "func_ids [x] = image_mset fo_id (opt_mset x)"
  by (simp_all add: func_ids_def)

lemma func_ids_update:
  "i < length xs \<Longrightarrow>
   func_ids (xs[i := y]) + image_mset fo_id (opt_mset (xs ! i)) = func_ids xs + image_mset fo_id (opt_mset y)"
  unfolding func_ids_def using arg_cong [OF held_update [of i xs y], of "image_mset fo_id"] by simp

lemma func_destroy_conserve:
  "i < length (fn_slots s) \<Longrightarrow>
   func_ids (fn_slots (fst (func_destroy i s))) + mset (map fst (snd (func_destroy i s))) = func_ids (fn_slots s)"
  using func_ids_update [of i "fn_slots s" None] by (cases "fn_slots s ! i") (simp_all add: func_destroy_def)

lemma func_move_object_balance:
  assumes "func_move_object obj n = (obj', n', out)"
  shows "add_mset (fo_id obj') (mset (map fst out)) = add_mset (fo_id obj) (mset [n..<n'])"
proof (cases "fo_on_heap obj")
  case True
  then have "obj' = obj" "n' = n" "out = []" using assms by (auto simp: func_move_object_def)
  then show ?thesis by simp
next
  case False
  then have "fo_id obj' = n" "n' = Suc n" "out = [(fo_id obj, ())]" using assms by (auto simp: func_move_object_def)
  then show ?thesis by (simp add: add_mset_commute)
qed

lemma mset_regroup: "A + P = X + N \<Longrightarrow> X + D = F \<Longrightarrow> A + (D + P) = F + (N :: 'a multiset)"
  using arg_cong [of "A + P" "X + N" "\<lambda>M. M + D"] by (auto simp: ac_simps)

lemma mset_exchange: "add_mset b A = add_mset a X \<Longrightarrow> add_mset b (A + P) = X + add_mset a P"
  using arg_cong [of "add_mset b A" "add_mset a X" "\<lambda>M. M + P"] by simp

lemma mset_replace:
  "add_mset a P = add_mset b Q \<Longrightarrow> add_mset b X = Y \<Longrightarrow> add_mset a (X + P) = Y + Q"
  using arg_cong [of "add_mset a P" "add_mset b Q" "\<lambda>M. X + M"] by auto

lemma func_move_construct_conserve:
  assumes "j < length (fn_slots s)"
  shows "func_ids (fn_slots (fst (func_move_construct j s))) + mset (map fst (snd (func_move_construct j s))) =
    func_ids (fn_slots s) + mset [fn_next s..<fn_next (fst (func_move_construct j s))]"
proof (cases "fn_slots s ! j")
  case (Some other)
  obtain obj n out where m: "func_move_object other (fn_next s) = (obj, n, out)" by (metis prod_cases3)
  have "add_mset (fo_id other) (func_ids ((fn_slots s)[j := None])) = func_ids (fn_slots s)"
    using func_ids_update [OF assms, of None] Some by simp
  from mset_replace [OF func_move_object_balance [OF m] this] Some m show ?thesis
    by (simp add: func_move_construct_def del: mset_upt)
qed (simp add: func_move_construct_def)

lemma func_move_assign_conserve:
  assumes ij: "i < length (fn_slots s)" "j < length (fn_slots s)"
  shows "func_ids (fn_slots (fst (func_move_assign i j s))) + mset (map fst (snd (func_move_assign i j s))) =
    func_ids (fn_slots s) + mset [fn_next s..<fn_next (fst (func_move_assign i j s))]"
proof (cases "i = j \<or> fn_slots s ! j = None")
  case True
  then have "func_move_assign i j s = (if i = j then (s, []) else func_destroy i s)"
    by (cases "i = j") (simp_all add: func_move_assign_def func_destroy_def)
  moreover have "fn_next (fst (func_destroy i s)) = fn_next s" by (simp add: func_destroy_def)
  ultimately show ?thesis using func_destroy_conserve [OF ij(1)] by simp
next
  case False
  then obtain other where j: "i \<noteq> j" "fn_slots s ! j = Some other" by auto
  obtain obj n out where m: "func_move_object other (fn_next s) = (obj, n, out)" by (metis prod_cases3)
  let ?xs = "(fn_slots s)[i := None]" and ?dead = "mset (map fst (snd (func_destroy i s)))"
  let ?ys = "?xs[i := Some obj]"
  have ys: "func_ids ?ys = add_mset (fo_id obj) (func_ids ?xs)"
    using func_ids_update [of i ?xs "Some obj"] ij by simp
  have "add_mset (fo_id other) (func_ids (?ys[j := None])) = add_mset (fo_id obj) (func_ids ?xs)"
    using func_ids_update [of j ?ys None] ij j ys by simp
  then have "add_mset (fo_id other) (func_ids (?ys[j := None]) + mset (map fst out)) =
      func_ids ?xs + add_mset (fo_id obj) (mset (map fst out))"
    by (rule mset_exchange)
  then have moved: "func_ids (?ys[j := None]) + mset (map fst out) = func_ids ?xs + mset [fn_next s..<n]"
    unfolding func_move_object_balance [OF m] by (simp del: mset_upt)
  have dead: "func_ids ?xs + ?dead = func_ids (fn_slots s)"
    using func_destroy_conserve [OF ij(1)] by (simp add: func_destroy_def)
  have assign: "fn_slots (fst (func_move_assign i j s)) = ?ys[j := None]" "fn_next (fst (func_move_assign i j s)) = n"
    "snd (func_move_assign i j s) = snd (func_destroy i s) @ out"
    using j m by (simp_all add: func_move_assign_def func_destroy_def)
  show ?thesis unfolding assign map_append mset_append by (rule mset_regroup [OF moved dead])
qed

lemma func_conserve:
  "func_ids (fn_slots (fst (func_step s e))) + mset (map fst (snd (func_step s e))) =
   func_ids (fn_slots s) + func_opened s e"
proof (cases e)
  case (F_move_construct j)
  then show ?thesis using func_move_construct_conserve [of j s] by (simp add: func_opened_def del: mset_upt)
next
  case (F_destroy i)
  then show ?thesis using func_destroy_conserve [of i s] by (simp add: func_opened_def func_destroy_def)
next
  case (F_move_assign i j)
  then show ?thesis using func_move_assign_conserve [of i s j] by (simp add: func_opened_def del: mset_upt)
qed (simp_all add: func_construct_def func_opened_def)

lemma func_next_step: "fn_next s \<le> fn_next (fst (func_step s e))"
  by (cases e) (simp_all add: func_construct_def func_destroy_def func_move_construct_def func_move_assign_def
      func_move_object_def case_prod_beta split: option.split)

interpretation callables: owner_system func_step "\<lambda>s. True" "\<lambda>s. func_ids (fn_slots s)" func_opened fn_next
  by unfold_locales (simp only: func_conserve | rule TrueI | simp only: func_opened_def func_next_step simp_thms)+


section \<open>Value proxies\<close>

text \<open>
  A valid \<open>value_proxy\<close> shares the ownership of an object, or refers to an external one that it does not own.  The shared
  object is destroyed with its last owner.
\<close>

datatype proxy_ref = Owned nat | External nat

record proxy_state =
  vp_slots :: "proxy_ref option list"
  vp_next :: nat

definition proxy_init :: proxy_state where
  "proxy_init = \<lparr>vp_slots = [], vp_next = 0\<rparr>"

definition owned_ids :: "proxy_ref option list \<Rightarrow> nat set" where
  "owned_ids xs = set (concat (map (\<lambda>x. case x of Some (Owned n) \<Rightarrow> [n] | _ \<Rightarrow> []) xs))"

definition proxy_own :: "proxy_state \<Rightarrow> proxy_state" where
  "proxy_own s = s\<lparr>vp_slots := vp_slots s @ [Some (Owned (vp_next s))], vp_next := Suc (vp_next s)\<rparr>"

definition proxy_external :: "nat \<Rightarrow> proxy_state \<Rightarrow> proxy_state" where
  "proxy_external ref s = s\<lparr>vp_slots := vp_slots s @ [Some (External ref)]\<rparr>"

definition proxy_destroy :: "nat \<Rightarrow> proxy_state \<Rightarrow> proxy_state \<times> unit completion list" where
  "proxy_destroy i s =
     (let xs = (vp_slots s)[i := None]
      in (s\<lparr>vp_slots := xs\<rparr>,
          case vp_slots s ! i of
            Some (Owned n) \<Rightarrow> if n \<in> owned_ids xs then [] else [(n, ())]
          | _ \<Rightarrow> []))"

definition proxy_copy_construct :: "nat \<Rightarrow> proxy_state \<Rightarrow> proxy_state" where
  "proxy_copy_construct j s = s\<lparr>vp_slots := vp_slots s @ [vp_slots s ! j]\<rparr>"

definition proxy_copy_assign :: "nat \<Rightarrow> nat \<Rightarrow> proxy_state \<Rightarrow> proxy_state \<times> unit completion list" where
  "proxy_copy_assign i j s =
     (if i = j then (s, [])
      else let (s, out) = proxy_destroy i s in (s\<lparr>vp_slots := (vp_slots s)[i := vp_slots s ! j]\<rparr>, out))"

definition proxy_move_construct :: "nat \<Rightarrow> proxy_state \<Rightarrow> proxy_state" where
  "proxy_move_construct j s = s\<lparr>vp_slots := (vp_slots s)[j := None] @ [vp_slots s ! j]\<rparr>"

definition proxy_move_assign :: "nat \<Rightarrow> nat \<Rightarrow> proxy_state \<Rightarrow> proxy_state \<times> unit completion list" where
  "proxy_move_assign i j s =
     (if i = j then (s, [])
      else let (s, out) = proxy_destroy i s in (s\<lparr>vp_slots := (vp_slots s)[i := vp_slots s ! j, j := None]\<rparr>, out))"

definition proxy_is_valid :: "nat \<Rightarrow> proxy_state \<Rightarrow> bool" where
  "proxy_is_valid i s \<longleftrightarrow> vp_slots s ! i \<noteq> None"

datatype proxy_event =
    V_default
  | V_own
  | V_external nat
  | V_copy_construct nat
  | V_copy_assign nat nat
  | V_move_construct nat
  | V_move_assign nat nat
  | V_destroy nat

fun proxy_step :: "proxy_state \<Rightarrow> proxy_event \<Rightarrow> proxy_state \<times> unit completion list" where
  "proxy_step s V_default = (s\<lparr>vp_slots := vp_slots s @ [None]\<rparr>, [])"
| "proxy_step s V_own = (proxy_own s, [])"
| "proxy_step s (V_external ref) = (proxy_external ref s, [])"
| "proxy_step s (V_copy_construct j) = (if j < length (vp_slots s) then proxy_copy_construct j s else s, [])"
| "proxy_step s (V_copy_assign i j) =
     (if i < length (vp_slots s) \<and> j < length (vp_slots s) then proxy_copy_assign i j s else (s, []))"
| "proxy_step s (V_move_construct j) = (if j < length (vp_slots s) then proxy_move_construct j s else s, [])"
| "proxy_step s (V_move_assign i j) =
     (if i < length (vp_slots s) \<and> j < length (vp_slots s) then proxy_move_assign i j s else (s, []))"
| "proxy_step s (V_destroy i) = (if i < length (vp_slots s) then proxy_destroy i s else (s, []))"

definition proxy_opened :: "proxy_state \<Rightarrow> proxy_event \<Rightarrow> nat multiset" where
  "proxy_opened s e = mset [vp_next s..<vp_next (fst (proxy_step s e))]"

definition proxy_inv :: "proxy_state \<Rightarrow> bool" where
  "proxy_inv s \<longleftrightarrow> owned_ids (vp_slots s) \<subseteq> {0..<vp_next s}"

lemma owned_ids_finite [simp]: "finite (owned_ids xs)"
  unfolding owned_ids_def by (rule finite_set)

lemma owned_ids_simps [simp]: "owned_ids [] = {}" "owned_ids (xs @ ys) = owned_ids xs \<union> owned_ids ys"
  "owned_ids (None # xs) = owned_ids xs" "owned_ids (Some (Owned n) # xs) = insert n (owned_ids xs)"
  "owned_ids (Some (External r) # xs) = owned_ids xs"
  by (simp_all add: owned_ids_def)

lemma owned_ids_update:
  assumes "i < length xs"
  shows "owned_ids (xs[i := y]) = owned_ids (xs[i := None]) \<union> owned_ids [y]"
proof -
  have "xs[i := z] = take i xs @ [z] @ drop (Suc i) xs" for z using upd_conv_take_nth_drop [OF assms] by simp
  then show ?thesis by (simp only: owned_ids_simps) auto
qed

lemma owned_ids_nth: "k < length xs \<Longrightarrow> owned_ids [xs ! k] \<subseteq> owned_ids xs"
  using owned_ids_update [of k xs "xs ! k"] by auto

lemma owned_ids_drop: "i < length xs \<Longrightarrow> owned_ids xs = owned_ids (xs[i := None]) \<union> owned_ids [xs ! i]"
  using owned_ids_update [of i xs "xs ! i"] by simp

lemma owned_ids_copy:
  assumes "i < length xs" "j < length xs" "i \<noteq> j"
  shows "owned_ids (xs[i := None, i := xs ! j]) = owned_ids (xs[i := None])"
  using owned_ids_update [of i xs "xs ! j"] owned_ids_nth [of j "xs[i := None]"] assms by auto

lemma owned_ids_move:
  assumes "i < length xs" "j < length xs" "i \<noteq> j"
  shows "owned_ids (xs[i := None, i := xs ! j, j := None]) = owned_ids (xs[i := None])"
  using owned_ids_copy [OF assms] owned_ids_drop [of j "xs[i := xs ! j]"] owned_ids_nth [of i "xs[i := xs ! j, j := None]"] assms
  by auto

lemma proxy_destroy_slots [simp]: "vp_slots (fst (proxy_destroy i s)) = (vp_slots s)[i := None]"
  "vp_next (fst (proxy_destroy i s)) = vp_next s"
  by (simp_all add: proxy_destroy_def Let_def)

lemma proxy_destroy_conserve:
  assumes "i < length (vp_slots s)"
  shows "mset_set (owned_ids ((vp_slots s)[i := None])) + mset (map fst (snd (proxy_destroy i s))) = mset_set (owned_ids (vp_slots s))"
proof (cases "vp_slots s ! i")
  case None
  then show ?thesis using owned_ids_drop [OF assms] by (simp add: proxy_destroy_def Let_def)
next
  case (Some r)
  then show ?thesis using owned_ids_drop [OF assms] by (cases r) (auto simp: proxy_destroy_def Let_def insert_absorb)
qed

text \<open>The objects owned after a step, as far as the step does not destroy a proxy.\<close>

lemma proxy_assign_conserve:
  assumes "i < length (vp_slots s)" "j < length (vp_slots s)"
  shows "mset_set (owned_ids (vp_slots (fst (proxy_copy_assign i j s)))) + mset (map fst (snd (proxy_copy_assign i j s))) =
      mset_set (owned_ids (vp_slots s))"
    and "mset_set (owned_ids (vp_slots (fst (proxy_move_assign i j s)))) + mset (map fst (snd (proxy_move_assign i j s))) =
      mset_set (owned_ids (vp_slots s))"
  using owned_ids_copy [OF assms] owned_ids_move [OF assms] proxy_destroy_conserve [OF assms(1)]
  by (cases "i = j"; simp add: proxy_copy_assign_def proxy_move_assign_def case_prod_beta)+

lemma proxy_next_step: "vp_next s \<le> vp_next (fst (proxy_step s e))"
  by (cases e) (simp_all add: proxy_own_def proxy_external_def proxy_copy_construct_def proxy_copy_assign_def
      proxy_move_construct_def proxy_move_assign_def case_prod_beta)

lemma proxy_conserve:
  assumes "proxy_inv s"
  shows "mset_set (owned_ids (vp_slots (fst (proxy_step s e)))) + mset (map fst (snd (proxy_step s e))) =
    mset_set (owned_ids (vp_slots s)) + proxy_opened s e"
proof -
  have "\<not> e = V_own \<Longrightarrow> proxy_opened s e = {#}"
    by (cases e) (simp_all add: proxy_opened_def proxy_external_def proxy_copy_construct_def proxy_copy_assign_def
      proxy_move_construct_def proxy_move_assign_def case_prod_beta)
  moreover have "vp_next s \<notin> owned_ids (vp_slots s)" using assms by (auto simp: proxy_inv_def)
  moreover have "j < length (vp_slots s) \<Longrightarrow> owned_ids (vp_slots s @ [vp_slots s ! j]) = owned_ids (vp_slots s)"
    "j < length (vp_slots s) \<Longrightarrow> owned_ids ((vp_slots s)[j := None] @ [vp_slots s ! j]) = owned_ids (vp_slots s)" for j
    using owned_ids_nth [of j "vp_slots s"] owned_ids_drop [of j "vp_slots s"] by auto
  ultimately show ?thesis using proxy_assign_conserve [of _ s] proxy_destroy_conserve [of _ s]
    by (cases e) (simp_all add: proxy_opened_def proxy_own_def proxy_external_def proxy_copy_construct_def
        proxy_move_construct_def)
qed

lemma proxy_inv_step:
  assumes "proxy_inv s"
  shows "proxy_inv (fst (proxy_step s e))"
proof -
  let ?t = "fst (proxy_step s e)"
  have "set_mset (mset_set (owned_ids (vp_slots ?t))) \<subseteq> set_mset (mset_set (owned_ids (vp_slots s)) + proxy_opened s e)"
    unfolding proxy_conserve [OF assms, symmetric] by simp
  then have "owned_ids (vp_slots ?t) \<subseteq> owned_ids (vp_slots s) \<union> {vp_next s..<vp_next ?t}"
    by (simp add: proxy_opened_def)
  also have "\<dots> \<subseteq> {0..<vp_next ?t}" using assms proxy_next_step [of s e] unfolding proxy_inv_def by fastforce
  finally show ?thesis unfolding proxy_inv_def .
qed

interpretation proxies: owner_system proxy_step proxy_inv "\<lambda>s. mset_set (owned_ids (vp_slots s))" proxy_opened vp_next
  by unfold_locales (erule proxy_conserve proxy_inv_step | simp only: proxy_opened_def proxy_next_step simp_thms)+


section \<open>What the wrappers promise\<close>

text \<open>
C36: \<open>function\<close> refines a list of optional callables.  After any construction, move, assignment and destruction of functions,
  whether the callables are in buffers or on the heap, each function holds the callable that a list of optional values
  moved about in the same way would hold; a call runs it, and \<open>bad_function_call\<close> is thrown exactly if there is none.  Every
  callable object that was constructed, moved-from ones included, is either alive in one function or has been destroyed once.
\<close>

theorem function_refines_optional:
  fixes es :: "'c func_event list"
  defines "s \<equiv> run_state func_step func_init es" and "destroyed \<equiv> map fst (run_output func_step func_init es)"
  shows "func_contents s = foldl func_spec [] es \<and>
    map (\<lambda>i. func_call i s) [0..<length (fn_slots s)] =
      map (\<lambda>f. case f of None \<Rightarrow> Inl Bad_function_call | Some func \<Rightarrow> Inr func) (foldl func_spec [] es) \<and>
    func_ids (fn_slots s) + mset destroyed = mset [0..<fn_next s]"
proof -
  have "func_contents (run_state func_step t es) = foldl func_spec (func_contents t) es" for t
    by (induction es arbitrary: t) (simp_all add: func_contents_step del: run.simps(2))
  then have c: "func_contents s = foldl func_spec [] es"
    unfolding s_def by (metis func_contents_def func_init_def func_state.select_convs(1) list.map(1))
  have "map (\<lambda>i. func_call i s) [0..<length (fn_slots s)] =
      map (\<lambda>f. case f of None \<Rightarrow> Inl Bad_function_call | Some func \<Rightarrow> Inr func) (func_contents s)"
    by (rule nth_equalityI) (auto simp: func_contents_def func_call_def split: option.split)
  moreover have "func_ids (fn_slots s) + mset destroyed = mset [0..<fn_next s]"
    unfolding s_def destroyed_def by (rule callables.all_accounted) (simp_all add: func_init_def)
  ultimately show ?thesis using c by simp
qed

text \<open>
C37: Owning wrappers dispose of what they own exactly once.  In every use of unique handles, each raw handle they acquire is
  closed, given up by \<open>release\<close> or still held, as often as it was acquired.  An allocation of \<open>make_unique2\<close> is
  deallocated once, also if the constructor throws, and not while a pointer refers to it.  The value of an owning
  \<open>value_proxy\<close> is destroyed once, when its last owner goes, and never while a proxy refers to it.
\<close>

theorem wrappers_dispose_once:
  "held (run_state handle_step [] hs) + mset (map fst (run_output handle_step [] hs)) =
     run_opened handle_step handles_acquired [] hs \<and>
   held (up_slots (run_state ptr_step ptr_init ps)) + mset (map fst (run_output ptr_step ptr_init ps)) =
     mset [0..<up_next (run_state ptr_step ptr_init ps)] \<and>
   distinct (map fst (run_output proxy_step proxy_init vs)) \<and>
   set (map fst (run_output proxy_step proxy_init vs)) \<union> owned_ids (vp_slots (run_state proxy_step proxy_init vs)) =
     {0..<vp_next (run_state proxy_step proxy_init vs)} \<and>
   set (map fst (run_output proxy_step proxy_init vs)) \<inter> owned_ids (vp_slots (run_state proxy_step proxy_init vs)) = {}"
proof (intro conjI)
  show "held (run_state handle_step [] hs) + mset (map fst (run_output handle_step [] hs)) =
      run_opened handle_step handles_acquired [] hs"
    using handles.conserve_run [of "[]" hs] by (simp add: held_once_def)
  show "held (up_slots (run_state ptr_step ptr_init ps)) + mset (map fst (run_output ptr_step ptr_init ps)) =
      mset [0..<up_next (run_state ptr_step ptr_init ps)]"
    by (rule pointers.all_accounted) (simp_all add: ptr_init_def)
  have init: "proxy_inv proxy_init" "mset_set (owned_ids (vp_slots proxy_init)) = {#}" "vp_next proxy_init = 0"
    by (simp_all add: proxy_inv_def proxy_init_def)
  note once = proxies.disposed_once [OF init, of vs]
  show "distinct (map fst (run_output proxy_step proxy_init vs))" by (rule once(1))
  show "set (map fst (run_output proxy_step proxy_init vs)) \<union> owned_ids (vp_slots (run_state proxy_step proxy_init vs)) =
      {0..<vp_next (run_state proxy_step proxy_init vs)}"
    using once(2) by simp
  show "set (map fst (run_output proxy_step proxy_init vs)) \<inter> owned_ids (vp_slots (run_state proxy_step proxy_init vs)) = {}"
    using once(3) by simp
qed

end
