(* ===== verification/Type_Traits.thy ===== *)
theory Type_Traits
  imports Common_Prelude
begin

text \<open>
  The compile-time functions of \<open>mpl/internal\<close>: qualifiers of types, traits of callables and tuples of types.

  A C++ type is a value of \<open>ctype\<close>: a reference kind and \<open>const\<close> and \<open>volatile\<close> around an unqualified type.  What the
  standard's \<open>type_traits\<close> do is defined first, then the templates in terms of it.  A template without a matching
  specialisation, a failed \<open>static_assert\<close> and an ill-formed type are \<open>None\<close>.
\<close>

section \<open>Types\<close>

datatype ref_kind = No_ref | Lvalue_ref | Rvalue_ref

text \<open>What may follow the parameters of a function type: \<open>const\<close>, \<open>volatile\<close>, a reference qualifier and \<open>noexcept\<close>.\<close>

datatype fun_quals = Fun_quals (fq_const: bool) (fq_volatile: bool) (fq_ref: ref_kind) (fq_noexcept: bool)

text \<open>
  \<open>C_basic\<close> are the types that cannot be called, or whose call operator has no single address; \<open>C_functor\<close> are closures and
  other classes with one call operator.
\<close>

datatype ctype = CType (ct_ref: ref_kind) (ct_const: bool) (ct_volatile: bool) (ct_core: ccore)
and ccore =
    C_void
  | C_basic string
  | C_pointer ctype
  | C_tuple "ctype list"
  | C_fun fun_quals ctype "ctype list"
  | C_member_fun string fun_quals ctype "ctype list"
  | C_std_function ctype "ctype list"
  | C_functor string fun_quals ctype "ctype list"

definition plain :: "ccore \<Rightarrow> ctype" where
  "plain c = CType No_ref False False c"

definition no_quals :: fun_quals where
  "no_quals = Fun_quals False False No_ref False"


section \<open>The standard traits\<close>

fun is_function_core :: "ccore \<Rightarrow> bool" where
  "is_function_core (C_fun q r as) = True"
| "is_function_core c = False"

definition std_is_function :: "ctype \<Rightarrow> bool" where
  "std_is_function t \<longleftrightarrow> ct_ref t = No_ref \<and> is_function_core (ct_core t)"

text \<open>References to \<open>void\<close> and to function types with \<open>const\<close>, \<open>volatile\<close> or reference qualifiers do not exist.\<close>

fun referenceable :: "ccore \<Rightarrow> bool" where
  "referenceable C_void = False"
| "referenceable (C_fun q r as) = (\<not> fq_const q \<and> \<not> fq_volatile q \<and> fq_ref q = No_ref)"
| "referenceable c = True"

definition remove_reference :: "ctype \<Rightarrow> ctype" where
  "remove_reference t = CType No_ref (ct_const t) (ct_volatile t) (ct_core t)"

definition remove_cv :: "ctype \<Rightarrow> ctype" where
  "remove_cv t = (if ct_ref t = No_ref then CType No_ref False False (ct_core t) else t)"

definition std_remove_const :: "ctype \<Rightarrow> ctype" where
  "std_remove_const t = (if ct_ref t = No_ref then CType No_ref False (ct_volatile t) (ct_core t) else t)"

definition std_add_const :: "ctype \<Rightarrow> ctype" where
  "std_add_const t =
     (if ct_ref t \<noteq> No_ref \<or> std_is_function t then t else CType No_ref True (ct_volatile t) (ct_core t))"

definition std_add_volatile :: "ctype \<Rightarrow> ctype" where
  "std_add_volatile t =
     (if ct_ref t \<noteq> No_ref \<or> std_is_function t then t else CType No_ref (ct_const t) True (ct_core t))"

text \<open>The declarator of a reference, with the collapsing rules: \<open>&\<close> wins over \<open>&&\<close>.\<close>

fun collapse :: "ref_kind \<Rightarrow> ref_kind \<Rightarrow> ref_kind" where
  "collapse No_ref k = k"
| "collapse k No_ref = k"
| "collapse Rvalue_ref Rvalue_ref = Rvalue_ref"
| "collapse _ _ = Lvalue_ref"

definition make_ref :: "ref_kind \<Rightarrow> ctype \<Rightarrow> ctype option" where
  "make_ref k t =
     (if k = No_ref then Some t
      else if referenceable (ct_core t) then Some (CType (collapse (ct_ref t) k) (ct_const t) (ct_volatile t) (ct_core t))
      else None)"

definition add_reference :: "ref_kind \<Rightarrow> ctype \<Rightarrow> ctype" where
  "add_reference k t = (case make_ref k t of Some u \<Rightarrow> u | None \<Rightarrow> t)"


section \<open>Transforms of types\<close>

definition remove_type_qualifiers :: "ctype \<Rightarrow> ctype" where
  "remove_type_qualifiers t = remove_cv (remove_reference t)"

definition remove_c_ref :: "ctype \<Rightarrow> ctype" where
  "remove_c_ref t = std_remove_const (remove_reference t)"

definition add_const :: "ctype \<Rightarrow> ctype" where
  "add_const t =
     (if ct_ref t = Lvalue_ref then add_reference Lvalue_ref (std_add_const (remove_reference t))
      else if ct_ref t = Rvalue_ref then add_reference Rvalue_ref (std_add_const (remove_reference t))
      else std_add_const t)"

definition remove_const :: "ctype \<Rightarrow> ctype option" where
  "remove_const t =
     (case ct_ref t of
        No_ref \<Rightarrow> Some (std_remove_const t)
      | Lvalue_ref \<Rightarrow> make_ref Lvalue_ref (std_remove_const (remove_reference t))
      | Rvalue_ref \<Rightarrow> make_ref Rvalue_ref (std_remove_const (remove_reference t)))"

definition add_lvalue_ref_to_value :: "ctype \<Rightarrow> ctype option" where
  "add_lvalue_ref_to_value t =
     (if t = plain C_void then Some t
      else case make_ref Lvalue_ref t of
        None \<Rightarrow> None
      | Some u \<Rightarrow> Some (if ct_ref t \<noteq> No_ref then t else u))"


section \<open>Checks of qualifiers\<close>

definition with_quals :: "bool \<Rightarrow> bool \<Rightarrow> ref_kind \<Rightarrow> ctype \<Rightarrow> ctype option" where
  "with_quals c v k t =
     make_ref k ((if v then std_add_volatile else id) ((if c then std_add_const else id) t))"

definition is_same_as :: "ctype \<Rightarrow> ctype option \<Rightarrow> bool option" where
  "is_same_as t u = map_option (\<lambda>u. t = u) u"

definition is_const :: "ctype \<Rightarrow> bool" where
  "is_const t = ct_const (remove_reference t)"

definition is_value :: "ctype \<Rightarrow> bool option" where
  "is_value t = is_same_as t (Some (remove_type_qualifiers t))"

definition is_lvalue_ref :: "ctype \<Rightarrow> bool option" where
  "is_lvalue_ref t = is_same_as t (with_quals False False Lvalue_ref (remove_type_qualifiers t))"

definition is_rvalue_ref :: "ctype \<Rightarrow> bool option" where
  "is_rvalue_ref t = is_same_as t (with_quals False False Rvalue_ref (remove_type_qualifiers t))"

definition is_const_value :: "ctype \<Rightarrow> bool option" where
  "is_const_value t = is_same_as t (with_quals True False No_ref (remove_type_qualifiers t))"

definition is_const_lvalue_ref :: "ctype \<Rightarrow> bool option" where
  "is_const_lvalue_ref t = is_same_as t (with_quals True False Lvalue_ref (remove_type_qualifiers t))"

definition is_const_rvalue_ref :: "ctype \<Rightarrow> bool option" where
  "is_const_rvalue_ref t = is_same_as t (with_quals True False Rvalue_ref (remove_type_qualifiers t))"

definition is_volatile_value :: "ctype \<Rightarrow> bool option" where
  "is_volatile_value t = is_same_as t (with_quals False True No_ref (remove_type_qualifiers t))"

definition is_volatile_lvalue_ref :: "ctype \<Rightarrow> bool option" where
  "is_volatile_lvalue_ref t = is_same_as t (with_quals False True Lvalue_ref (remove_type_qualifiers t))"

definition is_volatile_rvalue_ref :: "ctype \<Rightarrow> bool option" where
  "is_volatile_rvalue_ref t = is_same_as t (with_quals False True Rvalue_ref (remove_type_qualifiers t))"

definition is_const_volatile_value :: "ctype \<Rightarrow> bool option" where
  "is_const_volatile_value t = is_same_as t (with_quals True True No_ref (remove_type_qualifiers t))"

definition is_const_volatile_lvalue_ref :: "ctype \<Rightarrow> bool option" where
  "is_const_volatile_lvalue_ref t = is_same_as t (with_quals True True Lvalue_ref (remove_type_qualifiers t))"

definition is_const_volatile_rvalue_ref :: "ctype \<Rightarrow> bool option" where
  "is_const_volatile_rvalue_ref t = is_same_as t (with_quals True True Rvalue_ref (remove_type_qualifiers t))"


section \<open>Traits of callables\<close>

definition is_std_function :: "ctype \<Rightarrow> bool" where
  "is_std_function t = (case ct_core (remove_type_qualifiers t) of C_std_function r as \<Rightarrow> True | _ \<Rightarrow> False)"

definition is_member_function_pointer :: "ctype \<Rightarrow> bool" where
  "is_member_function_pointer t \<longleftrightarrow>
     ct_ref t = No_ref \<and> (case ct_core t of C_member_fun c q r as \<Rightarrow> True | _ \<Rightarrow> False)"

fun pointee :: "ctype \<Rightarrow> ctype option" where
  "pointee (CType No_ref c v (C_pointer t)) = Some t"
| "pointee t = None"

definition is_function_pointer :: "ctype \<Rightarrow> bool" where
  "is_function_pointer t =
     (case pointee (remove_type_qualifiers t) of None \<Rightarrow> False | Some u \<Rightarrow> std_is_function u)"

text \<open>\<open>decltype(&T::operator())\<close>; the call operator of \<open>std::function\<close> is \<open>const\<close>.\<close>

fun call_operator :: "ctype \<Rightarrow> ctype option" where
  "call_operator (CType No_ref c v (C_functor n q r as)) = Some (plain (C_member_fun n q r as))"
| "call_operator (CType No_ref c v (C_std_function r as)) =
     Some (plain (C_member_fun ''std::function'' (Fun_quals True False No_ref False) r as))"
| "call_operator t = None"

fun remove_function_qualifiers :: "ctype \<Rightarrow> ctype option" where
  "remove_function_qualifiers (CType No_ref False False (C_fun (Fun_quals False False No_ref ne) r as)) =
     Some (plain (C_fun no_quals r as))"
| "remove_function_qualifiers t = None"

fun remove_member_function_qualifiers :: "ctype \<Rightarrow> ctype option" where
  "remove_member_function_qualifiers (CType No_ref False False (C_member_fun c (Fun_quals cq vq rq ne) r as)) =
     Some (plain (C_member_fun c no_quals r as))"
| "remove_member_function_qualifiers t = None"

text \<open>The class of a member function is known by its name.\<close>

datatype fun_class = No_class | Named_class string | Std_function_class ctype "ctype list"

record fun_traits =
  ft_ret :: ctype
  ft_class :: fun_class
  ft_signature :: ctype
  ft_args :: "ctype list"

definition traits_of :: "ctype \<Rightarrow> fun_class \<Rightarrow> ctype list \<Rightarrow> fun_traits" where
  "traits_of r c as = \<lparr>ft_ret = r, ft_class = c, ft_signature = plain (C_fun no_quals r as), ft_args = as\<rparr>"

fun function_traits_base :: "ctype \<Rightarrow> fun_traits option" where
  "function_traits_base (CType No_ref False False core) =
     (case core of
        C_member_fun c q r as \<Rightarrow> if q = no_quals then Some (traits_of r (Named_class c) as) else None
      | C_fun q r as \<Rightarrow> if q = no_quals then Some (traits_of r No_class as) else None
      | C_std_function r as \<Rightarrow> Some (traits_of r (Std_function_class r as) as)
      | _ \<Rightarrow> None)"
| "function_traits_base t = None"

definition member_function_traits :: "ctype \<Rightarrow> fun_traits option" where
  "member_function_traits t =
     Option.bind (remove_member_function_qualifiers (remove_type_qualifiers t)) function_traits_base"

text \<open>
  A template takes the partial specialisation that matches.  With none it is incomplete, and with several, none of
  them more specialised than the others, the program is ill-formed.
\<close>

definition select_specialisation :: "(bool \<times> 'a option) list \<Rightarrow> 'a option" where
  "select_specialisation xs = (case filter fst xs of [(b, x)] \<Rightarrow> x | _ \<Rightarrow> None)"

text \<open>The conditions of the specialisations of \<open>function_traits\<close>, in the order of the file.\<close>

definition enabled_specialisations :: "ctype \<Rightarrow> bool list" where
  "enabled_specialisations t =
     (let u = remove_type_qualifiers t
      in [is_member_function_pointer u,
          call_operator u \<noteq> None \<and> \<not> is_std_function t,
          is_std_function t,
          std_is_function u,
          is_function_pointer t])"

fun has_call_operator :: "ccore \<Rightarrow> bool" where
  "has_call_operator (C_functor n q r as) = True"
| "has_call_operator (C_std_function r as) = True"
| "has_call_operator c = False"

lemma call_operator_member:
  "call_operator (CType No_ref c v core) = Some m \<Longrightarrow> has_call_operator core \<and> \<not> has_call_operator (ct_core m)"
  by (cases core) (auto simp: plain_def)

function function_traits :: "ctype \<Rightarrow> fun_traits option" where
  "function_traits t =
     (let u = remove_type_qualifiers t
      in select_specialisation (zip (enabled_specialisations t)
           [member_function_traits t,
            Option.bind (call_operator u) function_traits,
            function_traits_base u,
            Option.bind (remove_function_qualifiers u) function_traits_base,
            Option.bind (Option.bind (pointee u) remove_function_qualifiers) function_traits_base]))"
  by auto

termination
  by (relation "measure (\<lambda>t. of_bool (has_call_operator (ct_core t)))")
    (use call_operator_member in \<open>auto simp: remove_type_qualifiers_def remove_cv_def remove_reference_def\<close>)

declare function_traits.simps [simp del]

definition function_arg :: "nat \<Rightarrow> ctype \<Rightarrow> ctype option" where
  "function_arg n t =
     Option.bind (function_traits t) (\<lambda>f. if n < length (ft_args f) then Some (ft_args f ! n) else None)"

definition function_arg_count :: "ctype \<Rightarrow> nat option" where
  "function_arg_count t = map_option (\<lambda>f. length (ft_args f)) (function_traits t)"

definition make_function_type :: "ctype \<Rightarrow> ctype option" where
  "make_function_type t = map_option (\<lambda>f. plain (C_fun no_quals (ft_ret f) (ft_args f))) (function_traits t)"


section \<open>Tuples of types\<close>

definition is_std_tuple :: "ctype \<Rightarrow> bool" where
  "is_std_tuple t = (case ct_core (remove_type_qualifiers t) of C_tuple ts \<Rightarrow> True | _ \<Rightarrow> False)"

definition tuple_types :: "ctype \<Rightarrow> ctype list option" where
  "tuple_types t = (case ct_core (remove_type_qualifiers t) of C_tuple ts \<Rightarrow> Some ts | _ \<Rightarrow> None)"

definition tuple_size_of :: "ctype \<Rightarrow> nat option" where
  "tuple_size_of t = map_option length (tuple_types t)"

definition tuple_element :: "ctype \<Rightarrow> nat \<Rightarrow> ctype option" where
  "tuple_element t i = Option.bind (tuple_types t) (\<lambda>ts. if i < length ts then Some (ts ! i) else None)"

definition swap_first_two_tuple_types :: "ctype \<Rightarrow> ctype option" where
  "swap_first_two_tuple_types t =
     (case tuple_types t of Some (a # b # ts) \<Rightarrow> Some (plain (C_tuple (b # a # ts))) | _ \<Rightarrow> None)"

definition merge_tuple_types :: "ctype \<Rightarrow> ctype \<Rightarrow> ctype option" where
  "merge_tuple_types t u =
     (case (tuple_types t, tuple_types u) of (Some ts, Some us) \<Rightarrow> Some (plain (C_tuple (ts @ us))) | _ \<Rightarrow> None)"

fun last_tuple_type_base :: "ctype list \<Rightarrow> ctype option" where
  "last_tuple_type_base [] = None"
| "last_tuple_type_base [a] = Some a"
| "last_tuple_type_base (a # as) = last_tuple_type_base as"

definition last_tuple_type :: "ctype \<Rightarrow> ctype option" where
  "last_tuple_type t = Option.bind (tuple_types t) last_tuple_type_base"

fun remove_last_tuple_type_base :: "ctype list \<Rightarrow> ctype option" where
  "remove_last_tuple_type_base [] = None"
| "remove_last_tuple_type_base [a] = Some (plain (C_tuple []))"
| "remove_last_tuple_type_base (a # as) =
     Option.bind (remove_last_tuple_type_base as) (merge_tuple_types (plain (C_tuple [a])))"

definition remove_last_tuple_type :: "ctype \<Rightarrow> ctype option" where
  "remove_last_tuple_type t = Option.bind (tuple_types t) remove_last_tuple_type_base"


section \<open>Properties\<close>

text \<open>
  \<open>presents t r as\<close> if a \<open>t\<close> can be called with arguments \<open>as\<close> and returns \<open>r\<close>: functions and member functions can, pointers to what
  can if it is a function, every object whose call operator can, \<open>std::function\<close> among them, and all of these
  with \<open>const\<close>, \<open>volatile\<close> and references.
\<close>

inductive presents :: "ctype \<Rightarrow> ctype \<Rightarrow> ctype list \<Rightarrow> bool" where
  a_function: "presents (plain (C_fun (Fun_quals False False No_ref ne) r as)) r as"
| a_member: "presents (plain (C_member_fun n q r as)) r as"
| a_pointer: "std_is_function t \<Longrightarrow> presents t r as \<Longrightarrow> t = plain (ct_core t) \<Longrightarrow> presents (plain (C_pointer t)) r as"
| an_object: "call_operator t = Some m \<Longrightarrow> presents m r as \<Longrightarrow> presents t r as"
| with_qualifiers: "presents (plain core) r as \<Longrightarrow> presents (CType k c v core) r as"

lemmas trait_defs = member_function_traits_def is_std_function_def is_function_pointer_def
  is_member_function_pointer_def std_is_function_def remove_type_qualifiers_def remove_cv_def remove_reference_def
  plain_def no_quals_def traits_of_def

lemma remove_type_qualifiers_core [simp]:
  "remove_type_qualifiers t = plain (ct_core t)" "ct_core (plain c) = c" "ct_ref (plain c) = No_ref"
  "ct_const (plain c) = False" "ct_volatile (plain c) = False"
  by (simp_all add: trait_defs)

lemma remove_member_quals [simp]:
  "remove_member_function_qualifiers (CType No_ref False False (C_member_fun c q r as)) =
   Some (plain (C_member_fun c no_quals r as))"
  by (cases q) simp

lemma remove_function_quals_iff:
  "remove_function_qualifiers u = Some w \<longleftrightarrow>
   (\<exists>ne r as. u = plain (C_fun (Fun_quals False False No_ref ne) r as) \<and> w = plain (C_fun no_quals r as))"
  by (cases u rule: remove_function_qualifiers.cases) (auto simp: plain_def)

lemma plain_eq [simp]: "plain c = plain d \<longleftrightarrow> c = d"
  by (simp add: plain_def)

lemma base_signature [simp]: "function_traits_base (plain (C_fun no_quals r as)) = Some (traits_of r No_class as)"
  by (simp add: plain_def)

lemmas enabled_defs = enabled_specialisations_def select_specialisation_def is_member_function_pointer_def is_std_function_def
  std_is_function_def is_function_pointer_def

text \<open>The traits of a type by its shape.\<close>

lemma function_traits_core: "function_traits (CType k c v core) = function_traits (plain core)"
  by (subst (1 2) function_traits.simps) (simp add: enabled_defs member_function_traits_def)

lemma function_traits_shapes:
  "function_traits (plain C_void) = None" "function_traits (plain (C_basic b)) = None" "function_traits (plain (C_tuple ts)) = None"
  "function_traits (plain (C_fun q r as)) = Option.bind (remove_function_qualifiers (plain (C_fun q r as))) function_traits_base"
  "function_traits (plain (C_pointer u)) =
     (if std_is_function u then Option.bind (remove_function_qualifiers u) function_traits_base else None)"
  "function_traits (plain (C_member_fun n q r as)) = Some (traits_of r (Named_class n) as)"
  "function_traits (plain (C_std_function r as)) = Some (traits_of r (Std_function_class r as) as)"
  by (subst function_traits.simps; simp add: enabled_defs member_function_traits_def plain_def)+

lemma function_traits_functor:
  "function_traits (plain (C_functor n q r as)) = Some (traits_of r (Named_class n) as)"
  by (subst function_traits.simps)
    (simp add: enabled_defs member_function_traits_def function_traits_shapes(6) [unfolded plain_def] plain_def)

lemma function_traits_pointer:
  "std_is_function (plain f) \<Longrightarrow> function_traits (plain (C_pointer (plain f))) = function_traits (plain f)"
  by (cases f) (simp_all add: function_traits_shapes std_is_function_def)

lemma call_operator_plain [simp]:
  "call_operator (plain (C_functor n q r as)) = Some (plain (C_member_fun n q r as))"
  "call_operator (plain (C_std_function r as)) =
   Some (plain (C_member_fun ''std::function'' (Fun_quals True False No_ref False) r as))"
  by (simp_all add: plain_def)

definition has_signature :: "ctype \<Rightarrow> ctype \<Rightarrow> ctype list \<Rightarrow> bool" where
  "has_signature t r as \<longleftrightarrow> (\<exists>f. function_traits t = Some f \<and> ft_ret f = r \<and> ft_args f = as)"

lemma presents_has_signature: "presents t r as \<Longrightarrow> has_signature t r as"
proof (induction rule: presents.induct)
  case (an_object t m r as)
  then show ?case
    by (cases t rule: call_operator.cases)
      (auto simp: has_signature_def function_traits_core function_traits_shapes function_traits_functor traits_of_def)
next
  case (a_pointer t r as)
  then show ?case using function_traits_pointer [of "ct_core t"] by (simp add: has_signature_def)
qed (auto simp: has_signature_def function_traits_core function_traits_shapes remove_function_quals_iff bind_eq_Some_conv
    traits_of_def)

lemma has_signature_presents: "has_signature (plain core) r as \<Longrightarrow> presents (plain core) r as"
proof (cases core)
  case (C_fun q r' as')
  moreover assume "has_signature (plain core) r as"
  ultimately show ?thesis
    by (auto simp: has_signature_def function_traits_shapes bind_eq_Some_conv remove_function_quals_iff traits_of_def
        intro: a_function)
next
  case (C_pointer u)
  assume "has_signature (plain core) r as"
  then obtain ne where u: "u = plain (C_fun (Fun_quals False False No_ref ne) r as)"
    by (auto simp: C_pointer has_signature_def function_traits_shapes bind_eq_Some_conv remove_function_quals_iff traits_of_def
        split: if_splits)
  then show ?thesis unfolding C_pointer by (intro a_pointer) (auto simp: std_is_function_def intro: a_function)
next
  case (C_member_fun n q r' as')
  moreover assume "has_signature (plain core) r as"
  ultimately show ?thesis using a_member by (simp add: has_signature_def function_traits_shapes traits_of_def)
next
  case (C_std_function r' as')
  moreover assume "has_signature (plain core) r as"
  ultimately show ?thesis
    using an_object [of "plain core", OF _ a_member] by (simp add: has_signature_def function_traits_shapes traits_of_def)
next
  case (C_functor n q r' as')
  moreover assume "has_signature (plain core) r as"
  ultimately show ?thesis
    using an_object [of "plain core", OF _ a_member] by (simp add: has_signature_def function_traits_functor traits_of_def)
qed (simp_all add: has_signature_def function_traits_shapes)

lemma function_traits_iff:
  "(\<exists>f. function_traits t = Some f \<and> ft_ret f = r \<and> ft_args f = as) \<longleftrightarrow> presents t r as"
proof -
  have "presents t r as" if "has_signature t r as"
    using that with_qualifiers has_signature_presents by (cases t) (simp add: has_signature_def function_traits_core)
  then show ?thesis using presents_has_signature has_signature_def by blast
qed

text \<open>No type matches two specialisations.\<close>

lemma specialisation_unique: "length (filter id (enabled_specialisations t)) \<le> 1"
  by (cases t; cases "ct_core t") (auto simp: enabled_defs plain_def)

lemma is_same_as_self [simp]: "is_same_as t (Some t) = Some True"
  by (simp add: is_same_as_def)

lemma qualifier_checks_object:
  assumes "referenceable (ct_core t)" "\<not> is_function_core (ct_core t)"
  shows "is_same_as t (with_quals c v k (remove_type_qualifiers t)) = Some (ct_const t = c \<and> ct_volatile t = v \<and> ct_ref t = k)"
  using assms by (cases t; cases k)
    (auto simp: is_same_as_def with_quals_def make_ref_def std_add_volatile_def std_add_const_def std_is_function_def plain_def)

lemma tuple_types_tuple [simp]: "tuple_types (plain (C_tuple ts)) = Some ts"
  by (simp add: tuple_types_def)

lemma last_tuple_base: "ts \<noteq> [] \<Longrightarrow> last_tuple_type_base ts = Some (last ts)"
  by (induction ts rule: last_tuple_type_base.induct) simp_all

lemma remove_last_tuple_base: "ts \<noteq> [] \<Longrightarrow> remove_last_tuple_type_base ts = Some (plain (C_tuple (butlast ts)))"
  by (induction ts rule: remove_last_tuple_type_base.induct) (simp_all add: merge_tuple_types_def)

text \<open>
C38: The traits of callables see through every presentation of a signature.  The conditions of the five specialisations exclude
  each other, so that no type is ambiguous.  A type has traits exactly if it can be called as \<open>presents\<close> says: as a
  function, a pointer to one, a member function pointer with any of the 24 combinations of qualifiers or an object with
  one call operator, \<open>std::function\<close> included, possibly \<open>const\<close>, \<open>volatile\<close> or a reference.  Return type and arguments
  then are those of the call, and \<open>make_function_type\<close> gives the unqualified function type, of which
  it is the identity.
\<close>

theorem function_type_complete:
  "length (filter id (enabled_specialisations t)) \<le> 1 \<and>
   (make_function_type t = Some u \<longleftrightarrow> (\<exists>r as. presents t r as \<and> u = plain (C_fun no_quals r as))) \<and>
   (function_arg_count t = Some n \<longleftrightarrow> (\<exists>r as. presents t r as \<and> n = length as)) \<and>
   (function_arg i t = Some a \<longleftrightarrow> (\<exists>r as. presents t r as \<and> i < length as \<and> a = as ! i)) \<and>
   Option.bind (make_function_type t) make_function_type = make_function_type t"
proof (intro conjI)
  note iff = function_traits_iff [of t]
  show "length (filter id (enabled_specialisations t)) \<le> 1" by (rule specialisation_unique)
  show mk: "make_function_type t = Some u \<longleftrightarrow> (\<exists>r as. presents t r as \<and> u = plain (C_fun no_quals r as))" for u
    unfolding iff [symmetric] by (auto simp: make_function_type_def)
  show "function_arg_count t = Some n \<longleftrightarrow> (\<exists>r as. presents t r as \<and> n = length as)"
    unfolding iff [symmetric] by (auto simp: function_arg_count_def)
  show "function_arg i t = Some a \<longleftrightarrow> (\<exists>r as. presents t r as \<and> i < length as \<and> a = as ! i)"
    unfolding iff [symmetric] by (auto simp: function_arg_def bind_eq_Some_conv split: if_splits)
  show "Option.bind (make_function_type t) make_function_type = make_function_type t"
  proof (cases "make_function_type t")
    case (Some w)
    then obtain r as where w: "w = plain (C_fun no_quals r as)" using mk by auto
    have "make_function_type w = Some w"
      using function_traits_iff [of w r as] a_function [of False r as] by (auto simp: w make_function_type_def no_quals_def)
    then show ?thesis using Some by simp
  qed simp
qed

text \<open>
The qualifiers of an object type are classified exactly.  Of the twelve checks exactly one holds, the one for its combination
  of \<open>const\<close>, \<open>volatile\<close> and reference.  Removing all qualifiers and adding these back gives the type.  \<open>add_const\<close> and
  \<open>remove_const\<close> act on the referred type, keep the kind of reference and undo each other.
\<close>

theorem type_qualifiers_classified:
  assumes "referenceable (ct_core t)" "\<not> is_function_core (ct_core t)"
  shows "[is_value t, is_const_value t, is_volatile_value t, is_const_volatile_value t,
      is_lvalue_ref t, is_const_lvalue_ref t, is_volatile_lvalue_ref t, is_const_volatile_lvalue_ref t,
      is_rvalue_ref t, is_const_rvalue_ref t, is_volatile_rvalue_ref t, is_const_volatile_rvalue_ref t] =
    (replicate 12 (Some False))
      [(case ct_ref t of No_ref \<Rightarrow> 0 | Lvalue_ref \<Rightarrow> 4 | Rvalue_ref \<Rightarrow> 8) +
       (if ct_const t then 1 else 0) + (if ct_volatile t then 2 else 0) := Some True] \<and>
    with_quals (ct_const t) (ct_volatile t) (ct_ref t) (remove_type_qualifiers t) = Some t \<and>
    is_const (add_const t) \<and> ct_ref (add_const t) = ct_ref t \<and> remove_const (add_const t) = remove_const t \<and>
    map_option add_const (remove_const t) = Some (add_const t) \<and> map_option is_const (remove_const t) = Some False"
proof -
  note q = qualifier_checks_object [OF assms]
  have v: "is_value t = Some (ct_const t = False \<and> ct_volatile t = False \<and> ct_ref t = No_ref)"
    by (cases t) (auto simp: is_value_def is_same_as_def plain_def)
  have "with_quals (ct_const t) (ct_volatile t) (ct_ref t) (remove_type_qualifiers t) = Some t"
    using q [of "ct_const t" "ct_volatile t" "ct_ref t"] by (auto simp: is_same_as_def)
  moreover have "is_const (add_const t) \<and> ct_ref (add_const t) = ct_ref t \<and> remove_const (add_const t) = remove_const t \<and>
    map_option add_const (remove_const t) = Some (add_const t) \<and> map_option is_const (remove_const t) = Some False"
    using assms by (cases t; cases "ct_ref t")
      (auto simp: is_const_def add_const_def remove_const_def add_reference_def make_ref_def std_add_const_def
        std_remove_const_def std_is_function_def remove_reference_def)
  ultimately show ?thesis
    by (cases "ct_ref t"; cases "ct_const t"; cases "ct_volatile t")
      (simp_all add: v q is_const_value_def is_volatile_value_def is_const_volatile_value_def is_lvalue_ref_def
        is_const_lvalue_ref_def is_volatile_lvalue_ref_def is_const_volatile_lvalue_ref_def is_rvalue_ref_def
        is_const_rvalue_ref_def is_volatile_rvalue_ref_def is_const_volatile_rvalue_ref_def numeral_eq_Suc
        del: remove_type_qualifiers_core)
qed

text \<open>A constant lvalue reference to an integer.\<close>

theorem type_qualifiers_classified_witness:
  "is_const_lvalue_ref (CType Lvalue_ref True False (C_basic ''int'')) = Some True \<and>
   is_lvalue_ref (CType Lvalue_ref True False (C_basic ''int'')) = Some False \<and>
   remove_const (CType Lvalue_ref True False (C_basic ''int'')) = Some (CType Lvalue_ref False False (C_basic ''int''))"
  using type_qualifiers_classified [of "CType Lvalue_ref True False (C_basic ''int'')"]
  by (simp add: numeral_eq_Suc remove_const_def std_remove_const_def remove_reference_def make_ref_def)

text \<open>
  A tuple of types is its types but the last, followed by the last; both fail exactly on what is not a tuple with a last type.
\<close>

lemma tuple_types_last:
  "(case (remove_last_tuple_type t, last_tuple_type t) of
      (Some u, Some a) \<Rightarrow> merge_tuple_types u (plain (C_tuple [a])) = Some (remove_type_qualifiers t)
    | (None, None) \<Rightarrow> \<not> is_std_tuple t \<or> tuple_size_of t = Some 0
    | _ \<Rightarrow> False)"
proof (cases "ct_core t")
  case (C_tuple ts)
  then show ?thesis
    by (cases "ts = []") (simp_all add: remove_last_tuple_type_def last_tuple_type_def tuple_types_def tuple_size_of_def
        last_tuple_base remove_last_tuple_base merge_tuple_types_def)
qed (simp_all add: remove_last_tuple_type_def last_tuple_type_def tuple_types_def is_std_tuple_def)

end
