(* ===== verification/Example_App.thy ===== *)
theory Example_App
  imports Common_Prelude
begin

text \<open>
  The console application of \<open>example/rpc-example/src/app\<close>: the parsing of its commands and its command loop.

  A step is one turn of a loop of \<open>run\<close>: it prints the prompt, reads a line and executes it.  The clients and the server
  of the application are users of the endpoints; here a call of one of them is an output, and whether it throws is part of the event.
  What boost does with strings and the order in which the hash map is walked are parameters.
\<close>

section \<open>Parsing\<close>

datatype command_type =
    Cmd_unknown
  | Cmd_help
  | Cmd_exit
  | Cmd_info
  | Cmd_add_client
  | Cmd_remove_client
  | Cmd_send_to_server
  | Cmd_send_to_client
  | Cmd_send_to_all_clients

datatype transport_type = Tr_memory_pipe | Tr_win_pipe | Tr_tcp | Tr_unknown

text \<open>The platform, \<open>boost::algorithm::trim\<close> and \<open>starts_with\<close>, and the walk through the hash map of clients.\<close>

record app_env =
  ae_win32 :: bool
  ae_trim :: "string \<Rightarrow> string"
  ae_starts_with :: "string \<Rightarrow> string \<Rightarrow> bool"
  ae_order :: "uint64 set \<Rightarrow> uint64 list"

abbreviation s_help_command :: string where "s_help_command \<equiv> ''help''"
abbreviation s_exit_command :: string where "s_exit_command \<equiv> ''exit''"
abbreviation s_info_command :: string where "s_info_command \<equiv> ''info''"
abbreviation s_add_client_command :: string where "s_add_client_command \<equiv> ''add client''"
abbreviation s_remove_client_command_begin :: string where "s_remove_client_command_begin \<equiv> ''remove client''"
abbreviation s_send_to_server_command_begin :: string where "s_send_to_server_command_begin \<equiv> ''send to server''"
abbreviation s_send_to_client_command_begin :: string where "s_send_to_client_command_begin \<equiv> ''send to client''"
abbreviation s_send_to_all_clients_command_begin :: string where "s_send_to_all_clients_command_begin \<equiv> ''send to all clients''"

definition newline :: string where
  "newline = [CHR 0x0A]"

definition create_choose_transport_prompt :: "app_env \<Rightarrow> string" where
  "create_choose_transport_prompt env =
     ''Choose transport: '' @ newline @ ''0 - memory pipe'' @ newline @
     (if ae_win32 env then ''1 - win pipe'' @ newline else []) @ ''2 - tcp'' @ newline"

definition parse_chosen_transport :: "app_env \<Rightarrow> string \<Rightarrow> transport_type" where
  "parse_chosen_transport env line =
     (if line = ''0'' then Tr_memory_pipe
      else if ae_win32 env \<and> line = ''1'' then Tr_win_pipe
      else if line = ''2'' then Tr_tcp
      else Tr_unknown)"

definition parse_command :: "app_env \<Rightarrow> string \<Rightarrow> command_type" where
  "parse_command env line =
     (if line = s_help_command then Cmd_help
      else if line = s_exit_command then Cmd_exit
      else if line = s_info_command then Cmd_info
      else if line = s_add_client_command then Cmd_add_client
      else if ae_starts_with env line s_remove_client_command_begin then Cmd_remove_client
      else if ae_starts_with env line s_send_to_server_command_begin then Cmd_send_to_server
      else if ae_starts_with env line s_send_to_client_command_begin then Cmd_send_to_client
      else if ae_starts_with env line s_send_to_all_clients_command_begin then Cmd_send_to_all_clients
      else Cmd_unknown)"

definition is_whitespace :: "char \<Rightarrow> bool" where
  "is_whitespace c \<longleftrightarrow> c = CHR '' '' \<or> c = CHR 0x09 \<or> c = CHR 0x0D \<or> c = CHR 0x0A"

definition is_digit :: "char \<Rightarrow> bool" where
  "is_digit c \<longleftrightarrow> 48 \<le> (of_char c :: nat) \<and> (of_char c :: nat) \<le> 57"

text \<open>The loops that advance a position while the character there satisfies a test.\<close>

function skip_while :: "(char \<Rightarrow> bool) \<Rightarrow> string \<Rightarrow> nat \<Rightarrow> nat" where
  "skip_while p line pos = (if pos < length line \<and> p (line ! pos) then skip_while p line (Suc pos) else pos)"
  by pat_completeness auto
termination by (relation "measure (\<lambda>(p, line, pos). length line - pos)") auto

declare skip_while.simps [simp del]

definition skip_whitespace :: "string \<Rightarrow> nat \<Rightarrow> nat" where
  "skip_whitespace line pos = skip_while is_whitespace line pos"

definition skip_digits :: "string \<Rightarrow> nat \<Rightarrow> nat" where
  "skip_digits line pos = skip_while is_digit line pos"

text \<open>\<open>std::from_chars\<close> on digits, and \<open>std::to_string\<close>.\<close>

definition decimal_value :: "string \<Rightarrow> nat" where
  "decimal_value ds = foldl (\<lambda>n c. n * 10 + (of_char c - 48)) 0 ds"

definition from_chars_uint64 :: "string \<Rightarrow> uint64 option" where
  "from_chars_uint64 ds = (if decimal_value ds < 2 ^ 64 then Some (of_nat (decimal_value ds)) else None)"

fun to_decimal :: "nat \<Rightarrow> string" where
  "to_decimal n = (if n < 10 then [char_of (48 + n)] else to_decimal (n div 10) @ [char_of (48 + n mod 10)])"

declare to_decimal.simps [simp del]

definition extract_number_after_command :: "string \<Rightarrow> string \<Rightarrow> bool \<Rightarrow> uint64 option" where
  "extract_number_after_command line command require_end =
     (if length line \<le> length command \<or> skip_whitespace line (length command) = length command then None
      else
        let number_begin = skip_whitespace line (length command);
            number_end = skip_digits line number_begin
        in if number_begin = number_end \<or> (number_end < length line \<and> skip_whitespace line number_end = number_end) then None
           else case from_chars_uint64 (take (number_end - number_begin) (drop number_begin line)) of
             None \<Rightarrow> None
           | Some number \<Rightarrow>
               if require_end \<and> skip_whitespace line number_end \<noteq> length line then None else Some number)"

definition extract_message_after_number :: "string \<Rightarrow> string \<Rightarrow> string option" where
  "extract_message_after_number line command =
     (if length line \<le> length command \<or> skip_whitespace line (length command) = length command then None
      else
        let number_begin = skip_whitespace line (length command);
            number_end = skip_digits line number_begin
        in if number_begin = number_end \<or> number_end = length line \<or> skip_whitespace line number_end = number_end then None
           else
             let message_begin = skip_whitespace line number_end
             in if message_begin = length line then None else Some (drop message_begin line))"

definition extract_message_after_command :: "string \<Rightarrow> string \<Rightarrow> string option" where
  "extract_message_after_command line command =
     (if length line \<le> length command \<or> skip_whitespace line (length command) = length command then None
      else
        let message_begin = skip_whitespace line (length command)
        in if message_begin = length line then None else Some (drop message_begin line))"

definition extract_client_id_to_remove :: "string \<Rightarrow> uint64 option" where
  "extract_client_id_to_remove line = extract_number_after_command line s_remove_client_command_begin True"

definition extract_client_id_to_send_from :: "string \<Rightarrow> uint64 option" where
  "extract_client_id_to_send_from line = extract_number_after_command line s_send_to_server_command_begin False"

definition extract_message_to_send_from_client :: "string \<Rightarrow> string option" where
  "extract_message_to_send_from_client line = extract_message_after_number line s_send_to_server_command_begin"


section \<open>The command loop\<close>

datatype app_action =
    Print string
  | Start_server transport_type
  | Create_client uint64
  | Remove_client uint64
  | Client_send uint64 string
  | Server_send uint64 string
  | Server_send_all string

text \<open>\<open>ap_result\<close> is what \<open>run\<close> has returned.\<close>

record app_state =
  ap_transport :: transport_type
  ap_next_client_id :: uint64
  ap_clients :: "uint64 set"
  ap_result :: "nat option"

definition app_create :: app_state where
  "app_create = \<lparr>ap_transport = Tr_unknown, ap_next_client_id = 0, ap_clients = {}, ap_result = None\<rparr>"

definition print_help :: app_action where
  "print_help =
     Print (''Available commands:'' @ newline @
       ''  '' @ s_help_command @ '' - show this help'' @ newline @
       ''  '' @ s_info_command @ '' - show clients and server connections'' @ newline @
       ''  '' @ s_add_client_command @ '' - create and connect a new client'' @ newline @
       ''  '' @ s_remove_client_command_begin @ '' <client-id> - remove a client'' @ newline @
       ''  '' @ s_send_to_server_command_begin @
       '' <client-id> <message> - send a message from a client to the server'' @ newline @
       ''  '' @ s_send_to_client_command_begin @
       '' <connection-id> <message> - send a message from the server to one client'' @ newline @
       ''  '' @ s_send_to_all_clients_command_begin @
       '' <message> - send a message from the server to all clients'' @ newline @
       ''  '' @ s_exit_command @ '' - finish the application'' @ newline)"

fun comma_separated :: "string list \<Rightarrow> string" where
  "comma_separated [] = []"
| "comma_separated [x] = x"
| "comma_separated (x # xs) = x @ '', '' @ comma_separated xs"

definition print_info :: "app_env \<Rightarrow> nat \<Rightarrow> app_state \<Rightarrow> app_action" where
  "print_info env connections s =
     Print (''Clients count: '' @ to_decimal (card (ap_clients s)) @ newline @ ''Client ids: '' @
       (if ap_clients s = {} then ''none''
        else comma_separated (map (\<lambda>i. to_decimal (unat i)) (ae_order env (ap_clients s)))) @
       newline @ ''Server connections count: '' @ to_decimal connections @ newline)"

text \<open>
  What happens in a turn: the line that is read, if any; the text of the exception that the call of the server or a client throws, if any;
  and the number of connections of the server.
\<close>

record app_turn =
  at_line :: "string option"
  at_failure :: "string option"
  at_connections :: nat

definition app_fail :: "string \<Rightarrow> app_state \<Rightarrow> app_state \<times> app_action list" where
  "app_fail what s = (s\<lparr>ap_result := Some 1\<rparr>, [Print (''ERROR: '' @ what @ newline)])"

text \<open>A call of the server or of a client; an exception ends \<open>run\<close>.\<close>

definition app_call :: "app_action \<Rightarrow> app_turn \<Rightarrow> app_state \<Rightarrow> app_state \<times> app_action list" where
  "app_call a t s =
     (case at_failure t of
        None \<Rightarrow> (s, [a])
      | Some what \<Rightarrow> let (s, out) = app_fail what s in (s, a # out))"

definition choose_transport :: "app_env \<Rightarrow> string \<Rightarrow> app_turn \<Rightarrow> app_state \<Rightarrow> app_state \<times> app_action list" where
  "choose_transport env line t s =
     (let transport = parse_chosen_transport env line; s = s\<lparr>ap_transport := transport\<rparr>
      in if transport = Tr_unknown then (s, []) else app_call (Start_server transport) t s)"

definition add_client :: "app_turn \<Rightarrow> app_state \<Rightarrow> app_state \<times> app_action list" where
  "add_client t s =
     (let i = ap_next_client_id s; s = s\<lparr>ap_next_client_id := i + 1\<rparr>
      in case at_failure t of
           None \<Rightarrow>
             (s\<lparr>ap_clients := insert i (ap_clients s)\<rparr>,
              [Create_client i, Print (''Client with id '' @ to_decimal (unat i) @ '' created'' @ newline)])
         | Some what \<Rightarrow> (s, [Print (''Failed to create client: '' @ what @ newline)]))"

definition remove_client :: "string \<Rightarrow> app_state \<Rightarrow> app_state \<times> app_action list" where
  "remove_client line s =
     (case extract_client_id_to_remove line of
        None \<Rightarrow> (s, [Print (''Unable to extract client id to remove. Print 'help' for information'' @ newline)])
      | Some i \<Rightarrow>
          if i \<notin> ap_clients s then (s, [Print (''No client with specified id'' @ newline)])
          else (s\<lparr>ap_clients := ap_clients s - {i}\<rparr>,
                [Remove_client i, Print (''Client with id '' @ to_decimal (unat i) @ '' removed'' @ newline)]))"

definition send_to_server :: "string \<Rightarrow> app_turn \<Rightarrow> app_state \<Rightarrow> app_state \<times> app_action list" where
  "send_to_server line t s =
     (case extract_client_id_to_send_from line of
        None \<Rightarrow> (s, [Print (''Unable to extract client id to send from. Print 'help' for information'' @ newline)])
      | Some i \<Rightarrow>
          if i \<notin> ap_clients s then (s, [Print (''No client with specified id'' @ newline)])
          else case extract_message_to_send_from_client line of
            None \<Rightarrow> (s, [Print (''Unable to extract message to send from client. Print 'help' for information'' @ newline)])
          | Some message \<Rightarrow> app_call (Client_send i message) t s)"

definition send_to_client :: "string \<Rightarrow> app_turn \<Rightarrow> app_state \<Rightarrow> app_state \<times> app_action list" where
  "send_to_client line t s =
     (case extract_number_after_command line s_send_to_client_command_begin False of
        None \<Rightarrow> (s, [Print (''Unable to extract connection id to send to. Print 'help' for information'' @ newline)])
      | Some connection_id \<Rightarrow>
          case extract_message_after_number line s_send_to_client_command_begin of
            None \<Rightarrow> (s, [Print (''Unable to extract message to send to client. Print 'help' for information'' @ newline)])
          | Some message \<Rightarrow> app_call (Server_send connection_id message) t s)"

definition send_to_all_clients :: "string \<Rightarrow> app_turn \<Rightarrow> app_state \<Rightarrow> app_state \<times> app_action list" where
  "send_to_all_clients line t s =
     (case extract_message_after_command line s_send_to_all_clients_command_begin of
        None \<Rightarrow> (s, [Print (''Unable to extract message to send to all clients. Print 'help' for information'' @ newline)])
      | Some message \<Rightarrow> app_call (Server_send_all message) t s)"

definition run_command :: "app_env \<Rightarrow> string \<Rightarrow> app_turn \<Rightarrow> app_state \<Rightarrow> app_state \<times> app_action list" where
  "run_command env line t s =
     (case parse_command env line of
        Cmd_unknown \<Rightarrow> (s, [Print (''Unknown command. Print 'help' for information'' @ newline)])
      | Cmd_help \<Rightarrow> (s, [print_help])
      | Cmd_info \<Rightarrow> (s, [print_info env (at_connections t) s])
      | Cmd_exit \<Rightarrow>
          (s\<lparr>ap_result := Some 0\<rparr>, [Print (''Exit command entered. Finish application...'' @ newline)])
      | Cmd_add_client \<Rightarrow> add_client t s
      | Cmd_remove_client \<Rightarrow> remove_client line s
      | Cmd_send_to_server \<Rightarrow> send_to_server line t s
      | Cmd_send_to_client \<Rightarrow> send_to_client line t s
      | Cmd_send_to_all_clients \<Rightarrow> send_to_all_clients line t s)"

definition app_turn_step :: "app_env \<Rightarrow> app_state \<Rightarrow> app_turn \<Rightarrow> app_state \<times> app_action list" where
  "app_turn_step env s t =
     (if ap_result s \<noteq> None then (s, [])
      else
        let choosing = ap_transport s = Tr_unknown;
            prompt = (if choosing then [Print (create_choose_transport_prompt env @ newline)] else []) @ [Print ''>''];
            (s, out) =
              (case at_line t of
                 None \<Rightarrow> app_fail ''cannot read from console'' s
               | Some line \<Rightarrow>
                   let line = ae_trim env line
                   in if choosing then choose_transport env line t s else run_command env line t s)
        in (s, prompt @ out))"


section \<open>Correctness of parsing\<close>

lemma skip_while_span:
  "(\<forall>c \<in> set mid. p c) \<Longrightarrow> post = [] \<or> \<not> p (hd post) \<Longrightarrow>
   skip_while p (pre @ mid @ post) (length pre) = length pre + length mid"
proof (induction mid arbitrary: pre)
  case Nil
  then show ?case by (cases post) (simp_all add: skip_while.simps [of p _ "length pre"] nth_append)
next
  case (Cons c mid)
  have "skip_while p ((pre @ [c]) @ mid @ post) (length (pre @ [c])) = length (pre @ [c]) + length mid"
    by (rule Cons.IH) (use Cons.prems in auto)
  then show ?case using Cons.prems by (simp add: skip_while.simps [of p _ "length pre"])
qed

lemma digit_not_whitespace: "is_digit c \<Longrightarrow> \<not> is_whitespace c"
  by (auto simp: is_digit_def is_whitespace_def)

lemma to_decimal_digits: "to_decimal n \<noteq> [] \<and> (\<forall>c \<in> set (to_decimal n). is_digit c)"
proof (induction n rule: to_decimal.induct)
  case (1 n)
  show ?case
  proof (cases "n < 10")
    case False
    have "48 + n mod 10 < 256" by simp
    then show ?thesis using 1 [OF False] False by (subst (1 2) to_decimal.simps) (auto simp: is_digit_def)
  qed (subst (1 2) to_decimal.simps, simp add: is_digit_def)
qed

lemma decimal_value_to_decimal: "decimal_value (to_decimal n) = n"
proof (induction n rule: to_decimal.induct)
  case (1 n)
  show ?case
  proof (cases "n < 10")
    case False
    then show ?thesis using 1 [OF False] by (subst to_decimal.simps) (simp add: decimal_value_def)
  qed (subst to_decimal.simps, simp add: decimal_value_def)
qed

lemma from_chars_to_decimal: "from_chars_uint64 (to_decimal (unat n)) = Some n"
  using unsigned_less [of n] by (simp add: from_chars_uint64_def decimal_value_to_decimal)

text \<open>The positions that the extractors find in a line with a command, blanks, digits and a rest.\<close>

lemma positions:
  assumes "\<forall>c \<in> set ws. is_whitespace c" "ds \<noteq> []" "\<forall>c \<in> set ds. is_digit c" "rest = [] \<or> \<not> is_digit (hd rest)"
  shows "skip_whitespace (command @ ws @ ds @ rest) (length command) = length command + length ws"
    and "skip_digits (command @ ws @ ds @ rest) (length command + length ws) = length command + length ws + length ds"
proof -
  have "\<not> is_whitespace (hd ds)" using assms(2,3) digit_not_whitespace by (cases ds) auto
  then show "skip_whitespace (command @ ws @ ds @ rest) (length command) = length command + length ws"
    unfolding skip_whitespace_def using skip_while_span [OF assms(1), of "ds @ rest" command] assms(2) by simp
  show "skip_digits (command @ ws @ ds @ rest) (length command + length ws) = length command + length ws + length ds"
    unfolding skip_digits_def using skip_while_span [OF assms(3,4), of "command @ ws"] by simp
qed

lemma blanks_after:
  "(\<forall>c \<in> set ws. is_whitespace c) \<Longrightarrow> msg = [] \<or> \<not> is_whitespace (hd msg) \<Longrightarrow>
   skip_whitespace (command @ ws0 @ ds @ ws @ msg) (length command + length ws0 + length ds) =
   length command + length ws0 + length ds + length ws"
  unfolding skip_whitespace_def using skip_while_span [of ws is_whitespace msg "command @ ws0 @ ds"] by (simp add: add.assoc)

lemma extract_number:
  assumes ws: "ws \<noteq> []" "\<forall>c \<in> set ws. is_whitespace c" and ds: "ds \<noteq> []" "\<forall>c \<in> set ds. is_digit c"
    and ws': "\<forall>c \<in> set ws'. is_whitespace c" and msg: "msg = [] \<or> \<not> is_whitespace (hd msg) \<and> ws' \<noteq> []"
  shows "extract_number_after_command (command @ ws @ ds @ ws' @ msg) command require_end =
      (if require_end \<and> msg \<noteq> [] then None else from_chars_uint64 ds)"
    and "extract_message_after_number (command @ ws @ ds @ ws' @ msg) command = (if msg = [] then None else Some msg)"
proof -
  have rest: "ws' @ msg = [] \<or> \<not> is_digit (hd (ws' @ msg))"
    using ws' msg digit_not_whitespace by (cases ws') auto
  note pos = positions [OF ws(2) ds rest, of command]
  have after: "skip_whitespace (command @ ws @ ds @ ws' @ msg) (length command + length ws + length ds) =
      length command + length ws + length ds + length ws'"
    by (rule blanks_after) (use ws' msg in auto)
  show "extract_number_after_command (command @ ws @ ds @ ws' @ msg) command require_end =
      (if require_end \<and> msg \<noteq> [] then None else from_chars_uint64 ds)"
    unfolding extract_number_after_command_def Let_def pos after using ws(1) ds(1) msg
    by (auto split: option.split)
  show "extract_message_after_number (command @ ws @ ds @ ws' @ msg) command = (if msg = [] then None else Some msg)"
    unfolding extract_message_after_number_def Let_def pos after using ws(1) ds(1) msg by auto
qed

text \<open>
C39: Commands are parsed back.  Whatever the blanks, from a command line with a number and a message the application extracts the
  number that was written and the message unchanged, for every 64-bit number; a number that does not fit 64 bits is refused; and
  a line for a command that takes only a number is refused if something follows it.
\<close>

theorem command_line_roundtrip:
  assumes "ws \<noteq> []" "\<forall>c \<in> set ws. is_whitespace c" "ws' \<noteq> []" "\<forall>c \<in> set ws'. is_whitespace c"
    and "msg \<noteq> []" "\<not> is_whitespace (hd msg)"
  shows "extract_number_after_command (command @ ws @ to_decimal (unat n)) command True = Some n \<and>
    extract_number_after_command (command @ ws @ to_decimal (unat n) @ ws' @ msg) command False = Some n \<and>
    extract_number_after_command (command @ ws @ to_decimal (unat n) @ ws' @ msg) command True = None \<and>
    extract_message_after_number (command @ ws @ to_decimal (unat n) @ ws' @ msg) command = Some msg \<and>
    extract_message_after_number (command @ ws @ to_decimal (unat n)) command = None \<and>
    extract_message_after_command (command @ ws @ msg) command = Some msg \<and>
    extract_number_after_command (command @ ws @ to_decimal (2 ^ 64 + m)) command require_end = None"
proof -
  note d = to_decimal_digits [THEN conjunct1] to_decimal_digits [THEN conjunct2]
  note e = extract_number [OF assms(1,2) d assms(4), of msg] extract_number [OF assms(1,2) d, of "[]" "[]"]
  have "skip_whitespace (command @ ws @ msg) (length command) = length command + length ws"
    unfolding skip_whitespace_def by (rule skip_while_span) (use assms in auto)
  then have "extract_message_after_command (command @ ws @ msg) command = Some msg"
    using assms by (simp add: extract_message_after_command_def Let_def)
  moreover have "from_chars_uint64 (to_decimal (2 ^ 64 + m)) = None"
    by (simp add: from_chars_uint64_def decimal_value_to_decimal)
  ultimately show ?thesis using e assms(3,5,6) by (simp add: from_chars_to_decimal)
qed

text \<open>Client 42 sends a message.\<close>

theorem command_line_roundtrip_witness:
  "extract_number_after_command ''send to server 42  hello world'' ''send to server'' False = Some 42 \<and>
   extract_message_after_number ''send to server 42  hello world'' ''send to server'' = Some ''hello world'' \<and>
   extract_number_after_command ''send to server 42  hello world'' ''send to server'' True = None"
proof -
  have "to_decimal (unat (42 :: uint64)) = ''42''"
    by (simp add: to_decimal.simps [of 42] to_decimal.simps [of 4] char_of_eq_iff)
  then have d: "to_decimal (unat (42 :: uint64)) = ''42''" .
  show ?thesis
    using command_line_roundtrip [of "'' ''" "''  ''" "''hello world''" "''send to server''" 42, unfolded d]
    by (simp add: is_whitespace_def)
qed


section \<open>Correctness of sessions\<close>

text \<open>
  What an observer of the calls tracks: whether the server was started, the client numbers used so far and the clients that are alive.
\<close>

type_synonym app_view = "bool \<times> uint64 set \<times> uint64 set"

fun view_next :: "app_view \<Rightarrow> app_action \<Rightarrow> app_view" where
  "view_next (up, used, alive) (Start_server tr) = (True, used, alive)"
| "view_next (up, used, alive) (Create_client i) = (up, insert i used, insert i alive)"
| "view_next (up, used, alive) (Remove_client i) = (up, used, alive - {i})"
| "view_next v a = v"

fun view_legal :: "app_view \<Rightarrow> app_action \<Rightarrow> bool" where
  "view_legal (up, used, alive) (Print m) = True"
| "view_legal (up, used, alive) (Start_server tr) = (\<not> up \<and> tr \<noteq> Tr_unknown)"
| "view_legal (up, used, alive) (Create_client i) = (up \<and> i \<notin> used)"
| "view_legal (up, used, alive) (Remove_client i) = (up \<and> i \<in> alive)"
| "view_legal (up, used, alive) (Client_send i m) = (up \<and> i \<in> alive \<and> m \<noteq> [])"
| "view_legal (up, used, alive) (Server_send i m) = (up \<and> m \<noteq> [])"
| "view_legal (up, used, alive) (Server_send_all m) = (up \<and> m \<noteq> [])"

fun session_ok :: "app_view \<Rightarrow> app_action list \<Rightarrow> bool" where
  "session_ok v [] = True"
| "session_ok v (a # as) = (view_legal v a \<and> session_ok (view_next v a) as)"

lemma session_ok_append: "session_ok v (as @ bs) \<longleftrightarrow> session_ok v as \<and> session_ok (foldl view_next v as) bs"
  by (induction as arbitrary: v) simp_all

definition app_view_of :: "app_state \<Rightarrow> app_view \<Rightarrow> bool" where
  "app_view_of s v \<longleftrightarrow>
     (case v of (up, used, alive) \<Rightarrow>
        alive = ap_clients s \<and> (\<forall>i \<in> used. i < ap_next_client_id s) \<and> (up \<longleftrightarrow> ap_transport s \<noteq> Tr_unknown))"

definition turn_ok :: "app_state \<Rightarrow> app_view \<Rightarrow> app_state \<times> app_action list \<Rightarrow> bool" where
  "turn_ok s v r \<longleftrightarrow>
     session_ok v (snd r) \<and> app_view_of (fst r) (foldl view_next v (snd r)) \<and>
     (ap_next_client_id (fst r) = ap_next_client_id s \<or> ap_next_client_id (fst r) = ap_next_client_id s + 1)"

lemma extract_message_nonempty:
  "extract_message_after_number line command = Some m \<Longrightarrow> m \<noteq> []"
  "extract_message_after_command line command = Some m \<Longrightarrow> m \<noteq> []"
proof -
  have "skip_while p line pos \<le> length line" if "pos \<le> length line" for p pos
    using that
  proof (induction p line pos rule: skip_while.induct)
    case (1 p line pos)
    then show ?case by (subst skip_while.simps) auto
  qed
  then have ws: "pos \<le> length line \<Longrightarrow> skip_whitespace line pos \<le> length line"
    "pos \<le> length line \<Longrightarrow> skip_digits line pos \<le> length line" for pos
    by (simp_all add: skip_whitespace_def skip_digits_def)
  have "length command \<le> length line \<Longrightarrow>
      skip_whitespace line (skip_digits line (skip_whitespace line (length command))) \<le> length line"
    by (simp add: ws)
  then show "extract_message_after_number line command = Some m \<Longrightarrow> m \<noteq> []"
    by (auto simp: extract_message_after_number_def Let_def split: if_splits)
  show "extract_message_after_command line command = Some m \<Longrightarrow> m \<noteq> []"
    using ws(1) [of "length command"] by (auto simp: extract_message_after_command_def Let_def split: if_splits)
qed

lemma app_call_ok:
  assumes "app_view_of s v" "view_legal v a" "view_next v a = v"
  shows "turn_ok s v (app_call a t s)"
  using assms by (cases v) (auto simp: turn_ok_def app_call_def app_fail_def app_view_of_def split: option.split)

lemma print_ok: "app_view_of s v \<Longrightarrow> turn_ok s v (s, [Print m])"
  by (cases v) (simp add: turn_ok_def)

lemma add_client_ok:
  assumes "app_view_of s v" "ap_transport s \<noteq> Tr_unknown" "ap_next_client_id s \<noteq> - 1"
  shows "turn_ok s v (add_client t s)"
proof -
  obtain up used alive where v: "v = (up, used, alive)" by (cases v)
  have "ap_next_client_id s + 1 \<noteq> 0" using assms(3) eq_neg_iff_add_eq_0 by blast
  then have lt: "ap_next_client_id s < ap_next_client_id s + 1" 
    using unatSuc [of "ap_next_client_id s"] by (simp add: word_less_nat_alt add.commute)
  then have "\<forall>i \<in> used. i < ap_next_client_id s + 1" "ap_next_client_id s \<notin> used"
    using assms(1) v by (auto simp: app_view_of_def intro: less_trans)
  then show ?thesis using assms lt by (auto simp: turn_ok_def add_client_def Let_def app_view_of_def v split: option.split)
qed

lemma remove_client_ok:
  assumes "app_view_of s v" "ap_transport s \<noteq> Tr_unknown"
  shows "turn_ok s v (remove_client line s)"
  using assms by (cases v) (auto simp: turn_ok_def remove_client_def app_view_of_def split: option.split)

lemma run_command_ok:
  assumes v: "app_view_of s v" and up: "ap_transport s \<noteq> Tr_unknown" and nxt: "ap_next_client_id s \<noteq> - 1"
  shows "turn_ok s v (run_command env line t s)"
proof -
  have send: "m \<noteq> [] \<Longrightarrow> turn_ok s v (app_call (Server_send i m) t s)" "m \<noteq> [] \<Longrightarrow> turn_ok s v (app_call (Server_send_all m) t s)"
    "m \<noteq> [] \<Longrightarrow> i \<in> ap_clients s \<Longrightarrow> turn_ok s v (app_call (Client_send i m) t s)" for i m
    by (rule app_call_ok [OF v]; use v up in \<open>cases v; simp add: app_view_of_def\<close>)+
  note ok = print_ok [OF v] send extract_message_nonempty
  have "turn_ok s v (send_to_server line t s)"
    using ok by (simp add: send_to_server_def extract_message_to_send_from_client_def split: option.split)
  moreover have "turn_ok s v (send_to_client line t s)"
    using ok by (simp add: send_to_client_def split: option.split)
  moreover have "turn_ok s v (send_to_all_clients line t s)"
    using ok by (simp add: send_to_all_clients_def split: option.split)
  moreover have "turn_ok s v (s\<lparr>ap_result := r\<rparr>, [Print m])" for r m
    using v by (cases v) (simp add: turn_ok_def app_view_of_def)
  ultimately show ?thesis
    using add_client_ok [OF v up nxt] remove_client_ok [OF v up] print_ok [OF v]
    by (simp add: run_command_def print_help_def print_info_def split: command_type.split)
qed

lemma choose_transport_ok:
  assumes "app_view_of s v" "ap_transport s = Tr_unknown"
  shows "turn_ok s v (choose_transport env line t s)"
  using assms by (cases v) (auto simp: turn_ok_def choose_transport_def app_call_def app_fail_def app_view_of_def Let_def split: option.split)

lemma app_turn_ok:
  assumes v: "app_view_of s v" and nxt: "ap_next_client_id s \<noteq> - 1"
  shows "turn_ok s v (app_turn_step env s t)"
proof (cases "ap_result s")
  case None
  have fail: "turn_ok s v (app_fail what s)" for what using v by (cases v) (simp add: turn_ok_def app_fail_def app_view_of_def)
  have p: "turn_ok s v (s', map Print ms @ out)" if "turn_ok s v (s', out)" for s' ms out
  proof -
    have "foldl view_next v (map Print ms) = v" "session_ok v (map Print ms)" by (induction ms; cases v; simp)+
    then show ?thesis using that by (simp add: turn_ok_def session_ok_append)
  qed
  define r where "r = (case at_line t of None \<Rightarrow> app_fail ''cannot read from console'' s
    | Some line \<Rightarrow> if ap_transport s = Tr_unknown then choose_transport env (ae_trim env line) t s else run_command env (ae_trim env line) t s)"
  have "turn_ok s v r"
    using fail choose_transport_ok [OF v] run_command_ok [OF v _ nxt] by (simp add: r_def split: option.split)
  moreover define ms where "ms = (if ap_transport s = Tr_unknown then [create_choose_transport_prompt env @ newline] else []) @ [''>'']"
  moreover have "app_turn_step env s t = (fst r, map Print ms @ snd r)"
    using None by (simp add: app_turn_step_def r_def ms_def Let_def case_prod_beta split: option.split)
  ultimately show ?thesis using p [of "fst r" "snd r" ms] by simp
qed (use v in \<open>auto simp: turn_ok_def app_turn_step_def\<close>)

lemma session_run:
  "app_view_of s v \<Longrightarrow> unat (ap_next_client_id s) + length ts < 2 ^ 64 \<Longrightarrow>
   session_ok v (run_output (app_turn_step env) s ts)"
proof (induction ts arbitrary: s v)
  case (Cons t ts)
  let ?r = "app_turn_step env s t"
  have "ap_next_client_id s \<noteq> - 1" using Cons.prems(2) by (auto simp: unsigned_minus_1_eq_mask mask_eq_exp_minus_1)
  note ok = app_turn_ok [OF Cons.prems(1) this, of env t, unfolded turn_ok_def]
  have "unat (ap_next_client_id (fst ?r)) \<le> Suc (unat (ap_next_client_id s))"
    using ok by (auto simp: unat_word_ariths intro: mod_less_eq_dividend)
  then have "unat (ap_next_client_id (fst ?r)) + length ts < 2 ^ 64" using Cons.prems(2) by simp
  then show ?case using ok Cons.IH by (simp add: session_ok_append del: run.simps(2))
qed simp

lemma app_ended: "ap_result s \<noteq> None \<Longrightarrow> run (app_turn_step env) s ts = (s, [])"
  by (induction ts) (simp_all add: app_turn_step_def run.simps(2))

text \<open>
C40: Sessions of the application make sense.  The server is started once, with a known transport, and nothing is sent before.  A client is
  created with a number that no client had before; only clients that were created and not removed since are removed or
  send; and what is sent is not empty.  When \<open>run\<close> has returned, no line has an effect.
\<close>

theorem app_sessions_legal:
  assumes "length ts < 2 ^ 64"
  shows "session_ok (False, {}, {}) (run_output (app_turn_step env) app_create ts) \<and>
    (ap_result (run_state (app_turn_step env) app_create ts) \<noteq> None \<longrightarrow>
     run (app_turn_step env) app_create (ts @ ts') = run (app_turn_step env) app_create ts)"
proof
  show "session_ok (False, {}, {}) (run_output (app_turn_step env) app_create ts)"
    by (rule session_run) (use assms in \<open>simp_all add: app_view_of_def app_create_def\<close>)
  show "ap_result (run_state (app_turn_step env) app_create ts) \<noteq> None \<longrightarrow>
      run (app_turn_step env) app_create (ts @ ts') = run (app_turn_step env) app_create ts"
    using app_ended [of "run_state (app_turn_step env) app_create ts" env ts']
    by (auto simp: prod_eq_iff run_append_state run_append_output)
qed

definition example_env :: app_env where
  "example_env = \<lparr>ae_win32 = False, ae_trim = id, ae_starts_with = (\<lambda>s p. take (length p) s = p), ae_order = (\<lambda>ids. [])\<rparr>"

definition example_lines :: "string list" where
  "example_lines = [''1'', ''2'', ''add client'', ''send to server 0 hi'', ''remove client 0'', ''send to server 0 hi'', ''exit'']"

definition example_turns :: "app_turn list" where
  "example_turns = map (\<lambda>l. \<lparr>at_line = Some l, at_failure = None, at_connections = 0\<rparr>) example_lines"

definition is_print :: "app_action \<Rightarrow> bool" where
  "is_print a = (case a of Print m \<Rightarrow> True | _ \<Rightarrow> False)"

lemma example_numbers:
  "extract_client_id_to_send_from ''send to server 0 hi'' = Some 0"
  "extract_message_to_send_from_client ''send to server 0 hi'' = Some ''hi''"
  "extract_client_id_to_remove ''remove client 0'' = Some 0"
proof -
  have "from_chars_uint64 ''0'' = Some 0" by (simp add: from_chars_uint64_def decimal_value_def)
  then show "extract_client_id_to_send_from ''send to server 0 hi'' = Some 0"
    "extract_message_to_send_from_client ''send to server 0 hi'' = Some ''hi''"
    "extract_client_id_to_remove ''remove client 0'' = Some 0"
    using extract_number [of "'' ''" "''0''" "'' ''" "''hi''" s_send_to_server_command_begin]
      extract_number(1) [of "'' ''" "''0''" "[]" "[]" s_remove_client_command_begin]
    by (simp_all add: extract_client_id_to_send_from_def extract_message_to_send_from_client_def extract_client_id_to_remove_def
        is_whitespace_def is_digit_def)
qed

text \<open>A session over TCP with one client; the last message comes after the client was removed.\<close>

theorem app_sessions_legal_witness:
  "filter (\<lambda>a. \<not> is_print a) (run_output (app_turn_step example_env) app_create example_turns) =
     [Start_server Tr_tcp, Create_client 0, Client_send 0 ''hi'', Remove_client 0] \<and>
   run (app_turn_step example_env) app_create (example_turns @ [hd example_turns]) =
     run (app_turn_step example_env) app_create example_turns"
proof -
  have l: "length example_turns < 2 ^ 64" by (simp add: example_turns_def example_lines_def)
  have c: "map (parse_command example_env) example_lines =
      [Cmd_unknown, Cmd_unknown, Cmd_add_client, Cmd_send_to_server, Cmd_remove_client, Cmd_send_to_server, Cmd_exit]"
    by (simp add: example_lines_def example_env_def parse_command_def)
  have "ap_result (run_state (app_turn_step example_env) app_create example_turns) = Some 0"
    "filter (\<lambda>a. \<not> is_print a) (run_output (app_turn_step example_env) app_create example_turns) =
     [Start_server Tr_tcp, Create_client 0, Client_send 0 ''hi'', Remove_client 0]"
    using c by (simp_all add: example_turns_def example_lines_def app_turn_step_def app_create_def choose_transport_def
        parse_chosen_transport_def run_command_def add_client_def send_to_server_def remove_client_def app_call_def
        example_numbers example_env_def is_print_def)
  then show ?thesis using app_sessions_legal [OF l, of example_env "[hd example_turns]"] by simp
qed

end
