(* ===== verification/Spec2Isabelle.thy ===== *)
theory Spec2Isabelle
  imports Transfer_Message Mem_Pipe Tcp_Stream Connection_Watch Future_Chain Channel_Service Ordered_Lock Connector Tcp_Server_Env
    Tcp_Client_Env Client_Endpoint Server_Endpoint Win_Endpoint Win_Server_Env
    Win_Client_Env
    Event_Sync Thread_Pool Ownership Type_Traits Example_App
begin

text \<open>
  A verification of the asynchronous RPC library \<open>rpc-lib\<close> and of the parts of \<open>common-lib\<close> that
  it is built on.

  \<^bold>\<open>The program.\<close>  A caller invokes a method of a generated stub.  The channel numbers the
  request, puts it into a transfer message and hands it to a connection.  The connection keeps the
  outstanding requests in a map with a timer for each, sends messages through a transport over a
  pipe endpoint, receives the peer's messages, and watches for a silent peer with pings.  On the
  other side the service parses the request, calls the method and answers with a response message.
  A pipe endpoint is in-process memory, a TCP socket or a Windows named pipe.  Everything runs on a
  thread pool through promises and futures, with timers from boost.asio.

  \<^bold>\<open>The style of the model.\<close>  A component is a record of its state and one definition per
  operation.  Concurrent code is cut at its critical sections and posted callbacks: each is an event
  of a step function that returns the new state and the visible results, and a run is any list
  of events, so a theorem about runs holds for every interleaving.  Sockets, clocks, allocation,
  protocol buffers and user callbacks are events or parameters.  Exceptions are values of
  \<^typ>\<open>exn\<close>.  Two interfaces of \<open>Common_Prelude\<close> carry most proofs: \<open>event_system\<close> lifts an
  invariant from steps to runs, and \<open>completion_system\<close> turns the conservation of promises in a
  step into ``completed exactly once'' over runs.

  \<^bold>\<open>The theories.\<close>
  \<^item> \<open>Rpc_Types\<close>: \<open>consts.h\<close>, \<open>types/*\<close>, \<open>pipe-op-res.h\<close>, \<open>pipe-wait-res.h\<close>.
  \<^item> \<open>Byte_Buffer\<close>: \<open>utils/buffer.h\<close> and the views, over an explicit store of arrays.  Copies are
    independent, checked access fails exactly out of range, moves empty their source.
  \<^item> \<open>Transfer_Message\<close>: \<open>transfer-message.cpp\<close>.  Requests and responses survive the round trip,
    a valid buffer is the frame of its fields, and the accessors fail exactly on invalid buffers.
  \<^item> \<open>Timers\<close>: \<open>multiple-timer\<close> and \<open>periodic-timer\<close>.  Every wait is handled once, and a
    cancelled timer does not call back.
  \<^item> \<open>Pipe_Endpoint\<close>: the contract of \<open>ipipe-endpoint.h\<close> as locales.
  \<^item> \<open>Mem_Buffer\<close>, \<open>Mem_Pipe\<close>: \<open>memory-pipe/*\<close>.  Operations complete once, reads get what was
    written in order, no reader sleeps while a message waits, endpoints are paired one to one.
  \<^item> \<open>Tcp_Endpoint\<close>, \<open>Tcp_Stream\<close>: \<open>tcp-pipe-endpoint.cpp\<close>.  Operations complete once, and the
    receiver gets a prefix of the messages that the sender wrote however the stream is cut.
  \<^item> \<open>Connection\<close>, \<open>Connection_Watch\<close>: \<open>connection.cpp\<close>, \<open>connection-watcher.cpp\<close>,
    \<open>transport.cpp\<close>.  Every request completes once, with the response that has its number or an
    error; none is forgotten when the connection ends; a silent peer is detected, and the watcher
    gives up only after an unanswered ping.
  \<^item> \<open>Promise_Future\<close>, \<open>Future_Chain\<close>: \<open>thread/future/internal/*\<close>.  A future has one outcome for
    good, an idle pool has lost no continuation, and \<open>then\<close>, \<open>catched\<close> and \<open>finally\<close> compute
    the specified outcome under every schedule.
  \<^item> \<open>Channel_Service\<close>: \<open>channel.cpp\<close>, \<open>service.h\<close>, the controllers and \<open>closure-guard.cpp\<close>.
    A call equals a specification without frames or serialisation; results are classified
    exactly; closures run once; request numbers do not repeat within \<open>2\<^sup>6\<^sup>4\<close> calls.
  \<^item> \<open>Connector\<close>: \<open>client-connector.cpp\<close>, \<open>server-connector.cpp\<close> and the authenticator.  Every
    reported connection was authenticated, and the notifications of a server are runs of start,
    connections and stop.
  \<^item> \<open>Ordered_Lock\<close>: \<open>ordered-lock-impl.h\<close>, its compile-time checks, and the tuple sorts of
    \<open>mpl\<close> and \<open>tuple-utils\<close>.  The three sorts agree, threads do not deadlock, and a lock that
    throws is rolled back.
  \<^item> \<open>Pipe_Env\<close>: what the environments that make pipes have in common, as the locale \<open>cancellable_env\<close>: every call
    is answered once, and a call that waits when it is cancelled does not succeed.
  \<^item> \<open>Tcp_Server_Env\<close>, \<open>Tcp_Client_Env\<close>: \<open>tcp-pipe-server-env.cpp\<close>, \<open>tcp-pipe-client-env.cpp\<close>.  Every
    \<open>create_pipe\<close> and \<open>open_pipe\<close> gets one result, whatever the order of sockets, timeouts and cancellations.
  \<^item> \<open>Rpc_Endpoint\<close>, \<open>Client_Endpoint\<close>, \<open>Server_Endpoint\<close>: the endpoints of \<open>rpc-lib\<close>.  An endpoint composes connection
    and service so that a request is answered, a client reports one disconnection for each connection, and the server runs its
    connections between start and stop.
  \<^item> \<open>Op_Queue\<close>, \<open>Win_Operations\<close>, \<open>Win_Endpoint\<close>: the Windows pipe endpoint, its operations and its completion port.
    A message is read whatever its size, every operation is completed once, the end of the
    connection decides what still waits, and a read that times out has taken nothing of a message.
  \<^item> \<open>Win_Env\<close>, \<open>Win_Server_Env\<close>, \<open>Win_Client_Env\<close>: the environments of Windows pipes.  Every call gets one result, with
    a pipe exactly for a success, and no handle is leaked.
  \<^item> \<open>Event_Sync\<close>: \<open>event.cpp\<close> and \<open>spinlock.h\<close>, step by step for any number of threads.  The lock excludes, no wake-up is
    lost, and the deadlines of the waits of events and futures are computed in 64-bit arithmetic.
  \<^item> \<open>Thread_Pool\<close>: \<open>thread-pool.h\<close>, \<open>thread-pool-task.h\<close>.  Every task runs once, exceptions cost no worker, and
    \<open>stop\<close> returns when all tasks have run.
  \<^item> \<open>Ownership\<close>: \<open>function.h\<close>, \<open>value-proxy.h\<close>, \<open>unique-ptr2.h\<close> and \<open>unique-handle.h\<close>.  What is owned is
    disposed of once and not while it is owned; a function is an optional callable that can be moved.  The locale
    \<open>owner_system\<close> extends \<open>completion_system\<close> by numbered resources.
  \<^item> \<open>Type_Traits\<close>: \<open>mpl/internal/*\<close>, as functions on a datatype of C++ types.  The traits of callables are complete for
    the ways to present a signature, and the qualifier checks classify types exactly.
  \<^item> \<open>Example_App\<close>: \<open>example/rpc-example/src/app\<close>.  Command lines are parsed back to what was written, and in every session
    client numbers are fresh and only living clients are used.

  \<^bold>\<open>Bounds and fuel.\<close>  No definition uses fuel: loops are structural or have a termination proof.
  Numbers from the wire and the request counter are machine words.  Counters of timers, promises
  and operations that are only compared for equality are natural numbers.

  \<^bold>\<open>Hypotheses on code that is not part of the sources.\<close>  \<open>proto_sizes_ok\<close> and
  \<open>proto_parses_back\<close> state the documented behaviour of protocol buffers, and \<open>allocator_ok\<close> that
  an allocated array has the requested length.

  The thread pool takes the documented behaviour of \<open>io_context::run\<close> into its
  steps, and the Windows theories that of completion ports.  An object of a class that is moved keeps its value in the object moved to.

  \<^bold>\<open>Not modelled.\<close>  Of futures: \<open>wait\<close> and \<open>wait_for\<close> except for the deadline, moved promises, the lifetime of
  controllers, and continuations that change the shared value.  Of the ordered lock: deferred and
  adopted construction and moves.  Of the connectors: destruction during a handshake.  Of buffers: the constant iterators, which repeat
  the mutable ones.  The specification of a whole call, \<open>rpc_call\<close>, takes delivery by the connection as given;
  what the connection does with messages is stated in \<open>Connection\<close>, and that it answers the requests of an endpoint in
  \<open>endpoint_request_answered\<close>.  The threads of a completion port serve many endpoints;
  the model shows the steps of one.  Strands, the completion-port class of \<open>win-lib\<close> and \<open>value_locker\<close> forward
  each call to boost.asio, the Windows API or a mutex; their users are modelled with the order and exclusion they give.
  \<open>type_wrapper\<close>, \<open>type_qualifiers_cast\<close> and the check for a \<open>static_cast\<close> depend on the rules of the compiler for
  conversions.  The clients and servers of the example call the endpoints through generated stubs and print what they return.
\<close>

end
